(* ===== verification/Prelude.thy ===== *)
theory Prelude
  imports Main "HOL-Library.Word" "HOL-Library.Monad_Syntax"
begin

text \<open>
  The C primitives the model is written in, and the generic lemmas about them.

  A C expression or statement is a value of an option type: \<open>None\<close> is an aborted
  \<^verbatim>\<open>assert\<close>, a NULL or dangling pointer dereference, an access outside an array, a
  double free, or a loop that never ends.  A theorem that an operation returns \<open>Some\<close>
  therefore says that none of these happens.  Pointers to objects are of type
  \<open>addr option\<close> with \<open>None\<close> for NULL; the opaque \<^verbatim>\<open>void *\<close> keys and values of the
  client are 64-bit words, with \<open>0\<close> for NULL.
\<close>

type_synonym voidp = "64 word"
type_synonym addr = nat
type_synonym 'f fnptr = "nat \<times> 'f"

named_theorems c_eval \<open>evaluation of the C primitives\<close>

section \<open>Fixed-width unsigned integers\<close>

text \<open>
  Fields of type \<^verbatim>\<open>uint8_t\<close> and \<^verbatim>\<open>uint16_t\<close> are natural numbers; every store into one
  reduces the value to the width of the field.
\<close>

definition u8 :: "nat \<Rightarrow> nat" where
  "u8 x = x mod 2 ^ 8"

definition u16 :: "nat \<Rightarrow> nat" where
  "u16 x = x mod 2 ^ 16"

definition u16_dec :: "nat \<Rightarrow> nat \<Rightarrow> nat" where
  "u16_dec x k = u16 (x + 2 ^ 16 - k mod 2 ^ 16)"

definition s8 :: "nat \<Rightarrow> int" where
  "s8 x = (let r = u8 x in if r < 128 then int r else int r - 256)"

lemma u8_id [simp]: "x < 256 \<Longrightarrow> u8 x = x"
  by (simp add: u8_def)

lemma u16_id [simp]: "x < 65536 \<Longrightarrow> u16 x = x"
  by (simp add: u16_def)

lemma u16_dec_id [simp]: "k \<le> x \<Longrightarrow> x < 65536 \<Longrightarrow> u16_dec x k = x - k"
proof -
  assume a: "k \<le> x" "x < 65536"
  then have "x + 65536 - k = (x - k) + 65536" by simp
  moreover have "((x - k) + 65536) mod 65536 = x - k" using a by (simp only: mod_add_self2) simp
  ultimately show ?thesis using a by (simp only: u16_dec_def u16_def) simp
qed

lemma s8_small [simp]: "x < 128 \<Longrightarrow> s8 x = int x"
  by (simp add: s8_def)

section \<open>Assertions and array accesses\<close>

definition assert_c :: "bool \<Rightarrow> unit option" where
  "assert_c b = (if b then Some () else None)"

definition rd :: "'a list \<Rightarrow> nat \<Rightarrow> 'a option" where
  "rd xs i = (if i < length xs then Some (xs ! i) else None)"

definition wr :: "'a list \<Rightarrow> nat \<Rightarrow> 'a \<Rightarrow> 'a list option" where
  "wr xs i x = (if i < length xs then Some (xs[i := x]) else None)"

text \<open>
  \<open>memcpy_c dst to src from n\<close> copies \<open>n\<close> elements of \<open>src\<close> at \<open>from\<close> over
  \<open>dst\<close> at \<open>to\<close>; \<open>memmove_c\<close> is the same within one array.
\<close>

definition memcpy_c :: "'a list \<Rightarrow> nat \<Rightarrow> 'a list \<Rightarrow> nat \<Rightarrow> nat \<Rightarrow> 'a list option" where
  "memcpy_c dst to src from n =
     (if from + n \<le> length src \<and> to + n \<le> length dst
      then Some (take to dst @ take n (drop from src) @ drop (to + n) dst) else None)"

definition memmove_c :: "'a list \<Rightarrow> nat \<Rightarrow> nat \<Rightarrow> nat \<Rightarrow> 'a list option" where
  "memmove_c xs to from n = memcpy_c xs to xs from n"

lemma assert_c_True [simp, c_eval]: "b \<Longrightarrow> assert_c b = Some ()"
  by (simp add: assert_c_def)

lemma assert_c_bind [c_eval]: "Option.bind (assert_c b) f = (if b then f () else None)"
  by (simp add: assert_c_def)

lemma assert_c_Some [simp]: "(assert_c b = Some u) = b"
  by (simp add: assert_c_def)

lemma rd_Some [simp, c_eval]: "i < length xs \<Longrightarrow> rd xs i = Some (xs ! i)"
  by (simp add: rd_def)

lemma wr_Some [simp, c_eval]: "i < length xs \<Longrightarrow> wr xs i x = Some (xs[i := x])"
  by (simp add: wr_def)

lemma memcpy_c_Some [simp, c_eval]:
  "from + n \<le> length src \<Longrightarrow> to + n \<le> length dst \<Longrightarrow>
   memcpy_c dst to src from n = Some (take to dst @ take n (drop from src) @ drop (to + n) dst)"
  by (simp add: memcpy_c_def)

text \<open>The array after a \<^verbatim>\<open>memmove\<close> within its bounds.\<close>

definition moved :: "'a list \<Rightarrow> nat \<Rightarrow> nat \<Rightarrow> nat \<Rightarrow> 'a list" where
  "moved xs to from n = take to xs @ take n (drop from xs) @ drop (to + n) xs"

lemma memmove_c_Some [simp, c_eval]:
  "from + n \<le> length xs \<Longrightarrow> to + n \<le> length xs \<Longrightarrow> memmove_c xs to from n = Some (moved xs to from n)"
  by (simp add: memmove_c_def moved_def)

lemma length_moved [simp]:
  "from + n \<le> length xs \<Longrightarrow> to + n \<le> length xs \<Longrightarrow> length (moved xs to from n) = length xs"
  by (simp add: moved_def)

lemma nth_moved:
  assumes "from + n \<le> length xs" "to + n \<le> length xs" "i < length xs"
  shows "moved xs to from n ! i = (if to \<le> i \<and> i < to + n then xs ! (from + (i - to)) else xs ! i)"
proof -
  have "min (length xs - from) n = n" "min (length xs) to = to" using assms by auto
  with assms show ?thesis by (auto simp: moved_def nth_append)
qed

section \<open>Loops\<close>

text \<open>
  One iteration of a C loop is a function from the loop's variables to either the variables
  of the next iteration (\<open>Inl\<close>) or the value the loop leaves with (\<open>Inr\<close>).
\<close>

partial_function (option) loop_c :: "('s \<Rightarrow> ('s + 'r) option) \<Rightarrow> 's \<Rightarrow> 'r option" where
  "loop_c body s = Option.bind (body s) (\<lambda>x. case x of Inl s' \<Rightarrow> loop_c body s' | Inr r \<Rightarrow> Some r)"

declare loop_c.simps [code]

lemma loop_c_Inl: "body s = Some (Inl s') \<Longrightarrow> loop_c body s = loop_c body s'"
  by (simp add: loop_c.simps [of body s])

lemma loop_c_Inr: "body s = Some (Inr r) \<Longrightarrow> loop_c body s = Some r"
  by (simp add: loop_c.simps [of body s])

text \<open>
  Total correctness: an invariant, a variant that every iteration decreases, and a
  postcondition that holds when the loop is left.
\<close>

lemma loop_c_rule:
  fixes V :: "'s \<Rightarrow> nat"
  assumes inv: "I s"
    and step: "\<And>s. I s \<Longrightarrow>
      (\<exists>s'. body s = Some (Inl s') \<and> I s' \<and> V s' < V s) \<or> (\<exists>r. body s = Some (Inr r) \<and> Q r)"
  shows "\<exists>r. loop_c body s = Some r \<and> Q r"
  using inv
proof (induction "V s" arbitrary: s rule: less_induct)
  case less
  from step [OF less.prems] show ?case
  proof
    assume "\<exists>s'. body s = Some (Inl s') \<and> I s' \<and> V s' < V s"
    then obtain s' where "body s = Some (Inl s')" "I s'" "V s' < V s" by blast
    with less.hyps [of s'] show ?thesis by (simp add: loop_c_Inl)
  next
    assume "\<exists>r. body s = Some (Inr r) \<and> Q r"
    then show ?thesis by (auto simp: loop_c_Inr)
  qed
qed

text \<open>A variant in two parts, the second reset whenever the first decreases.\<close>

lemma loop_c_rule2:
  fixes V W :: "'s \<Rightarrow> nat"
  assumes inv: "I s"
    and step: "\<And>s. I s \<Longrightarrow>
      (\<exists>s'. body s = Some (Inl s') \<and> I s' \<and> (V s' < V s \<or> V s' = V s \<and> W s' < W s))
      \<or> (\<exists>r. body s = Some (Inr r) \<and> Q r)"
  shows "\<exists>r. loop_c body s = Some r \<and> Q r"
  using inv
proof (induction s rule: wf_induct_rule [OF wf_measures [of "[V, W]"]])
  case (1 s)
  from step [OF 1(2)] show ?case
  proof
    assume "\<exists>s'. body s = Some (Inl s') \<and> I s' \<and> (V s' < V s \<or> V s' = V s \<and> W s' < W s)"
    then obtain s' where "body s = Some (Inl s')" "I s'" "(s', s) \<in> measures [V, W]" by auto
    with 1(1) [of s'] show ?thesis by (simp add: loop_c_Inl)
  next
    assume "\<exists>r. body s = Some (Inr r) \<and> Q r"
    then show ?thesis by (auto simp: loop_c_Inr)
  qed
qed

text \<open>A \<^verbatim>\<open>for\<close> loop over the elements of a list, or over the indices below a bound.\<close>

fun for_c :: "('a \<Rightarrow> 's \<Rightarrow> 's option) \<Rightarrow> 'a list \<Rightarrow> 's \<Rightarrow> 's option" where
  "for_c f [] s = Some s"
| "for_c f (x # xs) s = Option.bind (f x s) (for_c f xs)"

lemma for_c_append: "for_c f (xs @ ys) s = Option.bind (for_c f xs s) (for_c f ys)"
  by (induction xs arbitrary: s) (auto split: Option.bind_splits)

text \<open>The rule for a loop over the indices below a bound.\<close>

lemma for_c_upt:
  assumes i: "I i s" "i \<le> n"
    and step: "\<And>j s. I j s \<Longrightarrow> j < n \<Longrightarrow> \<exists>s'. f j s = Some s' \<and> I (Suc j) s'"
  shows "\<exists>s'. for_c f [i..<n] s = Some s' \<and> I n s'"
  using i
proof (induction "n - i" arbitrary: i s)
  case 0
  then show ?case by simp
next
  case (Suc d)
  then have l: "i < n" by simp
  obtain s1 where "f i s = Some s1" "I (Suc i) s1" using step [OF Suc.prems(1) l] by blast
  with Suc.hyps(1) [of "Suc i" s1] Suc.hyps(2) l show ?case by (simp add: upt_conv_Cons)
qed

section \<open>Lists\<close>

lemma take_list_update_same [simp]: "take i (xs[i := x]) = take i xs"
  by simp

lemma drop_Suc_list_update_same [simp]: "drop (Suc i) (xs[i := x]) = drop (Suc i) xs"
  by simp

lemma sorted_wrt_append_iff:
  "sorted_wrt P (xs @ ys) \<longleftrightarrow>
   sorted_wrt P xs \<and> sorted_wrt P ys \<and> (\<forall>x\<in>set xs. \<forall>y\<in>set ys. P x y)"
  by (simp add: sorted_wrt_append)

lemma concat_map_upd:
  "a \<notin> set xs \<Longrightarrow> concat (map (f(a := y)) xs) = concat (map f xs)"
  by (induction xs) auto

end
