(* ===== verification/Comparator.thy ===== *)
theory Comparator
  imports Prelude
begin

text \<open>
  The comparison callback (\<^verbatim>\<open>skiparray_cmp_fun\<close>, \<open>include/skiparray.h\<close>) as an interface, and
  the abstract map it orders: an association list whose keys strictly ascend.  The operations
  of the skiparray are later shown to be the \<open>spec_\<close> functions on this list.
\<close>

type_synonym cmp_fun = "voidp \<Rightarrow> voidp \<Rightarrow> int"
type_synonym bindings = "(voidp \<times> voidp) list"

section \<open>The abstract map\<close>

definition ascending :: "cmp_fun \<Rightarrow> voidp list \<Rightarrow> bool" where
  "ascending c ks = sorted_wrt (\<lambda>x y. c x y < 0) ks"

definition spec_get :: "cmp_fun \<Rightarrow> voidp \<Rightarrow> bindings \<Rightarrow> (voidp \<times> voidp) option" where
  "spec_get c k ps = find (\<lambda>p. c k (fst p) = 0) ps"

fun spec_set :: "cmp_fun \<Rightarrow> bool \<Rightarrow> voidp \<Rightarrow> voidp \<Rightarrow> bindings \<Rightarrow> bindings" where
  "spec_set c rk k v [] = [(k, v)]"
| "spec_set c rk k v (p # ps) =
     (if c k (fst p) < 0 then (k, v) # p # ps
      else if c k (fst p) = 0 then ((if rk then k else fst p), v) # ps
      else p # spec_set c rk k v ps)"

definition spec_del :: "cmp_fun \<Rightarrow> voidp \<Rightarrow> bindings \<Rightarrow> bindings" where
  "spec_del c k ps = filter (\<lambda>p. c k (fst p) \<noteq> 0) ps"

text \<open>\<open>below c k ks\<close>: every key of \<open>ks\<close> comes before \<open>k\<close>; \<open>above\<close>: after it.\<close>

definition below :: "cmp_fun \<Rightarrow> voidp \<Rightarrow> voidp list \<Rightarrow> bool" where
  "below c k ks = (\<forall>x \<in> set ks. 0 < c k x)"

definition above :: "cmp_fun \<Rightarrow> voidp \<Rightarrow> voidp list \<Rightarrow> bool" where
  "above c k ks = (\<forall>x \<in> set ks. c k x < 0)"

lemma below_simps [simp]:
  "below c k []" "below c k (x # xs) \<longleftrightarrow> 0 < c k x \<and> below c k xs"
  "below c k (xs @ ys) \<longleftrightarrow> below c k xs \<and> below c k ys"
  by (auto simp: below_def)

lemma above_simps [simp]:
  "above c k []" "above c k (x # xs) \<longleftrightarrow> c k x < 0 \<and> above c k xs"
  "above c k (xs @ ys) \<longleftrightarrow> above c k xs \<and> above c k ys"
  by (auto simp: above_def)

lemma ascending_simps [simp]:
  "ascending c []"
  "ascending c (x # xs) \<longleftrightarrow> above c x xs \<and> ascending c xs"
  by (auto simp: ascending_def above_def)

lemma ascending_append:
  "ascending c (xs @ ys) \<longleftrightarrow>
   ascending c xs \<and> ascending c ys \<and> (\<forall>x \<in> set xs. above c x ys)"
  by (auto simp: ascending_def sorted_wrt_append above_def)

section \<open>The contract of a comparison callback\<close>

locale comparator =
  fixes cmp :: cmp_fun
  assumes cmp_swap: "cmp a b < 0 \<longleftrightarrow> 0 < cmp b a"
    and cmp_trans: "cmp a b \<le> 0 \<Longrightarrow> cmp b c \<le> 0 \<Longrightarrow> cmp a c \<le> 0"
begin

lemma cmp_refl [simp]: "cmp a a = 0"
  using cmp_swap [of a a] by linarith

lemma cmp_eq_sym: "cmp a b = 0 \<longleftrightarrow> cmp b a = 0"
  using cmp_swap [of a b] cmp_swap [of b a] by linarith

lemma cmp_le_swap: "cmp a b \<le> 0 \<longleftrightarrow> 0 \<le> cmp b a"
  using cmp_swap [of b a] by linarith

lemma lt_le_trans: "cmp a b < 0 \<Longrightarrow> cmp b c \<le> 0 \<Longrightarrow> cmp a c < 0"
  using cmp_trans [of b c a] cmp_trans [of a b c] cmp_swap [of a b] cmp_swap [of a c]
    cmp_swap [of c a] by linarith

lemma le_lt_trans: "cmp a b \<le> 0 \<Longrightarrow> cmp b c < 0 \<Longrightarrow> cmp a c < 0"
  using cmp_trans [of c a b] cmp_trans [of a b c] cmp_swap [of b c] cmp_swap [of a c]
    cmp_swap [of c a] by linarith

lemma lt_trans: "cmp a b < 0 \<Longrightarrow> cmp b c < 0 \<Longrightarrow> cmp a c < 0"
  by (rule lt_le_trans) auto

lemma gt_trans: "0 < cmp a b \<Longrightarrow> 0 < cmp b c \<Longrightarrow> 0 < cmp a c"
  using lt_trans cmp_swap by blast

lemma eq_lt: "cmp a b = 0 \<Longrightarrow> cmp b c < 0 \<Longrightarrow> cmp a c < 0"
  by (rule le_lt_trans) auto

lemma eq_gt: "cmp a b = 0 \<Longrightarrow> 0 < cmp b c \<Longrightarrow> 0 < cmp a c"
  using lt_le_trans [of c b a] cmp_swap cmp_eq_sym [of a b] by force

lemma eq_trans: "cmp a b = 0 \<Longrightarrow> cmp b c = 0 \<Longrightarrow> cmp a c = 0"
  using cmp_trans [of a b c] cmp_trans [of c b a] cmp_eq_sym cmp_le_swap by (metis order_antisym order_refl)

text \<open>Where a key sits relative to an ascending list.\<close>

lemma above_from_first: "ascending cmp (x # xs) \<Longrightarrow> cmp k x < 0 \<Longrightarrow> above cmp k (x # xs)"
  by (auto simp: above_def intro: lt_trans)

lemma above_eq: "cmp k x = 0 \<Longrightarrow> above cmp x xs \<Longrightarrow> above cmp k xs"
  by (auto simp: above_def intro: eq_lt)

lemma above_less: "cmp k x < 0 \<Longrightarrow> above cmp x xs \<Longrightarrow> above cmp k xs"
  by (auto simp: above_def intro: lt_trans)

lemma below_from_last: "ascending cmp (xs @ [x]) \<Longrightarrow> 0 < cmp k x \<Longrightarrow> below cmp k (xs @ [x])"
  by (auto simp: below_def ascending_append above_def cmp_swap intro: gt_trans)

lemma below_eq: "cmp k x = 0 \<Longrightarrow> ascending cmp (xs @ [x]) \<Longrightarrow> below cmp k xs"
  by (auto simp: below_def ascending_append above_def cmp_swap intro: eq_gt)

lemma below_greater: "0 < cmp k x \<Longrightarrow> ascending cmp (xs @ [x]) \<Longrightarrow> below cmp k xs"
  by (auto simp: below_def ascending_append above_def cmp_swap intro: gt_trans)

lemma above_all: "below cmp k xs \<Longrightarrow> above cmp k ys \<Longrightarrow> x \<in> set xs \<Longrightarrow> above cmp x ys"
  by (auto simp: below_def above_def cmp_swap [of _ k] intro: lt_trans [of _ k] cmp_swap [THEN iffD2])

lemma ascending_insert:
  assumes "ascending cmp (ks @ ls)" "below cmp k ks" "above cmp k ls"
  shows "ascending cmp (ks @ k # ls)"
  using assms by (auto simp: ascending_append below_def intro: cmp_swap [THEN iffD2])

lemma ascending_replace:
  assumes "ascending cmp (ks @ x # ls)" "cmp k x = 0"
  shows "ascending cmp (ks @ k # ls)"
proof -
  from assms(1) have "ascending cmp (ks @ [x])" by (auto simp: ascending_append)
  with assms(2) have "below cmp k ks" by (rule below_eq)
  moreover from assms have "above cmp k ls" by (auto simp: ascending_append intro: above_eq)
  moreover from assms(1) have "ascending cmp (ks @ ls)" by (auto simp: ascending_append)
  ultimately show ?thesis by (intro ascending_insert)
qed

lemma ascending_remove: "ascending cmp (ks @ ls @ ms) \<Longrightarrow> ascending cmp (ks @ ms)"
  by (auto simp: ascending_append)

lemma ascending_distinct: "ascending cmp ks \<Longrightarrow> distinct ks"
  by (induction ks) (auto simp: above_def)

text \<open>The specification functions at the position a search finds.\<close>

lemma spec_set_insert:
  "below cmp k (map fst ps) \<Longrightarrow> above cmp k (map fst qs) \<Longrightarrow>
   spec_set cmp rk k v (ps @ qs) = ps @ (k, v) # qs"
proof (induction ps)
  case Nil
  then show ?case by (cases qs) auto
qed auto

lemma spec_set_replace:
  "below cmp k (map fst ps) \<Longrightarrow> cmp k k' = 0 \<Longrightarrow>
   spec_set cmp rk k v (ps @ (k', v') # qs) = ps @ ((if rk then k else k'), v) # qs"
  by (induction ps) auto

lemma spec_get_found:
  "below cmp k (map fst ps) \<Longrightarrow> cmp k k' = 0 \<Longrightarrow> spec_get cmp k (ps @ (k', v') # qs) = Some (k', v')"
  by (induction ps) (auto simp: spec_get_def)

lemma spec_get_absent:
  "below cmp k (map fst ps) \<Longrightarrow> above cmp k (map fst qs) \<Longrightarrow> spec_get cmp k (ps @ qs) = None"
  by (auto simp: spec_get_def find_None_iff below_def above_def)

lemma spec_del_found:
  assumes "below cmp k (map fst ps)" "cmp k k' = 0" "above cmp k (map fst qs)"
  shows "spec_del cmp k (ps @ (k', v') # qs) = ps @ qs"
proof -
  have "filter (\<lambda>p. cmp k (fst p) \<noteq> 0) ps = ps" "filter (\<lambda>p. cmp k (fst p) \<noteq> 0) qs = qs"
    using assms by (auto simp: filter_id_conv below_def above_def)
  with assms(2) show ?thesis by (simp add: spec_del_def)
qed

lemma spec_del_absent:
  assumes "below cmp k (map fst ps)" "above cmp k (map fst qs)"
  shows "spec_del cmp k (ps @ qs) = ps @ qs"
proof -
  have "filter (\<lambda>p. cmp k (fst p) \<noteq> 0) ps = ps" "filter (\<lambda>p. cmp k (fst p) \<noteq> 0) qs = qs"
    using assms by (auto simp: filter_id_conv below_def above_def)
  then show ?thesis by (simp add: spec_del_def)
qed

lemma spec_get_split:
  assumes "ascending cmp (map fst ps)"
  shows "\<exists>xs ys. ps = xs @ ys \<and> below cmp k (map fst xs) \<and>
     (above cmp k (map fst ys) \<or> (\<exists>k' v' zs. ys = (k', v') # zs \<and> cmp k k' = 0 \<and> above cmp k (map fst zs)))"
  using assms
proof (induction ps)
  case Nil
  then show ?case by simp
next
  case (Cons p ps)
  obtain k' v' where p: "p = (k', v')" by (cases p)
  consider "cmp k k' < 0" | "cmp k k' = 0" | "0 < cmp k k'" by linarith
  then show ?case
  proof cases
    case 1
    with Cons.prems p have "above cmp k (map fst (p # ps))"
      by (auto intro: above_less)
    then show ?thesis by (intro exI [of _ "[]"] exI [of _ "p # ps"]) auto
  next
    case 2
    with Cons.prems p have "above cmp k (map fst ps)" by (auto intro: above_eq)
    with 2 p show ?thesis by (intro exI [of _ "[]"] exI [of _ "p # ps"]) auto
  next
    case 3
    from Cons obtain xs ys where "ps = xs @ ys" "below cmp k (map fst xs)"
      "above cmp k (map fst ys) \<or> (\<exists>k' v' zs. ys = (k', v') # zs \<and> cmp k k' = 0 \<and> above cmp k (map fst zs))"
      by auto
    with 3 p show ?thesis by (intro exI [of _ "p # xs"] exI [of _ ys]) auto
  qed
qed

lemma position_cases:
  assumes "ascending cmp (map fst ps)"
  obtains (absent) xs ys where "ps = xs @ ys" "below cmp k (map fst xs)" "above cmp k (map fst ys)"
  | (found) xs k' v' ys where "ps = xs @ (k', v') # ys" "below cmp k (map fst xs)" "cmp k k' = 0"
      "above cmp k (map fst ys)"
  using spec_get_split [OF assms, of k] by (elim exE conjE disjE) simp_all

text \<open>Map laws of the specification, for keys compared with the callback.\<close>

lemma ascending_spec_set:
  assumes "ascending cmp (map fst ps)"
  shows "ascending cmp (map fst (spec_set cmp rk k v ps))"
  using assms
proof (cases rule: position_cases [where k = k])
  case (absent xs ys)
  with assms show ?thesis by (simp add: spec_set_insert ascending_insert)
next
  case (found xs k' v' ys)
  with assms show ?thesis by (simp add: spec_set_replace) (metis ascending_replace)
qed

lemma ascending_spec_del:
  "ascending cmp (map fst ps) \<Longrightarrow> ascending cmp (map fst (spec_del cmp k ps))"
  by (induction ps) (auto simp: spec_del_def above_def)

lemma spec_get_set_same:
  assumes "ascending cmp (map fst ps)" "cmp j k = 0"
  shows "\<exists>k'. spec_get cmp j (spec_set cmp rk k v ps) = Some (k', v) \<and> cmp k k' = 0 \<and> (rk \<longrightarrow> k' = k)"
  using assms(1)
proof (cases rule: position_cases [where k = k])
  case (absent xs ys)
  from absent(2) assms(2) have "below cmp j (map fst xs)"
    by (auto simp: below_def intro: eq_gt)
  with absent assms(2) show ?thesis by (simp add: spec_set_insert spec_get_found)
next
  case (found xs k' v' ys)
  from found(2) assms(2) have "below cmp j (map fst xs)"
    by (auto simp: below_def intro: eq_gt)
  moreover from assms(2) found(3) have "cmp j k' = 0" by (rule eq_trans)
  ultimately show ?thesis using found assms(2) by (simp add: spec_set_replace spec_get_found)
qed

lemma spec_get_Cons: "spec_get cmp j (p # ps) = (if cmp j (fst p) = 0 then Some p else spec_get cmp j ps)"
  by (simp add: spec_get_def)

lemma spec_get_set_other:
  assumes "cmp j k \<noteq> 0"
  shows "spec_get cmp j (spec_set cmp rk k v ps) = spec_get cmp j ps"
proof (induction ps)
  case Nil
  from assms show ?case by (simp add: spec_get_def)
next
  case (Cons p ps)
  have "cmp k (fst p) = 0 \<Longrightarrow> cmp j (fst p) \<noteq> 0"
    using assms eq_trans [of j "fst p" k] cmp_eq_sym [of k "fst p"] by blast
  with assms Cons show ?case by (auto simp: spec_get_Cons)
qed

lemma spec_get_del:
  "spec_get cmp j (spec_del cmp k ps) = (if cmp j k = 0 then None else spec_get cmp j ps)"
proof (induction ps)
  case Nil
  then show ?case by (simp add: spec_get_def spec_del_def)
next
  case (Cons p ps)
  have *: "cmp j k = 0 \<Longrightarrow> (cmp j (fst p) = 0) = (cmp k (fst p) = 0)"
    using eq_trans [of j k "fst p"] eq_trans [of k j "fst p"] cmp_eq_sym [of j k] by blast
  have **: "cmp k (fst p) = 0 \<Longrightarrow> cmp j (fst p) = 0 \<Longrightarrow> cmp j k = 0"
    using eq_trans [of j "fst p" k] cmp_eq_sym [of k "fst p"] by blast
  have "spec_del cmp k (p # ps) = (if cmp k (fst p) = 0 then spec_del cmp k ps else p # spec_del cmp k ps)"
    by (simp add: spec_del_def)
  with Cons * ** show ?case by (auto simp: spec_get_Cons)
qed

end

section \<open>The integer comparison of the benchmarks\<close>

text \<open>
  \<^verbatim>\<open>cmp_intptr_t\<close> of \<open>src/bench.c\<close>: the pointers are compared as signed integers.
\<close>

definition cmp_intptr_t :: cmp_fun where
  "cmp_intptr_t ka kb =
     (let a = sint ka; b = sint kb in if a < b then -1 else if b < a then 1 else 0)"

interpretation intptr: comparator cmp_intptr_t
  by unfold_locales (auto simp: cmp_intptr_t_def Let_def split: if_splits)

end
