(* ===== verification/Types.thy ===== *)
theory Types
  imports Comparator
begin

text \<open>
  The data of the library: the structs of \<open>src/skiparray_internal_types.h\<close> as records, the
  result enums of \<open>include/skiparray.h\<close> as datatypes, and the memory a skiparray has obtained
  from its \<^verbatim>\<open>memory\<close> callback.  All pointers to nodes and iterators of one skiparray are
  addresses in the heaps the skiparray record carries.
\<close>

section \<open>Result codes\<close>

datatype skiparray_new_res =
  SKIPARRAY_NEW_OK | SKIPARRAY_NEW_ERROR_NULL | SKIPARRAY_NEW_ERROR_CONFIG | SKIPARRAY_NEW_ERROR_MEMORY

datatype skiparray_set_res =
  SKIPARRAY_SET_BOUND | SKIPARRAY_SET_REPLACED | SKIPARRAY_SET_ERROR_NULL
| SKIPARRAY_SET_ERROR_MEMORY | SKIPARRAY_SET_ERROR_LOCKED

datatype skiparray_forget_res =
  SKIPARRAY_FORGET_OK | SKIPARRAY_FORGET_NOT_FOUND | SKIPARRAY_FORGET_ERROR_NULL
| SKIPARRAY_FORGET_ERROR_MEMORY | SKIPARRAY_FORGET_ERROR_LOCKED

datatype skiparray_first_res = SKIPARRAY_FIRST_OK | SKIPARRAY_FIRST_EMPTY

datatype skiparray_last_res = SKIPARRAY_LAST_OK | SKIPARRAY_LAST_EMPTY

datatype skiparray_pop_res =
  SKIPARRAY_POP_OK | SKIPARRAY_POP_EMPTY | SKIPARRAY_POP_ERROR_MEMORY | SKIPARRAY_POP_ERROR_LOCKED

datatype skiparray_iter_new_res =
  SKIPARRAY_ITER_NEW_OK | SKIPARRAY_ITER_NEW_EMPTY | SKIPARRAY_ITER_NEW_ERROR_MEMORY

datatype skiparray_iter_seek_endpoint = SKIPARRAY_ITER_SEEK_FIRST | SKIPARRAY_ITER_SEEK_LAST

datatype skiparray_iter_seek_res =
  SKIPARRAY_ITER_SEEK_FOUND | SKIPARRAY_ITER_SEEK_NOT_FOUND
| SKIPARRAY_ITER_SEEK_ERROR_BEFORE_FIRST | SKIPARRAY_ITER_SEEK_ERROR_AFTER_LAST

datatype skiparray_iter_step_res = SKIPARRAY_ITER_STEP_OK | SKIPARRAY_ITER_STEP_END

datatype skiparray_builder_new_res =
  SKIPARRAY_BUILDER_NEW_OK | SKIPARRAY_BUILDER_NEW_ERROR_MISUSE | SKIPARRAY_BUILDER_NEW_ERROR_MEMORY

datatype skiparray_builder_append_res =
  SKIPARRAY_BUILDER_APPEND_OK | SKIPARRAY_BUILDER_APPEND_ERROR_MISUSE | SKIPARRAY_BUILDER_APPEND_ERROR_MEMORY

datatype skiparray_fold_type = SKIPARRAY_FOLD_LEFT | SKIPARRAY_FOLD_RIGHT

datatype skiparray_fold_res =
  SKIPARRAY_FOLD_OK | SKIPARRAY_FOLD_ERROR_MISUSE | SKIPARRAY_FOLD_ERROR_MEMORY

datatype skiparray_fold_next_res = SKIPARRAY_FOLD_NEXT_OK | SKIPARRAY_FOLD_NEXT_DONE

datatype search_res = SEARCH_FOUND | SEARCH_NOT_FOUND | SEARCH_EMPTY

section \<open>Memory\<close>

text \<open>
  \<open>live\<close> are the blocks handed out and not yet freed, \<open>clock\<close> counts the calls of the
  callback, and \<open>oom\<close> lists the calls at which the C library's \<^verbatim>\<open>malloc\<close> returns NULL.  A
  memory callback is the decision it takes on an allocation request: the address of the new
  block, or NULL.  Freeing a block that is not live is an error (\<open>None\<close>).
\<close>

record mstate =
  live :: "addr list"
  clock :: nat
  oom :: "nat list"

type_synonym mem_fun = "mstate \<Rightarrow> nat \<Rightarrow> addr option"
type_synonym level_fun = "64 word \<Rightarrow> int \<times> 64 word"

section \<open>The structs\<close>

text \<open>
  \<^verbatim>\<open>struct node\<close>.  The arrays \<^verbatim>\<open>keys\<close> and \<^verbatim>\<open>values\<close> are owned by their node alone, so they
  are lists inside the record, with the addresses of their blocks kept for the accounting of
  memory; \<^verbatim>\<open>values\<close> is NULL when the skiparray ignores values.
\<close>

record node =
  height :: nat
  offset :: nat
  count :: nat
  keys :: "voidp list"
  vals :: "voidp list option"
  back_p :: "addr option"
  fwd :: "addr option list"
  keys_blk :: addr
  vals_blk :: "addr option"

text \<open>\<^verbatim>\<open>struct skiparray_iter\<close>; its \<^verbatim>\<open>sa\<close> field is the skiparray it is an iterator of.\<close>

record skiparray_iter =
  it_prev :: "addr option"
  it_next :: "addr option"
  it_n :: addr
  it_index :: nat

text \<open>
  \<^verbatim>\<open>struct skiparray\<close>.  A callback is the address of the C function with the function;
  \<^verbatim>\<open>free\<close> (NULL-able) is called for effect only, so its address is all that is kept.  Not in
  the struct: \<open>self\<close>, the block of the struct itself, the two heaps the pointers point into, and
  \<open>mst\<close>, the state of the memory callback.
\<close>

record skiparray =
  self :: addr
  node_size :: nat
  max_level :: nat
  sa_height :: nat
  use_values :: bool
  prng_state :: "64 word"
  mem :: "mem_fun fnptr"
  cmp :: "cmp_fun fnptr"
  free_cb :: "nat option"
  level :: "level_fun fnptr"
  iter :: "addr option"
  nodes :: "addr option list"
  heap :: "addr \<Rightarrow> node option"
  iters :: "addr \<Rightarrow> skiparray_iter option"
  mst :: mstate

record skiparray_config =
  cfg_node_size :: nat
  cfg_max_level :: nat
  cfg_seed :: "64 word"
  cfg_ignore_values :: bool
  cfg_cmp :: "cmp_fun fnptr option"
  cfg_memory :: "mem_fun fnptr option"
  cfg_free :: "nat option"
  cfg_level :: "level_fun fnptr option"

definition SKIPARRAY_DEF_MAX_LEVEL :: nat where "SKIPARRAY_DEF_MAX_LEVEL = 16"
definition SKIPARRAY_MAX_MAX_LEVEL :: nat where "SKIPARRAY_MAX_MAX_LEVEL = 32"
definition SKIPARRAY_DEF_NODE_SIZE :: nat where "SKIPARRAY_DEF_NODE_SIZE = 1024"

abbreviation call_cmp :: "skiparray \<Rightarrow> voidp \<Rightarrow> voidp \<Rightarrow> int" where
  "call_cmp sa \<equiv> snd (cmp sa)"

section \<open>The pairs of a node\<close>

text \<open>The used part of the arrays: \<open>count\<close> pairs from \<open>offset\<close> on.  Absent values read as NULL.\<close>

definition node_keys :: "node \<Rightarrow> voidp list" where
  "node_keys n = take (count n) (drop (offset n) (keys n))"

definition node_vals :: "node \<Rightarrow> voidp list" where
  "node_vals n =
     (case vals n of None \<Rightarrow> replicate (count n) 0 | Some vs \<Rightarrow> take (count n) (drop (offset n) vs))"

definition node_pairs :: "node \<Rightarrow> bindings" where
  "node_pairs n = zip (node_keys n) (node_vals n)"

text \<open>What the arrays and bounds of a node satisfy at all times (\<open>ns\<close>: node size).\<close>

definition node_ok :: "nat \<Rightarrow> bool \<Rightarrow> node \<Rightarrow> bool" where
  "node_ok ns uv n \<longleftrightarrow>
     length (keys n) = ns \<and> offset n < ns \<and> offset n + count n \<le> ns \<and>
     (if uv then \<exists>vs. vals n = Some vs \<and> length vs = ns else vals n = None) \<and>
     (uv \<longleftrightarrow> vals_blk n \<noteq> None) \<and>
     1 \<le> height n \<and> length (fwd n) = height n"

lemma node_okD:
  assumes "node_ok ns uv n"
  shows "length (keys n) = ns" "offset n < ns" "offset n + count n \<le> ns" "count n \<le> ns"
    "1 \<le> height n" "length (fwd n) = height n" "vals_blk n = None \<longleftrightarrow> \<not> uv" "vals n = None \<longleftrightarrow> \<not> uv"
    "\<And>vs. vals n = Some vs \<Longrightarrow> length vs = ns"
  using assms by (auto simp: node_ok_def split: if_splits)

lemma length_node_keys [simp]: "node_ok ns uv n \<Longrightarrow> length (node_keys n) = count n"
  by (auto simp: node_keys_def node_ok_def)

lemma length_node_vals [simp]: "node_ok ns uv n \<Longrightarrow> length (node_vals n) = count n"
  by (auto simp: node_vals_def node_ok_def split: if_splits)

lemma length_node_pairs [simp]: "node_ok ns uv n \<Longrightarrow> length (node_pairs n) = count n"
  by (simp add: node_pairs_def)

lemma map_fst_node_pairs [simp]: "node_ok ns uv n \<Longrightarrow> map fst (node_pairs n) = node_keys n"
  by (simp add: node_pairs_def)

lemma nth_node_keys: "node_ok ns uv n \<Longrightarrow> i < count n \<Longrightarrow> node_keys n ! i = keys n ! (offset n + i)"
  by (simp add: node_keys_def node_ok_def)

lemma nth_node_vals:
  "node_ok ns True n \<Longrightarrow> i < count n \<Longrightarrow> vals n = Some vs \<Longrightarrow> node_vals n ! i = vs ! (offset n + i)"
  by (auto simp: node_vals_def node_ok_def)

lemma nth_node_vals_None: "vals n = None \<Longrightarrow> i < count n \<Longrightarrow> node_vals n ! i = 0"
  by (simp add: node_vals_def)

text \<open>A node that differs in its links only has the same pairs and is as well formed.\<close>

lemma node_pairs_links [simp]:
  "node_pairs (n\<lparr>fwd := f\<rparr>) = node_pairs n" "node_pairs (n\<lparr>back_p := b\<rparr>) = node_pairs n"
  "node_keys (n\<lparr>fwd := f\<rparr>) = node_keys n" "node_keys (n\<lparr>back_p := b\<rparr>) = node_keys n"
  by (simp_all add: node_pairs_def node_keys_def node_vals_def split: option.splits)

lemma node_ok_links [simp]:
  "node_ok ns uv (n\<lparr>back_p := b\<rparr>) = node_ok ns uv n"
  "length f = length (fwd n) \<Longrightarrow> node_ok ns uv (n\<lparr>fwd := f\<rparr>) = node_ok ns uv n"
  by (simp_all add: node_ok_def)

end
