(* ===== verification/Memory.thy ===== *)
theory Memory
  imports Types
begin

text \<open>
  The \<^verbatim>\<open>memory\<close> callback (\<open>include/skiparray.h\<close>), its default \<^verbatim>\<open>def_memory_fun\<close>, and the
  allocation and release of nodes (\<^verbatim>\<open>node_alloc\<close>, \<^verbatim>\<open>node_free\<close> of \<open>src/skiparray.c\<close>), with
  every block accounted for.
\<close>

section \<open>Calling the memory callback\<close>

text \<open>\<^verbatim>\<open>mem(NULL, nsize, udata)\<close> and \<^verbatim>\<open>mem(p, 0, udata)\<close> for a non-NULL \<^verbatim>\<open>p\<close>.\<close>

definition mem_alloc :: "mem_fun \<Rightarrow> nat \<Rightarrow> mstate \<Rightarrow> addr option \<times> mstate" where
  "mem_alloc f nsize m =
     (let r = f m nsize
      in (r, m\<lparr>clock := Suc (clock m), live := (case r of None \<Rightarrow> live m | Some a \<Rightarrow> a # live m)\<rparr>))"

definition mem_free :: "addr \<Rightarrow> mstate \<Rightarrow> mstate option" where
  "mem_free a m =
     (if a \<in> set (live m) then Some (m\<lparr>clock := Suc (clock m), live := removeAll a (live m)\<rparr>) else None)"

text \<open>
  The contract: an allocation never returns a block that is still in use.  It may fail at
  any call, and may hand out again what has been freed.
\<close>

locale allocator =
  fixes alloc :: mem_fun
  assumes alloc_fresh: "alloc m n = Some a \<Longrightarrow> a \<notin> set (live m)"
begin

lemma mem_alloc_SomeD:
  "mem_alloc alloc n m = (Some a, m') \<Longrightarrow> a \<notin> set (live m) \<and> live m' = a # live m"
  by (auto simp: mem_alloc_def Let_def dest: alloc_fresh)

lemma mem_alloc_NoneD: "mem_alloc alloc n m = (None, m') \<Longrightarrow> live m' = live m"
  by (auto simp: mem_alloc_def Let_def)

end

lemma mem_free_Some: "a \<in> set (live m) \<Longrightarrow> \<exists>m'. mem_free a m = Some m' \<and> live m' = removeAll a (live m)"
  by (simp add: mem_free_def)

text \<open>
  The C library's \<^verbatim>\<open>malloc\<close> returns NULL at the calls its environment has no memory for, and
  otherwise a block not in use.  \<^verbatim>\<open>def_memory_fun\<close> is the whole callback, for both of its uses.
\<close>

definition malloc :: mem_fun where
  "malloc m nsize =
     (if clock m \<in> set (oom m) then None else Some (Suc (foldr max (live m) 0)))"

definition def_memory_fun :: "addr option \<Rightarrow> nat \<Rightarrow> mstate \<Rightarrow> (addr option \<times> mstate) option" where
  "def_memory_fun p nsize m =
     (case p of
        Some a \<Rightarrow> do { assert_c (nsize = 0); m' \<leftarrow> mem_free a m; Some (None, m') }
      | None \<Rightarrow> Some (mem_alloc malloc nsize m))"

lemma def_memory_fun_calls:
  "def_memory_fun None nsize m = Some (mem_alloc malloc nsize m)"
  "def_memory_fun (Some a) 0 m = map_option (Pair None) (mem_free a m)"
  by (simp_all add: def_memory_fun_def mem_free_def)

lemma foldr_max_ge: "x \<in> set xs \<Longrightarrow> x \<le> foldr max xs (0::nat)"
  by (induction xs) auto

interpretation def_memory: allocator malloc
proof
  fix m n a assume "malloc m n = Some a"
  then have "a = Suc (foldr max (live m) 0)" by (simp add: malloc_def split: if_splits)
  then show "a \<notin> set (live m)" using foldr_max_ge [of a "live m"] by auto
qed

section \<open>Sizes of the blocks requested (LP64)\<close>

definition sizeof_ptr :: nat where "sizeof_ptr = 8"
definition sizeof_node :: nat where "sizeof_node = 32"
definition sizeof_skiparray :: nat where "sizeof_skiparray = 64"
definition sizeof_iter :: nat where "sizeof_iter = 40"

section \<open>Nodes\<close>

text \<open>
  \<^verbatim>\<open>node_alloc\<close>: three requests (two without values); on a failure the blocks obtained so far
  are given back and NULL is returned.
\<close>

definition node_alloc ::
  "nat \<Rightarrow> nat \<Rightarrow> mem_fun \<Rightarrow> bool \<Rightarrow> mstate \<Rightarrow> ((addr \<times> node) option \<times> mstate) option" where
  "node_alloc hgt nsize f uv m = do {
     assert_c (1 \<le> hgt);
     assert_c (2 \<le> nsize);
     (case mem_alloc f (sizeof_node + hgt * sizeof_ptr) m of
        (None, m1) \<Rightarrow> Some (None, m1)
      | (Some a, m1) \<Rightarrow>
        (case mem_alloc f (nsize * sizeof_ptr) m1 of
           (None, m2) \<Rightarrow> do { m3 \<leftarrow> mem_free a m2; Some (None, m3) }
         | (Some ka, m2) \<Rightarrow>
           (let n = \<lparr>height = hgt, offset = nsize div 2, count = 0, keys = replicate nsize 0,
                     vals = None, back_p = None, fwd = replicate hgt None, keys_blk = ka, vals_blk = None\<rparr>
            in if uv then
                 (case mem_alloc f (nsize * sizeof_ptr) m2 of
                    (None, m3) \<Rightarrow> do { m4 \<leftarrow> mem_free a m3; m5 \<leftarrow> mem_free ka m4; Some (None, m5) }
                  | (Some va, m3) \<Rightarrow>
                    Some (Some (a, n\<lparr>vals := Some (replicate nsize 0), vals_blk := Some va\<rparr>), m3))
               else Some (Some (a, n), m2))))
   }"

definition node_free :: "addr \<Rightarrow> node \<Rightarrow> mstate \<Rightarrow> mstate option" where
  "node_free a n m = do {
     m1 \<leftarrow> mem_free (keys_blk n) m;
     m2 \<leftarrow> (case vals_blk n of None \<Rightarrow> Some m1 | Some va \<Rightarrow> mem_free va m1);
     mem_free a m2
   }"

text \<open>The blocks of a node.\<close>

definition node_blocks :: "addr \<Rightarrow> node \<Rightarrow> addr list" where
  "node_blocks a n = a # keys_blk n # (case vals_blk n of None \<Rightarrow> [] | Some va \<Rightarrow> [va])"

text \<open>What a fresh node looks like.\<close>

definition fresh_node :: "nat \<Rightarrow> nat \<Rightarrow> bool \<Rightarrow> node \<Rightarrow> bool" where
  "fresh_node hgt nsize uv n \<longleftrightarrow>
     node_ok nsize uv n \<and> height n = hgt \<and> offset n = nsize div 2 \<and> count n = 0 \<and>
     back_p n = None \<and> fwd n = replicate hgt None"

lemma node_blocks_links [simp]:
  "node_blocks a (n\<lparr>fwd := f\<rparr>) = node_blocks a n" "node_blocks a (n\<lparr>back_p := b\<rparr>) = node_blocks a n"
  "node_blocks a (n\<lparr>count := c\<rparr>) = node_blocks a n" "node_blocks a (n\<lparr>offset := c\<rparr>) = node_blocks a n"
  "node_blocks a (n\<lparr>keys := ks\<rparr>) = node_blocks a n" "node_blocks a (n\<lparr>vals := vs\<rparr>) = node_blocks a n"
  by (simp_all add: node_blocks_def)

context allocator
begin

lemma node_alloc_total:
  assumes "1 \<le> hgt" "2 \<le> nsize"
  shows "\<exists>r m'. node_alloc hgt nsize alloc uv m = Some (r, m') \<and>
    (case r of None \<Rightarrow> set (live m') = set (live m)
     | Some (a, n) \<Rightarrow> fresh_node hgt nsize uv n \<and> distinct (node_blocks a n) \<and>
         set (node_blocks a n) \<inter> set (live m) = {} \<and>
         set (live m') = set (node_blocks a n) \<union> set (live m))"
proof -
  obtain r1 m1 where 1: "mem_alloc alloc (sizeof_node + hgt * sizeof_ptr) m = (r1, m1)" by fastforce
  show ?thesis
  proof (cases r1)
    case None
    with 1 assms show ?thesis by (auto simp: node_alloc_def dest: mem_alloc_NoneD)
  next
    case (Some a)
    with 1 have a: "a \<notin> set (live m)" "live m1 = a # live m" by (auto dest: mem_alloc_SomeD)
    obtain r2 m2 where 2: "mem_alloc alloc (nsize * sizeof_ptr) m1 = (r2, m2)" by fastforce
    show ?thesis
    proof (cases r2)
      case None
      with 2 a have "live m2 = a # live m" by (auto dest: mem_alloc_NoneD)
      with 1 2 Some None a assms show ?thesis by (auto simp: node_alloc_def mem_free_def)
    next
      case (Some ka)
      with 2 a have k: "ka \<notin> set (a # live m)" "live m2 = ka # a # live m"
        by (auto dest: mem_alloc_SomeD)
      obtain r3 m3 where 3: "mem_alloc alloc (nsize * sizeof_ptr) m2 = (r3, m3)" by fastforce
      show ?thesis
      proof (cases "uv \<and> r3 = None")
        case True
        with 3 k have "live m3 = ka # a # live m" by (auto dest: mem_alloc_NoneD)
        with 1 2 3 \<open>r1 = Some a\<close> Some True a k assms show ?thesis
          by (auto simp: node_alloc_def mem_free_def)
      next
        case False
        with 3 k have "r3 = Some va \<Longrightarrow> va \<notin> set (ka # a # live m) \<and> live m3 = va # ka # a # live m" for va
          by (auto dest: mem_alloc_SomeD)
        with 1 2 3 \<open>r1 = Some a\<close> Some False a k assms show ?thesis
          by (cases r3) (auto simp: node_alloc_def fresh_node_def node_ok_def node_blocks_def Let_def)
      qed
    qed
  qed
qed

end

lemma node_free_total:
  assumes "distinct (node_blocks a n)" "set (node_blocks a n) \<subseteq> set (live m)"
  shows "\<exists>m'. node_free a n m = Some m' \<and> set (live m') = set (live m) - set (node_blocks a n)"
  using assms
  by (auto simp: node_free_def mem_free_def node_blocks_def split: option.splits)

text \<open>What decides on refusals is left alone by every call.\<close>

lemma mem_alloc_oom: "mem_alloc f nsize m = (r, m') \<Longrightarrow> oom m' = oom m"
  by (auto simp: mem_alloc_def Let_def)

lemma mem_free_oom: "mem_free a m = Some m' \<Longrightarrow> oom m' = oom m"
  by (auto simp: mem_free_def split: if_splits)

lemma node_alloc_oom: "node_alloc hgt nsize f uv m = Some (r, m') \<Longrightarrow> oom m' = oom m"
  by (auto simp: node_alloc_def Let_def bind_eq_Some_conv split: if_splits option.splits prod.splits
      dest!: mem_alloc_oom mem_free_oom)

lemma node_free_oom: "node_free a n m = Some m' \<Longrightarrow> oom m' = oom m"
  by (auto simp: node_free_def bind_eq_Some_conv split: option.splits dest!: mem_free_oom)

text \<open>
  A callback may refuse a request in the present circumstances.  The default one does not when
  the C library always has memory.
\<close>

definition refusing :: "mem_fun \<Rightarrow> mstate \<Rightarrow> bool" where
  "refusing f m \<longleftrightarrow> (\<exists>m1 n. oom m1 = oom m \<and> f m1 n = None)"

lemma refusing_cong: "oom m' = oom m \<Longrightarrow> refusing f m' = refusing f m"
  by (simp add: refusing_def)

lemma malloc_refusing: "oom m = [] \<Longrightarrow> \<not> refusing malloc m"
  by (simp add: refusing_def malloc_def)

text \<open>A node is missing only when the callback has refused a request.\<close>

lemma mem_alloc_refused: "mem_alloc f nsize m = (None, m') \<Longrightarrow> refusing f m"
  by (auto simp: mem_alloc_def Let_def refusing_def)

lemma node_alloc_refused:
  assumes "node_alloc hgt nsize f uv m = Some (None, m')"
  shows "refusing f m"
proof -
  have r: "refusing f m" if "mem_alloc f k m1 = (None, m2)" "oom m1 = oom m" for k m1 m2
    using mem_alloc_refused [OF that(1)] refusing_cong [OF that(2)] by simp
  obtain r1 m1 where 1: "mem_alloc f (sizeof_node + hgt * sizeof_ptr) m = (r1, m1)" by fastforce
  obtain r2 m2 where 2: "mem_alloc f (nsize * sizeof_ptr) m1 = (r2, m2)" by fastforce
  obtain r3 m3 where 3: "mem_alloc f (nsize * sizeof_ptr) m2 = (r3, m3)" by fastforce
  note o = mem_alloc_oom [OF 1] mem_alloc_oom [OF 2]
  have "r1 = None \<or> r2 = None \<or> r3 = None"
    using assms 1 2 3 by (cases r1; cases r2; cases r3) (auto simp: node_alloc_def Let_def bind_eq_Some_conv split: if_splits)
  then show ?thesis using r [of _ m m1] r [of _ m1 m2] r [of _ m2 m3] 1 2 3 o by auto
qed

lemma node_alloc_refused':
  "node_alloc hgt nsize f uv m = Some (r, m') \<Longrightarrow> \<forall>a n. r \<noteq> Some (a, n) \<Longrightarrow> refusing f m"
  by (cases r) (auto intro: node_alloc_refused)

section \<open>Properties\<close>

text \<open>
  C33. Allocating a node either hands out new, pairwise distinct blocks for the node and its
  arrays and returns a well-formed empty node of the height asked for with every forward
  pointer NULL, or gives back what it had obtained; the latter only when the callback may
  refuse a request. Freeing a node gives back exactly its own blocks.
\<close>

theorem node_memory_spec:
  assumes "allocator f" "1 \<le> hgt" "2 \<le> nsize"
  shows "\<exists>r m'. node_alloc hgt nsize f uv m = Some (r, m') \<and>
    (case r of
       None \<Rightarrow> refusing f m \<and> set (live m') = set (live m)
     | Some (a, n) \<Rightarrow> fresh_node hgt nsize uv n \<and> distinct (node_blocks a n) \<and>
         set (node_blocks a n) \<inter> set (live m) = {} \<and> set (live m') = set (node_blocks a n) \<union> set (live m) \<and>
         (\<exists>m''. node_free a n m' = Some m'' \<and> set (live m'') = set (live m)))"
proof -
  obtain r m' where a: "node_alloc hgt nsize f uv m = Some (r, m')"
    and c: "case r of None \<Rightarrow> set (live m') = set (live m)
     | Some (a, n) \<Rightarrow> fresh_node hgt nsize uv n \<and> distinct (node_blocks a n) \<and>
         set (node_blocks a n) \<inter> set (live m) = {} \<and> set (live m') = set (node_blocks a n) \<union> set (live m)"
    using allocator.node_alloc_total [OF assms] by blast
  have "\<exists>m''. node_free b n m' = Some m'' \<and> set (live m'') = set (live m)" if r: "r = Some (b, n)" for b n
  proof -
    have d: "distinct (node_blocks b n)" "set (node_blocks b n) \<subseteq> set (live m')"
      "set (live m') - set (node_blocks b n) = set (live m)" using c r by auto
    from node_free_total [OF d(1,2)] d(3) show ?thesis by auto
  qed
  moreover have "refusing f m" if "r = None" using node_alloc_refused a that by blast
  ultimately show ?thesis using a c by (auto split: option.splits)
qed

theorem node_memory_spec_witness:
  "(\<exists>m'. node_alloc 2 4 malloc True \<lparr>live = [7], clock = 0, oom = [1]\<rparr> = Some (None, m') \<and> set (live m') = {7}) \<and>
   (\<exists>a n m' m''. node_alloc 2 4 malloc True \<lparr>live = [7], clock = 0, oom = []\<rparr> = Some (Some (a, n), m') \<and>
     fresh_node 2 4 True n \<and> 7 \<notin> set (node_blocks a n) \<and> set (live m') = insert 7 (set (node_blocks a n)) \<and>
     node_free a n m' = Some m'' \<and> set (live m'') = {7})"
proof
  have "\<exists>m'. node_alloc 2 4 malloc True \<lparr>live = [7], clock = 0, oom = [1]\<rparr> = Some (None, m')"
    by (simp add: node_alloc_def mem_alloc_def malloc_def mem_free_def)
  then show "\<exists>m'. node_alloc 2 4 malloc True \<lparr>live = [7], clock = 0, oom = [1]\<rparr> = Some (None, m') \<and> set (live m') = {7}"
    using node_memory_spec [OF def_memory.allocator_axioms, of 2 4 True "\<lparr>live = [7], clock = 0, oom = [1]\<rparr>"] by auto
  have "\<not> refusing malloc \<lparr>live = [7], clock = 0, oom = []\<rparr>" by (simp add: malloc_refusing)
  then show "\<exists>a n m' m''. node_alloc 2 4 malloc True \<lparr>live = [7], clock = 0, oom = []\<rparr> = Some (Some (a, n), m') \<and>
     fresh_node 2 4 True n \<and> 7 \<notin> set (node_blocks a n) \<and> set (live m') = insert 7 (set (node_blocks a n)) \<and>
     node_free a n m' = Some m'' \<and> set (live m'') = {7}"
    using node_memory_spec [OF def_memory.allocator_axioms, of 2 4 True "\<lparr>live = [7], clock = 0, oom = []\<rparr>"]
    by (auto split: option.splits)
qed

end
