(* ===== verification/Level.thy ===== *)
theory Level
  imports Types
begin

text \<open>
  The default \<^verbatim>\<open>level\<close> callback: \<^verbatim>\<open>def_level_fun\<close> of \<open>src/skiparray.c\<close> on the generator
  \<^verbatim>\<open>splitmix64_stateless\<close> of \<open>src/splitmix64_stateless.h\<close>, in 64-bit arithmetic.
\<close>

unbundle bit_operations_syntax

definition splitmix64_stateless :: "64 word \<Rightarrow> 64 word" where
  "splitmix64_stateless x =
     (let z = x + 0x9e3779b97f4a7c15;
          z = (z XOR drop_bit 30 z) * 0xbf58476d1ce4e5b9;
          z = (z XOR drop_bit 27 z) * 0x94d049bb133111eb
      in z XOR drop_bit 31 z)"

text \<open>The loop of \<^verbatim>\<open>def_level_fun\<close> from \<open>i\<close> on: the first clear bit among the lowest 16.\<close>

function level_scan :: "64 word \<Rightarrow> nat \<Rightarrow> nat" where
  "level_scan nxt i =
     (if i < SKIPARRAY_DEF_MAX_LEVEL
      then if nxt AND push_bit i 1 = 0 then i else level_scan nxt (Suc i)
      else SKIPARRAY_DEF_MAX_LEVEL)"
  by pat_completeness auto
termination
  by (relation "measure (\<lambda>(x, i). SKIPARRAY_DEF_MAX_LEVEL - i)") auto

declare level_scan.simps [simp del]

definition def_level_fun :: level_fun where
  "def_level_fun prng_state_in =
     (let nxt = splitmix64_stateless prng_state_in in (int (level_scan nxt 0), nxt))"

section \<open>The contract of a level callback\<close>

text \<open>
  Levels are not negative and fit the \<^verbatim>\<open>uint8_t\<close> the callers keep them in after adding 1; the
  header asks for less than \<^verbatim>\<open>max_level\<close>, itself an \<^verbatim>\<open>uint8_t\<close>.
\<close>

locale level_source =
  fixes lev :: level_fun
  assumes lev_nonneg: "0 \<le> fst (lev s)"
    and lev_small: "fst (lev s) < 255"
begin

lemma u8_level: "u8 (nat (fst (lev s) + 1)) = nat (fst (lev s)) + 1"
  using lev_nonneg [of s] lev_small [of s] by (simp add: nat_add_distrib)

end

lemma and_bit_iff: "(x AND push_bit i 1 = 0) = (\<not> bit x i)" if "i < 64" for x :: "64 word"
proof
  assume a: "x AND push_bit i 1 = 0"
  have "bit (x AND push_bit i 1) i = bit x i" using that by (simp add: bit_simps)
  with a show "\<not> bit x i" by simp
next
  assume "\<not> bit x i"
  then show "x AND push_bit i 1 = 0" by (intro bit_word_eqI) (auto simp: bit_simps)
qed

lemma level_scan_spec:
  "i \<le> SKIPARRAY_DEF_MAX_LEVEL \<Longrightarrow>
   i \<le> level_scan x i \<and> level_scan x i \<le> SKIPARRAY_DEF_MAX_LEVEL \<and>
   (\<forall>j. i \<le> j \<and> j < level_scan x i \<longrightarrow> bit x j) \<and>
   (level_scan x i < SKIPARRAY_DEF_MAX_LEVEL \<longrightarrow> \<not> bit x (level_scan x i))"
proof (induction x i rule: level_scan.induct)
  case (1 x i)
  show ?case
  proof (cases "i < SKIPARRAY_DEF_MAX_LEVEL \<and> x AND push_bit i 1 \<noteq> 0")
    case True
    then have b: "bit x i" using and_bit_iff [of i x] by (auto simp: SKIPARRAY_DEF_MAX_LEVEL_def)
    have s: "level_scan x i = level_scan x (Suc i)" using True by (simp add: level_scan.simps [of x i])
    have IH: "Suc i \<le> level_scan x (Suc i)" "level_scan x (Suc i) \<le> SKIPARRAY_DEF_MAX_LEVEL"
      "\<forall>j. Suc i \<le> j \<and> j < level_scan x (Suc i) \<longrightarrow> bit x j"
      "level_scan x (Suc i) < SKIPARRAY_DEF_MAX_LEVEL \<longrightarrow> \<not> bit x (level_scan x (Suc i))"
      using 1 True by auto
    have "bit x j" if "i \<le> j" "j < level_scan x (Suc i)" for j
      using IH(3) b that by (cases "i = j") auto
    with IH show ?thesis unfolding s by auto
  next
    case False
    with 1 and_bit_iff [of i x] show ?thesis
      by (auto simp: level_scan.simps [of x i] SKIPARRAY_DEF_MAX_LEVEL_def)
  qed
qed

interpretation def_level: level_source def_level_fun
proof
  fix s
  show "0 \<le> fst (def_level_fun s)" by (simp add: def_level_fun_def Let_def)
  show "fst (def_level_fun s) < 255"
    using level_scan_spec [of 0 "splitmix64_stateless s"]
    by (simp add: def_level_fun_def Let_def SKIPARRAY_DEF_MAX_LEVEL_def)
qed

text \<open>The scan as the length of a prefix.\<close>

lemma level_scan_takeWhile:
  "i \<le> SKIPARRAY_DEF_MAX_LEVEL \<Longrightarrow>
   level_scan x i = i + length (takeWhile (bit x) [i..<SKIPARRAY_DEF_MAX_LEVEL])"
proof (induction x i rule: level_scan.induct)
  case (1 x i)
  have u: "i < SKIPARRAY_DEF_MAX_LEVEL \<Longrightarrow>
      [i..<SKIPARRAY_DEF_MAX_LEVEL] = i # [Suc i..<SKIPARRAY_DEF_MAX_LEVEL]" by (rule upt_conv_Cons)
  have b: "i < SKIPARRAY_DEF_MAX_LEVEL \<Longrightarrow> x AND push_bit i 1 = 0 \<longleftrightarrow> \<not> bit x i"
    using and_bit_iff [of i x] by (simp add: SKIPARRAY_DEF_MAX_LEVEL_def)
  show ?case
  proof (cases "i < SKIPARRAY_DEF_MAX_LEVEL \<and> bit x i")
    case True
    with 1 b u show ?thesis by (simp add: level_scan.simps [of x i])
  next
    case False
    with 1(2) b u show ?thesis by (auto simp: level_scan.simps [of x i])
  qed
qed

section \<open>Properties\<close>

text \<open>
  C34. The default level callback returns the number of trailing one bits of the next state of
  the generator, capped at 16, so that each further level takes one more bit to be set; and
  the generator's state is the 64-bit splitmix64 output.
\<close>

theorem def_level_fun_spec:
  "def_level_fun s =
     (int (length (takeWhile (bit (splitmix64_stateless s)) [0..<SKIPARRAY_DEF_MAX_LEVEL])), splitmix64_stateless s)"
  using level_scan_takeWhile [of 0 "splitmix64_stateless s"] by (simp add: def_level_fun_def Let_def)

end
