(* ===== verification/Node_Ops.thy ===== *)
theory Node_Ops
  imports Types
begin

text \<open>
  The operations of \<open>src/skiparray.c\<close> that stay within the arrays of one node or move pairs
  between two: \<^verbatim>\<open>shift_pairs\<close>, \<^verbatim>\<open>move_pairs\<close>, \<^verbatim>\<open>prepare_node_for_insert\<close> with the store that
  follows it, and the removal of one pair.  Each is shown to be the expected operation on the
  list \<open>node_pairs\<close>, to stay inside the arrays, and to leave the links of the node alone.
\<close>

section \<open>Definitions\<close>

definition shift_pairs :: "node \<Rightarrow> nat \<Rightarrow> nat \<Rightarrow> nat \<Rightarrow> node option" where
  "shift_pairs n to_pos from_pos cnt = do {
     ks \<leftarrow> memmove_c (keys n) to_pos from_pos cnt;
     vs \<leftarrow> (case vals n of None \<Rightarrow> Some None
             | Some v \<Rightarrow> map_option Some (memmove_c v to_pos from_pos cnt));
     Some (n\<lparr>keys := ks, vals := vs\<rparr>)
   }"

definition move_pairs :: "node \<Rightarrow> node \<Rightarrow> nat \<Rightarrow> nat \<Rightarrow> nat \<Rightarrow> node option" where
  "move_pairs t frm to_pos from_pos cnt = do {
     ks \<leftarrow> memcpy_c (keys t) to_pos (keys frm) from_pos cnt;
     vs \<leftarrow> (case vals t of None \<Rightarrow> Some None
             | Some v \<Rightarrow> (case vals frm of None \<Rightarrow> None
                 | Some w \<Rightarrow> map_option Some (memcpy_c v to_pos w from_pos cnt)));
     Some (t\<lparr>keys := ks, vals := vs\<rparr>)
   }"

text \<open>\<^verbatim>\<open>prepare_node_for_insert\<close> opens a gap for the pair number \<open>index\<close>.\<close>

definition prepare_node_for_insert :: "skiparray \<Rightarrow> node \<Rightarrow> nat \<Rightarrow> node option" where
  "prepare_node_for_insert sa n index = do {
     assert_c (count n < node_size sa);
     (if index = 0 then
        (if 0 < count n \<and> 0 < offset n then Some (n\<lparr>offset := u16_dec (offset n) 1\<rparr>)
         else shift_pairs n (u16 (offset n + 1)) (offset n) (count n))
      else if index < count n then
        (if 0 < offset n then do {
           let to_move = u16 (index + 1);
           n1 \<leftarrow> shift_pairs n (u16_dec (offset n) 1) (offset n) to_move;
           Some (n1\<lparr>offset := u16_dec (offset n1) 1\<rparr>)
         } else do {
           assert_c (offset n = 0);
           let to_move = u16_dec (count n) index;
           shift_pairs n (u16 (index + 1)) index to_move
         })
      else do {
        assert_c (index = count n);
        assert_c (offset n + index \<le> node_size sa);
        (if offset n + index = node_size sa then do {
           assert_c (0 < offset n);
           n1 \<leftarrow> shift_pairs n 0 (offset n) (count n);
           Some (n1\<lparr>offset := 0\<rparr>)
         } else Some n)
      })
   }"

text \<open>The end of \<^verbatim>\<open>skiparray_set_with_pair\<close>: make room and store the pair.\<close>

definition bind_in_node :: "skiparray \<Rightarrow> node \<Rightarrow> nat \<Rightarrow> voidp \<Rightarrow> voidp \<Rightarrow> node option" where
  "bind_in_node sa n index key value = do {
     n1 \<leftarrow> prepare_node_for_insert sa n index;
     assert_c (offset n1 + index < node_size sa);
     ks \<leftarrow> wr (keys n1) (offset n1 + index) key;
     vs \<leftarrow> (if use_values sa
             then (case vals n1 of None \<Rightarrow> None
                   | Some v \<Rightarrow> map_option Some (wr v (offset n1 + index) value))
             else Some (vals n1));
     Some (n1\<lparr>keys := ks, vals := vs, count := u16 (count n1 + 1)\<rparr>)
   }"

text \<open>\<^verbatim>\<open>skiparray_set_with_pair\<close> on a key that is already bound at \<open>index\<close>.\<close>

definition rebind_in_node :: "skiparray \<Rightarrow> node \<Rightarrow> nat \<Rightarrow> voidp \<Rightarrow> voidp \<Rightarrow> bool \<Rightarrow> node option" where
  "rebind_in_node sa n index key value replace_key = do {
     vs \<leftarrow> (if use_values sa
             then (case vals n of None \<Rightarrow> None
                   | Some v \<Rightarrow> map_option Some (wr v (offset n + index) value))
             else Some (vals n));
     ks \<leftarrow> (if replace_key then wr (keys n) (offset n + index) key else Some (keys n));
     Some (n\<lparr>keys := ks, vals := vs\<rparr>)
   }"

text \<open>The pair at \<open>index\<close>, with NULL for the value when values are ignored.\<close>

definition pair_at :: "skiparray \<Rightarrow> node \<Rightarrow> nat \<Rightarrow> (voidp \<times> voidp) option" where
  "pair_at sa n index = do {
     k \<leftarrow> rd (keys n) (offset n + index);
     v \<leftarrow> (if use_values sa
            then (case vals n of None \<Rightarrow> None | Some vs \<Rightarrow> rd vs (offset n + index))
            else Some 0);
     Some (k, v)
   }"

text \<open>Dropping the first pair, as \<^verbatim>\<open>skiparray_forget\<close> and \<^verbatim>\<open>skiparray_pop_first\<close> do it.\<close>

definition drop_first :: "skiparray \<Rightarrow> node \<Rightarrow> node" where
  "drop_first sa n =
     (let n1 = n\<lparr>offset := u16 (offset n + 1)\<rparr>;
          n2 = (if offset n1 = node_size sa then n1\<lparr>offset := node_size sa div 2\<rparr> else n1)
      in n2\<lparr>count := u16_dec (count n2) 1\<rparr>)"

text \<open>\<^verbatim>\<open>skiparray_forget\<close>: removing the pair at \<open>index\<close> from its node.\<close>

definition erase_in_node :: "skiparray \<Rightarrow> node \<Rightarrow> nat \<Rightarrow> node option" where
  "erase_in_node sa n index =
     (if index = 0 then Some (drop_first sa n)
      else if int index = int (count n) - 1 then Some (n\<lparr>count := u16_dec (count n) 1\<rparr>)
      else do {
        let to_move = u16_dec (count n) (index + 1);
        n1 \<leftarrow> shift_pairs n (u16 (offset n + index)) (u16 (offset n + index + 1)) to_move;
        Some (n1\<lparr>count := u16_dec (count n1) 1\<rparr>)
      })"

text \<open>Moving the pairs to the front of the arrays, to make room at their end.\<close>

definition to_front :: "node \<Rightarrow> node option" where
  "to_front n =
     (if 0 < offset n then do {
        n1 \<leftarrow> shift_pairs n 0 (offset n) (count n);
        Some (n1\<lparr>offset := 0\<rparr>)
      } else Some n)"

section \<open>Slices of arrays\<close>

abbreviation slice :: "nat \<Rightarrow> nat \<Rightarrow> 'a list \<Rightarrow> 'a list" where
  "slice off cnt xs \<equiv> take cnt (drop off xs)"

lemma slice_eqI:
  assumes "off + cnt \<le> length xs" "length ys = cnt" "\<And>i. i < cnt \<Longrightarrow> xs ! (off + i) = ys ! i"
  shows "slice off cnt xs = ys"
  using assms by (intro nth_equalityI) auto

lemma length_slice [simp]: "off + cnt \<le> length xs \<Longrightarrow> length (slice off cnt xs) = cnt"
  by simp

lemma min_slice: "off + cnt \<le> (len :: nat) \<Longrightarrow> min (len - off) cnt = cnt"
  by simp

lemma nth_slice_insert:
  assumes "off + cnt \<le> length xs" "i \<le> cnt" "j < cnt + 1"
  shows "(take i (slice off cnt xs) @ x # drop i (slice off cnt xs)) ! j =
     (if j < i then xs ! (off + j) else if j = i then x else xs ! (off + j - 1))"
proof -
  have "min (length xs - off) cnt = cnt" "min cnt i = i" using assms by auto
  with assms show ?thesis by (auto simp: nth_append nth_Cons' algebra_simps)
qed

text \<open>Inserting at position \<open>i\<close> of a slice, in each way the code makes room.\<close>

lemma slice_insert_before:
  assumes "0 < off" "off + cnt \<le> length xs"
  shows "slice (off - 1) (cnt + 1) (xs[off - 1 := x]) = x # slice off cnt xs"
  using assms by (intro slice_eqI) (auto simp: nth_Cons' nth_list_update)

lemma slice_insert_shift:
  assumes "off + cnt < length xs" "i \<le> cnt"
  shows "slice off (cnt + 1) ((moved xs (off + i + 1) (off + i) (cnt - i))[off + i := x])
     = take i (slice off cnt xs) @ x # drop i (slice off cnt xs)"
proof (intro slice_eqI)
  fix j assume j: "j < cnt + 1"
  with assms show "(moved xs (off + i + 1) (off + i) (cnt - i))[off + i := x] ! (off + j)
      = (take i (slice off cnt xs) @ x # drop i (slice off cnt xs)) ! j"
    by (subst nth_slice_insert) (auto simp: nth_list_update nth_moved)
qed (use assms in auto)

lemma slice_insert_back:
  assumes "0 < off" "off + cnt \<le> length xs" "i < cnt"
  shows "slice (off - 1) (cnt + 1) ((moved xs (off - 1) off (i + 1))[off - 1 + i := x])
     = take i (slice off cnt xs) @ x # drop i (slice off cnt xs)"
proof (intro slice_eqI)
  fix j assume j: "j < cnt + 1"
  with assms show "(moved xs (off - 1) off (i + 1))[off - 1 + i := x] ! (off - 1 + j)
      = (take i (slice off cnt xs) @ x # drop i (slice off cnt xs)) ! j"
    by (subst nth_slice_insert) (auto simp: nth_list_update nth_moved)
qed (use assms in auto)

lemma slice_append_front:
  assumes "0 < off" "off + cnt \<le> length xs"
  shows "slice 0 (cnt + 1) ((moved xs 0 off cnt)[cnt := x]) = slice off cnt xs @ [x]"
  using assms
  by (intro slice_eqI) (auto simp: nth_append nth_list_update nth_moved)

lemma slice_to_front:
  assumes "off + cnt \<le> length xs"
  shows "slice 0 cnt (moved xs 0 off cnt) = slice off cnt xs"
  using assms by (intro slice_eqI) (auto simp: nth_moved)

lemma slice_append_at:
  assumes "off + cnt < length xs"
  shows "slice off (cnt + 1) (xs[off + cnt := x]) = slice off cnt xs @ [x]"
  using assms
  by (intro slice_eqI) (auto simp: nth_append nth_list_update)

lemma slice_erase:
  assumes "off + cnt \<le> length xs" "i < cnt"
  shows "slice off (cnt - 1) (moved xs (off + i) (off + i + 1) (cnt - (i + 1)))
     = take i (slice off cnt xs) @ drop (i + 1) (slice off cnt xs)"
  using assms
  by (intro slice_eqI) (auto simp: nth_append nth_moved)

lemma slice_update:
  assumes "off + cnt \<le> length xs" "i < cnt"
  shows "slice off cnt (xs[off + i := x]) = (slice off cnt xs)[i := x]"
  using assms by (intro slice_eqI) (auto simp: nth_list_update)

lemma zip_take_drop:
  "zip (slice off cnt xs) (slice off cnt ys) = slice off cnt (zip xs ys)"
  by (simp add: take_zip drop_zip)

lemma slice_concat:
  assumes "cnt + k \<le> length xs" "off + k \<le> length ys"
  shows "slice 0 (cnt + k) (take cnt xs @ slice off k ys @ drop (cnt + k) xs) = take cnt xs @ slice off k ys"
proof -
  have "min (length ys - off) k = k" using assms by simp
  with assms show ?thesis by simp
qed

lemma zip_insert:
  assumes "length ks = length vs" "i \<le> length ks"
  shows "zip (take i ks @ k # drop i ks) (take i vs @ v # drop i vs) =
     take i (zip ks vs) @ (k, v) # drop i (zip ks vs)"
  using assms by (simp add: zip_append take_zip drop_zip)

lemma zip_erase:
  assumes "length ks = length vs" "i < length ks"
  shows "zip (take i ks @ drop (i + 1) ks) (take i vs @ drop (i + 1) vs) =
     take i (zip ks vs) @ drop (i + 1) (zip ks vs)"
  using assms by (simp add: zip_append take_zip drop_zip)

lemma replicate_insert: "i \<le> n \<Longrightarrow> take i (replicate n z) @ z # drop i (replicate n z) = replicate (n + 1) z"
  by (intro nth_equalityI) (auto simp: nth_append nth_Cons')

lemma replicate_erase: "i < n \<Longrightarrow> take i (replicate n z) @ drop (i + 1) (replicate n z) = replicate (n - 1) z"
  by (intro nth_equalityI) (auto simp: nth_append)

section \<open>Correctness on the pairs of a node\<close>

text \<open>The fields the operations on pairs leave alone.\<close>

definition same_links :: "node \<Rightarrow> node \<Rightarrow> bool" where
  "same_links n n' \<longleftrightarrow> height n' = height n \<and> fwd n' = fwd n \<and> back_p n' = back_p n \<and>
     keys_blk n' = keys_blk n \<and> vals_blk n' = vals_blk n"

lemma same_links_refl [simp]: "same_links n n"
  by (simp add: same_links_def)

lemma same_links_trans: "same_links n m \<Longrightarrow> same_links m k \<Longrightarrow> same_links n k"
  by (simp add: same_links_def)

text \<open>A rearrangement \<open>f\<close> of both arrays together with a new offset.\<close>

definition rearranged :: "node \<Rightarrow> (voidp list \<Rightarrow> voidp list) \<Rightarrow> nat \<Rightarrow> node" where
  "rearranged n f off = n\<lparr>keys := f (keys n), vals := map_option f (vals n), offset := off\<rparr>"

lemma shift_pairs_Some:
  assumes "node_ok ns uv n" "from_pos + cnt \<le> ns" "to_pos + cnt \<le> ns"
  shows "shift_pairs n to_pos from_pos cnt = Some (rearranged n (\<lambda>xs. moved xs to_pos from_pos cnt) (offset n))"
  using assms
  by (cases "vals n") (auto simp: shift_pairs_def rearranged_def node_ok_def split: if_splits)

lemma rearranged_simps [simp]:
  "offset (rearranged n f off) = off" "count (rearranged n f off) = count n"
  "keys (rearranged n f off) = f (keys n)" "vals (rearranged n f off) = map_option f (vals n)"
  "(rearranged n f off)\<lparr>offset := off'\<rparr> = rearranged n f off'"
  "height (rearranged n f off) = height n" "fwd (rearranged n f off) = fwd n"
  "back_p (rearranged n f off) = back_p n" "keys_blk (rearranged n f off) = keys_blk n"
  "vals_blk (rearranged n f off) = vals_blk n"
  by (simp_all add: rearranged_def)

lemma rearranged_id: "rearranged n (\<lambda>xs. xs) off = n\<lparr>offset := off\<rparr>"
  by (simp add: rearranged_def option.map_ident)

text \<open>The pairs after a rearrangement, when its effect on a slice of an array is known.\<close>

lemma node_pairs_rearranged:
  assumes ok: "node_ok ns uv n" and len: "length (node_pairs m) = cnt"
    and m: "keys m = f (keys n)" "vals m = map_option f (vals n)" "offset m = off" "count m = cnt"
    and sl: "\<And>xs. length xs = ns \<Longrightarrow> slice off cnt (f xs) = g (slice (offset n) (count n) xs)"
    and g0: "g (replicate (count n) 0) = replicate cnt 0"
    and gz: "\<And>ks vs. length ks = count n \<Longrightarrow> length vs = count n \<Longrightarrow> zip (g ks) (g vs) = h (zip ks vs)"
  shows "node_pairs m = h (node_pairs n)"
proof -
  have "node_keys m = g (node_keys n)" using ok m sl by (simp add: node_keys_def node_ok_def)
  moreover have "node_vals m = g (node_vals n)"
    using ok m sl g0 by (auto simp: node_vals_def node_ok_def split: option.splits if_splits)
  ultimately show ?thesis using ok gz by (simp add: node_pairs_def)
qed

lemma bind_after_prepare:
  assumes ok: "node_ok (node_size sa) (use_values sa) n" and ns: "node_size sa < 65536"
    and prep: "prepare_node_for_insert sa n i = Some (rearranged n f off)"
    and i: "i \<le> count n" and off: "off + count n < node_size sa"
    and len: "\<And>xs. length xs = node_size sa \<Longrightarrow> length (f xs) = node_size sa"
    and sl: "\<And>xs x. length xs = node_size sa \<Longrightarrow> slice off (count n + 1) ((f xs)[off + i := x]) =
      take i (slice (offset n) (count n) xs) @ x # drop i (slice (offset n) (count n) xs)"
  shows "\<exists>n'. bind_in_node sa n i key value = Some n' \<and> node_ok (node_size sa) (use_values sa) n' \<and>
    node_pairs n' = take i (node_pairs n) @ (key, if use_values sa then value else 0) # drop i (node_pairs n) \<and>
    count n' = count n + 1 \<and> same_links n n'"
proof -
  define n' where "n' = (rearranged n f off)\<lparr>keys := (f (keys n))[off + i := key],
    vals := map_option (\<lambda>v. (f v)[off + i := value]) (vals n), count := count n + 1\<rparr>"
  have b: "bind_in_node sa n i key value = Some n'"
    using ok ns i off len prep
    by (cases "vals n") (auto simp: bind_in_node_def n'_def node_ok_def rearranged_def split: if_splits)
  have ok': "node_ok (node_size sa) (use_values sa) n'"
    using ok i off len by (auto simp: node_ok_def n'_def split: if_splits)
  have l: "length (node_keys n) = count n" "length (node_vals n) = count n" using ok by auto
  have k: "node_keys n' = take i (node_keys n) @ key # drop i (node_keys n)"
    using ok sl [of "keys n" key] by (simp add: node_keys_def n'_def node_ok_def)
  have v: "node_vals n' = take i (node_vals n) @ (if use_values sa then value else 0) # drop i (node_vals n)"
  proof (cases "vals n")
    case None
    then have "\<not> use_values sa" using ok by (auto simp: node_ok_def)
    with None i show ?thesis
      by (simp add: node_vals_def n'_def) (simp add: replicate_insert [of i "count n" 0, simplified, symmetric])
  next
    case (Some vs)
    then have "use_values sa" "length vs = node_size sa" using ok by (auto simp: node_ok_def split: if_splits)
    with Some sl [of vs "value"] show ?thesis by (simp add: node_vals_def n'_def)
  qed
  have "node_pairs n' = take i (node_pairs n) @ (key, if use_values sa then value else 0) # drop i (node_pairs n)"
    unfolding node_pairs_def k v by (rule zip_insert) (use l i in auto)
  with b ok' show ?thesis by (auto simp: n'_def same_links_def)
qed

text \<open>The six ways to make room.\<close>

lemma bind_in_node_correct:
  assumes ok: "node_ok (node_size sa) (use_values sa) n" and ns: "node_size sa < 65536"
    and cnt: "count n < node_size sa" and i: "i \<le> count n"
  shows "\<exists>n'. bind_in_node sa n i key value = Some n' \<and> node_ok (node_size sa) (use_values sa) n' \<and>
    node_pairs n' = take i (node_pairs n) @ (key, if use_values sa then value else 0) # drop i (node_pairs n) \<and>
    count n' = count n + 1 \<and> same_links n n'"
proof -
  have bo: "offset n < node_size sa" "offset n + count n \<le> node_size sa" using node_okD [OF ok] by auto
  consider (a) "i = 0" "0 < count n" "0 < offset n" | (b) "i = 0" "\<not> (0 < count n \<and> 0 < offset n)"
    | (c) "0 < i" "i < count n" "0 < offset n" | (d) "0 < i" "i < count n" "offset n = 0"
    | (e) "0 < i" "i = count n" "offset n + i = node_size sa" | (f) "0 < i" "i = count n" "offset n + i \<noteq> node_size sa"
    using i by fastforce
  then show ?thesis
  proof cases
    case a
    show ?thesis
      by (rule bind_after_prepare [OF ok ns, where f = "\<lambda>xs. xs" and off = "offset n - 1"])
        (use a bo ns cnt i in \<open>auto simp: prepare_node_for_insert_def rearranged_id slice_insert_before [of "offset n", simplified]\<close>)
  next
    case b
    then have off: "offset n + count n < node_size sa" using bo cnt by auto
    show ?thesis
      by (rule bind_after_prepare [OF ok ns, where f = "\<lambda>xs. moved xs (offset n + 1) (offset n) (count n)" and off = "offset n"])
        (use b off bo ns cnt i in
          \<open>auto simp: prepare_node_for_insert_def shift_pairs_Some [OF ok]
             slice_insert_shift [where i = 0, simplified]\<close>)
  next
    case c
    show ?thesis
      by (rule bind_after_prepare [OF ok ns, where f = "\<lambda>xs. moved xs (offset n - 1) (offset n) (i + 1)" and off = "offset n - 1"])
        (use c bo ns cnt in
          \<open>auto simp: prepare_node_for_insert_def shift_pairs_Some [OF ok] Let_def
             slice_insert_back [of "offset n" "count n" _ i, simplified]\<close>)
  next
    case d
    show ?thesis
      by (rule bind_after_prepare [OF ok ns, where f = "\<lambda>xs. moved xs (i + 1) i (count n - i)" and off = 0])
        (use d bo ns cnt in
          \<open>auto simp: prepare_node_for_insert_def shift_pairs_Some [OF ok] Let_def
             slice_insert_shift [of 0 "count n" _ i, simplified]\<close>)
  next
    case e
    then have "0 < offset n" using cnt by auto
    then show ?thesis
      by (intro bind_after_prepare [OF ok ns, where f = "\<lambda>xs. moved xs 0 (offset n) (count n)" and off = 0])
        (use e bo ns cnt in
          \<open>auto simp: prepare_node_for_insert_def shift_pairs_Some [OF ok]
             slice_append_front [of "offset n" "count n", simplified]\<close>)
  next
    case f
    show ?thesis
      by (rule bind_after_prepare [OF ok ns, where f = "\<lambda>xs. xs" and off = "offset n"])
        (use f bo ns cnt in
          \<open>auto simp: prepare_node_for_insert_def rearranged_id
             slice_append_at [of "offset n" "count n", simplified]\<close>)
  qed
qed

lemma pair_at_correct:
  assumes "node_ok (node_size sa) (use_values sa) n" "i < count n"
  shows "pair_at sa n i = Some (node_pairs n ! i)"
proof -
  have l: "length (node_keys n) = count n" "length (node_vals n) = count n"
    "offset n + i < length (keys n)" using assms node_okD [OF assms(1)] by auto
  show ?thesis
  proof (cases "vals n")
    case None
    then have "\<not> use_values sa" using assms(1) by (auto simp: node_ok_def)
    with None l assms show ?thesis
      by (simp add: pair_at_def node_pairs_def nth_node_keys nth_node_vals_None)
  next
    case (Some vs)
    then have uv: "use_values sa" "length vs = length (keys n)"
      using assms(1) by (auto simp: node_ok_def split: if_splits)
    then have "node_vals n ! i = vs ! (offset n + i)" using assms Some nth_node_vals by auto
    with Some l uv assms show ?thesis by (simp add: pair_at_def node_pairs_def nth_node_keys)
  qed
qed

lemma rebind_in_node_correct:
  assumes ok: "node_ok (node_size sa) (use_values sa) n" and i: "i < count n"
  shows "\<exists>n'. rebind_in_node sa n i key value rk = Some n' \<and> node_ok (node_size sa) (use_values sa) n' \<and>
    node_pairs n' = (node_pairs n)[i := (if rk then key else fst (node_pairs n ! i),
                                         if use_values sa then value else 0)] \<and>
    count n' = count n \<and> same_links n n'"
proof -
  define n' where "n' = n\<lparr>keys := (if rk then (keys n)[offset n + i := key] else keys n),
    vals := map_option (\<lambda>v. v[offset n + i := value]) (vals n)\<rparr>"
  have len: "offset n + i < length (keys n)" "offset n + count n \<le> length (keys n)"
    using node_okD [OF ok] i by auto
  have r: "rebind_in_node sa n i key value rk = Some n'"
    using ok len by (cases "vals n") (auto simp: rebind_in_node_def n'_def node_ok_def split: if_splits)
  have ok': "node_ok (node_size sa) (use_values sa) n'"
    using ok by (auto simp: node_ok_def n'_def split: if_splits)
  have k: "node_keys n' = (node_keys n)[i := (if rk then key else node_keys n ! i)]"
  proof -
    have "slice (offset n) (count n) ((keys n)[offset n + i := key]) = (node_keys n)[i := key]"
      unfolding node_keys_def using len(2) i by (rule slice_update)
    then show ?thesis by (auto simp: n'_def node_keys_def)
  qed
  have v: "node_vals n' = (node_vals n)[i := (if use_values sa then value else 0)]"
  proof (cases "vals n")
    case None
    then have "\<not> use_values sa" using ok by (auto simp: node_ok_def)
    with None show ?thesis
      using i by (simp add: node_vals_def n'_def list_update_same_conv [THEN iffD2])
  next
    case (Some vs)
    then have uv: "use_values sa" "length vs = length (keys n)"
      using ok by (auto simp: node_ok_def split: if_splits)
    have "slice (offset n) (count n) (vs[offset n + i := value]) = (slice (offset n) (count n) vs)[i := value]"
      using len(2) i uv by (intro slice_update) auto
    with Some uv show ?thesis by (simp add: node_vals_def n'_def)
  qed
  have "length (node_keys n) = count n" "length (node_vals n) = count n" using ok by auto
  then have "node_pairs n' = (node_pairs n)[i := (if rk then key else fst (node_pairs n ! i),
      if use_values sa then value else 0)]"
    using i by (auto simp: node_pairs_def k v zip_update)
  with r ok' show ?thesis by (simp add: n'_def same_links_def)
qed

lemma drop_first_correct:
  assumes ok: "node_ok (node_size sa) (use_values sa) n" and ns: "node_size sa < 65536" "2 \<le> node_size sa"
    and cnt: "0 < count n"
  shows "node_ok (node_size sa) (use_values sa) (drop_first sa n) \<and>
    node_pairs (drop_first sa n) = drop 1 (node_pairs n) \<and>
    count (drop_first sa n) = count n - 1 \<and> same_links n (drop_first sa n)"
proof -
  have b: "offset n < node_size sa" "offset n + count n \<le> node_size sa" using node_okD [OF ok] by auto
  have c: "count n < 65536" using b ns by simp
  define off where "off = (if offset n + 1 = node_size sa then node_size sa div 2 else offset n + 1)"
  have d: "drop_first sa n = n\<lparr>offset := off, count := count n - 1\<rparr>"
    using b ns c cnt by (simp add: drop_first_def off_def Let_def)
  have ok': "node_ok (node_size sa) (use_values sa) (drop_first sa n)"
    using ok ns cnt b unfolding d off_def by (auto simp: node_ok_def split: if_splits)
  have s: "slice off (count n - 1) xs = drop 1 (slice (offset n) (count n) xs)"
    if "length xs = node_size sa" for xs :: "voidp list"
    using b cnt that
    by (cases "offset n + 1 = node_size sa") (auto simp: off_def drop_take)
  have "node_pairs (drop_first sa n) = drop 1 (node_pairs n)"
  proof -
    have "node_keys (drop_first sa n) = drop 1 (node_keys n)"
      using s ok by (simp add: node_keys_def d node_ok_def)
    moreover have "node_vals (drop_first sa n) = drop 1 (node_vals n)"
      using s ok by (auto simp: node_vals_def d node_ok_def split: option.splits if_splits)
    ultimately show ?thesis by (simp add: node_pairs_def drop_zip)
  qed
  with ok' show ?thesis by (simp add: d same_links_def)
qed

lemma erase_in_node_correct:
  assumes ok: "node_ok (node_size sa) (use_values sa) n" and ns: "node_size sa < 65536" "2 \<le> node_size sa"
    and i: "i < count n"
  shows "\<exists>n'. erase_in_node sa n i = Some n' \<and> node_ok (node_size sa) (use_values sa) n' \<and>
    node_pairs n' = take i (node_pairs n) @ drop (i + 1) (node_pairs n) \<and>
    count n' = count n - 1 \<and> same_links n n'"
proof -
  have b: "offset n < node_size sa" "offset n + count n \<le> node_size sa" "count n < 65536"
    using node_okD [OF ok] ns by auto
  have l: "length (node_keys n) = count n" "length (node_vals n) = count n" "length (node_pairs n) = count n"
    using ok by auto
  consider (first) "i = 0" | (last) "0 < i" "i + 1 = count n" | (middle) "0 < i" "i + 1 < count n"
    using i by linarith
  then show ?thesis
  proof cases
    case first
    with drop_first_correct [OF ok ns] i show ?thesis by (auto simp: erase_in_node_def)
  next
    case last
    have "count n - 1 = i" using last by simp
    then have "node_pairs (n\<lparr>count := count n - 1\<rparr>) = take i (node_pairs n)"
      using last by (auto simp: node_pairs_def node_keys_def node_vals_def take_zip min_def split: option.splits)
    moreover have "node_ok (node_size sa) (use_values sa) (n\<lparr>count := count n - 1\<rparr>)"
      using ok by (auto simp: node_ok_def)
    ultimately show ?thesis using last b l by (auto simp: erase_in_node_def same_links_def)
  next
    case middle
    define f where "f = (\<lambda>xs :: voidp list. moved xs (offset n + i) (offset n + i + 1) (count n - (i + 1)))"
    define n' where "n' = (rearranged n f (offset n))\<lparr>count := count n - 1\<rparr>"
    have e: "erase_in_node sa n i = Some n'"
      using middle b ns shift_pairs_Some [OF ok, of "offset n + i + 1" "count n - (i + 1)" "offset n + i"]
      by (simp add: erase_in_node_def Let_def n'_def f_def)
    have ok': "node_ok (node_size sa) (use_values sa) n'"
      using ok b middle by (auto simp: node_ok_def n'_def f_def split: if_splits)
    have "node_pairs n' = take i (node_pairs n) @ drop (i + 1) (node_pairs n)"
    proof (rule node_pairs_rearranged [OF ok, where f = f and off = "offset n" and cnt = "count n - 1"
          and g = "\<lambda>xs. take i xs @ drop (i + 1) xs"])
      show "slice (offset n) (count n - 1) (f xs) =
          take i (slice (offset n) (count n) xs) @ drop (i + 1) (slice (offset n) (count n) xs)"
        if "length xs = node_size sa" for xs
        unfolding f_def using b i that by (intro slice_erase) auto
      show "take i (replicate (count n) 0) @ drop (i + 1) (replicate (count n) 0) = replicate (count n - 1) (0 :: voidp)"
        using i by (rule replicate_erase)
    qed (use ok' i in \<open>auto simp: n'_def take_zip drop_zip\<close>)
    with e ok' show ?thesis by (auto simp: n'_def same_links_def)
  qed
qed

lemma to_front_correct:
  assumes ok: "node_ok ns uv n"
  shows "\<exists>n'. to_front n = Some n' \<and> node_ok ns uv n' \<and> offset n' = 0 \<and> node_pairs n' = node_pairs n \<and>
    count n' = count n \<and> same_links n n'"
proof (cases "0 < offset n")
  case False
  with ok show ?thesis by (simp add: to_front_def)
next
  case True
  have b: "offset n < ns" "offset n + count n \<le> ns" using node_okD [OF ok] by auto
  define f where "f = (\<lambda>xs :: voidp list. moved xs 0 (offset n) (count n))"
  have t: "to_front n = Some (rearranged n f 0)"
    using True b shift_pairs_Some [OF ok, of "offset n" "count n" 0] by (simp add: to_front_def f_def)
  have ok': "node_ok ns uv (rearranged n f 0)"
    using ok b by (auto simp: node_ok_def f_def split: if_splits)
  have "node_pairs (rearranged n f 0) = node_pairs n"
    by (rule node_pairs_rearranged [OF ok, where f = f and off = 0 and cnt = "count n" and g = "\<lambda>xs. xs"])
      (use ok' b in \<open>auto simp: f_def slice_to_front [simplified]\<close>)
  with t ok' show ?thesis by (auto simp: same_links_def)
qed

text \<open>Appending the first \<open>k\<close> pairs of \<open>m\<close> to a node whose pairs are at the front.\<close>

lemma move_pairs_append:
  assumes ok: "node_ok ns uv n" "node_ok ns uv m" and "offset n = 0" "k \<le> count m" "count n + k \<le> ns"
  shows "\<exists>n'. move_pairs n m (count n) (offset m) k = Some n' \<and> count n' = count n \<and> offset n' = 0 \<and>
    same_links n n' \<and> node_ok ns uv (n'\<lparr>count := count n + k\<rparr>) \<and>
    node_pairs (n'\<lparr>count := count n + k\<rparr>) = node_pairs n @ take k (node_pairs m)"
proof -
  have b: "offset m + k \<le> ns" using node_okD [OF ok(2)] assms(4) by auto
  define f where "f = (\<lambda>xs ys :: voidp list. take (count n) xs @ slice (offset m) k ys @ drop (count n + k) xs)"
  define n' where "n' = n\<lparr>keys := f (keys n) (keys m), vals := map_option (\<lambda>v. f v (the (vals m))) (vals n)\<rparr>"
  have mv: "move_pairs n m (count n) (offset m) k = Some n'"
    using ok b assms(5)
    by (cases "vals n"; cases "vals m") (auto simp: move_pairs_def n'_def f_def node_ok_def split: if_splits)
  have lf: "length (f xs ys) = ns" if "length xs = ns" "length ys = ns" for xs ys
    using that b assms(5) by (simp add: f_def)
  have sf: "slice 0 (count n + k) (f xs ys) = take (count n) xs @ slice (offset m) k ys"
    if "length xs = ns" "length ys = ns" for xs ys
    unfolding f_def using that b assms(5) by (intro slice_concat) auto
  have ok': "node_ok ns uv (n'\<lparr>count := count n + k\<rparr>)"
    using ok lf assms by (auto simp: node_ok_def n'_def split: if_splits)
  let ?n = "n'\<lparr>count := count n + k\<rparr>"
  have "node_keys ?n = node_keys n @ take k (node_keys m)"
    using sf [of "keys n" "keys m"] ok assms by (simp add: node_keys_def n'_def node_ok_def min_def)
  moreover have "node_vals ?n = node_vals n @ take k (node_vals m)"
    using sf ok assms
    by (auto simp: node_vals_def n'_def node_ok_def min_def replicate_add split: if_splits)
  ultimately have "node_pairs ?n = node_pairs n @ take k (node_pairs m)"
    using ok by (simp add: node_pairs_def take_zip)
  with mv ok' assms(3) show ?thesis by (simp add: n'_def same_links_def)
qed

section \<open>Properties\<close>

text \<open>
  C31. Storing and removing pairs within the arrays of one node, for any room before and after
  them: the pair ends up at its index in front of those that follow, a replaced pair in place,
  an erased pair is gone; the arrays are never exceeded and the links stay.
\<close>

theorem node_store_spec:
  assumes "node_ok (node_size sa) (use_values sa) n" "2 \<le> node_size sa" "node_size sa < 65536"
  shows "(count n < node_size sa \<and> i \<le> count n \<longrightarrow> (\<exists>n'. bind_in_node sa n i key value = Some n' \<and>
      node_ok (node_size sa) (use_values sa) n' \<and> same_links n n' \<and> count n' = count n + 1 \<and>
      node_pairs n' = take i (node_pairs n) @ (key, if use_values sa then value else 0) # drop i (node_pairs n))) \<and>
    (i < count n \<longrightarrow> (\<exists>n'. rebind_in_node sa n i key value rk = Some n' \<and>
      node_ok (node_size sa) (use_values sa) n' \<and> same_links n n' \<and> count n' = count n \<and>
      node_pairs n' = (node_pairs n)[i := (if rk then key else fst (node_pairs n ! i), if use_values sa then value else 0)])) \<and>
    (i < count n \<longrightarrow> (\<exists>n'. erase_in_node sa n i = Some n' \<and>
      node_ok (node_size sa) (use_values sa) n' \<and> same_links n n' \<and> count n' = count n - 1 \<and>
      node_pairs n' = take i (node_pairs n) @ drop (i + 1) (node_pairs n)))"
  using bind_in_node_correct [OF assms(1,3)] rebind_in_node_correct [OF assms(1)]
    erase_in_node_correct [OF assms(1,3,2)] by metis

theorem node_store_spec_witness:
  "\<exists>sa n. node_ok (node_size sa) (use_values sa) n \<and>
    (\<exists>n'. bind_in_node sa n 1 5 6 = Some n' \<and>
      node_ok (node_size sa) (use_values sa) n' \<and> same_links n n' \<and> count n' = count n + 1 \<and>
      node_pairs n' = take 1 (node_pairs n) @ (5, if use_values sa then 6 else 0) # drop 1 (node_pairs n)) \<and>
    (\<exists>n'. erase_in_node sa n 0 = Some n' \<and>
      node_ok (node_size sa) (use_values sa) n' \<and> same_links n n' \<and> count n' = count n - 1 \<and>
      node_pairs n' = take 0 (node_pairs n) @ drop (0 + 1) (node_pairs n))"
proof -
  obtain sa :: skiparray where sa: "node_size sa = 3" "use_values sa"
    by (rule that [of "undefined\<lparr>node_size := 3, use_values := True\<rparr>"]) simp_all
  let ?n = "\<lparr>height = 1, offset = 0, count = 2, keys = [1, 9, 0], vals = Some [10, 90, 0], back_p = None,
    fwd = [None], keys_blk = 3, vals_blk = Some 4\<rparr>"
  have ok: "node_ok (node_size sa) (use_values sa) ?n" "2 \<le> node_size sa" "node_size sa < 65536"
    by (simp_all add: sa node_ok_def)
  have c: "count ?n < node_size sa" "1 \<le> count ?n" "0 < count ?n" by (simp_all add: sa)
  show ?thesis
    using node_store_spec [OF ok, of 1 5 6] node_store_spec [OF ok, of 0] c ok(1) by blast
qed

end
