(* ===== verification/Bsearch.thy ===== *)
theory Bsearch
  imports Types
begin

text \<open>
  \<^verbatim>\<open>skiparray_bsearch\<close>: binary search in an ascending array of keys, for an exact match or for
  the index at which the key would be inserted.
\<close>

text \<open>The \<^verbatim>\<open>while (low < high)\<close> loop; \<open>res\<close> is the value of \<^verbatim>\<open>*index\<close> with the result.\<close>

function bsearch_loop :: "cmp_fun \<Rightarrow> voidp \<Rightarrow> voidp list \<Rightarrow> nat \<Rightarrow> nat \<Rightarrow> (bool \<times> nat) option" where
  "bsearch_loop c key ks low high =
     (if low < high then
        let cur = (low + high) div 2
        in case rd ks cur of
             None \<Rightarrow> None
           | Some x \<Rightarrow>
             let res = c key x
             in if res < 0 then bsearch_loop c key ks low cur
                else if 0 < res then bsearch_loop c key ks (cur + 1) high
                else Some (True, u16 cur)
      else Some (False, u16 low))"
  by pat_completeness auto
termination
  by (relation "measure (\<lambda>(c, key, ks, low, high). high - low)") auto

declare bsearch_loop.simps [simp del]

definition skiparray_bsearch :: "voidp \<Rightarrow> voidp list \<Rightarrow> nat \<Rightarrow> cmp_fun \<Rightarrow> (bool \<times> nat) option" where
  "skiparray_bsearch key ks key_count c = do {
     assert_c (0 < key_count);
     bsearch_loop c key ks 0 key_count
   }"

text \<open>\<^verbatim>\<open>search_within_node\<close>: the search starts at \<^verbatim>\<open>&n->keys[n->offset]\<close>.\<close>

definition search_within_node :: "skiparray \<Rightarrow> voidp \<Rightarrow> node \<Rightarrow> (bool \<times> nat) option" where
  "search_within_node sa key n =
     skiparray_bsearch key (drop (offset n) (keys n)) (count n) (call_cmp sa)"

context comparator
begin

lemma bsearch_loop_correct:
  assumes "low \<le> high" "high \<le> length ks" "length ks < 65536" "ascending cmp ks"
    and "below cmp key (take low ks)" "above cmp key (drop high ks)"
  shows "\<exists>f i. bsearch_loop cmp key ks low high = Some (f, i) \<and>
    (if f then i < high \<and> cmp key (ks ! i) = 0
     else i \<le> high \<and> below cmp key (take i ks) \<and> above cmp key (drop i ks))"
  using assms
proof (induction "high - low" arbitrary: low high rule: less_induct)
  case less
  show ?case
  proof (cases "low < high")
    case False
    with less.prems show ?thesis
      by (intro exI [of _ False] exI [of _ low]) (simp add: bsearch_loop.simps [of cmp key ks high high])
  next
    case True
    define cur where "cur = (low + high) div 2"
    from True have cur: "low \<le> cur" "cur < high" by (auto simp: cur_def)
    with less.prems have len: "cur < length ks" by simp
    have ks: "ks = take cur ks @ ks ! cur # drop (Suc cur) ks"
      using len by (simp add: id_take_nth_drop [symmetric])
    have asc: "ascending cmp (take cur ks @ ks ! cur # drop (Suc cur) ks)"
      using less.prems(4) ks by simp
    consider (lt) "cmp key (ks ! cur) < 0" | (eq) "cmp key (ks ! cur) = 0" | (gt) "0 < cmp key (ks ! cur)"
      by linarith
    then show ?thesis
    proof cases
      case lt
      with asc have "above cmp key (ks ! cur # drop (Suc cur) ks)"
        by (intro above_from_first) (auto simp: ascending_append)
      then have "above cmp key (drop cur ks)" using len by (simp add: Cons_nth_drop_Suc)
      then have "\<exists>f i. bsearch_loop cmp key ks low cur = Some (f, i) \<and>
          (if f then i < cur \<and> cmp key (ks ! i) = 0
           else i \<le> cur \<and> below cmp key (take i ks) \<and> above cmp key (drop i ks))"
        using less.prems cur by (intro less.hyps) auto
      then obtain f i where fi: "bsearch_loop cmp key ks low cur = Some (f, i)"
          "if f then i < cur \<and> cmp key (ks ! i) = 0
           else i \<le> cur \<and> below cmp key (take i ks) \<and> above cmp key (drop i ks)" by blast
      have "bsearch_loop cmp key ks low high = bsearch_loop cmp key ks low cur"
        using lt True len by (simp add: bsearch_loop.simps [of cmp key ks low high] cur_def [symmetric] Let_def)
      with fi cur show ?thesis by (intro exI [of _ f] exI [of _ i]) (cases f; simp)
    next
      case eq
      with True len cur less.prems show ?thesis
        by (auto simp: bsearch_loop.simps [of cmp key ks low high] cur_def [symmetric] Let_def)
    next
      case gt
      have "ascending cmp (take cur ks @ [ks ! cur])" using asc by (auto simp: ascending_append)
      with gt have "below cmp key (take cur ks @ [ks ! cur])" by (intro below_from_last)
      then have "below cmp key (take (cur + 1) ks)" using len by (simp add: take_Suc_conv_app_nth)
      then have "\<exists>f i. bsearch_loop cmp key ks (cur + 1) high = Some (f, i) \<and>
          (if f then i < high \<and> cmp key (ks ! i) = 0
           else i \<le> high \<and> below cmp key (take i ks) \<and> above cmp key (drop i ks))"
        using less.prems cur by (intro less.hyps) auto
      moreover have "bsearch_loop cmp key ks low high = bsearch_loop cmp key ks (cur + 1) high"
        using gt True len by (simp add: bsearch_loop.simps [of cmp key ks low high] cur_def [symmetric] Let_def)
      ultimately show ?thesis by simp
    qed
  qed
qed

end

lemma bsearch_loop_take:
  "high \<le> m \<Longrightarrow> bsearch_loop c key (take m ks) low high = bsearch_loop c key ks low high"
proof (induction "high - low" arbitrary: low high rule: less_induct)
  case less
  then show ?case
    by (auto simp: bsearch_loop.simps [of c key ks low high] bsearch_loop.simps [of c key "take m ks" low high]
          rd_def Let_def split: option.splits)
qed

text \<open>The search within a node, in terms of the node's keys.\<close>

lemma search_within_node_correct:
  assumes c: "comparator (call_cmp sa)" and n: "node_ok ns uv n" and ns: "ns < 65536"
    and asc: "ascending (call_cmp sa) (node_keys n)" and "0 < count n"
  shows "\<exists>f i. search_within_node sa key n = Some (f, i) \<and>
    (if f then i < count n \<and> call_cmp sa key (node_keys n ! i) = 0
     else i \<le> count n \<and> below (call_cmp sa) key (take i (node_keys n)) \<and>
          above (call_cmp sa) key (drop i (node_keys n)))"
proof -
  from n ns have len: "length (node_keys n) = count n" "count n < 65536"
    using node_okD(4) [OF n] by auto
  have "search_within_node sa key n = skiparray_bsearch key (node_keys n) (count n) (call_cmp sa)"
    by (simp add: search_within_node_def skiparray_bsearch_def node_keys_def bsearch_loop_take)
  then show ?thesis
    using comparator.bsearch_loop_correct [OF c, of 0 "count n" "node_keys n" key] len asc assms(5)
    by (simp add: skiparray_bsearch_def)
qed

section \<open>Properties\<close>

text \<open>
  C32. Binary search in an ascending array of 1 to 65535 keys always returns, without reading
  outside the array: either the index of a key equal to the one sought, or the index that has
  only smaller keys before it and only greater keys from it on.
\<close>

theorem skiparray_bsearch_spec:
  assumes "comparator c" "ascending c ks" "0 < length ks" "length ks < 65536"
  shows "\<exists>found i. skiparray_bsearch key ks (length ks) c = Some (found, i) \<and>
    (if found then i < length ks \<and> c key (ks ! i) = 0
     else i \<le> length ks \<and> below c key (take i ks) \<and> above c key (drop i ks))"
  using comparator.bsearch_loop_correct [OF assms(1), of 0 "length ks" ks key] assms
  by (simp add: skiparray_bsearch_def)

theorem skiparray_bsearch_spec_witness:
  "\<exists>found i. skiparray_bsearch 5 [1, 3, 5] (length [1, 3, 5 :: voidp]) cmp_intptr_t = Some (found, i) \<and>
    (if found then i < length [1, 3, 5 :: voidp] \<and> cmp_intptr_t 5 ([1, 3, 5] ! i) = 0
     else i \<le> length [1, 3, 5 :: voidp] \<and> below cmp_intptr_t 5 (take i [1, 3, 5])
       \<and> above cmp_intptr_t 5 (drop i [1, 3, 5]))"
  by (rule skiparray_bsearch_spec [OF intptr.comparator_axioms]) (simp_all add: cmp_intptr_t_def)

end
