(* ===== verification/Chain.thy ===== *)
theory Chain
  imports Memory Level Node_Ops Bsearch
begin

text \<open>
  The structure of a skiparray in the heap: the list of its nodes in level-0 order, the chains
  of all levels as sub-lists of it, and the invariant \<open>wf\<close> that the operations keep.
\<close>

named_theorems chain \<open>rewriting of chains, neighbours and heap updates\<close>

section \<open>Neighbours in a list of addresses\<close>

text \<open>The part of a list after an element, and the element before one.\<close>

fun after :: "'a \<Rightarrow> 'a list \<Rightarrow> 'a list" where
  "after a [] = []"
| "after a (x # xs) = (if x = a then xs else after a xs)"

definition last_opt :: "'a list \<Rightarrow> 'a option" where
  "last_opt xs = (if xs = [] then None else Some (last xs))"

definition prev_of :: "'a \<Rightarrow> 'a list \<Rightarrow> 'a option" where
  "prev_of a xs = last_opt (takeWhile (\<lambda>x. x \<noteq> a) xs)"

lemma last_opt_simps [simp]:
  "last_opt [] = None" "last_opt (xs @ [x]) = Some x" "last_opt xs = None \<longleftrightarrow> xs = []"
  by (auto simp: last_opt_def)

lemma last_opt_Some: "last_opt xs = Some x \<longleftrightarrow> (\<exists>ys. xs = ys @ [x])"
  by (auto simp: last_opt_def) (metis append_butlast_last_id)

lemma last_opt_in: "last_opt xs = Some x \<Longrightarrow> x \<in> set xs"
  by (auto simp: last_opt_Some)

lemma after_in [chain]: "a \<in> set xs \<Longrightarrow> after a (xs @ ys) = after a xs @ ys"
  by (induction xs) auto

lemma after_notin [chain]: "a \<notin> set xs \<Longrightarrow> after a (xs @ ys) = after a ys"
  by (induction xs) auto

lemma set_after: "set (after a xs) \<subseteq> set xs"
  by (induction xs) auto

lemma split_at: "a \<in> set xs \<Longrightarrow> \<exists>ys. xs = ys @ a # after a xs \<and> a \<notin> set ys"
proof (induction xs)
  case (Cons x xs)
  show ?case
  proof (cases "x = a")
    case True
    then show ?thesis by (intro exI [of _ "[]"]) auto
  next
    case False
    with Cons obtain ys where "xs = ys @ a # after a xs" "a \<notin> set ys" by auto
    with False show ?thesis by (intro exI [of _ "x # ys"]) auto
  qed
qed simp

lemma prev_of_split: "a \<notin> set xs \<Longrightarrow> prev_of a (xs @ a # ys) = last_opt xs"
proof -
  assume "a \<notin> set xs"
  then have "takeWhile (\<lambda>x. x \<noteq> a) (xs @ a # ys) = xs" by (induction xs) auto
  then show ?thesis by (simp add: prev_of_def)
qed

lemma prev_of_in [chain]: "a \<in> set xs \<Longrightarrow> prev_of a (xs @ ys) = prev_of a xs"
  by (auto simp: prev_of_def takeWhile_append1)

lemma prev_of_notin [chain]:
  assumes "a \<notin> set xs"
  shows "prev_of a (xs @ y # ys) = (if y = a then last_opt xs else prev_of a (y # ys))"
proof -
  have "takeWhile (\<lambda>x. x \<noteq> a) (xs @ y # ys) = xs @ takeWhile (\<lambda>x. x \<noteq> a) (y # ys)"
    using assms by (induction xs) auto
  then show ?thesis by (auto simp: prev_of_def last_opt_def)
qed

lemma prev_of_hd [simp]: "prev_of a (a # xs) = None"
  by (simp add: prev_of_def)

section \<open>Reading the heap\<close>

definition ht :: "(addr \<Rightarrow> node option) \<Rightarrow> addr \<Rightarrow> nat" where
  "ht h a = (case h a of None \<Rightarrow> 0 | Some n \<Rightarrow> height n)"

definition fwd_at :: "(addr \<Rightarrow> node option) \<Rightarrow> addr \<Rightarrow> nat \<Rightarrow> addr option" where
  "fwd_at h a l = (case h a of None \<Rightarrow> None | Some n \<Rightarrow> if l < length (fwd n) then fwd n ! l else None)"

definition back_at :: "(addr \<Rightarrow> node option) \<Rightarrow> addr \<Rightarrow> addr option" where
  "back_at h a = (case h a of None \<Rightarrow> None | Some n \<Rightarrow> back_p n)"

definition pairs_at :: "(addr \<Rightarrow> node option) \<Rightarrow> addr \<Rightarrow> bindings" where
  "pairs_at h a = (case h a of None \<Rightarrow> [] | Some n \<Rightarrow> node_pairs n)"

definition blocks_at :: "(addr \<Rightarrow> node option) \<Rightarrow> addr \<Rightarrow> addr list" where
  "blocks_at h a = (case h a of None \<Rightarrow> [] | Some n \<Rightarrow> node_blocks a n)"

definition pairs_of :: "(addr \<Rightarrow> node option) \<Rightarrow> addr list \<Rightarrow> bindings" where
  "pairs_of h ns = concat (map (pairs_at h) ns)"

abbreviation keys_of :: "(addr \<Rightarrow> node option) \<Rightarrow> addr list \<Rightarrow> voidp list" where
  "keys_of h ns \<equiv> map fst (pairs_of h ns)"

lemma at_Some:
  "h a = Some n \<Longrightarrow> ht h a = height n"
  "h a = Some n \<Longrightarrow> back_at h a = back_p n"
  "h a = Some n \<Longrightarrow> pairs_at h a = node_pairs n"
  "h a = Some n \<Longrightarrow> blocks_at h a = node_blocks a n"
  by (simp_all add: ht_def back_at_def pairs_at_def blocks_at_def)

lemma pairs_of_simps [simp]:
  "pairs_of h [] = []" "pairs_of h (a # ns) = pairs_at h a @ pairs_of h ns"
  "pairs_of h (ns @ ms) = pairs_of h ns @ pairs_of h ms"
  by (simp_all add: pairs_of_def)

lemma pairs_of_cong: "(\<And>a. a \<in> set ns \<Longrightarrow> pairs_at h a = pairs_at h' a) \<Longrightarrow> pairs_of h ns = pairs_of h' ns"
  by (induction ns) auto

text \<open>Updates of one node.\<close>

lemma at_upd [chain]:
  "ht (h(a \<mapsto> n)) b = (if b = a then height n else ht h b)"
  "back_at (h(a \<mapsto> n)) b = (if b = a then back_p n else back_at h b)"
  "pairs_at (h(a \<mapsto> n)) b = (if b = a then node_pairs n else pairs_at h b)"
  "blocks_at (h(a \<mapsto> n)) b = (if b = a then node_blocks a n else blocks_at h b)"
  "fwd_at (h(a \<mapsto> n)) b l = (if b = a then (if l < length (fwd n) then fwd n ! l else None) else fwd_at h b l)"
  by (simp_all add: ht_def back_at_def pairs_at_def blocks_at_def fwd_at_def)

lemma at_del [chain]:
  "b \<noteq> a \<Longrightarrow> ht (h(a := None)) b = ht h b"
  "b \<noteq> a \<Longrightarrow> back_at (h(a := None)) b = back_at h b"
  "b \<noteq> a \<Longrightarrow> pairs_at (h(a := None)) b = pairs_at h b"
  "b \<noteq> a \<Longrightarrow> blocks_at (h(a := None)) b = blocks_at h b"
  "b \<noteq> a \<Longrightarrow> fwd_at (h(a := None)) b l = fwd_at h b l"
  by (simp_all add: ht_def back_at_def pairs_at_def blocks_at_def fwd_at_def)

section \<open>The chain of one level\<close>

text \<open>First and last node of a list that is linked on level \<open>l\<close>.\<close>

definition nxt :: "(addr \<Rightarrow> node option) \<Rightarrow> nat \<Rightarrow> addr list \<Rightarrow> addr option" where
  "nxt h l ns = find (\<lambda>a. l < ht h a) ns"

definition prv :: "(addr \<Rightarrow> node option) \<Rightarrow> nat \<Rightarrow> addr list \<Rightarrow> addr option" where
  "prv h l ns = find (\<lambda>a. l < ht h a) (rev ns)"

lemma nxt_simps [simp]:
  "nxt h l [] = None" "nxt h l (a # ns) = (if l < ht h a then Some a else nxt h l ns)"
  by (simp_all add: nxt_def)

lemma nxt_append: "nxt h l (xs @ ys) = (case nxt h l xs of None \<Rightarrow> nxt h l ys | Some a \<Rightarrow> Some a)"
  by (induction xs) auto

lemma nxt_None: "nxt h l ns = None \<longleftrightarrow> (\<forall>a \<in> set ns. \<not> l < ht h a)"
  by (auto simp: nxt_def find_None_iff)

lemma nxt_SomeD: "nxt h l ns = Some a \<Longrightarrow> a \<in> set ns \<and> l < ht h a"
  by (auto simp: nxt_def find_Some_iff)

lemma nxt_Some_split: "nxt h l ns = Some a \<Longrightarrow> \<exists>us vs. ns = us @ a # vs \<and> nxt h l us = None"
proof (induction ns)
  case (Cons x xs)
  show ?case
  proof (cases "l < ht h x")
    case True
    with Cons.prems show ?thesis by (intro exI [of _ "[]"] exI [of _ xs]) auto
  next
    case False
    with Cons obtain us vs where "xs = us @ a # vs" "nxt h l us = None" by auto
    with False show ?thesis by (intro exI [of _ "x # us"] exI [of _ vs]) auto
  qed
qed simp

lemma nxt_cong: "(\<And>a. a \<in> set ns \<Longrightarrow> ht h' a = ht h a) \<Longrightarrow> nxt h' l ns = nxt h l ns"
  by (induction ns) auto

lemma prv_cong: "(\<And>a. a \<in> set ns \<Longrightarrow> ht h' a = ht h a) \<Longrightarrow> prv h' l ns = prv h l ns"
  by (induction ns rule: rev_induct) (auto simp: prv_def)

lemma prv_None: "prv h l ns = None \<longleftrightarrow> (\<forall>a \<in> set ns. \<not> l < ht h a)"
  by (auto simp: prv_def find_None_iff)

lemma prv_SomeD: "prv h l ns = Some a \<Longrightarrow> a \<in> set ns \<and> l < ht h a"
  by (induction ns rule: rev_induct) (auto simp: prv_def split: if_splits)

lemma prv_snoc: "prv h l (ns @ [a]) = (if l < ht h a then Some a else prv h l ns)"
  by (simp add: prv_def)

lemma prv_iff:
  "distinct ns \<Longrightarrow> prv h l ns = Some a \<longleftrightarrow> a \<in> set ns \<and> l < ht h a \<and> nxt h l (after a ns) = None"
proof (induction ns rule: rev_induct)
  case (snoc x ns)
  show ?case
  proof (cases "l < ht h x")
    case True
    with snoc show ?thesis by (auto simp: prv_snoc chain nxt_append split: option.splits)
  next
    case False
    with snoc show ?thesis by (auto simp: prv_snoc chain nxt_append split: option.splits)
  qed
qed (simp add: prv_def)

definition linked :: "(addr \<Rightarrow> node option) \<Rightarrow> addr option list \<Rightarrow> nat \<Rightarrow> addr list \<Rightarrow> bool" where
  "linked h heads l ns \<longleftrightarrow>
     heads ! l = nxt h l ns \<and> (\<forall>a \<in> set ns. l < ht h a \<longrightarrow> fwd_at h a l = nxt h l (after a ns))"

lemma linked_headD: "linked h heads l ns \<Longrightarrow> heads ! l = nxt h l ns"
  by (simp add: linked_def)

lemma linked_fwdD: "linked h heads l ns \<Longrightarrow> a \<in> set ns \<Longrightarrow> l < ht h a \<Longrightarrow> fwd_at h a l = nxt h l (after a ns)"
  by (simp add: linked_def)

lemma linked_cong:
  assumes "linked h heads l ns" "heads' ! l = heads ! l" "\<And>a. a \<in> set ns \<Longrightarrow> ht h' a = ht h a"
    and "\<And>a. a \<in> set ns \<Longrightarrow> l < ht h a \<Longrightarrow> fwd_at h' a l = fwd_at h a l"
  shows "linked h' heads' l ns"
proof -
  have "nxt h' l ms = nxt h l ms" if "set ms \<subseteq> set ns" for ms
    using assms(3) that by (intro nxt_cong) auto
  with assms set_after [of _ ns] show ?thesis by (simp add: linked_def)
qed

text \<open>A node that is too short for a level can be added to its list at will.\<close>

lemma linked_short:
  assumes "distinct (xs @ b # ys)" "\<not> l < ht h b"
  shows "linked h heads l (xs @ b # ys) \<longleftrightarrow> linked h heads l (xs @ ys)"
proof -
  have "nxt h l (xs @ b # ys) = nxt h l (xs @ ys)" using assms by (simp add: nxt_append split: option.splits)
  moreover have "nxt h l (after a (xs @ b # ys)) = nxt h l (after a (xs @ ys))"
    if "a \<in> set xs \<union> set ys" for a
    using that assms by (cases "a \<in> set xs") (auto simp: chain nxt_append split: option.splits)
  ultimately show ?thesis using assms by (auto simp: linked_def)
qed

text \<open>Linking a node in, and unlinking it, on one level.\<close>

lemma linked_insert:
  assumes lk: "linked h heads l (xs @ ys)" and d: "distinct (xs @ b # ys)"
    and hts: "\<And>a. ht h' a = ht h a" and b: "l < ht h b" "fwd_at h' b l = nxt h l ys"
    and ys: "\<And>a. a \<in> set ys \<Longrightarrow> fwd_at h' a l = fwd_at h a l"
    and xs: "\<And>a. a \<in> set xs \<Longrightarrow> l < ht h a \<Longrightarrow>
      fwd_at h' a l = (if prv h l xs = Some a then Some b else fwd_at h a l)"
    and hd: "heads' ! l = (if prv h l xs = None then Some b else heads ! l)"
  shows "linked h' heads' l (xs @ b # ys)"
proof -
  have n: "nxt h' = nxt h" by (intro ext nxt_cong) (simp add: hts)
  have "heads' ! l = nxt h l (xs @ b # ys)"
  proof (cases "prv h l xs")
    case None
    then have "nxt h l xs = None" by (simp add: prv_None nxt_None)
    with None hd b show ?thesis by (simp add: nxt_append)
  next
    case (Some p)
    then have "nxt h l xs \<noteq> None" using prv_SomeD [OF Some] by (auto simp: nxt_None)
    with Some hd lk show ?thesis by (auto simp: nxt_append linked_def)
  qed
  moreover have "fwd_at h' a l = nxt h l (after a (xs @ b # ys))" if a: "a \<in> set (xs @ b # ys)" "l < ht h a" for a
  proof -
    consider "a \<in> set xs" | "a = b" | "a \<in> set ys" using a by auto
    then show ?thesis
    proof cases
      case 1
      have "fwd_at h a l = nxt h l (after a xs @ ys)" using lk 1 a by (simp add: linked_def chain)
      with 1 xs a b d show ?thesis by (auto simp: chain nxt_append prv_iff split: option.splits)
    next
      case 2
      with b d show ?thesis by (simp add: chain)
    next
      case 3
      with d have "a \<notin> set xs" "a \<noteq> b" by auto
      with 3 ys lk a show ?thesis by (simp add: linked_def chain)
    qed
  qed
  ultimately show ?thesis by (simp add: linked_def n hts)
qed

lemma linked_remove:
  assumes lk: "linked h heads l (xs @ b # ys)" and d: "distinct (xs @ b # ys)"
    and hts: "\<And>a. a \<in> set (xs @ ys) \<Longrightarrow> ht h' a = ht h a" and b: "l < ht h b"
    and ys: "\<And>a. a \<in> set ys \<Longrightarrow> l < ht h a \<Longrightarrow> fwd_at h' a l = fwd_at h a l"
    and xs: "\<And>a. a \<in> set xs \<Longrightarrow> l < ht h a \<Longrightarrow>
      fwd_at h' a l = (if prv h l xs = Some a then fwd_at h b l else fwd_at h a l)"
    and hd: "heads' ! l = (if prv h l xs = None then fwd_at h b l else heads ! l)"
  shows "linked h' heads' l (xs @ ys)"
proof -
  have n: "nxt h' l ms = nxt h l ms" if "set ms \<subseteq> set (xs @ ys)" for ms
    using hts that by (intro nxt_cong) blast
  have fb: "fwd_at h b l = nxt h l ys" using lk b d by (simp add: linked_def chain)
  have "heads' ! l = nxt h l (xs @ ys)"
  proof (cases "prv h l xs")
    case None
    then have "nxt h l xs = None" by (simp add: prv_None nxt_None)
    with None hd b fb show ?thesis by (simp add: nxt_append)
  next
    case (Some p)
    then have "nxt h l xs \<noteq> None" using prv_SomeD [OF Some] by (auto simp: nxt_None)
    with Some hd lk show ?thesis by (auto simp: nxt_append linked_def)
  qed
  moreover have "fwd_at h' a l = nxt h l (after a (xs @ ys))" if a: "a \<in> set (xs @ ys)" "l < ht h a" for a
  proof -
    consider "a \<in> set xs" | "a \<in> set ys" using a by auto
    then show ?thesis
    proof cases
      case 1
      have "fwd_at h a l = nxt h l (after a xs @ b # ys)" using lk 1 a by (simp add: linked_def chain)
      with 1 xs a b d fb show ?thesis by (auto simp: chain nxt_append prv_iff split: option.splits)
    next
      case 2
      with d have "a \<notin> set xs" "a \<noteq> b" by auto
      with 2 ys lk a show ?thesis by (auto simp: linked_def chain)
    qed
  qed
  ultimately show ?thesis using hts n set_after [of _ "xs @ ys"] by (auto simp: linked_def)
qed

end
