(* ===== verification/Invariant.thy ===== *)
theory Invariant
  imports Chain
begin

text \<open>
  The invariant \<open>wf\<close> of a skiparray, the pairs it represents, and how the basic reads and
  writes of the code act on it.
\<close>

section \<open>Reads and writes through pointers\<close>

definition set_node :: "skiparray \<Rightarrow> addr \<Rightarrow> node \<Rightarrow> skiparray" where
  "set_node sa a n = sa\<lparr>heap := (heap sa)(a \<mapsto> n)\<rparr>"

definition get_fwd :: "skiparray \<Rightarrow> addr \<Rightarrow> nat \<Rightarrow> addr option option" where
  "get_fwd sa a l = do { n \<leftarrow> heap sa a; rd (fwd n) l }"

definition set_fwd :: "skiparray \<Rightarrow> addr \<Rightarrow> nat \<Rightarrow> addr option \<Rightarrow> skiparray option" where
  "set_fwd sa a l p = do {
     n \<leftarrow> heap sa a;
     f \<leftarrow> wr (fwd n) l p;
     Some (set_node sa a (n\<lparr>fwd := f\<rparr>))
   }"

definition get_head :: "skiparray \<Rightarrow> nat \<Rightarrow> addr option option" where
  "get_head sa l = rd (nodes sa) l"

definition set_head :: "skiparray \<Rightarrow> nat \<Rightarrow> addr option \<Rightarrow> skiparray option" where
  "set_head sa l p = do { hs \<leftarrow> wr (nodes sa) l p; Some (sa\<lparr>nodes := hs\<rparr>) }"

definition set_back :: "skiparray \<Rightarrow> addr \<Rightarrow> addr option \<Rightarrow> skiparray option" where
  "set_back sa a p = do { n \<leftarrow> heap sa a; Some (set_node sa a (n\<lparr>back_p := p\<rparr>)) }"

text \<open>\<^verbatim>\<open>n->keys[n->offset + n->count - 1]\<close> and \<^verbatim>\<open>n->keys[n->offset]\<close>.\<close>

definition last_key :: "node \<Rightarrow> voidp option" where
  "last_key n = do { assert_c (0 < offset n + count n); rd (keys n) (offset n + count n - 1) }"

definition first_key :: "node \<Rightarrow> voidp option" where
  "first_key n = rd (keys n) (offset n)"

definition has_iterators :: "skiparray \<Rightarrow> bool" where
  "has_iterators sa \<longleftrightarrow> iter sa \<noteq> None"

section \<open>The invariant\<close>

text \<open>Sizes and levels are in range and the callbacks keep their contracts.\<close>

definition cfg_ok :: "skiparray \<Rightarrow> bool" where
  "cfg_ok sa \<longleftrightarrow>
     2 \<le> node_size sa \<and> node_size sa < 65536 \<and> 1 \<le> max_level sa \<and> max_level sa < 256 \<and>
     1 \<le> sa_height sa \<and> sa_height sa \<le> max_level sa \<and> length (nodes sa) = max_level sa \<and>
     comparator (call_cmp sa) \<and> allocator (snd (mem sa)) \<and> level_source (snd (level sa))"

text \<open>
  \<open>ns\<close> are all the nodes of the heap, in level-0 order; every level links the nodes tall
  enough for it, in the same order; \<^verbatim>\<open>back\<close> is the predecessor; the levels in use are those
  below \<^verbatim>\<open>height\<close>.
\<close>

definition shape :: "skiparray \<Rightarrow> addr list \<Rightarrow> bool" where
  "shape sa ns \<longleftrightarrow>
     distinct ns \<and> ns \<noteq> [] \<and> dom (heap sa) = set ns \<and>
     (\<forall>a \<in> set ns. \<exists>n. heap sa a = Some n \<and> node_ok (node_size sa) (use_values sa) n \<and>
        height n \<le> max_level sa) \<and>
     (\<forall>l < max_level sa. linked (heap sa) (nodes sa) l ns) \<and>
     (\<forall>a \<in> set ns. back_at (heap sa) a = prev_of a ns) \<and>
     (\<forall>l < max_level sa. l < sa_height sa \<longleftrightarrow> nodes sa ! l \<noteq> None)"

definition ordered :: "skiparray \<Rightarrow> addr list \<Rightarrow> bool" where
  "ordered sa ns \<longleftrightarrow> ascending (call_cmp sa) (map fst (pairs_of (heap sa) ns))"

text \<open>Every node but the last is at least half full; only a lone first node may be empty.\<close>

definition occupied :: "skiparray \<Rightarrow> addr list \<Rightarrow> bool" where
  "occupied sa ns \<longleftrightarrow>
     (\<forall>a \<in> set (butlast ns). node_size sa div 2 \<le> length (pairs_at (heap sa) a)) \<and>
     (tl ns \<noteq> [] \<longrightarrow> pairs_at (heap sa) (last ns) \<noteq> [])"

definition nonempty_nodes :: "skiparray \<Rightarrow> addr list \<Rightarrow> bool" where
  "nonempty_nodes sa ns \<longleftrightarrow> (\<forall>a \<in> set ns. pairs_at (heap sa) a \<noteq> [])"

text \<open>The list of active iterators, doubly linked from \<^verbatim>\<open>sa->iter\<close>, each on a node of \<open>ns\<close>.\<close>

definition iters_ok :: "skiparray \<Rightarrow> addr list \<Rightarrow> addr list \<Rightarrow> bool" where
  "iters_ok sa ns its \<longleftrightarrow>
     distinct its \<and> dom (iters sa) = set its \<and>
     iter sa = (case its of [] \<Rightarrow> None | a # _ \<Rightarrow> Some a) \<and>
     (\<forall>a \<in> set its. \<exists>it. iters sa a = Some it \<and> it_n it \<in> set ns \<and> it_prev it = prev_of a its \<and>
        it_next it = (case after a its of [] \<Rightarrow> None | b # _ \<Rightarrow> Some b))"

text \<open>The blocks of memory a skiparray owns are live and pairwise distinct.\<close>

definition blocks :: "skiparray \<Rightarrow> addr list \<Rightarrow> addr list \<Rightarrow> addr list" where
  "blocks sa ns its = self sa # concat (map (blocks_at (heap sa)) ns) @ its"

definition owned :: "skiparray \<Rightarrow> addr list \<Rightarrow> addr list \<Rightarrow> bool" where
  "owned sa ns its \<longleftrightarrow>
     distinct (blocks sa ns its) \<and> set (blocks sa ns its) \<subseteq> set (live (mst sa))"

definition wf :: "skiparray \<Rightarrow> addr list \<Rightarrow> addr list \<Rightarrow> bool" where
  "wf sa ns its \<longleftrightarrow>
     cfg_ok sa \<and> shape sa ns \<and> ordered sa ns \<and> occupied sa ns \<and> iters_ok sa ns its \<and> owned sa ns its"

text \<open>
  \<open>represents sa ps its F\<close>: \<open>sa\<close> is a proper skiparray holding the pairs \<open>ps\<close>, with the
  active iterators \<open>its\<close>, and \<open>F\<close> are the live blocks of its memory callback that are not
  its own.
\<close>

definition represents :: "skiparray \<Rightarrow> bindings \<Rightarrow> addr list \<Rightarrow> addr set \<Rightarrow> bool" where
  "represents sa ps its F \<longleftrightarrow>
     (\<exists>ns. wf sa ns its \<and> pairs_of (heap sa) ns = ps \<and>
        F = set (live (mst sa)) - set (blocks sa ns its))"

text \<open>What no operation on bindings changes.\<close>

definition same_env :: "skiparray \<Rightarrow> skiparray \<Rightarrow> bool" where
  "same_env sa sa' \<longleftrightarrow>
     self sa' = self sa \<and> node_size sa' = node_size sa \<and> max_level sa' = max_level sa \<and>
     use_values sa' = use_values sa \<and> mem sa' = mem sa \<and> cmp sa' = cmp sa \<and>
     free_cb sa' = free_cb sa \<and> level sa' = level sa \<and> iter sa' = iter sa \<and> iters sa' = iters sa \<and>
     oom (mst sa') = oom (mst sa)"

definition may_refuse :: "skiparray \<Rightarrow> bool" where
  "may_refuse sa \<longleftrightarrow> refusing (snd (mem sa)) (mst sa)"

lemma same_env_refuse: "same_env sa sa' \<Longrightarrow> may_refuse sa' = may_refuse sa"
  by (simp add: same_env_def may_refuse_def refusing_def)

lemma same_env_refl [simp]: "same_env sa sa"
  by (simp add: same_env_def)

lemma same_env_trans: "same_env sa sb \<Longrightarrow> same_env sb sc \<Longrightarrow> same_env sa sc"
  by (simp add: same_env_def)

lemma same_env_simps [simp]:
  "same_env sa (set_node sb a n) = same_env sa sb"
  "same_env sa (sb\<lparr>nodes := hs\<rparr>) = same_env sa sb"
  "same_env sa (sb\<lparr>heap := h\<rparr>) = same_env sa sb"
  "same_env sa (sb\<lparr>sa_height := k\<rparr>) = same_env sa sb"
  "oom m = oom (mst sb) \<Longrightarrow> same_env sa (sb\<lparr>mst := m\<rparr>) = same_env sa sb"
  "same_env sa (sb\<lparr>prng_state := g\<rparr>) = same_env sa sb"
  by (simp_all add: same_env_def set_node_def)

lemma set_node_simps [simp]:
  "self (set_node sa a n) = self sa" "node_size (set_node sa a n) = node_size sa"
  "max_level (set_node sa a n) = max_level sa" "sa_height (set_node sa a n) = sa_height sa"
  "use_values (set_node sa a n) = use_values sa" "prng_state (set_node sa a n) = prng_state sa"
  "mem (set_node sa a n) = mem sa" "cmp (set_node sa a n) = cmp sa"
  "free_cb (set_node sa a n) = free_cb sa" "level (set_node sa a n) = level sa"
  "iter (set_node sa a n) = iter sa" "nodes (set_node sa a n) = nodes sa"
  "iters (set_node sa a n) = iters sa" "mst (set_node sa a n) = mst sa"
  "heap (set_node sa a n) = (heap sa)(a \<mapsto> n)"
  by (simp_all add: set_node_def)

section \<open>Consequences\<close>

lemma cfg_okD:
  assumes "cfg_ok sa"
  shows "2 \<le> node_size sa" "node_size sa < 65536" "1 \<le> max_level sa" "max_level sa < 256"
    "1 \<le> sa_height sa" "sa_height sa \<le> max_level sa" "length (nodes sa) = max_level sa"
    "comparator (call_cmp sa)" "allocator (snd (mem sa))" "level_source (snd (level sa))"
  using assms by (auto simp: cfg_ok_def)

lemma wfD:
  assumes "wf sa ns its"
  shows "cfg_ok sa" "shape sa ns" "ordered sa ns" "occupied sa ns" "iters_ok sa ns its" "owned sa ns its"
  using assms by (auto simp: wf_def)

lemma shape_node:
  assumes "shape sa ns" "a \<in> set ns"
  obtains n where "heap sa a = Some n" "node_ok (node_size sa) (use_values sa) n" "height n \<le> max_level sa"
  using assms by (auto simp: shape_def)

lemma shape_ht:
  assumes "shape sa ns" "a \<in> set ns"
  shows "1 \<le> ht (heap sa) a" "ht (heap sa) a \<le> max_level sa"
proof -
  obtain n where n: "heap sa a = Some n" "node_ok (node_size sa) (use_values sa) n" "height n \<le> max_level sa"
    using shape_node [OF assms] .
  with node_okD(5) [OF n(2)] show "1 \<le> ht (heap sa) a" "ht (heap sa) a \<le> max_level sa"
    by (simp_all add: at_Some)
qed

lemma shape_linked: "shape sa ns \<Longrightarrow> l < max_level sa \<Longrightarrow> linked (heap sa) (nodes sa) l ns"
  by (simp add: shape_def)

lemma shape_head0:
  assumes "shape sa ns" "1 \<le> max_level sa"
  shows "nodes sa ! 0 = Some (hd ns)"
proof -
  from assms have l: "linked (heap sa) (nodes sa) 0 ns" and "ns \<noteq> []" by (auto simp: shape_def)
  moreover from this have "1 \<le> ht (heap sa) (hd ns)" using shape_ht [OF assms(1)] by auto
  ultimately show ?thesis by (cases ns) (auto simp: linked_def)
qed

text \<open>Reading \<^verbatim>\<open>fwd\<close> and \<^verbatim>\<open>nodes\<close>.\<close>

lemma get_fwd_shape:
  assumes s: "shape sa ns" and a: "a \<in> set ns" "l < ht (heap sa) a"
  shows "get_fwd sa a l = Some (nxt (heap sa) l (after a ns))"
proof -
  obtain n where n: "heap sa a = Some n" "node_ok (node_size sa) (use_values sa) n"
    using shape_node [OF s a(1)] by blast
  have l: "l < max_level sa" "l < length (fwd n)"
    using shape_ht(2) [OF s a(1)] a(2) n node_okD(6) [OF n(2)] by (auto simp: at_Some)
  have "fwd_at (heap sa) a l = nxt (heap sa) l (after a ns)"
    using linked_fwdD [OF shape_linked [OF s l(1)] a] .
  with n l show ?thesis by (simp add: get_fwd_def fwd_at_def)
qed

lemma get_head_shape:
  assumes "shape sa ns" "length (nodes sa) = max_level sa" "l < max_level sa"
  shows "get_head sa l = Some (nxt (heap sa) l ns)"
  using linked_headD [OF shape_linked [OF assms(1,3)]] assms(2,3) by (simp add: get_head_def)

lemma nxt0_Cons: "shape sa ns \<Longrightarrow> set (x # xs) \<subseteq> set ns \<Longrightarrow> nxt (heap sa) 0 (x # xs) = Some x"
  using shape_ht(1) [of sa ns x] by simp

lemma nxt0: "shape sa ns \<Longrightarrow> set xs \<subseteq> set ns \<Longrightarrow>
    nxt (heap sa) 0 xs = (case xs of [] \<Rightarrow> None | x # _ \<Rightarrow> Some x)"
  using nxt0_Cons by (cases xs) auto

lemma nxt_head:
  assumes "shape sa ns" "l < sa_height sa" "sa_height sa \<le> max_level sa"
  shows "nxt (heap sa) l ns \<noteq> None"
proof -
  from assms have "l < max_level sa" by simp
  with assms(1,2) have "nodes sa ! l \<noteq> None" by (simp add: shape_def)
  with linked_headD [OF shape_linked [OF assms(1) \<open>l < max_level sa\<close>]] show ?thesis by simp
qed

lemma last_key_ok:
  assumes "node_ok ns uv n" "0 < count n"
  shows "last_key n = Some (last (node_keys n))"
proof -
  have "length (node_keys n) = count n" using assms by simp
  then have "last (node_keys n) = node_keys n ! (count n - 1)" using assms(2) by (subst last_conv_nth) auto
  then show ?thesis using assms node_okD [OF assms(1)] nth_node_keys [OF assms(1), of "count n - 1"]
    by (simp add: last_key_def)
qed

lemma first_key_ok:
  assumes "node_ok ns uv n" "0 < count n"
  shows "first_key n = Some (hd (node_keys n))"
proof -
  have "length (node_keys n) = count n" using assms by simp
  then have "hd (node_keys n) = node_keys n ! 0" using assms(2) by (subst hd_conv_nth) auto
  then show ?thesis using assms node_okD [OF assms(1)] nth_node_keys [OF assms(1), of 0]
    by (simp add: first_key_def)
qed

text \<open>Counts and pairs.\<close>

lemma pairs_at_ok:
  assumes "heap sa a = Some n" "node_ok ns uv n"
  shows "length (pairs_at (heap sa) a) = count n" "map fst (pairs_at (heap sa) a) = node_keys n"
  using assms by (auto simp: at_Some)

text \<open>Nodes are never empty except a lone first one.\<close>

lemma occupied_nonempty:
  assumes "occupied sa ns" "2 \<le> node_size sa" "tl ns \<noteq> []"
  shows "nonempty_nodes sa ns"
proof -
  from assms(3) have "ns = butlast ns @ [last ns]" by (cases ns) auto
  then have "a \<in> set ns \<Longrightarrow> a \<in> set (butlast ns) \<or> a = last ns" for a
    by (metis Un_iff empty_iff list.set(1) set_ConsD set_append)
  moreover have "a \<in> set (butlast ns) \<Longrightarrow> pairs_at (heap sa) a \<noteq> []" for a
    using assms by (fastforce simp: occupied_def)
  ultimately show ?thesis using assms(1,3) by (auto simp: nonempty_nodes_def occupied_def)
qed

lemma wf_nonempty: "wf sa ns its \<Longrightarrow> tl ns \<noteq> [] \<Longrightarrow> nonempty_nodes sa ns"
  by (auto simp: wf_def cfg_ok_def intro: occupied_nonempty)

lemma nonempty_lone: "shape sa [a] \<Longrightarrow> pairs_at (heap sa) a \<noteq> [] \<Longrightarrow> nonempty_nodes sa [a]"
  by (simp add: nonempty_nodes_def)

section \<open>Updates of a node\<close>

text \<open>An update of the pairs of one node keeps the shape and the blocks.\<close>

lemma shape_upd_pairs:
  assumes s: "shape sa ns" and a: "heap sa a = Some n"
    and ok: "node_ok (node_size sa) (use_values sa) n'" and sl: "same_links n n'"
  shows "shape (set_node sa a n') ns"
proof -
  have an: "a \<in> set ns" using s a by (auto simp: shape_def)
  have h: "ht ((heap sa)(a \<mapsto> n')) b = ht (heap sa) b" for b
    using a sl by (simp add: chain at_Some same_links_def)
  have f: "fwd_at ((heap sa)(a \<mapsto> n')) b l = fwd_at (heap sa) b l" for b l
    using a sl by (simp add: chain same_links_def fwd_at_def)
  have k: "back_at ((heap sa)(a \<mapsto> n')) b = back_at (heap sa) b" for b
    using a sl by (simp add: chain at_Some same_links_def)
  have "linked ((heap sa)(a \<mapsto> n')) (nodes sa) l ns" if "l < max_level sa" for l
    by (rule linked_cong [OF shape_linked [OF s that]]) (simp_all add: h f)
  moreover have "height n \<le> max_level sa" using shape_node [OF s an] a by auto
  ultimately show ?thesis
    using s an ok sl by (auto simp: shape_def k same_links_def)
qed

lemma blocks_upd_pairs:
  assumes "heap sa a = Some n" "same_links n n'"
  shows "blocks (set_node sa a n') ns its = blocks sa ns its"
proof -
  have "blocks_at ((heap sa)(a \<mapsto> n')) = blocks_at (heap sa)"
    using assms by (intro ext) (simp add: chain at_Some same_links_def node_blocks_def)
  then show ?thesis by (simp add: blocks_def)
qed

lemma owned_upd_pairs:
  "heap sa a = Some n \<Longrightarrow> same_links n n' \<Longrightarrow> owned (set_node sa a n') ns its = owned sa ns its"
  using blocks_upd_pairs by (simp add: owned_def)

lemma pairs_of_upd:
  assumes "distinct (xs @ a # ys)"
  shows "pairs_of (h(a \<mapsto> n)) (xs @ a # ys) = pairs_of h xs @ node_pairs n @ pairs_of h ys"
proof -
  have "pairs_of (h(a \<mapsto> n)) xs = pairs_of h xs" "pairs_of (h(a \<mapsto> n)) ys = pairs_of h ys"
    using assms by (auto intro!: pairs_of_cong simp: chain)
  then show ?thesis by (simp add: chain)
qed

lemma occupied_upd_pairs:
  assumes "occupied sa ns" "length (node_pairs n') \<ge> length (pairs_at (heap sa) a)"
  shows "occupied (set_node sa a n') ns"
  using assms by (fastforce simp: occupied_def chain)

lemma cfg_ok_env:
  assumes "same_env sa sa'" "cfg_ok sa" "1 \<le> sa_height sa'" "sa_height sa' \<le> max_level sa"
    "length (nodes sa') = length (nodes sa)"
  shows "cfg_ok sa'"
  using assms by (simp add: cfg_ok_def same_env_def)

lemma iters_ok_env:
  "same_env sa sa' \<Longrightarrow> iters_ok sa ns its \<Longrightarrow> set ns \<subseteq> set ns' \<Longrightarrow> iters_ok sa' ns' its"
proof -
  assume a: "same_env sa sa'" "iters_ok sa ns its" "set ns \<subseteq> set ns'"
  from a(1) have "iters sa' = iters sa" "iter sa' = iter sa" by (simp_all add: same_env_def)
  with a(2,3) show ?thesis unfolding iters_ok_def by (metis subsetD)
qed

lemma iters_ok_none: "iters_ok sa ns [] \<longleftrightarrow> iter sa = None \<and> iters sa = Map.empty"
  by (auto simp: iters_ok_def)

lemma iters_ok_locked: "iters_ok sa ns its \<Longrightarrow> has_iterators sa \<longleftrightarrow> its \<noteq> []"
  by (auto simp: iters_ok_def has_iterators_def split: list.splits)

end
