(* ===== verification/Links.thy ===== *)
theory Links
  imports Invariant
begin

text \<open>
  Changes of the links only: the writes to \<^verbatim>\<open>fwd\<close>, \<^verbatim>\<open>back\<close> and \<^verbatim>\<open>nodes[]\<close> keep the data of
  every node, so an insertion into the chains or a removal from them can be followed level by
  level with \<open>linked\<close>.
\<close>

section \<open>Heaps that differ in links only\<close>

definition data_eq :: "(addr \<Rightarrow> node option) \<Rightarrow> (addr \<Rightarrow> node option) \<Rightarrow> bool" where
  "data_eq h h' \<longleftrightarrow>
     (\<forall>a. h a = None \<longrightarrow> h' a = None) \<and>
     (\<forall>a n. h a = Some n \<longrightarrow>
        (\<exists>f b. h' a = Some (n\<lparr>fwd := f, back_p := b\<rparr>) \<and> length f = length (fwd n)))"

lemma data_eq_NoneD: "data_eq h h' \<Longrightarrow> h a = None \<Longrightarrow> h' a = None"
  by (simp add: data_eq_def)

lemma data_eq_SomeD:
  "data_eq h h' \<Longrightarrow> h a = Some n \<Longrightarrow> \<exists>f b. h' a = Some (n\<lparr>fwd := f, back_p := b\<rparr>) \<and> length f = length (fwd n)"
  by (simp add: data_eq_def)

lemma data_eqI:
  assumes "\<And>a. h a = None \<Longrightarrow> h' a = None"
    and "\<And>a n. h a = Some n \<Longrightarrow> \<exists>f b. h' a = Some (n\<lparr>fwd := f, back_p := b\<rparr>) \<and> length f = length (fwd n)"
  shows "data_eq h h'"
  using assms by (simp add: data_eq_def)

lemma data_eq_same:
  "h' a = Some n \<Longrightarrow> \<exists>f b. h' a = Some (n\<lparr>fwd := f, back_p := b\<rparr>) \<and> length f = length (fwd n)"
  by (rule exI [of _ "fwd n"], rule exI [of _ "back_p n"]) simp

lemma data_eq_refl [simp]: "data_eq h h"
  by (rule data_eqI) (assumption, rule data_eq_same)

lemma data_eq_trans:
  assumes "data_eq h h'" "data_eq h' h''"
  shows "data_eq h h''"
proof (rule data_eqI)
  fix a assume "h a = None"
  then show "h'' a = None" using assms data_eq_NoneD by metis
next
  fix a n assume "h a = Some n"
  then obtain f b where 1: "h' a = Some (n\<lparr>fwd := f, back_p := b\<rparr>)" "length f = length (fwd n)"
    using data_eq_SomeD [OF assms(1)] by blast
  then obtain f' b' where "h'' a = Some (n\<lparr>fwd := f, back_p := b\<rparr>\<lparr>fwd := f', back_p := b'\<rparr>)" "length f' = length f"
    using data_eq_SomeD [OF assms(2) 1(1)] by auto
  with 1(2) show "\<exists>f b. h'' a = Some (n\<lparr>fwd := f, back_p := b\<rparr>) \<and> length f = length (fwd n)" by auto
qed

lemma data_eq_at:
  assumes "data_eq h h'"
  shows "ht h' = ht h" "pairs_at h' = pairs_at h" "blocks_at h' = blocks_at h" "dom h' = dom h"
proof -
  have "ht h' a = ht h a \<and> pairs_at h' a = pairs_at h a \<and> blocks_at h' a = blocks_at h a \<and> (a \<in> dom h' \<longleftrightarrow> a \<in> dom h)" for a
  proof (cases "h a")
    case None
    with data_eq_NoneD [OF assms None] show ?thesis by (simp add: ht_def pairs_at_def blocks_at_def domIff)
  next
    case (Some n)
    with data_eq_SomeD [OF assms Some] show ?thesis
      by (auto simp: at_Some domIff)
  qed
  then show "ht h' = ht h" "pairs_at h' = pairs_at h" "blocks_at h' = blocks_at h" "dom h' = dom h"
    by auto
qed

lemma data_eq_pairs_of: "data_eq h h' \<Longrightarrow> pairs_of h' ns = pairs_of h ns"
  by (simp add: pairs_of_def data_eq_at)

lemma data_eq_nxt: "data_eq h h' \<Longrightarrow> nxt h' = nxt h"
  by (simp add: nxt_def data_eq_at fun_eq_iff)

lemma data_eq_prv: "data_eq h h' \<Longrightarrow> prv h' = prv h"
  by (simp add: prv_def data_eq_at fun_eq_iff)

lemma data_eq_node:
  assumes "data_eq h h'" "h a = Some n"
  obtains n' where "h' a = Some n'" "node_ok ns uv n' = node_ok ns uv n" "count n' = count n"
    "node_keys n' = node_keys n" "last_key n' = last_key n" "first_key n' = first_key n"
    "height n' = height n" "length (fwd n') = length (fwd n)" "node_pairs n' = node_pairs n"
    "offset n' = offset n" "keys n' = keys n" "vals n' = vals n"
proof -
  obtain f b where h': "h' a = Some (n\<lparr>fwd := f, back_p := b\<rparr>)" "length f = length (fwd n)"
    using data_eq_SomeD [OF assms] by blast
  then show ?thesis
    by (intro that [OF h'(1)]) (simp_all add: last_key_def first_key_def node_ok_def)
qed

text \<open>States that differ in links, heads and height only.\<close>

definition relinked :: "skiparray \<Rightarrow> skiparray \<Rightarrow> bool" where
  "relinked sa sa' \<longleftrightarrow>
     same_env sa sa' \<and> mst sa' = mst sa \<and> prng_state sa' = prng_state sa \<and>
     length (nodes sa') = length (nodes sa) \<and> data_eq (heap sa) (heap sa')"

lemma relinked_refl [simp]: "relinked sa sa"
  by (simp add: relinked_def)

lemma relinked_trans: "relinked sa sb \<Longrightarrow> relinked sb sc \<Longrightarrow> relinked sa sc"
  unfolding relinked_def using same_env_trans data_eq_trans by metis

lemma relinkedD:
  assumes "relinked sa sa'"
  shows "same_env sa sa'" "mst sa' = mst sa" "prng_state sa' = prng_state sa"
    "length (nodes sa') = length (nodes sa)" "data_eq (heap sa) (heap sa')"
    "node_size sa' = node_size sa" "max_level sa' = max_level sa" "use_values sa' = use_values sa"
    "cmp sa' = cmp sa"
  using assms by (auto simp: relinked_def same_env_def)

text \<open>The live blocks that are not the skiparray's own.\<close>

abbreviation foreign :: "skiparray \<Rightarrow> addr list \<Rightarrow> addr list \<Rightarrow> addr set" where
  "foreign sa ns its \<equiv> set (live (mst sa)) - set (blocks sa ns its)"

section \<open>The writes\<close>

lemma set_fwd_effect:
  assumes "heap sa a = Some n" "l < length (fwd n)"
  obtains sa' where "set_fwd sa a l p = Some sa'" "relinked sa sa'" "nodes sa' = nodes sa"
    "sa_height sa' = sa_height sa" "back_at (heap sa') = back_at (heap sa)"
    "\<And>b k. fwd_at (heap sa') b k = (if b = a \<and> k = l then p else fwd_at (heap sa) b k)"
proof (rule that)
  let ?sa = "set_node sa a (n\<lparr>fwd := (fwd n)[l := p]\<rparr>)"
  show "set_fwd sa a l p = Some ?sa" using assms by (simp add: set_fwd_def)
  have n: "n\<lparr>fwd := (fwd n)[l := p]\<rparr> = n\<lparr>fwd := (fwd n)[l := p], back_p := back_p n\<rparr>" by simp
  have "data_eq (heap sa) (heap ?sa)"
  proof (rule data_eqI)
    fix b m assume b: "heap sa b = Some m"
    show "\<exists>f c. heap ?sa b = Some (m\<lparr>fwd := f, back_p := c\<rparr>) \<and> length f = length (fwd m)"
    proof (cases "b = a")
      case True
      with b assms n show ?thesis by (metis fun_upd_same length_list_update option.inject set_node_simps(15))
    next
      case False
      with b show ?thesis by (intro data_eq_same) simp
    qed
  qed (use assms in auto)
  then show "relinked sa ?sa" by (simp add: relinked_def)
  show "back_at (heap ?sa) = back_at (heap sa)" using assms by (intro ext) (simp add: chain at_Some)
  show "fwd_at (heap ?sa) b k = (if b = a \<and> k = l then p else fwd_at (heap sa) b k)" for b k
    using assms by (auto simp: chain fwd_at_def)
qed simp_all

lemma set_back_effect:
  assumes "heap sa a = Some n"
  obtains sa' where "set_back sa a p = Some sa'" "relinked sa sa'" "nodes sa' = nodes sa"
    "sa_height sa' = sa_height sa" "fwd_at (heap sa') = fwd_at (heap sa)"
    "back_at (heap sa') = (back_at (heap sa))(a := p)"
proof (rule that)
  let ?sa = "set_node sa a (n\<lparr>back_p := p\<rparr>)"
  show "set_back sa a p = Some ?sa" using assms by (simp add: set_back_def)
  have n: "n\<lparr>back_p := p\<rparr> = n\<lparr>fwd := fwd n, back_p := p\<rparr>" by simp
  have "data_eq (heap sa) (heap ?sa)"
  proof (rule data_eqI)
    fix b m assume b: "heap sa b = Some m"
    show "\<exists>f c. heap ?sa b = Some (m\<lparr>fwd := f, back_p := c\<rparr>) \<and> length f = length (fwd m)"
    proof (cases "b = a")
      case True
      with b assms n show ?thesis by (metis fun_upd_same option.inject set_node_simps(15))
    next
      case False
      with b show ?thesis by (intro data_eq_same) simp
    qed
  qed (use assms in auto)
  then show "relinked sa ?sa" by (simp add: relinked_def)
  show "fwd_at (heap ?sa) = fwd_at (heap sa)" using assms by (intro ext) (simp add: chain fwd_at_def)
  show "back_at (heap ?sa) = (back_at (heap sa))(a := p)" using assms by (intro ext) (simp add: chain)
qed simp_all

lemma set_head_effect:
  assumes "l < length (nodes sa)"
  obtains sa' where "set_head sa l p = Some sa'" "relinked sa sa'" "nodes sa' = (nodes sa)[l := p]"
    "sa_height sa' = sa_height sa" "heap sa' = heap sa"
  using assms by (intro that [of "sa\<lparr>nodes := (nodes sa)[l := p]\<rparr>"]) (simp_all add: set_head_def relinked_def)

text \<open>The same, when the write is known to succeed.\<close>

lemma set_fwd_Some: "heap sa a = Some n \<Longrightarrow> l < length (fwd n) \<Longrightarrow> \<exists>sa'. set_fwd sa a l p = Some sa'"
  by (simp add: set_fwd_def)

lemma set_fwdD:
  assumes "set_fwd sa a l p = Some sa'"
  shows "relinked sa sa'" "nodes sa' = nodes sa" "sa_height sa' = sa_height sa"
    "back_at (heap sa') = back_at (heap sa)"
    "fwd_at (heap sa') b k = (if b = a \<and> k = l then p else fwd_at (heap sa) b k)"
proof -
  obtain n where "heap sa a = Some n" "l < length (fwd n)"
    using assms by (auto simp: set_fwd_def wr_def bind_eq_Some_conv split: if_splits)
  then obtain s where "set_fwd sa a l p = Some s" "relinked sa s" "nodes s = nodes sa" "sa_height s = sa_height sa"
    "back_at (heap s) = back_at (heap sa)"
    "\<And>b k. fwd_at (heap s) b k = (if b = a \<and> k = l then p else fwd_at (heap sa) b k)"
    using set_fwd_effect by metis
  with assms show "relinked sa sa'" "nodes sa' = nodes sa" "sa_height sa' = sa_height sa"
    "back_at (heap sa') = back_at (heap sa)"
    "fwd_at (heap sa') b k = (if b = a \<and> k = l then p else fwd_at (heap sa) b k)" by auto
qed

lemma set_headD:
  assumes "set_head sa l p = Some sa'"
  shows "relinked sa sa'" "nodes sa' = (nodes sa)[l := p]" "sa_height sa' = sa_height sa" "heap sa' = heap sa"
  using assms by (auto simp: set_head_def wr_def relinked_def split: if_splits)

lemma get_fwd_at:
  "heap sa a = Some n \<Longrightarrow> l < length (fwd n) \<Longrightarrow> get_fwd sa a l = Some (fwd_at (heap sa) a l)"
  by (simp add: get_fwd_def fwd_at_def)

section \<open>Inserting a node, level by level\<close>

text \<open>
  \<open>sa0\<close> is the state before linking, with the chains \<open>xs @ a # ys\<close>, and \<open>b\<close> the node to
  be put after \<open>a\<close>; in \<open>sa\<close> it is linked on the levels \<open>D\<close> and untouched on the others.
\<close>

definition inserting ::
  "skiparray \<Rightarrow> addr list \<Rightarrow> addr \<Rightarrow> addr \<Rightarrow> addr list \<Rightarrow> nat set \<Rightarrow> skiparray \<Rightarrow> bool" where
  "inserting sa0 xs a b ys D sa \<longleftrightarrow>
     relinked sa0 sa \<and> back_at (heap sa) = back_at (heap sa0) \<and>
     (\<forall>l < max_level sa0. linked (heap sa) (nodes sa) l (if l \<in> D then xs @ a # b # ys else xs @ a # ys)) \<and>
     (\<forall>l. l \<notin> D \<longrightarrow> fwd_at (heap sa) b l = None)"

text \<open>The nodes and keys the insertion walks over.\<close>

definition insert_ctx :: "skiparray \<Rightarrow> addr list \<Rightarrow> addr \<Rightarrow> addr \<Rightarrow> addr list \<Rightarrow> voidp \<Rightarrow> bool" where
  "insert_ctx sa0 xs a b ys fk \<longleftrightarrow>
     cfg_ok sa0 \<and> distinct (xs @ a # b # ys) \<and>
     (\<forall>c \<in> set (xs @ a # b # ys). \<exists>n. heap sa0 c = Some n \<and>
        node_ok (node_size sa0) (use_values sa0) n \<and> 0 < count n \<and> height n \<le> max_level sa0) \<and>
     (\<forall>n. heap sa0 b = Some n \<longrightarrow> first_key n = Some fk) \<and>
     (\<forall>c \<in> set xs. \<forall>n. heap sa0 c = Some n \<longrightarrow> 0 < call_cmp sa0 fk (last (node_keys n))) \<and>
     (\<forall>c \<in> set ys. \<forall>n. heap sa0 c = Some n \<longrightarrow> call_cmp sa0 fk (last (node_keys n)) < 0) \<and>
     (\<forall>l < max_level sa0. l < sa_height sa0 \<longleftrightarrow> nxt (heap sa0) l (xs @ a # ys) \<noteq> None)"

text \<open>The part of it that does not speak of keys.\<close>

definition link_ctx :: "skiparray \<Rightarrow> addr list \<Rightarrow> addr \<Rightarrow> addr \<Rightarrow> addr list \<Rightarrow> bool" where
  "link_ctx sa0 xs a b ys \<longleftrightarrow>
     cfg_ok sa0 \<and> distinct (xs @ a # b # ys) \<and>
     (\<forall>c \<in> set (xs @ a # b # ys). \<exists>n. heap sa0 c = Some n \<and>
        node_ok (node_size sa0) (use_values sa0) n \<and> height n \<le> max_level sa0) \<and>
     (\<forall>l < max_level sa0. l < sa_height sa0 \<longleftrightarrow> nxt (heap sa0) l (xs @ a # ys) \<noteq> None)"

lemma link_ctxD:
  assumes "link_ctx sa0 xs a b ys"
  shows "cfg_ok sa0" "distinct (xs @ a # b # ys)"
    "l < max_level sa0 \<Longrightarrow> l < sa_height sa0 \<longleftrightarrow> nxt (heap sa0) l (xs @ a # ys) \<noteq> None"
  using assms by (auto simp: link_ctx_def)

lemma insert_link_ctx: "insert_ctx sa0 xs a b ys fk \<Longrightarrow> link_ctx sa0 xs a b ys"
  unfolding insert_ctx_def link_ctx_def by blast

lemma link_ctx_node:
  assumes c: "link_ctx sa0 xs a b ys" and r: "relinked sa0 sa" and x: "x \<in> set (xs @ a # b # ys)"
  obtains n where "heap sa x = Some n" "length (fwd n) = ht (heap sa0) x" "1 \<le> ht (heap sa0) x"
    "ht (heap sa0) x \<le> max_level sa0" "height n = ht (heap sa0) x"
proof -
  obtain n where n: "heap sa0 x = Some n" "node_ok (node_size sa0) (use_values sa0) n"
    "height n \<le> max_level sa0" using c x unfolding link_ctx_def by blast
  obtain n' where "heap sa x = Some n'" "height n' = height n" "length (fwd n') = length (fwd n)"
    using data_eq_node [OF relinkedD(5) [OF r] n(1)] by metis
  with n node_okD(5,6) [OF n(2)] show ?thesis by (intro that [of n']) (auto simp: at_Some)
qed

lemma insert_ctxD:
  assumes "insert_ctx sa0 xs a b ys fk"
  shows "cfg_ok sa0" "distinct (xs @ a # b # ys)" "distinct (xs @ a # ys)"
  using assms by (auto simp: insert_ctx_def)

lemma insert_ctx_node:
  assumes c: "insert_ctx sa0 xs a b ys fk" and r: "relinked sa0 sa" and x: "x \<in> set (xs @ a # b # ys)"
  obtains n where "heap sa x = Some n" "0 < count n" "length (fwd n) = ht (heap sa0) x"
    "last_key n = Some (last (node_keys n))" "1 \<le> ht (heap sa0) x" "ht (heap sa0) x \<le> max_level sa0"
    "x = b \<Longrightarrow> first_key n = Some fk" "x \<in> set xs \<Longrightarrow> 0 < call_cmp sa0 fk (last (node_keys n))"
    "x \<in> set ys \<Longrightarrow> call_cmp sa0 fk (last (node_keys n)) < 0" "height n = ht (heap sa0) x"
proof -
  obtain n where n: "heap sa0 x = Some n" "node_ok (node_size sa0) (use_values sa0) n" "0 < count n"
    "height n \<le> max_level sa0" using c x unfolding insert_ctx_def by blast
  obtain n' where n': "heap sa x = Some n'" "count n' = count n" "node_keys n' = node_keys n"
    "last_key n' = last_key n" "first_key n' = first_key n" "height n' = height n"
    "length (fwd n') = length (fwd n)"
    using data_eq_node [OF relinkedD(5) [OF r] n(1)] by metis
  show ?thesis
  proof (rule that [OF n'(1)])
    show "last_key n' = Some (last (node_keys n'))" using last_key_ok [OF n(2,3)] n' by simp
    show "x = b \<Longrightarrow> first_key n' = Some fk" using c n(1) n'(5) by (auto simp: insert_ctx_def)
    show "x \<in> set xs \<Longrightarrow> 0 < call_cmp sa0 fk (last (node_keys n'))"
      using c n(1) n'(3) by (auto simp: insert_ctx_def)
    show "x \<in> set ys \<Longrightarrow> call_cmp sa0 fk (last (node_keys n')) < 0"
      using c n(1) n'(3) by (auto simp: insert_ctx_def)
  qed (use n n' node_okD(5,6) [OF n(2)] in \<open>auto simp: at_Some\<close>)
qed

lemma insertingD:
  assumes "inserting sa0 xs a b ys D sa"
  shows "relinked sa0 sa" "back_at (heap sa) = back_at (heap sa0)"
    "l < max_level sa0 \<Longrightarrow> l \<notin> D \<Longrightarrow> linked (heap sa) (nodes sa) l (xs @ a # ys)"
    "l < max_level sa0 \<Longrightarrow> l \<in> D \<Longrightarrow> linked (heap sa) (nodes sa) l (xs @ a # b # ys)"
    "l \<notin> D \<Longrightarrow> fwd_at (heap sa) b l = None"
  using assms by (auto simp: inserting_def split: if_splits)

text \<open>Linking \<open>b\<close> on one more level, as the state in which that level's pointers are right.\<close>

lemma inserting_level:
  assumes d: "distinct (xs @ a # b # ys)" and i: "inserting sa0 xs a b ys D sa"
    and l: "l \<notin> D" "l < max_level sa0" "l < ht (heap sa0) b"
    and r: "relinked sa sa'" "back_at (heap sa') = back_at (heap sa)"
    and b: "fwd_at (heap sa') b l = nxt (heap sa0) l ys"
    and p: "\<And>x. x \<noteq> b \<Longrightarrow> fwd_at (heap sa') x l =
        (if prv (heap sa0) l (xs @ [a]) = Some x then Some b else fwd_at (heap sa) x l)"
    and h: "nodes sa' ! l = (if prv (heap sa0) l (xs @ [a]) = None then Some b else nodes sa ! l)"
    and o: "\<And>x k. k \<noteq> l \<Longrightarrow> fwd_at (heap sa') x k = fwd_at (heap sa) x k"
      "\<And>k. k \<noteq> l \<Longrightarrow> nodes sa' ! k = nodes sa ! k"
  shows "inserting sa0 xs a b ys (insert l D) sa'"
proof -
  note de = relinkedD(5) [OF insertingD(1) [OF i]] and de' = relinkedD(5) [OF r(1)]
  have hts: "ht (heap sa') = ht (heap sa)" "ht (heap sa) = ht (heap sa0)" using data_eq_at(1) de de' by auto
  have np: "nxt (heap sa) = nxt (heap sa0)" "prv (heap sa) = prv (heap sa0)"
    using data_eq_nxt [OF de] data_eq_prv [OF de] by auto
  have "linked (heap sa') (nodes sa') l ((xs @ [a]) @ b # ys)"
  proof (rule linked_insert)
    show "linked (heap sa) (nodes sa) l ((xs @ [a]) @ ys)" using insertingD(3) [OF i l(2,1)] by simp
    show "fwd_at (heap sa') x l = fwd_at (heap sa) x l" if "x \<in> set ys" for x
    proof -
      have "x \<noteq> b" "prv (heap sa0) l (xs @ [a]) \<noteq> Some x"
        using that d prv_SomeD [of "heap sa0" l "xs @ [a]" x] by auto
      then show ?thesis using p by simp
    qed
    show "fwd_at (heap sa') x l = (if prv (heap sa) l (xs @ [a]) = Some x then Some b else fwd_at (heap sa) x l)"
      if "x \<in> set (xs @ [a])" for x
    proof -
      from that d have "x \<noteq> b" by auto
      with p show ?thesis by (simp add: np)
    qed
  qed (use d hts l b h np in simp_all)
  then have "linked (heap sa') (nodes sa') k (if k \<in> insert l D then xs @ a # b # ys else xs @ a # ys)"
    if k: "k < max_level sa0" for k
  proof (cases "k = l")
    case False
    have "linked (heap sa) (nodes sa) k (if k \<in> D then xs @ a # b # ys else xs @ a # ys)"
      using i k by (simp add: inserting_def)
    then have "linked (heap sa') (nodes sa') k (if k \<in> D then xs @ a # b # ys else xs @ a # ys)"
      by (rule linked_cong) (use o False hts in simp_all)
    with False show ?thesis by simp
  qed simp
  then show ?thesis
    using i relinked_trans [OF insertingD(1) [OF i] r(1)] r(2) o(1)
    unfolding inserting_def by simp
qed

end
