(* ===== verification/Split.thy ===== *)
theory Split
  imports Links
begin

text \<open>
  Splitting a full node (\<^verbatim>\<open>split_node\<close>) and linking the new node into the chains of all its
  levels (the middle of \<^verbatim>\<open>skiparray_set_with_pair\<close>), both of \<open>src/skiparray.c\<close>.
\<close>

section \<open>Definitions\<close>

text \<open>The conversion of the level callback's \<^verbatim>\<open>int\<close>, plus 1, to \<^verbatim>\<open>uint8_t\<close>.\<close>

definition to_u8 :: "int \<Rightarrow> nat" where
  "to_u8 i = nat (i mod 2 ^ 8)"

text \<open>A random height for a new node, and the generator's next state.\<close>

definition draw_level :: "skiparray \<Rightarrow> nat \<times> 64 word" where
  "draw_level sa =
     (let (l, g) = snd (level sa) (prng_state sa);
          lv = to_u8 (l + 1)
      in (if max_level sa \<le> lv then u8 (max_level sa + 2 ^ 8 - 1) else lv, g))"

definition split_node :: "skiparray \<Rightarrow> addr \<Rightarrow> (addr option \<times> skiparray) option" where
  "split_node sa a = do {
     let (lv, g) = draw_level sa;
     (r, m) \<leftarrow> node_alloc (u8 (lv + 1)) (node_size sa) (snd (mem sa)) (use_values sa) (mst sa);
     let sa1 = sa\<lparr>prng_state := g, mst := m\<rparr>;
     (case r of
        None \<Rightarrow> Some (None, sa1)
      | Some (b, bn) \<Rightarrow> do {
          n \<leftarrow> heap sa a;
          let to_move = count n div 2;
          assert_c (0 < to_move);
          let new = bn\<lparr>offset := 0\<rparr>;
          ks \<leftarrow> memcpy_c (keys new) (offset new) (keys n) (offset n + count n - to_move) to_move;
          vs \<leftarrow> (if use_values sa
                  then (case (vals new, vals n) of
                      (Some v, Some w) \<Rightarrow>
                        map_option Some (memcpy_c v (offset new) w (offset n + count n - to_move) to_move)
                    | _ \<Rightarrow> None)
                  else Some (vals new));
          Some (Some b, sa1\<lparr>heap := (heap sa)
            (a \<mapsto> n\<lparr>count := u16_dec (count n) to_move\<rparr>,
             b \<mapsto> new\<lparr>keys := ks, vals := vs, count := u16 (count new + to_move), back_p := Some a\<rparr>)\<rparr>)
        })
   }"

text \<open>The inner \<^verbatim>\<open>for (;;)\<close> loop on one level above the split node; its variables are cur, prev and
  the state, and it leaves with cur and prev.\<close>

definition walk_step :: "addr \<Rightarrow> nat \<Rightarrow> addr \<times> addr option \<times> skiparray \<Rightarrow>
    (addr \<times> addr option \<times> skiparray + addr option \<times> addr option \<times> skiparray) option" where
  "walk_step b lev = (\<lambda>(cur, prev, sa). do {
     cn \<leftarrow> heap sa cur;
     assert_c (0 < count cn);
     bn \<leftarrow> heap sa b;
     fk \<leftarrow> first_key bn;
     lk \<leftarrow> last_key cn;
     let res = call_cmp sa fk lk;
     (if res < 0 then do {
        sa' \<leftarrow> (if prev = None then do {
                   hd \<leftarrow> get_head sa lev;
                   sa1 \<leftarrow> set_fwd sa b lev hd;
                   set_head sa1 lev (Some b)
                 } else Some sa);
        Some (Inr (prev, prev, sa'))
      } else if 0 < res then do {
        nx \<leftarrow> get_fwd sa cur lev;
        (case nx of
           None \<Rightarrow> do { sa' \<leftarrow> set_fwd sa cur lev (Some b); Some (Inr (Some cur, Some cur, sa')) }
         | Some x \<Rightarrow> Some (Inl (x, Some cur, sa)))
      } else None)
   })"

text \<open>The links written after it, when there is a preceding node.\<close>

definition link_level :: "addr \<Rightarrow> nat \<Rightarrow> addr option \<Rightarrow> skiparray \<Rightarrow> skiparray option" where
  "link_level b lev prev sa =
     (case prev of
        None \<Rightarrow> Some sa
      | Some p \<Rightarrow> do {
          pf \<leftarrow> get_fwd sa p lev;
          sa1 \<leftarrow> (if pf \<noteq> Some b then set_fwd sa b lev pf else Some sa);
          sa2 \<leftarrow> set_fwd sa1 p lev (Some b);
          bf \<leftarrow> get_fwd sa2 b lev;
          (case bf of
             None \<Rightarrow> Some sa2
           | Some x \<Rightarrow> do { xn \<leftarrow> heap sa2 x; assert_c (lev < height xn); Some sa2 })
        })"

text \<open>The levels from the new node's top down to the split node's height.\<close>

definition tall_step :: "addr \<Rightarrow> addr \<Rightarrow> nat \<times> addr option \<times> addr option \<times> skiparray \<Rightarrow>
    (nat \<times> addr option \<times> addr option \<times> skiparray + skiparray) option" where
  "tall_step a b = (\<lambda>(lev, cur, prev, sa). do {
     n \<leftarrow> heap sa a;
     (if height n \<le> lev then
        (if sa_height sa < lev then Some (Inl (lev - 1, cur, prev, sa))
         else do {
           cur1 \<leftarrow> (if cur = None then get_head sa lev else Some cur);
           (case cur1 of
              None \<Rightarrow> Some (Inl (lev - 1, None, prev, sa))
            | Some c \<Rightarrow> do {
                (cur2, prev2, sa2) \<leftarrow> loop_c (walk_step b lev) (c, prev, sa);
                sa3 \<leftarrow> link_level b lev prev2 sa2;
                Some (Inl (lev - 1, cur2, prev2, sa3))
              })
         })
      else Some (Inr sa))
   })"

text \<open>\<^verbatim>\<open>while (new->height > sa->height)\<close>.\<close>

definition raise_step :: "addr \<Rightarrow> skiparray \<Rightarrow> (skiparray + skiparray) option" where
  "raise_step b sa = do {
     bn \<leftarrow> heap sa b;
     (if sa_height sa < height bn then do {
        sa1 \<leftarrow> set_head sa (sa_height sa) (Some b);
        Some (Inl (sa1\<lparr>sa_height := u8 (sa_height sa + 1)\<rparr>))
      } else Some (Inr sa))
   }"

text \<open>The levels both nodes have.\<close>

definition common_step :: "addr \<Rightarrow> addr \<Rightarrow> nat \<Rightarrow> nat \<times> skiparray \<Rightarrow> (nat \<times> skiparray + skiparray) option" where
  "common_step a b common = (\<lambda>(i, sa).
     (if i < common then do {
        f \<leftarrow> get_fwd sa a i;
        sa1 \<leftarrow> set_fwd sa b i f;
        sa2 \<leftarrow> set_fwd sa1 a i (Some b);
        Some (Inl (i + 1, sa2))
      } else Some (Inr sa)))"

definition link_split :: "skiparray \<Rightarrow> addr \<Rightarrow> addr \<Rightarrow> skiparray option" where
  "link_split sa a b = do {
     f0 \<leftarrow> get_fwd sa a 0;
     sa1 \<leftarrow> (case f0 of None \<Rightarrow> Some sa | Some x \<Rightarrow> set_back sa x (Some b));
     n \<leftarrow> heap sa1 a;
     bn \<leftarrow> heap sa1 b;
     sa2 \<leftarrow> loop_c (tall_step a b) (height bn - 1, None, None, sa1);
     sa3 \<leftarrow> loop_c (raise_step b) sa2;
     loop_c (common_step a b (if height n < height bn then height n else height bn)) (0, sa3)
   }"

section \<open>The walk on one level\<close>

lemma chain_mem:
  assumes "linked h hs l (xs @ a # ys)" "distinct (xs @ a # ys)" "\<not> l < ht h a" "x \<in> set xs" "l < ht h x"
  shows "fwd_at h x l = nxt h l (after x xs @ ys)"
  using linked_fwdD [OF assms(1), of x] assms(2-5) by (simp add: chain nxt_append split: option.splits)

text \<open>What the walk on level \<open>lev\<close> keeps.\<close>

definition walk_inv :: "skiparray \<Rightarrow> addr list \<Rightarrow> addr list \<Rightarrow> nat \<Rightarrow> skiparray \<Rightarrow> addr \<times> addr option \<times> skiparray \<Rightarrow> bool" where
  "walk_inv sa0 xs ys lev sa = (\<lambda>(c, prev, s).
     s = sa \<and> lev < ht (heap sa0) c \<and>
     (c \<in> set xs \<or> c \<in> set ys \<and> nxt (heap sa0) lev ys = Some c \<and> prev = prv (heap sa0) lev xs))"

text \<open>What it leaves: the preceding node on the level, and either the new node at the head, or
  after the preceding node, or not yet linked.\<close>

definition walk_post :: "skiparray \<Rightarrow> addr list \<Rightarrow> addr \<Rightarrow> addr list \<Rightarrow> nat \<Rightarrow> skiparray \<Rightarrow>
    addr option \<times> addr option \<times> skiparray \<Rightarrow> bool" where
  "walk_post sa0 xs b ys lev sa = (\<lambda>(cur, prev, s).
     cur = prev \<and> prev = prv (heap sa0) lev xs \<and>
     (case prev of
        None \<Rightarrow> (\<exists>s1. set_fwd sa b lev (nodes sa ! lev) = Some s1 \<and> set_head s1 lev (Some b) = Some s)
      | Some p \<Rightarrow> s = sa \<or> nxt (heap sa0) lev ys = None \<and> set_fwd sa p lev (Some b) = Some s))"

lemma walk_level:
  assumes c: "insert_ctx sa0 xs a b ys fk" and i: "inserting sa0 xs a b ys D sa"
    and l: "lev \<notin> D" "lev < max_level sa0" "lev < ht (heap sa0) b" "ht (heap sa0) a \<le> lev"
    and I: "walk_inv sa0 xs ys lev sa s0"
  shows "\<exists>r. loop_c (walk_step b lev) s0 = Some r \<and> walk_post sa0 xs b ys lev sa r"
proof (rule loop_c_rule [where I = "walk_inv sa0 xs ys lev sa" and V = "\<lambda>(c, p, s). length (after c (xs @ a # ys))"])
  fix t assume t: "walk_inv sa0 xs ys lev sa t"
  obtain x prev where e: "t = (x, prev, sa)" and x: "lev < ht (heap sa0) x"
    "x \<in> set xs \<or> x \<in> set ys \<and> nxt (heap sa0) lev ys = Some x \<and> prev = prv (heap sa0) lev xs"
    using t by (cases t) (auto simp: walk_inv_def)
  note r = insertingD(1) [OF i]
  note d = insert_ctxD(2,3) [OF c]
  have lk: "linked (heap sa) (nodes sa) lev (xs @ a # ys)" using insertingD(3) [OF i l(2,1)] .
  note np = data_eq_nxt [OF relinkedD(5) [OF r]] data_eq_prv [OF relinkedD(5) [OF r]]
    data_eq_at(1) [OF relinkedD(5) [OF r]]
  obtain bn where bn: "heap sa b = Some bn" "first_key bn = Some fk" "length (fwd bn) = ht (heap sa0) b"
    using insert_ctx_node [OF c r, of b] by auto
  have nodes: "length (nodes sa) = max_level sa0"
    using relinkedD(4) [OF r] cfg_okD(7) [OF insert_ctxD(1) [OF c]] by simp
  have cmpe: "call_cmp sa = call_cmp sa0" using relinkedD(9) [OF r] by simp
  show "(\<exists>s'. walk_step b lev t = Some (Inl s') \<and> walk_inv sa0 xs ys lev sa s' \<and>
        (case s' of (c, p, s) \<Rightarrow> length (after c (xs @ a # ys))) <
        (case t of (c, p, s) \<Rightarrow> length (after c (xs @ a # ys)))) \<or>
      (\<exists>r. walk_step b lev t = Some (Inr r) \<and> walk_post sa0 xs b ys lev sa r)"
  proof (cases "x \<in> set xs")
    case True
    obtain n where n: "heap sa x = Some n" "0 < count n" "length (fwd n) = ht (heap sa0) x"
      "last_key n = Some (last (node_keys n))" "0 < call_cmp sa0 fk (last (node_keys n))"
      using insert_ctx_node [OF c r, of x] True by auto
    have f: "get_fwd sa x lev = Some (nxt (heap sa0) lev (after x xs @ ys))"
      using get_fwd_at [of sa x n lev] chain_mem [OF lk d(2) _ True] n x(1) l(4) by (simp add: np)
    show ?thesis
    proof (cases "nxt (heap sa0) lev (after x xs @ ys)")
      case None
      have "prv (heap sa0) lev xs = Some x" "nxt (heap sa0) lev ys = None"
        using None True x(1) d prv_iff [of xs "heap sa0" lev x] by (auto simp: nxt_append split: option.splits)
      moreover obtain sa' where "set_fwd sa x lev (Some b) = Some sa'"
        using set_fwd_Some [OF n(1), of lev "Some b"] n(3) x(1) by auto
      ultimately show ?thesis using e n bn f None cmpe by (simp add: walk_step_def walk_post_def)
    next
      case (Some z)
      have z: "z \<in> set xs \<or> z \<in> set ys \<and> nxt (heap sa0) lev ys = Some z \<and> prv (heap sa0) lev xs = Some x"
        using Some True x(1) d prv_iff [of xs "heap sa0" lev x] set_after [of x xs]
        by (auto simp: nxt_append split: option.splits dest: nxt_SomeD)
      obtain us vs where uv: "after x xs @ ys = us @ z # vs" using nxt_Some_split [OF Some] by blast
      have zl: "lev < ht (heap sa0) z" using nxt_SomeD [OF Some] by simp
      have "length (after z (xs @ a # ys)) < length (after x (xs @ a # ys))"
      proof -
        obtain ws where ws: "xs = ws @ x # after x xs" using split_at [OF True] by blast
        define rest where "rest = after x xs"
        have e': "xs @ a # ys = (ws @ [x]) @ rest @ a # ys" using ws rest_def by simp
        have zin: "z \<in> set (rest @ a # ys)" using nxt_SomeD [OF Some] by (auto simp: rest_def)
        have zn: "z \<notin> set (ws @ [x])" using zin d(2) unfolding e' by auto
        have "after z (xs @ a # ys) = after z (rest @ a # ys)" unfolding e' using zn by (subst after_notin) auto
        moreover have "after x (xs @ a # ys) = rest @ a # ys" using True by (simp add: chain rest_def)
        moreover obtain us' where "rest @ a # ys = us' @ z # after z (rest @ a # ys)" using split_at [OF zin] by blast
        ultimately show ?thesis by (metis length_append length_Cons less_add_Suc2 add.commute add_Suc_right less_add_Suc1)
      qed
      then show ?thesis using e n bn f Some cmpe z zl by (auto simp: walk_step_def walk_inv_def)
    qed
  next
    case False
    with x have y: "x \<in> set ys" "nxt (heap sa0) lev ys = Some x" "prev = prv (heap sa0) lev xs" by auto
    obtain n where n: "heap sa x = Some n" "0 < count n"
      "last_key n = Some (last (node_keys n))" "call_cmp sa0 fk (last (node_keys n)) < 0"
      using insert_ctx_node [OF c r, of x] y(1) by auto
    show ?thesis
    proof (cases prev)
      case None
      obtain s1 where s1: "set_fwd sa b lev (nodes sa ! lev) = Some s1" "nodes s1 = nodes sa"
        using set_fwd_Some [OF bn(1), of lev "nodes sa ! lev"] bn(3) l(3) set_fwdD(2) by auto
      obtain s2 where "set_head s1 lev (Some b) = Some s2"
        using set_head_effect [of lev s1 "Some b"] s1 nodes l(2) by auto
      with s1 None y e n bn cmpe nodes l(2) show ?thesis
        by (simp add: walk_step_def walk_post_def get_head_def)
    next
      case (Some p)
      have "walk_step b lev t = Some (Inr (Some p, Some p, sa))"
        using e n bn cmpe Some by (simp add: walk_step_def)
      moreover have "walk_post sa0 xs b ys lev sa (Some p, Some p, sa)"
        using Some y(3) by (simp add: walk_post_def)
      ultimately show ?thesis by blast
    qed
  qed
qed (rule I)


lemma link_level_correct:
  assumes c: "insert_ctx sa0 xs a b ys fk" and i: "inserting sa0 xs a b ys D sa"
    and l: "lev \<notin> D" "lev < max_level sa0" "lev < ht (heap sa0) b" "ht (heap sa0) a \<le> lev"
    and w: "walk_post sa0 xs b ys lev sa (cur, prev, s)"
  shows "\<exists>s'. link_level b lev prev s = Some s' \<and> inserting sa0 xs a b ys (insert lev D) s' \<and>
    sa_height s' = sa_height sa"
proof -
  note r = insertingD(1) [OF i]
  note d = insert_ctxD(2,3) [OF c]
  have lk: "linked (heap sa) (nodes sa) lev (xs @ a # ys)" using insertingD(3) [OF i l(2,1)] .
  note np = data_eq_nxt [OF relinkedD(5) [OF r]] data_eq_prv [OF relinkedD(5) [OF r]]
    data_eq_at(1) [OF relinkedD(5) [OF r]]
  obtain bn where bn: "heap sa b = Some bn" "length (fwd bn) = ht (heap sa0) b"
    using insert_ctx_node [OF c r, of b] by auto
  have nodes: "length (nodes sa) = max_level sa0"
    using relinkedD(4) [OF r] cfg_okD(7) [OF insert_ctxD(1) [OF c]] by simp
  have pa: "prv (heap sa0) lev (xs @ [a]) = prev" "prev = prv (heap sa0) lev xs"
    using l(4) w by (auto simp: prv_snoc walk_post_def)
  show ?thesis
  proof (cases prev)
    case None
    obtain s1 where s1: "set_fwd sa b lev (nodes sa ! lev) = Some s1" "set_head s1 lev (Some b) = Some s"
      using w None by (auto simp: walk_post_def)
    note e1 = set_fwdD [OF s1(1)] and e2 = set_headD [OF s1(2)]
    have "nxt (heap sa0) lev xs = None" using None pa(2) by (simp add: prv_None nxt_None)
    then have "nodes sa ! lev = nxt (heap sa0) lev ys"
      using linked_headD [OF lk] l(4) by (simp add: nxt_append np)
    then have "inserting sa0 xs a b ys (insert lev D) s"
      by (intro inserting_level [OF insert_ctxD(2) [OF c] i l(1-3) relinked_trans [OF e1(1) e2(1)]])
        (use None pa e1 e2 nodes l(2) in auto)
    with None e1 e2 show ?thesis by (simp add: link_level_def)
  next
    case (Some p)
    have p: "p \<in> set xs" "lev < ht (heap sa0) p" "nxt (heap sa0) lev (after p xs) = None" "p \<noteq> b"
      using Some pa(2) d prv_iff [of xs "heap sa0" lev p] by auto
    obtain pn where pn: "heap sa p = Some pn" "length (fwd pn) = ht (heap sa0) p"
      using insert_ctx_node [OF c r, of p] p(1) by auto
    have f: "fwd_at (heap sa) p lev = nxt (heap sa0) lev ys"
      using chain_mem [OF lk d(2) _ p(1)] p l(4) by (simp add: np nxt_append)
    have nb: "nxt (heap sa0) lev ys \<noteq> Some b" using d(1) nxt_SomeD [of "heap sa0" lev ys b] by auto
    have bN: "fwd_at (heap sa) b lev = None" using insertingD(5) [OF i l(1)] .
    show ?thesis
    proof (cases "s = sa")
      case True
      obtain s1 where s1: "set_fwd sa b lev (nxt (heap sa0) lev ys) = Some s1"
        using set_fwd_Some [OF bn(1)] bn(2) l(3) by metis
      note e1 = set_fwdD [OF s1]
      obtain p1 where p1: "heap s1 p = Some p1" "length (fwd p1) = ht (heap sa0) p"
        using insert_ctx_node [OF c relinked_trans [OF r e1(1)], of p] p(1) by auto
      obtain s2 where s2: "set_fwd s1 p lev (Some b) = Some s2" using set_fwd_Some [OF p1(1)] p1(2) p(2) by metis
      note e2 = set_fwdD [OF s2]
      have ins: "inserting sa0 xs a b ys (insert lev D) s2"
        by (intro inserting_level [OF insert_ctxD(2) [OF c] i l(1-3) relinked_trans [OF e1(1) e2(1)]])
          (use Some pa e1 e2 p in auto)
      obtain b2 where b2: "heap s2 b = Some b2" "length (fwd b2) = ht (heap sa0) b"
        using insert_ctx_node [OF c insertingD(1) [OF ins], of b] by auto
      have g: "get_fwd sa p lev = Some (nxt (heap sa0) lev ys)" "get_fwd s2 b lev = Some (nxt (heap sa0) lev ys)"
        using get_fwd_at [OF pn(1)] get_fwd_at [OF b2(1)] pn b2 p l(3) f e1 e2 by auto
      have "\<exists>xn. heap s2 x = Some xn \<and> lev < height xn" if z: "nxt (heap sa0) lev ys = Some x" for x
      proof -
        obtain xn where "heap s2 x = Some xn" "height xn = ht (heap sa0) x"
          using insert_ctx_node [OF c insertingD(1) [OF ins], of x] nxt_SomeD [OF z] by auto
        with nxt_SomeD [OF z] show ?thesis by auto
      qed
      then have "link_level b lev prev s = Some s2"
        using Some True g nb s1 s2 by (auto simp: link_level_def split: option.splits)
      with ins e1 e2 show ?thesis by simp
    next
      case False
      then have s1: "set_fwd sa p lev (Some b) = Some s" "nxt (heap sa0) lev ys = None"
        using w Some by (auto simp: walk_post_def)
      note e1 = set_fwdD [OF s1(1)]
      obtain p1 where p1: "heap s p = Some p1" "length (fwd p1) = ht (heap sa0) p"
        using insert_ctx_node [OF c relinked_trans [OF r e1(1)], of p] p(1) by auto
      obtain s2 where s2: "set_fwd s p lev (Some b) = Some s2" using set_fwd_Some [OF p1(1)] p1(2) p(2) by metis
      note e2 = set_fwdD [OF s2]
      have ins: "inserting sa0 xs a b ys (insert lev D) s2"
        by (intro inserting_level [OF insert_ctxD(2) [OF c] i l(1-3) relinked_trans [OF e1(1) e2(1)]])
          (use Some pa e1 e2 p bN s1(2) in auto)
      obtain b2 where b2: "heap s2 b = Some b2" "length (fwd b2) = ht (heap sa0) b"
        using insert_ctx_node [OF c insertingD(1) [OF ins], of b] by auto
      have g: "get_fwd s p lev = Some (Some b)" "get_fwd s2 b lev = Some None"
        using get_fwd_at [OF p1(1)] get_fwd_at [OF b2(1)] p1 b2 p l(3) bN e1 e2 by auto
      then have "link_level b lev prev s = Some s2" using Some s2 by (simp add: link_level_def)
      with ins e1 e2 show ?thesis by simp
    qed
  qed
qed


section \<open>The three loops\<close>

text \<open>The levels above the split node, as far as they are in use.\<close>

lemma tall_loop:
  assumes c: "insert_ctx sa0 xs a b ys fk" and k: "k \<le> max_level sa0" "k \<le> ht (heap sa0) b"
    and sa0: "1 \<le> ht (heap sa0) a"
    and i: "inserting sa0 xs a b ys {l. ht (heap sa0) a \<le> l \<and> k \<le> l \<and> l < ht (heap sa0) b \<and> l < sa_height sa0} sa"
    and h: "sa_height sa = sa_height sa0"
    and p: "\<And>q. prev = Some q \<Longrightarrow> q \<in> set xs \<and> k \<le> ht (heap sa0) q"
  shows "\<exists>s. loop_c (tall_step a b) (k - 1, prev, prev, sa) = Some s \<and> sa_height s = sa_height sa0 \<and>
    inserting sa0 xs a b ys {l. ht (heap sa0) a \<le> l \<and> l < ht (heap sa0) b \<and> l < sa_height sa0} s"
  using k i h p
proof (induction k arbitrary: prev sa)
  case 0
  then show ?case
  proof -
    obtain n where n: "heap sa a = Some n" "height n = ht (heap sa0) a"
      using insert_ctx_node [OF c insertingD(1) [OF 0(3)], of a] by auto
    then have "tall_step a b (0, prev, prev, sa) = Some (Inr sa)" using sa0 by (simp add: tall_step_def)
    with 0 show ?thesis by (simp add: loop_c_Inr)
  qed
next
  case (Suc k)
  let ?a = "ht (heap sa0) a" and ?b = "ht (heap sa0) b"
  let ?D = "\<lambda>k. {l. ?a \<le> l \<and> k \<le> l \<and> l < ?b \<and> l < sa_height sa0}"
  note i = Suc.prems(3) and r = insertingD(1) [OF Suc.prems(3)]
  note np = data_eq_nxt [OF relinkedD(5) [OF r]]
  note d = insert_ctxD(2,3) [OF c]
  have ml: "k < max_level sa0" "k < ?b" using Suc.prems by auto
  obtain n where n: "heap sa a = Some n" "height n = ?a"
    using insert_ctx_node [OF c r, of a] by auto
  have used: "k < sa_height sa0 \<longleftrightarrow> nxt (heap sa0) k (xs @ a # ys) \<noteq> None"
    using c ml by (simp add: insert_ctx_def)
  show ?case
  proof (cases "?a \<le> k")
    case False
    then have "?D (Suc k) = {l. ?a \<le> l \<and> l < ?b \<and> l < sa_height sa0}" by auto
    moreover have "tall_step a b (k, prev, prev, sa) = Some (Inr sa)" using False n by (simp add: tall_step_def)
    ultimately show ?thesis using Suc.prems by (simp add: loop_c_Inr)
  next
    case True
    have lk: "linked (heap sa) (nodes sa) k (xs @ a # ys)" using insertingD(3) [OF i ml(1)] by simp
    have hd: "get_head sa k = Some (nxt (heap sa0) k (xs @ a # ys))"
      using linked_headD [OF lk] relinkedD(4) [OF r] cfg_okD(7) [OF insert_ctxD(1) [OF c]] ml
      by (simp add: get_head_def np)
    show ?thesis
    proof (cases "k < sa_height sa0")
      case out: False
      have pN: "prev = None"
      proof (cases prev)
        case (Some q)
        with Suc.prems(5) have "q \<in> set xs" "k < ht (heap sa0) q" by auto
        then have "nxt (heap sa0) k (xs @ a # ys) \<noteq> None" by (auto simp: nxt_None)
        with used out show ?thesis by simp
      qed
      have D: "?D (Suc k) = ?D k" using out by auto
      have st: "tall_step a b (k, prev, prev, sa) = Some (Inl (k - 1, None, None, sa))"
        using n True pN hd used out Suc.prems(4) by (simp add: tall_step_def)
      have "\<exists>s. loop_c (tall_step a b) (k - 1, None, None, sa) = Some s \<and> sa_height s = sa_height sa0 \<and>
          inserting sa0 xs a b ys {l. ?a \<le> l \<and> l < ?b \<and> l < sa_height sa0} s"
        by (rule Suc.IH) (use ml Suc.prems D in auto)
      with st show ?thesis by (simp add: loop_c_Inl)
    next
      case used': True
      obtain x where x: "nxt (heap sa0) k (xs @ a # ys) = Some x" using used used' by auto
      have xx: "nxt (heap sa0) k (xs @ ys) = Some x" using x True by (simp add: nxt_append split: option.splits)
      define c1 where "c1 = (case prev of None \<Rightarrow> x | Some q \<Rightarrow> q)"
      have I: "walk_inv sa0 xs ys k sa (c1, prev, sa)"
      proof (cases prev)
        case None
        have "x \<in> set xs \<or> x \<in> set ys \<and> nxt (heap sa0) k ys = Some x \<and> prv (heap sa0) k xs = None"
        proof (cases "nxt (heap sa0) k xs")
          case None
          then have "prv (heap sa0) k xs = None" by (simp add: nxt_None prv_None)
          with None xx show ?thesis by (auto simp: nxt_append dest: nxt_SomeD)
        next
          case (Some z)
          with xx nxt_SomeD [OF Some] show ?thesis by (simp add: nxt_append)
        qed
        with None nxt_SomeD [OF x] show ?thesis by (simp add: walk_inv_def c1_def) auto
      next
        case (Some q)
        with Suc.prems(5) show ?thesis by (simp add: walk_inv_def c1_def Suc_le_eq)
      qed
      have kD: "k \<notin> ?D (Suc k)" by simp
      obtain r1 where r1: "loop_c (walk_step b k) (c1, prev, sa) = Some r1" "walk_post sa0 xs b ys k sa r1"
        using walk_level [OF c i kD ml True I] by blast
      obtain c2 p2 s2 where e: "r1 = (c2, p2, s2)" by (cases r1)
      obtain s3 where s3: "link_level b k p2 s2 = Some s3" "inserting sa0 xs a b ys (insert k (?D (Suc k))) s3"
        "sa_height s3 = sa_height sa"
        using link_level_correct [OF c i kD ml True r1(2) [unfolded e]] by blast
      have p2: "c2 = p2" "p2 = prv (heap sa0) k xs" using r1(2) e by (auto simp: walk_post_def)
      have p2q: "q \<in> set xs \<and> k \<le> ht (heap sa0) q" if "p2 = Some q" for q
        using that p2(2) prv_SomeD [of "heap sa0" k xs q] by auto
      have D: "insert k (?D (Suc k)) = ?D k" using True used' ml by auto
      have st: "tall_step a b (k, prev, prev, sa) = Some (Inl (k - 1, p2, p2, s3))"
        using n True hd x Suc.prems(4) used' r1(1) e s3(1) p2(1)
        by (cases prev) (simp_all add: tall_step_def c1_def)
      have "\<exists>s. loop_c (tall_step a b) (k - 1, p2, p2, s3) = Some s \<and> sa_height s = sa_height sa0 \<and>
          inserting sa0 xs a b ys {l. ?a \<le> l \<and> l < ?b \<and> l < sa_height sa0} s"
        by (rule Suc.IH) (use ml Suc.prems s3 D p2q in auto)
      with st show ?thesis by (simp add: loop_c_Inl)
    qed
  qed
qed

lemma link_ctx_heights:
  assumes c: "link_ctx sa0 xs a b ys"
  shows "1 \<le> ht (heap sa0) a" "1 \<le> ht (heap sa0) b" "ht (heap sa0) b \<le> max_level sa0"
    "ht (heap sa0) a \<le> sa_height sa0"
proof -
  obtain n where n: "1 \<le> ht (heap sa0) a" "ht (heap sa0) a \<le> max_level sa0"
    using link_ctx_node [OF c relinked_refl, of a] by auto
  obtain m where "1 \<le> ht (heap sa0) b" "ht (heap sa0) b \<le> max_level sa0"
    using link_ctx_node [OF c relinked_refl, of b] by auto
  moreover have "nxt (heap sa0) (ht (heap sa0) a - 1) (xs @ a # ys) \<noteq> None" using n by (auto simp: nxt_None)
  then have used: "ht (heap sa0) a - 1 < sa_height sa0" using n c unfolding link_ctx_def by simp
  ultimately show "1 \<le> ht (heap sa0) a" "1 \<le> ht (heap sa0) b" "ht (heap sa0) b \<le> max_level sa0"
    "ht (heap sa0) a \<le> sa_height sa0"
    using n used by auto
qed

text \<open>The new levels.\<close>

lemma raise_loop:
  assumes c: "link_ctx sa0 xs a b ys"
    and i: "inserting sa0 xs a b ys {l. k \<le> l \<and> l < ht (heap sa0) b \<and> l < sa_height sa0} sa"
    and h: "sa_height sa = sa_height sa0" and ka: "k \<le> sa_height sa0"
  shows "\<exists>s. loop_c (raise_step b) sa = Some s \<and> sa_height s = max (sa_height sa0) (ht (heap sa0) b) \<and>
    inserting sa0 xs a b ys {l. k \<le> l \<and> l < ht (heap sa0) b} s"
proof -
  let ?b = "ht (heap sa0) b" and ?h = "sa_height sa0"
  let ?D = "\<lambda>h. {l. k \<le> l \<and> l < ?b \<and> l < h}"
  let ?I = "\<lambda>s. ?h \<le> sa_height s \<and> sa_height s \<le> max ?h ?b \<and> inserting sa0 xs a b ys (?D (sa_height s)) s"
  note hs = link_ctx_heights [OF c]
  have "\<exists>s. loop_c (raise_step b) sa = Some s \<and> (?I s \<and> sa_height s = max ?h ?b)"
  proof (rule loop_c_rule [where I = ?I and V = "\<lambda>s. ?b - sa_height s"])
    fix s assume I: "?I s"
    then have i: "inserting sa0 xs a b ys (?D (sa_height s)) s" by blast
    note r = insertingD(1) [OF i]
    obtain bn where bn: "heap s b = Some bn" "height bn = ?b" using link_ctx_node [OF c r, of b] by auto
    show "(\<exists>s'. raise_step b s = Some (Inl s') \<and> ?I s' \<and> ?b - sa_height s' < ?b - sa_height s) \<or>
      (\<exists>t. raise_step b s = Some (Inr t) \<and> ?I t \<and> sa_height t = max ?h ?b)"
    proof (cases "sa_height s < ?b")
      case False
      with I bn show ?thesis by (intro disjI2 exI [of _ s]) (auto simp: raise_step_def)
    next
      case True
      let ?k = "sa_height s"
      have k: "?k < max_level sa0" "?k < length (nodes s)"
        using True hs(3) relinkedD(4) [OF r] cfg_okD(7) [OF link_ctxD(1) [OF c]] by auto
      have u: "u8 (?k + 1) = ?k + 1" using k cfg_okD(4) [OF link_ctxD(1) [OF c]] by simp
      obtain s1 where s1: "set_head s ?k (Some b) = Some s1"
        using k(2) by (simp add: set_head_def)
      note e1 = set_headD [OF s1]
      let ?s = "s1\<lparr>sa_height := ?k + 1\<rparr>"
      have N: "nxt (heap sa0) ?k (xs @ a # ys) = None" using c k I by (auto simp: link_ctx_def)
      then have P: "prv (heap sa0) ?k (xs @ [a]) = None" "nxt (heap sa0) ?k ys = None"
        by (auto simp: prv_None nxt_None)
      have rel: "relinked s ?s" using e1(1) by (simp add: relinked_def)
      have "inserting sa0 xs a b ys (insert ?k (?D ?k)) ?s"
        by (rule inserting_level [OF link_ctxD(2) [OF c] i _ k(1) True rel]) (use e1 P k insertingD(5) [OF i] in auto)
      moreover have "insert ?k (?D ?k) = ?D (?k + 1)" using True I ka by auto
      ultimately have "?I ?s" using True I by auto
      moreover have "raise_step b s = Some (Inl ?s)" using bn True s1 u by (simp add: raise_step_def)
      ultimately show ?thesis using True by auto
    qed
  qed (use i h in simp)
  moreover have "?D (max ?h ?b) = {l. k \<le> l \<and> l < ?b}" by auto
  ultimately show ?thesis by metis
qed

text \<open>The levels of the split node itself.\<close>

lemma common_loop:
  assumes c: "insert_ctx sa0 xs a b ys fk"
    and i: "inserting sa0 xs a b ys {l. ht (heap sa0) a \<le> l \<and> l < ht (heap sa0) b} sa"
  shows "\<exists>s. loop_c (common_step a b (min (ht (heap sa0) a) (ht (heap sa0) b))) (0, sa) = Some s \<and>
    sa_height s = sa_height sa \<and> inserting sa0 xs a b ys {l. l < ht (heap sa0) b} s"
proof -
  let ?a = "ht (heap sa0) a" and ?b = "ht (heap sa0) b" let ?m = "min ?a ?b"
  let ?D = "\<lambda>i. {l. l < ?b \<and> (?a \<le> l \<or> l < i)}"
  let ?I = "\<lambda>(i, s). i \<le> ?m \<and> sa_height s = sa_height sa \<and> inserting sa0 xs a b ys (?D i) s"
  note hs = link_ctx_heights [OF insert_link_ctx [OF c]] and d = insert_ctxD(2,3) [OF c]
  have "\<exists>s. loop_c (common_step a b ?m) (0, sa) = Some s \<and> ?I (?m, s)"
  proof (rule loop_c_rule [where I = ?I and V = "\<lambda>(i, s). ?m - i"])
    fix t assume I: "?I t"
    obtain i s where e: "t = (i, s)" by (cases t)
    have i: "i \<le> ?m" "sa_height s = sa_height sa" "inserting sa0 xs a b ys (?D i) s" using I e by auto
    note r = insertingD(1) [OF i(3)]
    show "(\<exists>s'. common_step a b ?m t = Some (Inl s') \<and> ?I s' \<and>
        (case s' of (i, s) \<Rightarrow> ?m - i) < (case t of (i, s) \<Rightarrow> ?m - i)) \<or>
      (\<exists>s. common_step a b ?m t = Some (Inr s) \<and> ?I (?m, s))"
    proof (cases "i < ?m")
      case False
      with i(1) have im: "i = ?m" by linarith
      have "common_step a b ?m t = Some (Inr s)" using False e by (auto simp: common_step_def)
      with i im show ?thesis by blast
    next
      case True
      have im: "i \<notin> ?D i" "i < max_level sa0" "i < ?b" "i < ?a" using True hs by auto
      obtain an where an: "heap s a = Some an" "length (fwd an) = ?a" using insert_ctx_node [OF c r, of a] by auto
      obtain bn where bn: "heap s b = Some bn" "length (fwd bn) = ?b" using insert_ctx_node [OF c r, of b] by auto
      have ab: "a \<noteq> b" using d by auto
      have "fwd_at (heap s) a i = nxt (heap s) i (after a (xs @ a # ys))"
        using linked_fwdD [OF insertingD(3) [OF i(3) im(2,1)], of a] im(4) data_eq_at(1) [OF relinkedD(5) [OF r]]
        by simp
      then have f: "get_fwd s a i = Some (nxt (heap sa0) i ys)"
        using get_fwd_at [OF an(1), of i] an(2) im(4) d by (simp add: chain data_eq_nxt [OF relinkedD(5) [OF r]])
      obtain s1 where s1: "set_fwd s b i (nxt (heap sa0) i ys) = Some s1"
        using set_fwd_Some [OF bn(1)] bn(2) im(3) by metis
      note e1 = set_fwdD [OF s1]
      obtain a1 where a1: "heap s1 a = Some a1" "length (fwd a1) = ?a"
        using insert_ctx_node [OF c relinked_trans [OF r e1(1)], of a] by auto
      obtain s2 where s2: "set_fwd s1 a i (Some b) = Some s2" using set_fwd_Some [OF a1(1)] a1(2) im(4) by metis
      note e2 = set_fwdD [OF s2]
      have "prv (heap sa0) i (xs @ [a]) = Some a" using im(4) by (simp add: prv_snoc)
      then have "inserting sa0 xs a b ys (insert i (?D i)) s2"
        by (intro inserting_level [OF insert_ctxD(2) [OF c] i(3) im(1-3) relinked_trans [OF e1(1) e2(1)]]) (use e1 e2 ab in auto)
      moreover have "insert i (?D i) = ?D (Suc i)" using im by auto
      ultimately have "?I (Suc i, s2)" using True i e1 e2 by auto
      moreover have "common_step a b ?m t = Some (Inl (Suc i, s2))"
        using e True f s1 s2 by (simp add: common_step_def)
      ultimately show ?thesis using e True by auto
    qed
  qed (use i in \<open>auto simp: conj_commute\<close>)
  moreover have "?D ?m = {l. l < ?b}" by auto
  ultimately show ?thesis by auto
qed

text \<open>All of it: the new node follows the split node on every level, and their successor points back to it.\<close>

lemma insert_ctx_relinked:
  assumes c: "insert_ctx sa0 xs a b ys fk" and r: "relinked sa0 sa" and h: "sa_height sa = sa_height sa0"
  shows "insert_ctx sa xs a b ys fk"
proof -
  have "cfg_ok sa"
    by (rule cfg_ok_env [OF relinkedD(1) [OF r] insert_ctxD(1) [OF c]])
      (use h relinkedD [OF r] cfg_okD [OF insert_ctxD(1) [OF c]] in auto)
  moreover have "\<exists>n. heap sa x = Some n \<and> node_ok (node_size sa) (use_values sa) n \<and> 0 < count n \<and> height n \<le> max_level sa"
    if x: "x \<in> set (xs @ a # b # ys)" for x
  proof -
    obtain n where n: "heap sa0 x = Some n" "node_ok (node_size sa0) (use_values sa0) n" "0 < count n"
      "height n \<le> max_level sa0" using c x unfolding insert_ctx_def by blast
    obtain n' where "heap sa x = Some n'" "node_ok (node_size sa0) (use_values sa0) n' = node_ok (node_size sa0) (use_values sa0) n"
      "count n' = count n" "height n' = height n"
      by (rule data_eq_node [OF relinkedD(5) [OF r] n(1), of "node_size sa0" "use_values sa0"])
    with n relinkedD(6-8) [OF r] show ?thesis by simp
  qed
  moreover have "first_key n = Some fk" if "heap sa b = Some n" for n
    using insert_ctx_node [OF c r, of b] that by auto
  moreover have "0 < call_cmp sa fk (last (node_keys n))" if "x \<in> set xs" "heap sa x = Some n" for x n
    using insert_ctx_node [OF c r, of x] that relinkedD(9) [OF r] by auto
  moreover have "call_cmp sa fk (last (node_keys n)) < 0" if "x \<in> set ys" "heap sa x = Some n" for x n
    using insert_ctx_node [OF c r, of x] that relinkedD(9) [OF r] by auto
  moreover have "\<forall>l < max_level sa. l < sa_height sa \<longleftrightarrow> nxt (heap sa) l (xs @ a # ys) \<noteq> None"
    using c h by (simp add: insert_ctx_def relinkedD [OF r] data_eq_nxt [OF relinkedD(5) [OF r]])
  ultimately show ?thesis using insert_ctxD(2) [OF c] unfolding insert_ctx_def by blast
qed

lemma link_split_correct:
  assumes c: "insert_ctx sa xs a b ys fk" and i: "inserting sa xs a b ys {} sa"
  shows "\<exists>s. link_split sa a b = Some s \<and> relinked sa s \<and>
    sa_height s = max (sa_height sa) (ht (heap sa) b) \<and>
    (\<forall>l < max_level sa. linked (heap s) (nodes s) l (xs @ a # b # ys)) \<and>
    back_at (heap s) = (case ys of [] \<Rightarrow> back_at (heap sa) | y # _ \<Rightarrow> (back_at (heap sa))(y := Some b))"
proof -
  note d = insert_ctxD(2,3) [OF c] and hs = link_ctx_heights [OF insert_link_ctx [OF c]]
  have lk: "linked (heap sa) (nodes sa) l (xs @ a # ys)" if "l < max_level sa" for l
    using insertingD(3) [OF i that] by simp
  obtain an where an: "heap sa a = Some an" "length (fwd an) = ht (heap sa) a"
    using insert_ctx_node [OF c relinked_refl, of a] by auto
  have ml: "0 < max_level sa" using cfg_okD [OF insert_ctxD(1) [OF c]] by simp
  have f0: "get_fwd sa a 0 = Some (case ys of [] \<Rightarrow> None | y # _ \<Rightarrow> Some y)"
  proof -
    have "fwd_at (heap sa) a 0 = nxt (heap sa) 0 ys"
      using linked_fwdD [OF lk [OF ml], of a] hs(1) d by (simp add: chain)
    moreover have "nxt (heap sa) 0 ys = (case ys of [] \<Rightarrow> None | y # _ \<Rightarrow> Some y)"
    proof (cases ys)
      case (Cons y zs)
      then obtain n where "1 \<le> ht (heap sa) y" using insert_ctx_node [OF c relinked_refl, of y] by auto
      with Cons show ?thesis by simp
    qed simp
    ultimately show ?thesis using get_fwd_at [OF an(1), of 0] an(2) hs(1) by simp
  qed
  obtain sa1 where sa1: "(case (case ys of [] \<Rightarrow> None | y # _ \<Rightarrow> Some y) of None \<Rightarrow> Some sa
        | Some x \<Rightarrow> set_back sa x (Some b)) = Some sa1"
    "relinked sa sa1" "nodes sa1 = nodes sa" "sa_height sa1 = sa_height sa" "fwd_at (heap sa1) = fwd_at (heap sa)"
    "back_at (heap sa1) = (case ys of [] \<Rightarrow> back_at (heap sa) | y # _ \<Rightarrow> (back_at (heap sa))(y := Some b))"
  proof (cases ys)
    case Nil
    then show ?thesis by (intro that [of sa]) simp_all
  next
    case (Cons y zs)
    then obtain n where n: "heap sa y = Some n" using insert_ctx_node [OF c relinked_refl, of y] by auto
    show ?thesis by (rule set_back_effect [OF n, of "Some b"], rule that) (simp_all add: Cons)
  qed
  note r1 = relinkedD [OF sa1(2)]
  have c1: "insert_ctx sa1 xs a b ys fk" by (rule insert_ctx_relinked [OF c sa1(2,4)])
  have lk1: "linked (heap sa1) (nodes sa1) l (xs @ a # ys)" if "l < max_level sa1" for l
    by (rule linked_cong [OF lk]) (use that r1 sa1 data_eq_at(1) [OF r1(5)] in auto)
  have i1: "inserting sa1 xs a b ys {} sa1"
    using lk1 insertingD(5) [OF i] sa1(5) unfolding inserting_def by simp
  let ?a = "ht (heap sa1) a" and ?b = "ht (heap sa1) b"
  note hs1 = link_ctx_heights [OF insert_link_ctx [OF c1]]
  obtain n where n: "heap sa1 a = Some n" "height n = ?a" using insert_ctx_node [OF c1 relinked_refl, of a] by auto
  obtain bn where bn: "heap sa1 b = Some bn" "height bn = ?b" using insert_ctx_node [OF c1 relinked_refl, of b] by auto
  have e: "{l. ?a \<le> l \<and> ?b \<le> l \<and> l < ?b \<and> l < sa_height sa1} = {}" by auto
  obtain sa2 where sa2: "loop_c (tall_step a b) (?b - 1, None, None, sa1) = Some sa2"
    "sa_height sa2 = sa_height sa1" "inserting sa1 xs a b ys {l. ?a \<le> l \<and> l < ?b \<and> l < sa_height sa1} sa2"
    using tall_loop [OF c1 hs1(3) order_refl hs1(1) i1 [folded e] refl, of None] by auto
  obtain sa3 where sa3: "loop_c (raise_step b) sa2 = Some sa3" "sa_height sa3 = max (sa_height sa1) ?b"
    "inserting sa1 xs a b ys {l. ?a \<le> l \<and> l < ?b} sa3"
    using raise_loop [OF insert_link_ctx [OF c1] sa2(3,2) hs1(4)] by auto
  obtain s where s: "loop_c (common_step a b (min ?a ?b)) (0, sa3) = Some s" "sa_height s = sa_height sa3"
    "inserting sa1 xs a b ys {l. l < ?b} s"
    using common_loop [OF c1 sa3(3)] by auto
  have m: "(if height n < height bn then height n else height bn) = min ?a ?b" using n bn by simp
  have "link_split sa a b = Some s"
    using f0 sa1(1) n(1) bn(1) sa2(1) sa3(1) s(1) m bn(2) by (simp add: link_split_def)
  moreover have "relinked sa s" using relinked_trans [OF sa1(2) insertingD(1) [OF s(3)]] .
  moreover have "linked (heap s) (nodes s) l (xs @ a # b # ys)" if "l < max_level sa" for l
  proof (cases "l < ?b")
    case True
    with insertingD(4) [OF s(3)] that r1 show ?thesis by simp
  next
    case False
    then have "\<not> l < ht (heap s) b" using data_eq_at(1) [OF relinkedD(5) [OF insertingD(1) [OF s(3)]]] by simp
    moreover have "linked (heap s) (nodes s) l ((xs @ [a]) @ ys)" using insertingD(3) [OF s(3), of l] that r1 False by simp
    ultimately show ?thesis using linked_short [of "xs @ [a]" b ys l "heap s" "nodes s"] d by simp
  qed
  ultimately show ?thesis
    using s(2) sa3(2) sa1(4,6) insertingD(2) [OF s(3)] data_eq_at(1) [OF r1(5)] by auto
qed

end
