(* ===== verification/Sample.thy ===== *)
theory Sample
  imports Invariant
begin

text \<open>
  Concrete skiparrays on which the hypotheses of the properties are shown to hold: \<open>sample\<close>
  with four bindings in two nodes, \<open>sample_locked\<close>, the same with an active iterator,
  \<open>sample_odd\<close> with two bindings of other keys, \<open>sample_full\<close> with one full node,
  \<open>sample_low\<close> with a node less than half full, and \<open>tall h\<close>, one node linked on \<open>h\<close> levels.
\<close>

section \<open>Two nodes\<close>

definition node_a :: node where
  "node_a = \<lparr>height = 1, offset = 1, count = 2, keys = [0, 1, 2, 0], vals = Some [0, 10, 20, 0],
     back_p = None, fwd = [Some 5], keys_blk = 3, vals_blk = Some 4\<rparr>"

definition node_b :: node where
  "node_b = \<lparr>height = 2, offset = 0, count = 2, keys = [3, 5, 0, 0], vals = Some [30, 50, 0, 0],
     back_p = Some 2, fwd = [None, None], keys_blk = 6, vals_blk = Some 7\<rparr>"

definition sample :: skiparray where
  "sample = \<lparr>self = 1, node_size = 4, max_level = 2, sa_height = 2, use_values = True, prng_state = 0,
     mem = (0, malloc), cmp = (0, cmp_intptr_t), free_cb = None, level = (0, def_level_fun),
     iter = None, nodes = [Some 2, Some 5], heap = [2 \<mapsto> node_a, 5 \<mapsto> node_b], iters = Map.empty,
     mst = \<lparr>live = [1, 2, 3, 4, 5, 6, 7, 99], clock = 8, oom = []\<rparr>\<rparr>"

definition sample_pairs :: bindings where
  "sample_pairs = [(1, 10), (2, 20), (3, 30), (5, 50)]"

definition sample_locked :: skiparray where
  "sample_locked = sample\<lparr>iter := Some 8, iters := [8 \<mapsto> \<lparr>it_prev = None, it_next = None, it_n = 2, it_index = 0\<rparr>],
     mst := \<lparr>live = [1, 2, 3, 4, 5, 6, 7, 8, 99], clock = 9, oom = []\<rparr>\<rparr>"

lemma node_pairs_ab [simp]: "node_pairs node_a = [(1, 10), (2, 20)]" "node_pairs node_b = [(3, 30), (5, 50)]"
  by (simp_all add: node_pairs_def node_keys_def node_vals_def node_a_def node_b_def numeral_2_eq_2)

lemma sample_env:
  "node_size sample = 4" "max_level sample = 2" "sa_height sample = 2" "use_values sample = True"
  "call_cmp sample = cmp_intptr_t" "free_cb sample = None" "heap sample 2 = Some node_a" "heap sample 5 = Some node_b"
  by (simp_all add: sample_def)

lemma sample_cfg: "cfg_ok sample" "cfg_ok sample_locked"
  using intptr.comparator_axioms def_memory.allocator_axioms def_level.level_source_axioms
  by (simp_all add: cfg_ok_def sample_def sample_locked_def)

lemma sample_linked: "l < 2 \<Longrightarrow> linked (heap sample) (nodes sample) l [2, 5]"
  by (auto simp: linked_def sample_def node_a_def node_b_def ht_def fwd_at_def less_2_cases_iff)

lemma sample_shape: "shape sample [2, 5]"
proof -
  have "node_ok 4 True node_a" "node_ok 4 True node_b" by (simp_all add: node_ok_def node_a_def node_b_def)
  then show ?thesis
    using sample_linked
    by (auto simp: shape_def sample_env at_Some node_a_def node_b_def prev_of_def last_opt_def)
       (auto simp: sample_def less_2_cases_iff split: if_splits)
qed

lemma sample_pairs_of: "pairs_of (heap sample) [2, 5] = sample_pairs"
  by (simp add: sample_pairs_def at_Some sample_env)

lemma sample_ordered: "ordered sample [2, 5]"
  unfolding ordered_def sample_pairs_of
  by (simp add: sample_pairs_def sample_def cmp_intptr_t_def)

lemma sample_occupied: "occupied sample [2, 5]"
  by (simp add: occupied_def at_Some sample_env)

lemma sample_blocks: "blocks sample [2, 5] [] = [1, 2, 3, 4, 5, 6, 7]"
  by (simp add: blocks_def at_Some sample_env) (simp add: node_blocks_def node_a_def node_b_def sample_def)

lemma sample_wf: "wf sample [2, 5] []"
  using sample_cfg(1) sample_shape sample_ordered sample_occupied
  by (simp add: wf_def iters_ok_def owned_def sample_blocks) (simp add: sample_def)

lemma sample_represents: "represents sample sample_pairs [] {99}"
proof -
  have "{99} = set (live (mst sample)) - set (blocks sample [2, 5] [])"
    unfolding sample_blocks by (auto simp: sample_def)
  then show ?thesis unfolding represents_def using sample_wf sample_pairs_of by blast
qed

lemma sample_locked_wf: "wf sample_locked [2, 5] [8]"
proof -
  have "blocks sample_locked [2, 5] [8] = [1, 2, 3, 4, 5, 6, 7, 8]"
    using sample_blocks by (simp add: blocks_def sample_locked_def)
  then have "owned sample_locked [2, 5] [8]" by (simp add: owned_def sample_locked_def)
  moreover have "iters_ok sample_locked [2, 5] [8]" by (simp add: iters_ok_def sample_locked_def)
  ultimately show ?thesis
    using sample_cfg(2) sample_shape sample_ordered sample_occupied
    by (simp add: wf_def shape_def ordered_def occupied_def sample_locked_def)
qed

lemma sample_locked_represents: "represents sample_locked sample_pairs [8] {99}"
proof -
  have "blocks sample_locked [2, 5] [8] = [1, 2, 3, 4, 5, 6, 7, 8]"
    using sample_blocks by (simp add: blocks_def sample_locked_def)
  then have "{99} = set (live (mst sample_locked)) - set (blocks sample_locked [2, 5] [8])"
    by (auto simp: sample_locked_def)
  moreover have "pairs_of (heap sample_locked) [2, 5] = sample_pairs"
    using sample_pairs_of by (simp add: sample_locked_def)
  ultimately show ?thesis unfolding represents_def using sample_locked_wf by blast
qed

section \<open>A second skiparray, with other keys\<close>

definition odd_node :: node where
  "odd_node = \<lparr>height = 1, offset = 1, count = 2, keys = [0, 4, 6, 0], vals = Some [0, 40, 60, 0],
     back_p = None, fwd = [None], keys_blk = 3, vals_blk = Some 4\<rparr>"

definition sample_odd :: skiparray where
  "sample_odd = sample\<lparr>sa_height := 1, nodes := [Some 2, None], heap := [2 \<mapsto> odd_node],
     mst := \<lparr>live = [1, 2, 3, 4, 77], clock = 4, oom = []\<rparr>\<rparr>"

definition odd_pairs :: bindings where
  "odd_pairs = [(4, 40), (6, 60)]"

lemma sample_odd_represents: "represents sample_odd odd_pairs [] {77}"
proof -
  let ?s = sample_odd
  note d = sample_odd_def sample_def odd_node_def
  have p: "pairs_of (heap ?s) [2] = odd_pairs"
    by (simp add: pairs_at_def d node_pairs_def node_keys_def node_vals_def numeral_2_eq_2 odd_pairs_def)
  have b: "blocks ?s [2] [] = [1, 2, 3, 4]" by (simp add: blocks_def blocks_at_def d node_blocks_def)
  have "cfg_ok ?s"
    using intptr.comparator_axioms def_memory.allocator_axioms def_level.level_source_axioms
    by (simp add: cfg_ok_def d)
  moreover have "shape ?s [2]"
    by (auto simp: shape_def linked_def d node_ok_def ht_def fwd_at_def back_at_def less_2_cases_iff)
  moreover have "ordered ?s [2]" unfolding ordered_def p by (simp add: d odd_pairs_def cmp_intptr_t_def)
  moreover have "occupied ?s [2]" by (simp add: occupied_def)
  moreover have "iters_ok ?s [2] []" by (simp add: iters_ok_def d)
  moreover have "owned ?s [2] []" by (simp add: owned_def b) (simp add: d)
  ultimately have "wf ?s [2] []" by (simp add: wf_def)
  moreover have "{77} = set (live (mst ?s)) - set (blocks ?s [2] [])" unfolding b by (auto simp: d)
  ultimately show ?thesis unfolding represents_def using p by blast
qed

section \<open>A full node, and one less than half full\<close>

definition full_node :: node where
  "full_node = \<lparr>height = 1, offset = 0, count = 2, keys = [1, 4], vals = None,
     back_p = None, fwd = [None], keys_blk = 3, vals_blk = None\<rparr>"

definition sample_full :: skiparray where
  "sample_full = \<lparr>self = 1, node_size = 2, max_level = 2, sa_height = 1, use_values = False, prng_state = 7,
     mem = (0, malloc), cmp = (0, cmp_intptr_t), free_cb = None, level = (0, def_level_fun),
     iter = None, nodes = [Some 2, None], heap = [2 \<mapsto> full_node], iters = Map.empty,
     mst = \<lparr>live = [1, 2, 3], clock = 3, oom = []\<rparr>\<rparr>"

lemma sample_full_wf: "wf sample_full [2] []"
proof -
  let ?s = sample_full
  have p: "pairs_of (heap ?s) [2] = [(1, 0), (4, 0)]"
    by (simp add: pairs_at_def sample_full_def full_node_def node_pairs_def node_keys_def node_vals_def numeral_2_eq_2)
  have b: "blocks ?s [2] [] = [1, 2, 3]"
    by (simp add: blocks_def blocks_at_def sample_full_def full_node_def node_blocks_def)
  have "cfg_ok ?s"
    using intptr.comparator_axioms def_memory.allocator_axioms def_level.level_source_axioms
    by (simp add: cfg_ok_def sample_full_def)
  moreover have "shape ?s [2]"
    by (auto simp: shape_def linked_def sample_full_def full_node_def node_ok_def ht_def fwd_at_def back_at_def
          less_2_cases_iff)
  moreover have "ordered ?s [2]" unfolding ordered_def p by (simp add: sample_full_def cmp_intptr_t_def)
  moreover have "occupied ?s [2]" by (simp add: occupied_def)
  moreover have "iters_ok ?s [2] []" by (simp add: iters_ok_def sample_full_def)
  moreover have "owned ?s [2] []" by (simp add: owned_def b) (simp add: sample_full_def)
  ultimately show ?thesis by (simp add: wf_def)
qed

text \<open>\<open>sample\<close> after the removal of a pair, before the repair of its first node.\<close>

definition sample_low :: skiparray where
  "sample_low = set_node sample 2 (node_a\<lparr>count := 1\<rparr>)"

lemma sample_low_at:
  "heap sample_low 2 = Some (node_a\<lparr>count := 1\<rparr>)" "heap sample_low 5 = Some node_b" "nodes sample_low = nodes sample"
  "node_size sample_low = 4" "max_level sample_low = 2" "sa_height sample_low = 2" "use_values sample_low = True"
  "call_cmp sample_low = cmp_intptr_t"
  by (simp_all add: sample_low_def sample_env)

lemma sample_low_pairs: "node_pairs (node_a\<lparr>count := 1\<rparr>) = [(1, 10)]"
  by (simp add: node_pairs_def node_keys_def node_vals_def node_a_def)

lemma sample_low_shape: "shape sample_low [2, 5]"
proof -
  have "node_ok 4 True (node_a\<lparr>count := 1\<rparr>)" "node_ok 4 True node_b" by (simp_all add: node_ok_def node_a_def node_b_def)
  moreover have "linked (heap sample_low) (nodes sample_low) l [2, 5]" if "l < 2" for l
    using that by (auto simp: linked_def sample_low_at sample_low_def sample_def node_a_def node_b_def ht_def fwd_at_def
        less_2_cases_iff)
  moreover have "dom (heap sample_low) = {2, 5}" by (auto simp: sample_low_def sample_def)
  moreover have "back_at (heap sample_low) 2 = None" "back_at (heap sample_low) 5 = Some 2"
    by (simp_all add: back_at_def sample_low_at node_a_def node_b_def)
  moreover have "\<forall>l < 2. l < sa_height sample_low \<longleftrightarrow> nodes sample_low ! l \<noteq> None"
    by (auto simp: sample_low_at sample_def less_2_cases_iff)
  ultimately show ?thesis
    by (simp add: shape_def sample_low_at prev_of_def last_opt_def) (simp add: node_a_def node_b_def)
qed

section \<open>A tall node\<close>

definition tall :: "nat \<Rightarrow> skiparray" where
  "tall h = \<lparr>self = 1, node_size = 4, max_level = h, sa_height = h, use_values = False, prng_state = 0,
     mem = (0, malloc), cmp = (0, cmp_intptr_t), free_cb = None, level = (0, def_level_fun),
     iter = None, nodes = replicate h (Some 2),
     heap = [2 \<mapsto> \<lparr>height = h, offset = 0, count = 1, keys = [7, 0, 0, 0], vals = None, back_p = None,
                    fwd = replicate h None, keys_blk = 3, vals_blk = None\<rparr>],
     iters = Map.empty, mst = \<lparr>live = [1, 2, 3], clock = 3, oom = []\<rparr>\<rparr>"

lemma tall_represents:
  assumes h: "1 \<le> h" "h < 256"
  shows "represents (tall h) [(7, 0)] [] {}"
proof -
  let ?s = "tall h"
  have p: "pairs_of (heap ?s) [2] = [(7, 0)]"
    by (simp add: pairs_at_def tall_def node_pairs_def node_keys_def node_vals_def numeral_2_eq_2)
  have b: "blocks ?s [2] [] = [1, 2, 3]" by (simp add: blocks_def blocks_at_def tall_def node_blocks_def)
  have "cfg_ok ?s"
    using intptr.comparator_axioms def_memory.allocator_axioms def_level.level_source_axioms h
    by (simp add: cfg_ok_def tall_def)
  moreover have "shape ?s [2]"
    using h by (auto simp: shape_def linked_def tall_def node_ok_def ht_def fwd_at_def back_at_def)
  moreover have "ordered ?s [2]" unfolding ordered_def p by simp
  moreover have "occupied ?s [2]" by (simp add: occupied_def)
  moreover have "iters_ok ?s [2] []" by (simp add: iters_ok_def tall_def)
  moreover have "owned ?s [2] []" by (simp add: owned_def b) (simp add: tall_def)
  ultimately have "wf ?s [2] []" by (simp add: wf_def)
  moreover have "{} = set (live (mst ?s)) - set (blocks ?s [2] [])" unfolding b by (simp add: tall_def)
  ultimately show ?thesis unfolding represents_def using p by blast
qed

end
