(* ===== verification/Search.thy ===== *)
theory Search
  imports Sample
begin

text \<open>
  The descent through the levels (\<^verbatim>\<open>search\<close>) and the read-only operations built on it and on the
  chains: \<^verbatim>\<open>skiparray_get\<close>, \<^verbatim>\<open>skiparray_get_pair\<close>, \<^verbatim>\<open>skiparray_member\<close>, \<^verbatim>\<open>skiparray_count\<close>,
  \<^verbatim>\<open>skiparray_first\<close>, \<^verbatim>\<open>last_node\<close> and \<^verbatim>\<open>skiparray_last\<close>.
\<close>

section \<open>The search\<close>

text \<open>
  The \<^verbatim>\<open>do ... while\<close> that descends from \<open>lev\<close> along the forward pointers of \<open>q\<close> until one
  leads to a node other than \<open>cur\<close>.
\<close>

fun descend :: "skiparray \<Rightarrow> addr \<Rightarrow> addr \<Rightarrow> nat \<Rightarrow> (nat \<times> addr option) option" where
  "descend sa q cur 0 = None"
| "descend sa q cur (Suc l) = do {
     ncur \<leftarrow> get_fwd sa q l;
     (if (ncur = None \<or> ncur = Some cur) \<and> 0 < l then descend sa q cur l else Some (l, ncur))
   }"

text \<open>One iteration of the \<^verbatim>\<open>for (;;)\<close> loop; its variables are found, level, prev, cur and index.\<close>

type_synonym search_state = "bool \<times> nat \<times> addr option \<times> addr \<times> nat"

definition search_step ::
  "skiparray \<Rightarrow> voidp \<Rightarrow> search_state \<Rightarrow> (search_state + (bool \<times> addr \<times> nat)) option" where
  "search_step sa key = (\<lambda>(found, lev, prev, cur, index). do {
     n \<leftarrow> heap sa cur;
     assert_c (0 < count n);
     lk \<leftarrow> last_key n;
     let cmp_res = call_cmp sa key lk;
     (if cmp_res < 0 then
        (if lev = 0 then do {
           (found', index') \<leftarrow> search_within_node sa key n;
           (if \<not> found' \<and> index' = 0 then
              (case back_p n of
                 None \<Rightarrow> Some (Inr (found', cur, index'))
               | Some b \<Rightarrow> do {
                   bn \<leftarrow> heap sa b;
                   Some (Inr (if count bn < count n then (found', b, count bn) else (found', cur, index')))
                 })
            else Some (Inr (found', cur, index')))
         } else do {
           p \<leftarrow> (case prev of Some q \<Rightarrow> get_fwd sa q (lev - 1) | None \<Rightarrow> get_head sa (lev - 1));
           c \<leftarrow> p;
           Some (Inl (found, lev - 1, prev, c, index))
         })
      else if 0 < cmp_res then do {
        nx \<leftarrow> get_fwd sa cur lev;
        (case nx of
           Some x \<Rightarrow> Some (Inl (found, lev, Some cur, x, index))
         | None \<Rightarrow>
           (if lev = 0 then Some (Inr (found, cur, count n))
            else (case prev of
                None \<Rightarrow> do {
                  p \<leftarrow> get_head sa (lev - 1);
                  c \<leftarrow> p;
                  Some (Inl (found, lev - 1, None, c, index))
                }
              | Some q \<Rightarrow> do {
                  (l', p) \<leftarrow> descend sa q cur lev;
                  c \<leftarrow> p;
                  Some (Inl (found, l', prev, c, index))
                })))
      } else do {
        let index' = u16_dec (count n) 1;
        (if lev = 0 then Some (Inr (True, cur, index'))
         else do {
           p \<leftarrow> (case prev of Some q \<Rightarrow> get_fwd sa q (lev - 1) | None \<Rightarrow> get_head sa (lev - 1));
           c \<leftarrow> p;
           Some (Inl (True, lev - 1, prev, c, index'))
         })
      })
   })"

definition search :: "skiparray \<Rightarrow> voidp \<Rightarrow> (search_res \<times> addr \<times> nat) option" where
  "search sa key = do {
     assert_c (1 \<le> sa_height sa);
     let lev = sa_height sa - 1;
     p \<leftarrow> get_head sa lev;
     cur \<leftarrow> p;
     n \<leftarrow> heap sa cur;
     (if count n = 0 then Some (SEARCH_NOT_FOUND, cur, 0)
      else do {
        (found, a, index) \<leftarrow> loop_c (search_step sa key) (False, lev, None, cur, 0);
        Some (if found then SEARCH_FOUND else SEARCH_NOT_FOUND, a, index)
      })
   }"

section \<open>Correctness of the search\<close>

text \<open>
  The position the search reports: \<open>a\<close> is a node of the chain and \<open>i\<close> an index in it that
  separates the smaller keys from the greater ones, or holds an equal key.
\<close>

definition position :: "skiparray \<Rightarrow> addr list \<Rightarrow> voidp \<Rightarrow> bool \<Rightarrow> addr \<Rightarrow> nat \<Rightarrow> bool" where
  "position sa ns key found a i \<longleftrightarrow>
     (\<exists>xs ys n. ns = xs @ a # ys \<and> heap sa a = Some n \<and> i \<le> count n \<and>
        below (call_cmp sa) key (keys_of (heap sa) xs @ take i (node_keys n)) \<and>
        (if found then i < count n \<and> call_cmp sa key (node_keys n ! i) = 0 \<and>
           above (call_cmp sa) key (drop (i + 1) (node_keys n) @ keys_of (heap sa) ys)
         else above (call_cmp sa) key (drop i (node_keys n) @ keys_of (heap sa) ys)))"

definition search_inv :: "skiparray \<Rightarrow> addr list \<Rightarrow> voidp \<Rightarrow> search_state \<Rightarrow> bool" where
  "search_inv sa ns key = (\<lambda>(found, lev, prev, cur, index).
     \<exists>xs ys. ns = xs @ ys \<and> prev = last_opt xs \<and> (\<forall>p. prev = Some p \<longrightarrow> lev < ht (heap sa) p) \<and>
       below (call_cmp sa) key (keys_of (heap sa) xs) \<and> lev < max_level sa \<and>
       nxt (heap sa) lev ys = Some cur \<and>
       (found \<longrightarrow> (\<exists>z \<in> set ys. \<exists>k \<in> set (keys_of (heap sa) [z]). call_cmp sa key k = 0)))"

text \<open>A chain with no empty node, in order.\<close>

definition full :: "skiparray \<Rightarrow> addr list \<Rightarrow> bool" where
  "full sa ns \<longleftrightarrow> cfg_ok sa \<and> shape sa ns \<and> ordered sa ns \<and> nonempty_nodes sa ns"

lemma fullD:
  assumes "full sa ns"
  shows "cfg_ok sa" "shape sa ns" "ordered sa ns" "nonempty_nodes sa ns" "comparator (call_cmp sa)"
    "ascending (call_cmp sa) (keys_of (heap sa) ns)" "distinct ns"
  using assms by (auto simp: full_def cfg_ok_def ordered_def shape_def)

lemma full_node:
  assumes f: "full sa ns" and a: "a \<in> set ns"
  obtains n where "heap sa a = Some n" "node_ok (node_size sa) (use_values sa) n" "0 < count n"
    "map fst (pairs_at (heap sa) a) = node_keys n" "length (node_keys n) = count n"
    "last_key n = Some (last (node_keys n))" "node_keys n \<noteq> []"
proof -
  obtain n where n: "heap sa a = Some n" "node_ok (node_size sa) (use_values sa) n"
    using shape_node [OF fullD(2) [OF f] a] by blast
  have "pairs_at (heap sa) a \<noteq> []" using fullD(4) [OF f] a by (simp add: nonempty_nodes_def)
  with pairs_at_ok(1) [OF n] have c: "0 < count n" by (metis length_greater_0_conv)
  then have "node_keys n \<noteq> []" using n by (metis length_node_keys less_numeral_extra(3) list.size(3))
  with n c show ?thesis
    by (intro that [of n]) (auto simp: at_Some last_key_ok)
qed

lemma full_nodeD:
  assumes "full sa ns" "a \<in> set ns" "heap sa a = Some n"
  shows "node_ok (node_size sa) (use_values sa) n" "0 < count n"
    "map fst (pairs_at (heap sa) a) = node_keys n" "length (node_keys n) = count n"
    "last_key n = Some (last (node_keys n))" "node_keys n \<noteq> []"
  by (rule full_node [OF assms(1,2)]; use assms(3) in simp)+

text \<open>A key greater than the last key of a node is greater than all keys up to there, and dually.\<close>

lemma below_upto:
  assumes f: "full sa (xs @ a # ys)" and n: "heap sa a = Some n"
    and k: "0 < call_cmp sa key (last (node_keys n))"
  shows "below (call_cmp sa) key (keys_of (heap sa) (xs @ [a]))"
proof -
  have nk: "map fst (pairs_at (heap sa) a) = node_keys n" "node_keys n \<noteq> []"
    using full_nodeD [OF f _ n] by auto
  have e: "keys_of (heap sa) (xs @ [a]) = (keys_of (heap sa) xs @ butlast (node_keys n)) @ [last (node_keys n)]"
    using nk by (simp add: append_butlast_last_id)
  have "ascending (call_cmp sa) (keys_of (heap sa) (xs @ [a]))"
    using fullD(6) [OF f] by (simp add: ascending_append)
  then show ?thesis unfolding e by (rule comparator.below_from_last [OF fullD(5) [OF f] _ k])
qed

lemma above_from:
  assumes f: "full sa (xs @ a # ys)" and n: "heap sa a = Some n"
    and k: "call_cmp sa key (last (node_keys n)) \<le> 0"
  shows "above (call_cmp sa) key (keys_of (heap sa) ys)"
proof -
  have nk: "map fst (pairs_at (heap sa) a) = node_keys n" "node_keys n \<noteq> []"
    using full_nodeD [OF f _ n] by auto
  have "last (node_keys n) \<in> set (node_keys n)" using nk(2) by (rule last_in_set)
  moreover have "ascending (call_cmp sa) (node_keys n @ keys_of (heap sa) ys)"
    using fullD(6) [OF f] by (simp add: ascending_append nk(1))
  ultimately have "above (call_cmp sa) (last (node_keys n)) (keys_of (heap sa) ys)"
    by (simp add: ascending_append)
  with k show ?thesis
    unfolding above_def using comparator.le_lt_trans [OF fullD(5) [OF f]] by blast
qed

lemma equal_not_below: "c key k = 0 \<Longrightarrow> below c key ks \<Longrightarrow> k \<notin> set ks"
  by (auto simp: below_def)

text \<open>Descending along one pointer always finds a node of the list.\<close>

lemma nxt_lower: "nxt h l ys \<noteq> None \<Longrightarrow> l' \<le> l \<Longrightarrow> nxt h l' ys \<noteq> None"
  by (metis nxt_None le_less_trans)

lemma descend_correct:
  assumes s: "shape sa (xs @ q # ys)" and l: "l < ht (heap sa) q" "0 < l" "nxt (heap sa) l ys \<noteq> None"
  shows "\<exists>l' c. descend sa q cur l = Some (l', Some c) \<and> l' < l \<and> nxt (heap sa) l' ys = Some c"
  using l
proof (induction l)
  case (Suc l)
  have q: "q \<notin> set xs" using s by (simp add: shape_def)
  have g: "get_fwd sa q l = Some (nxt (heap sa) l ys)"
    using get_fwd_shape [OF s, of q l] Suc.prems(1) q by (simp add: chain)
  obtain c where c: "nxt (heap sa) l ys = Some c"
    using nxt_lower [OF Suc.prems(3), of l] by auto
  show ?case
  proof (cases "c = cur \<and> 0 < l")
    case True
    with Suc c g show ?thesis by (auto intro: less_SucI)
  next
    case False
    with c g show ?thesis by auto
  qed
qed simp

text \<open>The pointer followed when descending one level.\<close>

lemma level_down:
  assumes f: "full sa (xs @ ys)" and p: "prev = last_opt xs" "\<And>q. prev = Some q \<Longrightarrow> lev < ht (heap sa) q"
    and l: "0 < lev" "lev < max_level sa" "nxt (heap sa) lev ys \<noteq> None"
  shows "\<exists>c. (case prev of Some q \<Rightarrow> get_fwd sa q (lev - 1) | None \<Rightarrow> get_head sa (lev - 1)) = Some (Some c) \<and>
    nxt (heap sa) (lev - 1) ys = Some c"
proof -
  obtain c where c: "nxt (heap sa) (lev - 1) ys = Some c"
    using nxt_lower [OF l(3), of "lev - 1"] by auto
  show ?thesis
  proof (cases prev)
    case None
    with p(1) have "last_opt xs = None" by simp
    then have "xs = []" by simp
    with None c l fullD [OF f] cfg_okD(7) [of sa] show ?thesis
      by (simp add: get_head_shape)
  next
    case (Some q)
    with p(1) have "last_opt xs = Some q" by simp
    then obtain us where us: "xs = us @ [q]" by (auto simp: last_opt_Some)
    have "q \<notin> set us" using us fullD(7) [OF f] by auto
    moreover have "lev - 1 < ht (heap sa) q" using p(2) [OF Some] by simp
    moreover have "shape sa (us @ q # ys)" using fullD(2) [OF f] us by simp
    ultimately have "get_fwd sa q (lev - 1) = Some (nxt (heap sa) (lev - 1) ys)"
      using get_fwd_shape [of sa "us @ q # ys" q "lev - 1"] by (simp add: chain)
    with Some c show ?thesis by simp
  qed
qed

text \<open>The three outcomes of the comparison with the last key of the current node.\<close>

definition search_goal ::
  "skiparray \<Rightarrow> addr list \<Rightarrow> voidp \<Rightarrow> search_state \<Rightarrow> (search_state + (bool \<times> addr \<times> nat)) option \<Rightarrow> bool" where
  "search_goal sa ns key = (\<lambda>(found, lev, prev, cur, index) res.
     (\<exists>f' l' p' c' i'. res = Some (Inl (f', l', p', c', i')) \<and> search_inv sa ns key (f', l', p', c', i') \<and>
        (l' < lev \<or> l' = lev \<and> length (after c' ns) < length (after cur ns))) \<or>
     (\<exists>f a i. res = Some (Inr (f, a, i)) \<and> position sa ns key f a i))"

lemma search_goal_found: "position sa ns key f a i \<Longrightarrow> search_goal sa ns key s (Some (Inr (f, a, i)))"
  by (cases s) (auto simp: search_goal_def)

lemma search_goal_next:
  "search_inv sa ns key (f, l, p, c, i) \<Longrightarrow> l < lev \<Longrightarrow>
   search_goal sa ns key (found, lev, prev, cur, index) (Some (Inl (f, l, p, c, i)))"
  by (auto simp: search_goal_def)

lemma search_invI:
  assumes "ns = xs @ ys" "prev = last_opt xs" "\<And>p. prev = Some p \<Longrightarrow> lev < ht (heap sa) p"
    and "below (call_cmp sa) key (keys_of (heap sa) xs)" "lev < max_level sa" "nxt (heap sa) lev ys = Some cur"
    and "found \<Longrightarrow> \<exists>z \<in> set ys. \<exists>k \<in> set (keys_of (heap sa) [z]). call_cmp sa key k = 0"
  shows "search_inv sa ns key (found, lev, prev, cur, index)"
  using assms by (auto simp: search_inv_def)

lemma search_invE:
  assumes "search_inv sa ns key (found, lev, prev, cur, index)"
  obtains xs ys where "ns = xs @ ys" "prev = last_opt xs" "\<forall>p. prev = Some p \<longrightarrow> lev < ht (heap sa) p"
    "below (call_cmp sa) key (keys_of (heap sa) xs)" "lev < max_level sa" "nxt (heap sa) lev ys = Some cur"
    "found \<longrightarrow> (\<exists>z \<in> set ys. \<exists>k \<in> set (keys_of (heap sa) [z]). call_cmp sa key k = 0)"
  using assms unfolding search_inv_def prod.case by (elim exE conjE)

lemma positionI:
  assumes "ns = xs @ a # ys" "heap sa a = Some n" "i \<le> count n"
    and "below (call_cmp sa) key (keys_of (heap sa) xs)" "below (call_cmp sa) key (take i (node_keys n))"
    and "above (call_cmp sa) key (keys_of (heap sa) ys)"
    and "if found then i < count n \<and> call_cmp sa key (node_keys n ! i) = 0 \<and>
        above (call_cmp sa) key (drop (i + 1) (node_keys n))
      else above (call_cmp sa) key (drop i (node_keys n))"
  shows "position sa ns key found a i"
proof -
  have b: "below (call_cmp sa) key (keys_of (heap sa) xs @ take i (node_keys n))"
    unfolding below_simps using assms(4,5) by blast
  have c: "if found then i < count n \<and> call_cmp sa key (node_keys n ! i) = 0 \<and>
      above (call_cmp sa) key (drop (i + 1) (node_keys n) @ keys_of (heap sa) ys)
    else above (call_cmp sa) key (drop i (node_keys n) @ keys_of (heap sa) ys)"
    using assms(6,7) unfolding above_simps by (cases found) auto
  show ?thesis unfolding position_def
    by (rule exI [of _ xs], rule exI [of _ ys], rule exI [of _ n], intro conjI assms(1,2,3) b c)
qed

text \<open>Within the node: an equal key splits the node's keys.\<close>

lemma equal_splits_node:
  assumes f: "full sa (xs @ a # ys)" and n: "heap sa a = Some n"
    and i: "i < count n" "call_cmp sa key (node_keys n ! i) = 0"
  shows "below (call_cmp sa) key (take i (node_keys n))" "above (call_cmp sa) key (drop (i + 1) (node_keys n))"
proof -
  have nk: "map fst (pairs_at (heap sa) a) = node_keys n" "length (node_keys n) = count n"
    using full_nodeD [OF f _ n] by auto
  have "ascending (call_cmp sa) (node_keys n)"
    using fullD(6) [OF f] by (simp add: ascending_append nk(1))
  moreover have "node_keys n = take i (node_keys n) @ node_keys n ! i # drop (i + 1) (node_keys n)"
    using i nk(2) by (simp add: id_take_nth_drop [symmetric])
  ultimately have a: "ascending (call_cmp sa) ((take i (node_keys n) @ [node_keys n ! i]) @ drop (i + 1) (node_keys n))"
    by simp
  then have "ascending (call_cmp sa) (take i (node_keys n) @ [node_keys n ! i])"
    unfolding ascending_append by blast
  with i(2) show "below (call_cmp sa) key (take i (node_keys n))"
    by (rule comparator.below_eq [OF fullD(5) [OF f]])
  from a have "above (call_cmp sa) (node_keys n ! i) (drop (i + 1) (node_keys n))"
    unfolding ascending_append by simp
  with i(2) show "above (call_cmp sa) key (drop (i + 1) (node_keys n))"
    by (rule comparator.above_eq [OF fullD(5) [OF f]])
qed

lemma within_node:
  assumes f: "full sa (xs @ a # ys)" and n: "heap sa a = Some n"
  shows "\<exists>fd i. search_within_node sa key n = Some (fd, i) \<and> i \<le> count n \<and>
    below (call_cmp sa) key (take i (node_keys n)) \<and>
    (if fd then i < count n \<and> call_cmp sa key (node_keys n ! i) = 0 \<and>
        above (call_cmp sa) key (drop (i + 1) (node_keys n))
      else above (call_cmp sa) key (drop i (node_keys n)))"
proof -
  have nk: "map fst (pairs_at (heap sa) a) = node_keys n" "node_ok (node_size sa) (use_values sa) n" "0 < count n"
    using full_nodeD [OF f _ n] by auto
  have asc: "ascending (call_cmp sa) (node_keys n)"
    using fullD(6) [OF f] by (simp add: ascending_append nk(1))
  obtain fd i where r: "search_within_node sa key n = Some (fd, i)"
    "if fd then i < count n \<and> call_cmp sa key (node_keys n ! i) = 0
     else i \<le> count n \<and> below (call_cmp sa) key (take i (node_keys n)) \<and>
          above (call_cmp sa) key (drop i (node_keys n))"
    using search_within_node_correct [OF fullD(5) [OF f] nk(2) cfg_okD(2) [OF fullD(1) [OF f]] asc nk(3), of key]
    by blast
  show ?thesis
  proof (cases fd)
    case True
    with r have i: "i < count n" "call_cmp sa key (node_keys n ! i) = 0" by auto
    from True r(1) i equal_splits_node [OF f n i] show ?thesis by auto
  next
    case False
    with r show ?thesis by auto
  qed
qed

lemma nxt0_hd: "shape sa ns \<Longrightarrow> set ys \<subseteq> set ns \<Longrightarrow> nxt (heap sa) 0 ys = Some c \<Longrightarrow> \<exists>zs. ys = c # zs"
  using nxt0 [of sa ns ys] by (cases ys) auto

text \<open>At level 0 with a key not after the current node: the answer is in it or before it.\<close>

lemma search_step_here:
  assumes f: "full sa ns" and I: "search_inv sa ns key (found, 0, prev, cur, index)"
    and n: "heap sa cur = Some n" and lt: "call_cmp sa key (last (node_keys n)) < 0"
  shows "search_goal sa ns key (found, 0, prev, cur, index)
    (search_step sa key (found, 0, prev, cur, index))"
proof -
  obtain xs ys where xy: "ns = xs @ ys" "below (call_cmp sa) key (keys_of (heap sa) xs)"
    "nxt (heap sa) 0 ys = Some cur" using I by (rule search_invE)
  obtain zs where ys: "ys = cur # zs" using nxt0_hd [OF fullD(2) [OF f] _ xy(3)] xy(1) by auto
  have f': "full sa (xs @ cur # zs)" using f xy ys by simp
  have nk: "node_ok (node_size sa) (use_values sa) n" "0 < count n" "last_key n = Some (last (node_keys n))"
    using full_nodeD [OF f' _ n] by auto
  have ab: "above (call_cmp sa) key (keys_of (heap sa) zs)" using above_from [OF f' n] lt by simp
  obtain fd i where w: "search_within_node sa key n = Some (fd, i)" "i \<le> count n"
    "below (call_cmp sa) key (take i (node_keys n))"
    "if fd then i < count n \<and> call_cmp sa key (node_keys n ! i) = 0 \<and>
        above (call_cmp sa) key (drop (i + 1) (node_keys n))
      else above (call_cmp sa) key (drop i (node_keys n))" using within_node [OF f' n] by blast
  have here: "position sa ns key fd cur i"
    by (rule positionI [of _ xs _ zs, OF _ n w(2) xy(2) w(3) ab w(4)]) (simp add: xy ys)
  have bk: "back_p n = last_opt xs"
  proof -
    have "back_at (heap sa) cur = prev_of cur (xs @ cur # zs)" using fullD(2) [OF f'] by (simp add: shape_def)
    moreover have "cur \<notin> set xs" using fullD(7) [OF f'] by simp
    ultimately show ?thesis using n by (simp add: at_Some prev_of_split)
  qed
  have step: "search_step sa key (found, 0, prev, cur, index) =
     (if \<not> fd \<and> i = 0
      then (case last_opt xs of None \<Rightarrow> Some (Inr (fd, cur, i))
            | Some b \<Rightarrow> do { bn \<leftarrow> heap sa b;
                Some (Inr (if count bn < count n then (fd, b, count bn) else (fd, cur, i))) })
      else Some (Inr (fd, cur, i)))"
    using n nk lt w(1) bk by (simp add: search_step_def)
  show ?thesis
  proof (cases "\<not> fd \<and> i = 0 \<and> xs \<noteq> []")
    case False
    with step have "search_step sa key (found, 0, prev, cur, index) = Some (Inr (fd, cur, i))"
      by (auto simp: last_opt_def)
    with here show ?thesis by (simp add: search_goal_def)
  next
    case True
    then obtain us b where us: "xs = us @ [b]" using append_butlast_last_id by metis
    have fb: "full sa (us @ b # (cur # zs))" using f' us by simp
    obtain bn where hb: "heap sa b = Some bn" using full_node [OF fb, of b] by auto
    have bn: "heap sa b = Some bn" "map fst (pairs_at (heap sa) b) = node_keys bn"
      "length (node_keys bn) = count bn" using full_nodeD [OF fb _ hb] hb by auto
    have "position sa ns key fd b (count bn)"
    proof (rule positionI [of _ us _ "cur # zs", OF _ bn(1)])
      show "above (call_cmp sa) key (keys_of (heap sa) (cur # zs))"
        using ab w(4) True full_nodeD [OF f' _ n] by auto
      show "if fd then count bn < count bn \<and> call_cmp sa key (node_keys bn ! count bn) = 0 \<and>
          above (call_cmp sa) key (drop (count bn + 1) (node_keys bn))
        else above (call_cmp sa) key (drop (count bn) (node_keys bn))" using True bn by simp
    qed (use xy us ys bn in auto)
    with here True step us bn show ?thesis by (auto simp: search_goal_def)
  qed
qed

text \<open>Descending one level, after a comparison below or equal.\<close>

lemma search_inv_down:
  assumes f: "full sa ns" and I: "search_inv sa ns key (found, lev, prev, cur, index)" and l: "0 < lev"
    and fd: "found' \<Longrightarrow> found \<or> (\<exists>k \<in> set (keys_of (heap sa) [cur]). call_cmp sa key k = 0)"
  shows "\<exists>c. (case prev of Some q \<Rightarrow> get_fwd sa q (lev - 1) | None \<Rightarrow> get_head sa (lev - 1)) = Some (Some c) \<and>
    search_inv sa ns key (found', lev - 1, prev, c, index')"
proof -
  obtain xs ys where xy: "ns = xs @ ys" "prev = last_opt xs" "\<forall>p. prev = Some p \<longrightarrow> lev < ht (heap sa) p"
    "below (call_cmp sa) key (keys_of (heap sa) xs)" "lev < max_level sa" "nxt (heap sa) lev ys = Some cur"
    "found \<longrightarrow> (\<exists>z \<in> set ys. \<exists>k \<in> set (keys_of (heap sa) [z]). call_cmp sa key k = 0)"
    using I by (rule search_invE)
  from f xy(1) have f': "full sa (xs @ ys)" by simp
  have p: "lev < ht (heap sa) q" if "prev = Some q" for q using xy(3) that by blast
  obtain c where c: "(case prev of Some q \<Rightarrow> get_fwd sa q (lev - 1) | None \<Rightarrow> get_head sa (lev - 1)) = Some (Some c)"
    "nxt (heap sa) (lev - 1) ys = Some c" using level_down [OF f' xy(2) p l xy(5)] xy(6) by (metis option.distinct(1))
  have "search_inv sa ns key (found', lev - 1, prev, c, index')"
  proof (rule search_invI [OF xy(1,2)])
    show "lev - 1 < ht (heap sa) p" if "prev = Some p" for p using p [OF that] by simp
    show "\<exists>z \<in> set ys. \<exists>k \<in> set (keys_of (heap sa) [z]). call_cmp sa key k = 0" if found'
      using fd [OF that] xy(7) nxt_SomeD [OF xy(6)] by blast
  qed (use xy c in auto)
  with c show ?thesis by blast
qed

text \<open>Past the current node: advance on its level, or descend.\<close>

lemma search_step_past:
  assumes f: "full sa ns" and I: "search_inv sa ns key (found, lev, prev, cur, index)"
    and n: "heap sa cur = Some n" and gt: "0 < call_cmp sa key (last (node_keys n))"
  shows "search_goal sa ns key (found, lev, prev, cur, index)
    (search_step sa key (found, lev, prev, cur, index))"
proof -
  obtain xs ys where xy: "ns = xs @ ys" "prev = last_opt xs" "\<forall>p. prev = Some p \<longrightarrow> lev < ht (heap sa) p"
    "below (call_cmp sa) key (keys_of (heap sa) xs)" "lev < max_level sa" "nxt (heap sa) lev ys = Some cur"
    "found \<longrightarrow> (\<exists>z \<in> set ys. \<exists>k \<in> set (keys_of (heap sa) [z]). call_cmp sa key k = 0)"
    using I by (rule search_invE)
  obtain us vs where uv: "ys = us @ cur # vs" "nxt (heap sa) lev us = None"
    using nxt_Some_split [OF xy(6)] by blast
  have f': "full sa ((xs @ us) @ cur # vs)" using f xy uv by simp
  have nk: "0 < count n" "last_key n = Some (last (node_keys n))"
    "map fst (pairs_at (heap sa) cur) = node_keys n" "length (node_keys n) = count n"
    using full_nodeD [OF f' _ n] by auto
  have d: "distinct ((xs @ us) @ cur # vs)" using fullD(7) [OF f'] .
  have bl: "below (call_cmp sa) key (keys_of (heap sa) ((xs @ us) @ [cur]))"
    using below_upto [OF f' n gt] .
  have hc: "lev < ht (heap sa) cur" using nxt_SomeD [OF xy(6)] by simp
  have g: "get_fwd sa cur lev = Some (nxt (heap sa) lev vs)"
    using get_fwd_shape [OF fullD(2) [OF f'], of cur lev] hc d by (simp add: chain)
  have fd: "\<exists>z \<in> set vs. \<exists>k \<in> set (keys_of (heap sa) [z]). call_cmp sa key k = 0" if found
  proof -
    obtain z k where z: "z \<in> set ys" "k \<in> set (keys_of (heap sa) [z])" "call_cmp sa key k = 0"
      using xy(7) \<open>found\<close> by blast
    have "z \<notin> set (us @ [cur])"
    proof
      assume "z \<in> set (us @ [cur])"
      then have "k \<in> set (keys_of (heap sa) ((xs @ us) @ [cur]))" using z(2) by (auto simp: pairs_of_def)
      with equal_not_below [of "call_cmp sa", OF z(3) bl] show False by blast
    qed
    with z uv show ?thesis by auto
  qed
  show ?thesis
  proof (cases "nxt (heap sa) lev vs")
    case (Some x)
    have st: "search_step sa key (found, lev, prev, cur, index) = Some (Inl (found, lev, Some cur, x, index))"
      using n nk gt g Some by (simp add: search_step_def)
    have "search_inv sa ns key (found, lev, Some cur, x, index)"
    proof (rule search_invI [of _ "(xs @ us) @ [cur]" vs])
      show "below (call_cmp sa) key (keys_of (heap sa) ((xs @ us) @ [cur]))" using bl .
      show "Some cur = last_opt ((xs @ us) @ [cur])" by (simp only: last_opt_simps)
    qed (use xy uv hc Some fd in auto)
    moreover have "length (after x ns) < length (after cur ns)"
    proof -
      obtain us' vs' where v: "vs = us' @ x # vs'" using nxt_Some_split [OF Some] by blast
      then have e: "ns = ((xs @ us) @ cur # us') @ x # vs'" using xy uv by simp
      have "after cur ns = vs" using d xy uv by (simp add: chain)
      moreover have "after x ns = vs'" using d v unfolding e by (subst after_notin) auto
      ultimately show ?thesis using v by simp
    qed
    ultimately show ?thesis using st by (simp add: search_goal_def)
  next
    case None
    show ?thesis
    proof (cases "lev = 0")
      case True
      have "vs = []" using None True nxt0 [OF fullD(2) [OF f'], of vs] by (cases vs) auto
      moreover have us: "us = []" using uv(2) True nxt0 [OF fullD(2) [OF f'], of us] by (cases us) auto
      ultimately have e: "ns = xs @ cur # []" and "\<not> found" using xy uv fd by auto
      have "search_step sa key (found, lev, prev, cur, index) = Some (Inr (found, cur, count n))"
        using n nk gt g None True by (simp add: search_step_def)
      moreover have "position sa ns key found cur (count n)"
        by (rule positionI [OF e n]) (use bl us nk \<open>\<not> found\<close> in auto)
      ultimately show ?thesis by (simp add: search_goal_def)
    next
      case False
      show ?thesis
      proof (cases prev)
        case pN: None
        have "\<exists>c. (case prev of Some q \<Rightarrow> get_fwd sa q (lev - 1) | None \<Rightarrow> get_head sa (lev - 1)) = Some (Some c) \<and>
            search_inv sa ns key (found, lev - 1, prev, c, index)"
          using search_inv_down [OF f I, of found] False by simp
        then obtain c where "get_head sa (lev - 1) = Some (Some c)"
          "search_inv sa ns key (found, lev - 1, prev, c, index)" using pN by auto
        then show ?thesis using n nk gt g None False pN by (simp add: search_step_def search_goal_def)
      next
        case (Some q)
        then have "last_opt xs = Some q" using xy(2) by simp
        then obtain ws where ws: "xs = ws @ [q]" by (auto simp: last_opt_Some)
        have lq: "lev < ht (heap sa) q" using xy(3) Some by blast
        have s: "shape sa (ws @ q # ys)" using fullD(2) [OF f] xy(1) ws by simp
        obtain l' c where dc: "descend sa q cur lev = Some (l', Some c)" "l' < lev" "nxt (heap sa) l' ys = Some c"
          using descend_correct [OF s lq, of cur] xy(6) False by auto
        have st: "search_step sa key (found, lev, prev, cur, index) = Some (Inl (found, l', prev, c, index))"
          using n nk gt g None False Some dc(1) by (simp add: search_step_def)
        have "search_inv sa ns key (found, l', prev, c, index)"
        proof (rule search_invI [OF xy(1,2)])
          show "l' < ht (heap sa) p" if "prev = Some p" for p using that Some lq dc(2) by simp
        qed (use xy dc in auto)
        with st dc(2) show ?thesis by (simp add: search_goal_def)
      qed
    qed
  qed
qed

lemma search_step_correct:
  assumes f: "full sa ns" and I: "search_inv sa ns key (found, lev, prev, cur, index)"
  shows "search_goal sa ns key (found, lev, prev, cur, index)
    (search_step sa key (found, lev, prev, cur, index))"
proof -
  obtain xs ys where xy: "ns = xs @ ys" "below (call_cmp sa) key (keys_of (heap sa) xs)"
    "nxt (heap sa) lev ys = Some cur" using I by (rule search_invE)
  have cn: "cur \<in> set ns" using nxt_SomeD [OF xy(3)] xy(1) by simp
  obtain n where n: "heap sa cur = Some n" using full_node [OF f cn] by auto
  note nk = full_nodeD [OF f cn n]
  consider (lt) "call_cmp sa key (last (node_keys n)) < 0" | (eq) "call_cmp sa key (last (node_keys n)) = 0"
    | (gt) "0 < call_cmp sa key (last (node_keys n))" by linarith
  then show ?thesis
  proof cases
    case lt
    show ?thesis
    proof (cases "lev = 0")
      case True
      with search_step_here [OF f _ n lt] I show ?thesis by simp
    next
      case False
      then obtain c where "(case prev of Some q \<Rightarrow> get_fwd sa q (lev - 1) | None \<Rightarrow> get_head sa (lev - 1)) = Some (Some c)"
        "search_inv sa ns key (found, lev - 1, prev, c, index)"
        using search_inv_down [OF f I, of found] by auto
      then show ?thesis using n nk(2,5) lt False by (simp add: search_step_def search_goal_def)
    qed
  next
    case gt
    show ?thesis using search_step_past [OF f I n gt] .
  next
    case eq
    have i: "count n - 1 < count n" "call_cmp sa key (node_keys n ! (count n - 1)) = 0"
      using nk(2,4,6) eq by (auto simp: last_conv_nth)
    have dec: "u16_dec (count n) 1 = count n - 1"
      using nk(2) node_okD(4) [OF nk(1)] cfg_okD(2) [OF fullD(1) [OF f]] by simp
    show ?thesis
    proof (cases "lev = 0")
      case True
      obtain zs where ys: "ys = cur # zs" using nxt0_hd [OF fullD(2) [OF f], of ys cur] xy True by auto
      have f': "full sa (xs @ cur # zs)" using f xy ys by simp
      have "position sa ns key True cur (count n - 1)"
      proof (rule positionI [of _ xs _ zs, OF _ n])
        show "above (call_cmp sa) key (keys_of (heap sa) zs)" using above_from [OF f' n] eq by simp
        show "below (call_cmp sa) key (take (count n - 1) (node_keys n))"
          using equal_splits_node [OF f' n i] by simp
        show "if True then count n - 1 < count n \<and> call_cmp sa key (node_keys n ! (count n - 1)) = 0 \<and>
            above (call_cmp sa) key (drop (count n - 1 + 1) (node_keys n))
          else above (call_cmp sa) key (drop (count n - 1) (node_keys n))"
          using equal_splits_node [OF f' n i] i by simp
      qed (use xy ys in auto)
      moreover have "search_step sa key (found, lev, prev, cur, index) = Some (Inr (True, cur, count n - 1))"
        using n nk(2,5) eq True dec by (simp add: search_step_def)
      ultimately show ?thesis using search_goal_found by simp
    next
      case False
      have "\<exists>k \<in> set (keys_of (heap sa) [cur]). call_cmp sa key k = 0"
        using nk(3,6) eq by (intro bexI [of _ "last (node_keys n)"]) auto
      then obtain c where "(case prev of Some q \<Rightarrow> get_fwd sa q (lev - 1) | None \<Rightarrow> get_head sa (lev - 1)) = Some (Some c)"
        "search_inv sa ns key (True, lev - 1, prev, c, count n - 1)"
        using search_inv_down [OF f I, of True "count n - 1"] False by auto
      moreover from this have "search_step sa key (found, lev, prev, cur, index) =
          Some (Inl (True, lev - 1, prev, c, count n - 1))"
        using n nk(2,5) eq False dec by (simp add: search_step_def)
      ultimately show ?thesis using search_goal_next False by simp
    qed
  qed
qed

lemma search_loop_correct:
  assumes f: "full sa ns" and I: "search_inv sa ns key s"
  shows "\<exists>fd a i. loop_c (search_step sa key) s = Some (fd, a, i) \<and> position sa ns key fd a i"
proof -
  have "\<exists>r. loop_c (search_step sa key) s = Some r \<and> (case r of (fd, a, i) \<Rightarrow> position sa ns key fd a i)"
  proof (rule loop_c_rule2 [where I = "search_inv sa ns key" and V = "\<lambda>(f, l, p, c, i). l"
        and W = "\<lambda>(f, l, p, c, i). length (after c ns)"])
    fix t assume t: "search_inv sa ns key t"
    obtain fd l p c i where e: "t = (fd, l, p, c, i)" by (cases t) auto
    show "(\<exists>s'. search_step sa key t = Some (Inl s') \<and> search_inv sa ns key s' \<and>
        ((case s' of (f, l, p, c, i) \<Rightarrow> l) < (case t of (f, l, p, c, i) \<Rightarrow> l) \<or>
         (case s' of (f, l, p, c, i) \<Rightarrow> l) = (case t of (f, l, p, c, i) \<Rightarrow> l) \<and>
         (case s' of (f, l, p, c, i) \<Rightarrow> length (after c ns)) < (case t of (f, l, p, c, i) \<Rightarrow> length (after c ns)))) \<or>
      (\<exists>r. search_step sa key t = Some (Inr r) \<and> (case r of (fd, a, i) \<Rightarrow> position sa ns key fd a i))"
      using search_step_correct [OF f t [unfolded e]] unfolding e search_goal_def by auto
  qed (rule I)
  then show ?thesis by auto
qed

text \<open>A lone empty first node, the only chain with an empty node.\<close>

lemma wf_cases:
  assumes "wf sa ns its"
  obtains (empty) a n where "ns = [a]" "heap sa a = Some n" "count n = 0" "pairs_of (heap sa) ns = []"
      "node_ok (node_size sa) (use_values sa) n"
  | (full) "full sa ns" "pairs_of (heap sa) ns \<noteq> []"
proof (cases "\<exists>a. ns = [a] \<and> pairs_at (heap sa) a = []")
  case True
  then obtain a where a: "ns = [a]" "pairs_at (heap sa) a = []" by blast
  then obtain n where n: "heap sa a = Some n" "node_ok (node_size sa) (use_values sa) n"
    using shape_node [OF wfD(2) [OF assms], of a] by auto
  with a pairs_at_ok(1) [OF n] show ?thesis by (intro empty [of a n]) auto
next
  case False
  have ne: "ns \<noteq> []" using wfD(2) [OF assms] by (simp add: shape_def)
  have "nonempty_nodes sa ns"
  proof (cases "tl ns = []")
    case True
    with ne False show ?thesis by (cases ns) (auto simp: nonempty_nodes_def)
  next
    case False
    then show ?thesis by (rule wf_nonempty [OF assms])
  qed
  with wfD [OF assms] have "full sa ns" by (simp add: full_def)
  moreover have "pairs_of (heap sa) ns \<noteq> []"
    using ne \<open>nonempty_nodes sa ns\<close> by (cases ns) (auto simp: nonempty_nodes_def)
  ultimately show ?thesis by (rule full)
qed

lemma search_correct:
  assumes w: "wf sa ns its"
  shows "\<exists>fd a i. search sa key = Some (if fd then SEARCH_FOUND else SEARCH_NOT_FOUND, a, i) \<and>
    position sa ns key fd a i"
  using w
proof (cases rule: wf_cases)
  case (empty a n)
  have h: "get_head sa (sa_height sa - 1) = Some (Some a)"
  proof -
    have c: "sa_height sa - 1 < sa_height sa" "sa_height sa - 1 < max_level sa" "length (nodes sa) = max_level sa"
      using cfg_okD [OF wfD(1) [OF w]] by auto
    with nxt_head [OF wfD(2) [OF w] c(1)] cfg_okD(6) [OF wfD(1) [OF w]] empty(1)
    show ?thesis by (simp add: get_head_shape [OF wfD(2) [OF w]] split: if_splits)
  qed
  have "position sa ns key False a 0"
    by (rule positionI [of _ "[]" _ "[]"]) (use empty in \<open>auto simp: node_keys_def\<close>)
  moreover have "search sa key = Some (SEARCH_NOT_FOUND, a, 0)"
    using h empty cfg_okD(5) [OF wfD(1) [OF w]] by (simp add: search_def)
  ultimately show ?thesis by (intro exI [of _ False]) auto
next
  case full
  let ?l = "sa_height sa - 1"
  have c: "1 \<le> sa_height sa" "?l < sa_height sa" "?l < max_level sa" "length (nodes sa) = max_level sa"
    using cfg_okD [OF wfD(1) [OF w]] by auto
  obtain cur where cur: "nxt (heap sa) ?l ns = Some cur"
    using nxt_head [OF wfD(2) [OF w] c(2)] cfg_okD(6) [OF wfD(1) [OF w]] by auto
  have h: "get_head sa ?l = Some (Some cur)" using get_head_shape [OF wfD(2) [OF w] c(4,3)] cur by simp
  obtain n where n: "heap sa cur = Some n" "0 < count n"
    using full_node [OF full(1), of cur] nxt_SomeD [OF cur] by blast
  have "search_inv sa ns key (False, ?l, None, cur, 0)"
    by (rule search_invI [of _ "[]" ns]) (use c cur in auto)
  then obtain fd a i where "loop_c (search_step sa key) (False, ?l, None, cur, 0) = Some (fd, a, i)"
    "position sa ns key fd a i" using search_loop_correct [OF full(1)] by blast
  with h n c(1) show ?thesis by (intro exI [of _ fd] exI [of _ a] exI [of _ i]) (simp add: search_def)
qed

section \<open>Properties\<close>

text \<open>
  C9. The descent through the levels always ends, on any key: either on the index of a pair
  with an equal key, or on a node and an index in it such that all smaller keys come before
  and all greater keys come from there on.
\<close>

theorem search_spec:
  assumes "wf sa ns its"
  shows "\<exists>fd a i. search sa key = Some (if fd then SEARCH_FOUND else SEARCH_NOT_FOUND, a, i) \<and>
    position sa ns key fd a i"
  by (rule search_correct [OF assms])

theorem search_spec_witness:
  "\<exists>fd a i. search sample 4 = Some (if fd then SEARCH_FOUND else SEARCH_NOT_FOUND, a, i) \<and>
    position sample [2, 5] 4 fd a i"
  by (rule search_spec [OF sample_wf])

end
