(* ===== verification/Lookup.thy ===== *)
theory Lookup
  imports Search
begin

text \<open>
  The operations that read a skiparray: \<^verbatim>\<open>skiparray_get_pair\<close>, \<^verbatim>\<open>skiparray_get\<close>,
  \<^verbatim>\<open>skiparray_member\<close>, \<^verbatim>\<open>skiparray_count\<close>, \<^verbatim>\<open>skiparray_first\<close>, \<^verbatim>\<open>last_node\<close> and
  \<^verbatim>\<open>skiparray_last\<close>, each shown to agree with the list of pairs the skiparray represents.
\<close>

section \<open>Definitions\<close>

text \<open>
  The boolean result and the pair written through the out-parameter: \<open>Some p\<close> for true with
  \<open>p\<close> written, \<open>None\<close> for false.
\<close>

definition skiparray_get_pair :: "skiparray \<Rightarrow> voidp \<Rightarrow> (voidp \<times> voidp) option option" where
  "skiparray_get_pair sa key = do {
     (sres, a, index) \<leftarrow> search sa key;
     (case sres of
        SEARCH_NOT_FOUND \<Rightarrow> Some None
      | SEARCH_FOUND \<Rightarrow> do { n \<leftarrow> heap sa a; p \<leftarrow> pair_at sa n index; Some (Some p) }
      | SEARCH_EMPTY \<Rightarrow> None)
   }"

definition skiparray_get :: "skiparray \<Rightarrow> voidp \<Rightarrow> voidp option option" where
  "skiparray_get sa key = do {
     r \<leftarrow> skiparray_get_pair sa key;
     (case r of Some p \<Rightarrow> Some (Some (snd p)) | None \<Rightarrow> Some None)
   }"

definition skiparray_member :: "skiparray \<Rightarrow> voidp \<Rightarrow> bool option" where
  "skiparray_member sa key = do { r \<leftarrow> skiparray_get sa key; Some (r \<noteq> None) }"

text \<open>\<^verbatim>\<open>skiparray_count\<close>: the sum is kept in a \<^verbatim>\<open>size_t\<close>.\<close>

definition count_step :: "skiparray \<Rightarrow> addr option \<times> nat \<Rightarrow> (addr option \<times> nat + nat) option" where
  "count_step sa = (\<lambda>(n, res).
     (case n of
        None \<Rightarrow> Some (Inr res)
      | Some a \<Rightarrow> do {
          nd \<leftarrow> heap sa a;
          nx \<leftarrow> get_fwd sa a 0;
          Some (Inl (nx, (res + count nd) mod 2 ^ 64))
        }))"

definition skiparray_count :: "skiparray \<Rightarrow> nat option" where
  "skiparray_count sa = do { p \<leftarrow> get_head sa 0; loop_c (count_step sa) (p, 0) }"

text \<open>
  The out-parameters of \<^verbatim>\<open>first\<close>, \<^verbatim>\<open>last\<close>, \<^verbatim>\<open>pop_first\<close> and \<^verbatim>\<open>pop_last\<close>: the key is always
  written, the value only when the skiparray uses values.
\<close>

definition out_pair :: "skiparray \<Rightarrow> node \<Rightarrow> nat \<Rightarrow> (voidp \<times> voidp option) option" where
  "out_pair sa n index = do {
     k \<leftarrow> rd (keys n) index;
     v \<leftarrow> (if use_values sa
            then (case vals n of None \<Rightarrow> None | Some vs \<Rightarrow> map_option Some (rd vs index))
            else Some None);
     Some (k, v)
   }"

definition skiparray_first ::
  "skiparray \<Rightarrow> (skiparray_first_res \<times> (voidp \<times> voidp option) option) option" where
  "skiparray_first sa = do {
     p \<leftarrow> get_head sa 0;
     a \<leftarrow> p;
     n \<leftarrow> heap sa a;
     (if count n = 0 then Some (SKIPARRAY_FIRST_EMPTY, None)
      else do {
        kv \<leftarrow> out_pair sa n (offset n);
        Some (SKIPARRAY_FIRST_OK, Some kv)
      })
   }"

definition last_step :: "skiparray \<Rightarrow> nat \<times> addr \<Rightarrow> (nat \<times> addr + addr) option" where
  "last_step sa = (\<lambda>(lev, n). do {
     nx \<leftarrow> get_fwd sa n lev;
     (case nx of
        Some x \<Rightarrow> Some (Inl (lev, x))
      | None \<Rightarrow> if lev = 0 then Some (Inr n) else Some (Inl (lev - 1, n)))
   })"

definition last_node :: "skiparray \<Rightarrow> addr option" where
  "last_node sa = do {
     assert_c (0 < sa_height sa);
     p \<leftarrow> get_head sa (sa_height sa - 1);
     a \<leftarrow> p;
     loop_c (last_step sa) (sa_height sa - 1, a)
   }"

definition skiparray_last ::
  "skiparray \<Rightarrow> (skiparray_last_res \<times> (voidp \<times> voidp option) option) option" where
  "skiparray_last sa = do {
     a \<leftarrow> last_node sa;
     n \<leftarrow> heap sa a;
     (if count n = 0 then do {
        p \<leftarrow> get_head sa 0;
        assert_c (p = Some a);
        Some (SKIPARRAY_LAST_EMPTY, None)
      } else do {
        kv \<leftarrow> out_pair sa n (u16 (offset n + count n - 1));
        Some (SKIPARRAY_LAST_OK, Some kv)
      })
   }"

section \<open>Lookup by key\<close>

lemma representsE:
  assumes "represents sa ps its F"
  obtains ns where "wf sa ns its" "pairs_of (heap sa) ns = ps" "F = set (live (mst sa)) - set (blocks sa ns its)"
  using assms by (auto simp: represents_def)

lemma represents_ascending:
  assumes "represents sa ps its F"
  shows "ascending (call_cmp sa) (map fst ps)" "comparator (call_cmp sa)"
  using assms by (auto simp: represents_def wf_def ordered_def cfg_ok_def)

text \<open>A position in the chain is a position in the list of pairs.\<close>

lemma position_pairs:
  assumes w: "wf sa ns its" and p: "position sa ns key fd a i"
  obtains xs ys n where "ns = xs @ a # ys" "heap sa a = Some n" "node_ok (node_size sa) (use_values sa) n"
    "i \<le> count n" "below (call_cmp sa) key (map fst (pairs_of (heap sa) xs @ take i (node_pairs n)))"
    "pairs_of (heap sa) ns = pairs_of (heap sa) xs @ node_pairs n @ pairs_of (heap sa) ys"
    "fd \<Longrightarrow> i < count n \<and> call_cmp sa key (fst (node_pairs n ! i)) = 0 \<and>
       above (call_cmp sa) key (map fst (drop (i + 1) (node_pairs n) @ pairs_of (heap sa) ys))"
    "\<not> fd \<Longrightarrow> above (call_cmp sa) key (map fst (drop i (node_pairs n) @ pairs_of (heap sa) ys))"
proof -
  from p obtain xs ys n where x: "ns = xs @ a # ys" "heap sa a = Some n" "i \<le> count n"
    "below (call_cmp sa) key (keys_of (heap sa) xs @ take i (node_keys n))"
    "if fd then i < count n \<and> call_cmp sa key (node_keys n ! i) = 0 \<and>
       above (call_cmp sa) key (drop (i + 1) (node_keys n) @ keys_of (heap sa) ys)
     else above (call_cmp sa) key (drop i (node_keys n) @ keys_of (heap sa) ys)"
    unfolding position_def by blast
  obtain m where m: "heap sa a = Some m" "node_ok (node_size sa) (use_values sa) m"
    using shape_node [OF wfD(2) [OF w], of a] x(1) by auto
  with x have ok: "node_ok (node_size sa) (use_values sa) n" by simp
  have k: "node_keys n = map fst (node_pairs n)" "length (node_pairs n) = count n" using ok by auto
  show ?thesis
  proof (rule that [OF x(1,2) ok x(3)])
    show "below (call_cmp sa) key (map fst (pairs_of (heap sa) xs @ take i (node_pairs n)))"
      using x(4) by (simp add: k(1) take_map)
    show "i < count n \<and> call_cmp sa key (fst (node_pairs n ! i)) = 0 \<and>
       above (call_cmp sa) key (map fst (drop (i + 1) (node_pairs n) @ pairs_of (heap sa) ys))" if fd
      using x(5) that k(2) by (auto simp: k(1) drop_map)
    show "above (call_cmp sa) key (map fst (drop i (node_pairs n) @ pairs_of (heap sa) ys))" if "\<not> fd"
      using x(5) that by (simp add: k(1) drop_map)
  qed (use x in \<open>simp add: at_Some\<close>)
qed

lemma split_nth: "i < length xs \<Longrightarrow> xs = take i xs @ xs ! i # drop (i + 1) xs"
  by (simp add: id_take_nth_drop [symmetric])

lemma get_pair_correct:
  assumes r: "represents sa ps its F"
  shows "skiparray_get_pair sa key = Some (spec_get (call_cmp sa) key ps)"
proof -
  obtain ns where w: "wf sa ns its" and ps: "pairs_of (heap sa) ns = ps" using r by (rule representsE)
  note c = represents_ascending(2) [OF r]
  obtain fd a i where s: "search sa key = Some (if fd then SEARCH_FOUND else SEARCH_NOT_FOUND, a, i)"
    and pos: "position sa ns key fd a i" using search_correct [OF w] by blast
  from w pos obtain xs ys n where x: "heap sa a = Some n" "node_ok (node_size sa) (use_values sa) n"
    "below (call_cmp sa) key (map fst (pairs_of (heap sa) xs @ take i (node_pairs n)))"
    "pairs_of (heap sa) ns = pairs_of (heap sa) xs @ node_pairs n @ pairs_of (heap sa) ys"
    "fd \<Longrightarrow> i < count n \<and> call_cmp sa key (fst (node_pairs n ! i)) = 0"
    "\<not> fd \<Longrightarrow> above (call_cmp sa) key (map fst (drop i (node_pairs n) @ pairs_of (heap sa) ys))"
    by (rule position_pairs) blast
  let ?xs = "pairs_of (heap sa) xs @ take i (node_pairs n)"
  show ?thesis
  proof (cases fd)
    case True
    then have i: "i < count n" "call_cmp sa key (fst (node_pairs n ! i)) = 0" using x(5) by auto
    have np: "node_pairs n = take i (node_pairs n) @ node_pairs n ! i # drop (i + 1) (node_pairs n)"
      using i(1) x(2) by (intro split_nth) simp
    have "ps = pairs_of (heap sa) xs @ node_pairs n @ pairs_of (heap sa) ys" using ps x(4) by simp
    also have "\<dots> = ?xs @ (fst (node_pairs n ! i), snd (node_pairs n ! i)) # (drop (i + 1) (node_pairs n) @ pairs_of (heap sa) ys)"
      by (subst np) simp
    finally have "ps = ?xs @ (fst (node_pairs n ! i), snd (node_pairs n ! i)) # (drop (i + 1) (node_pairs n) @ pairs_of (heap sa) ys)" .
    then have "spec_get (call_cmp sa) key ps = Some (node_pairs n ! i)"
      using comparator.spec_get_found [OF c x(3) i(2), of "snd (node_pairs n ! i)"
        "drop (i + 1) (node_pairs n) @ pairs_of (heap sa) ys"] by simp
    with s x(1) i(1) pair_at_correct [OF x(2) i(1)] True show ?thesis by (simp add: skiparray_get_pair_def)
  next
    case False
    have "ps = pairs_of (heap sa) xs @ (take i (node_pairs n) @ drop i (node_pairs n)) @ pairs_of (heap sa) ys"
      using ps x(4) by simp
    then have "ps = ?xs @ (drop i (node_pairs n) @ pairs_of (heap sa) ys)"
      by (simp del: append_take_drop_id)
    then have "spec_get (call_cmp sa) key ps = None"
      using comparator.spec_get_absent [OF c x(3) x(6) [OF False]] by simp
    with s False show ?thesis by (simp add: skiparray_get_pair_def)
  qed
qed

lemma get_correct:
  "represents sa ps its F \<Longrightarrow> skiparray_get sa key = Some (map_option snd (spec_get (call_cmp sa) key ps))"
  by (auto simp: skiparray_get_def get_pair_correct split: option.splits)

lemma spec_get_None: "spec_get c key ps = None \<longleftrightarrow> (\<forall>k \<in> set (map fst ps). c key k \<noteq> 0)"
  by (auto simp: spec_get_def find_None_iff)

lemma member_correct:
  "represents sa ps its F \<Longrightarrow> skiparray_member sa key = Some (\<exists>k \<in> set (map fst ps). call_cmp sa key k = 0)"
  using spec_get_None [of "call_cmp sa" key ps]
  by (cases "spec_get (call_cmp sa) key ps") (auto simp: skiparray_member_def get_correct)

section \<open>Counting\<close>

lemma count_loop:
  assumes s: "shape sa ns"
  shows "\<And>us p m. ns = us @ vs \<Longrightarrow> p = (case vs of [] \<Rightarrow> None | a # _ \<Rightarrow> Some a) \<Longrightarrow>
    loop_c (count_step sa) (p, m mod 2 ^ 64) = Some ((m + length (pairs_of (heap sa) vs)) mod 2 ^ 64)"
proof (induction vs)
  case Nil
  then show ?case by (subst loop_c_Inr [where r = "m mod 2 ^ 64"]) (simp_all add: count_step_def)
next
  case (Cons a vs)
  have a: "a \<in> set ns" "a \<notin> set us" using Cons.prems s by (auto simp: shape_def)
  obtain n where n: "heap sa a = Some n" "node_ok (node_size sa) (use_values sa) n"
    using shape_node [OF s a(1)] by auto
  have g: "get_fwd sa a 0 = Some (case vs of [] \<Rightarrow> None | b # _ \<Rightarrow> Some b)"
  proof -
    have "0 < ht (heap sa) a" using shape_ht(1) [OF s a(1)] by simp
    moreover have "set vs \<subseteq> set ns" using Cons.prems(1) by auto
    ultimately show ?thesis using get_fwd_shape [OF s a(1)] Cons.prems(1) a(2) nxt0 [OF s, of vs] by (simp add: chain)
  qed
  have "count_step sa (p, m mod 2 ^ 64) = Some (Inl (case vs of [] \<Rightarrow> None | b # _ \<Rightarrow> Some b, (m + count n) mod 2 ^ 64))"
    using Cons.prems(2) n g by (simp add: count_step_def mod_simps)
  then have "loop_c (count_step sa) (p, m mod 2 ^ 64) =
      Some ((m + count n + length (pairs_of (heap sa) vs)) mod 2 ^ 64)"
    using Cons.IH [of "us @ [a]"] Cons.prems(1) by (simp add: loop_c_Inl)
  then show ?case using pairs_at_ok(1) [OF n] by (simp add: add.assoc)
qed

lemma head0:
  assumes "wf sa ns its"
  shows "get_head sa 0 = Some (Some (hd ns))"
  using cfg_okD [OF wfD(1) [OF assms]] shape_head0 [OF wfD(2) [OF assms]] by (simp add: get_head_def)

lemma count_correct:
  assumes r: "represents sa ps its F"
  shows "skiparray_count sa = Some (length ps mod 2 ^ 64)"
proof -
  obtain ns where w: "wf sa ns its" and ps: "pairs_of (heap sa) ns = ps" using r by (rule representsE)
  have "Some (hd ns) = (case ns of [] \<Rightarrow> None | a # _ \<Rightarrow> Some a)"
    using wfD(2) [OF w] by (cases ns) (auto simp: shape_def)
  with count_loop [OF wfD(2) [OF w], of "[]" ns "Some (hd ns)" 0] head0 [OF w] ps
  show ?thesis by (simp add: skiparray_count_def)
qed

section \<open>First and last\<close>

lemma out_pair_correct:
  assumes "node_ok (node_size sa) (use_values sa) n" "i < count n"
  shows "out_pair sa n (offset n + i) =
    Some (fst (node_pairs n ! i), if use_values sa then Some (snd (node_pairs n ! i)) else None)"
proof -
  have l: "length (node_keys n) = count n" "length (node_vals n) = count n"
    "offset n + i < length (keys n)" using assms node_okD [OF assms(1)] by auto
  show ?thesis
  proof (cases "vals n")
    case None
    then have "\<not> use_values sa" using assms(1) by (auto simp: node_ok_def)
    with None l assms show ?thesis
      by (simp add: out_pair_def node_pairs_def nth_node_keys)
  next
    case (Some vs)
    then have uv: "use_values sa" "length vs = length (keys n)"
      using assms(1) by (auto simp: node_ok_def split: if_splits)
    then have "node_vals n ! i = vs ! (offset n + i)" using assms Some nth_node_vals by auto
    with Some l uv assms show ?thesis by (simp add: out_pair_def node_pairs_def nth_node_keys)
  qed
qed

text \<open>The key and value written for a pair \<open>p\<close>.\<close>

definition out_of :: "skiparray \<Rightarrow> voidp \<times> voidp \<Rightarrow> voidp \<times> voidp option" where
  "out_of sa p = (fst p, if use_values sa then Some (snd p) else None)"

lemma first_correct:
  assumes r: "represents sa ps its F"
  shows "skiparray_first sa =
    Some (case ps of [] \<Rightarrow> (SKIPARRAY_FIRST_EMPTY, None) | p # _ \<Rightarrow> (SKIPARRAY_FIRST_OK, Some (out_of sa p)))"
proof -
  obtain ns where w: "wf sa ns its" and ps: "pairs_of (heap sa) ns = ps" using r by (rule representsE)
  note h = head0 [OF w]
  from w show ?thesis
  proof (cases rule: wf_cases)
    case (empty a n)
    with h ps show ?thesis by (simp add: skiparray_first_def)
  next
    case full
    have "ns \<noteq> []" using wfD(2) [OF w] by (simp add: shape_def)
    then obtain a as where ns: "ns = a # as" by (cases ns) auto
    obtain n where n: "heap sa a = Some n" using full_node [OF full(1), of a] ns by auto
    have ok: "node_ok (node_size sa) (use_values sa) n" "0 < count n"
      using full_nodeD [OF full(1) _ n] ns by auto
    then obtain p qs where "node_pairs n = p # qs"
      by (metis length_node_pairs length_greater_0_conv list.exhaust)
    moreover from this have "ps = p # qs @ pairs_of (heap sa) as" using ps ns n by (simp add: at_Some)
    ultimately show ?thesis using h ns n ok out_pair_correct [OF ok]
      by (simp add: skiparray_first_def out_of_def)
  qed
qed

lemma last_node_correct:
  assumes c: "cfg_ok sa" and s: "shape sa ns"
  shows "last_node sa = Some (last ns)"
proof -
  let ?I = "\<lambda>(l, a). a \<in> set ns \<and> l < ht (heap sa) a"
  have d: "distinct ns" using s by (simp add: shape_def)
  have step: "(\<exists>s'. last_step sa t = Some (Inl s') \<and> ?I s' \<and> (fst s' < fst t \<or>
       fst s' = fst t \<and> length (after (snd s') ns) < length (after (snd t) ns))) \<or>
     (\<exists>r. last_step sa t = Some (Inr r) \<and> r = last ns)" if "?I t" for t
  proof -
    obtain l a where t: "t = (l, a)" by (cases t)
    with that have a: "a \<in> set ns" "l < ht (heap sa) a" by auto
    obtain us where us: "ns = us @ a # after a ns" "a \<notin> set us" using split_at [OF a(1)] by blast
    have g: "get_fwd sa a l = Some (nxt (heap sa) l (after a ns))" by (rule get_fwd_shape [OF s a])
    show ?thesis
    proof (cases "nxt (heap sa) l (after a ns)")
      case (Some x)
      obtain ws vs where v: "after a ns = ws @ x # vs" using nxt_Some_split [OF Some] by blast
      have e: "ns = (us @ a # ws) @ x # vs" using us v by simp
      have "after x ns = vs" using d unfolding e by (subst after_notin) auto
      moreover have "x \<in> set ns" "l < ht (heap sa) x"
        using nxt_SomeD [OF Some] set_after [of a ns] by auto
      ultimately show ?thesis using t g Some v by (simp add: last_step_def)
    next
      case None
      show ?thesis
      proof (cases "l = 0")
        case True
        with None nxt0 [OF s set_after [of a ns]] have "after a ns = []" by (cases "after a ns") auto
        with us have "last ns = a" by (metis last_snoc)
        with t g None True show ?thesis by (simp add: last_step_def)
      next
        case False
        with t g None a show ?thesis by (simp add: last_step_def)
      qed
    qed
  qed
  have l: "sa_height sa - 1 < sa_height sa" "sa_height sa - 1 < max_level sa" using cfg_okD [OF c] by auto
  obtain a where a: "nxt (heap sa) (sa_height sa - 1) ns = Some a"
    using nxt_head [OF s l(1) cfg_okD(6) [OF c]] by auto
  have "\<exists>r. loop_c (last_step sa) (sa_height sa - 1, a) = Some r \<and> r = last ns"
    by (rule loop_c_rule2 [where I = ?I and V = fst and W = "\<lambda>t. length (after (snd t) ns)"])
      (use nxt_SomeD [OF a] step in auto)
  then show ?thesis
    using a l(2) get_head_shape [OF s cfg_okD(7) [OF c] l(2)] cfg_okD(5) [OF c] by (simp add: last_node_def)
qed

lemma last_correct:
  assumes r: "represents sa ps its F"
  shows "skiparray_last sa =
    Some (if ps = [] then (SKIPARRAY_LAST_EMPTY, None) else (SKIPARRAY_LAST_OK, Some (out_of sa (last ps))))"
proof -
  obtain ns where w: "wf sa ns its" and ps: "pairs_of (heap sa) ns = ps" using r by (rule representsE)
  have l: "last_node sa = Some (last ns)" by (rule last_node_correct [OF wfD(1,2) [OF w]])
  from w show ?thesis
  proof (cases rule: wf_cases)
    case (empty a n)
    with head0 [OF w] ps l show ?thesis by (simp add: skiparray_last_def)
  next
    case full
    have ne: "ns \<noteq> []" using wfD(2) [OF w] by (simp add: shape_def)
    then have ln: "last ns \<in> set ns" by simp
    obtain n where n: "heap sa (last ns) = Some n" using full_node [OF full(1) ln] by auto
    note k = full_nodeD [OF full(1) ln n]
    have "ps = pairs_of (heap sa) (butlast ns) @ node_pairs n"
      using ps n append_butlast_last_id [OF ne] pairs_of_simps(3) [of "heap sa" "butlast ns" "[last ns]"]
      by (simp add: at_Some)
    moreover have "node_pairs n \<noteq> []" using k(1,2) by (metis length_node_pairs list.size(3) less_irrefl)
    ultimately have p: "ps \<noteq> []" "last ps = node_pairs n ! (count n - 1)"
      using k(1) last_conv_nth [of "node_pairs n"] by auto
    have "u16 (offset n + count n - 1) = offset n + (count n - 1)"
      using node_okD(3) [OF k(1)] cfg_okD(2) [OF wfD(1) [OF w]] k(2) by simp
    then show ?thesis using l n k(2) p out_pair_correct [OF k(1), of "count n - 1"]
      by (simp add: skiparray_last_def out_of_def)
  qed
qed

section \<open>Properties\<close>

text \<open>
  C3. The three lookups by key agree with the ordered association list a skiparray represents,
  locked or not: the pair whose key compares equal (with the key as stored), its value, and
  whether there is one. They always return and never read outside the arrays or follow a NULL
  pointer.
\<close>

theorem lookup_spec:
  assumes "represents sa ps its F"
  shows "skiparray_get_pair sa key = Some (spec_get (call_cmp sa) key ps) \<and>
    skiparray_get sa key = Some (map_option snd (spec_get (call_cmp sa) key ps)) \<and>
    skiparray_member sa key = Some (\<exists>k \<in> set (map fst ps). call_cmp sa key k = 0)"
  using get_pair_correct [OF assms] get_correct [OF assms] member_correct [OF assms] by simp_all

theorem lookup_spec_witness:
  "skiparray_get_pair sample_locked 3 = Some (spec_get (call_cmp sample_locked) 3 sample_pairs) \<and>
   skiparray_get sample_locked 3 = Some (map_option snd (spec_get (call_cmp sample_locked) 3 sample_pairs)) \<and>
   skiparray_member sample_locked 3 = Some (\<exists>k \<in> set (map fst sample_pairs). call_cmp sample_locked 3 k = 0)"
  by (rule lookup_spec [OF sample_locked_represents])

text \<open>
  C30. The first and last pairs in key order, or that there is none; they are found in the
  first node and, through the levels, in the last one, and always returned with the value when
  values are used. The count, taken along the bottom level, is the number of pairs in the 64
  bits of a size_t.
\<close>

theorem ends_spec:
  assumes "represents sa ps its F"
  shows "skiparray_first sa =
      Some (case ps of [] \<Rightarrow> (SKIPARRAY_FIRST_EMPTY, None) | p # _ \<Rightarrow> (SKIPARRAY_FIRST_OK, Some (out_of sa p))) \<and>
    skiparray_last sa =
      Some (if ps = [] then (SKIPARRAY_LAST_EMPTY, None) else (SKIPARRAY_LAST_OK, Some (out_of sa (last ps)))) \<and>
    skiparray_count sa = Some (length ps mod 2 ^ 64)"
  by (intro conjI first_correct [OF assms] last_correct [OF assms] count_correct [OF assms])

theorem ends_spec_witness:
  "skiparray_first sample = Some (case sample_pairs of [] \<Rightarrow> (SKIPARRAY_FIRST_EMPTY, None)
      | p # _ \<Rightarrow> (SKIPARRAY_FIRST_OK, Some (out_of sample p))) \<and>
   skiparray_last sample = Some (if sample_pairs = [] then (SKIPARRAY_LAST_EMPTY, None)
      else (SKIPARRAY_LAST_OK, Some (out_of sample (last sample_pairs)))) \<and>
   skiparray_count sample = Some (length sample_pairs mod 2 ^ 64)"
  by (rule ends_spec [OF sample_represents])

end
