(* ===== verification/Insert.thy ===== *)
theory Insert
  imports Split Lookup
begin

text \<open>
  Insertion: \<^verbatim>\<open>skiparray_set_with_pair\<close> and \<^verbatim>\<open>skiparray_set\<close> of \<open>src/skiparray.c\<close>, shown to be
  \<open>spec_set\<close> on the pairs, with the invariant kept on every path.
\<close>

section \<open>Definitions\<close>

text \<open>
  The result, the pair written to \<^verbatim>\<open>previous_binding\<close> (only when a binding is replaced), and the
  new state.
\<close>

definition skiparray_set_with_pair :: "skiparray \<Rightarrow> voidp \<Rightarrow> voidp \<Rightarrow> bool \<Rightarrow>
    (skiparray_set_res \<times> (voidp \<times> voidp) option \<times> skiparray) option" where
  "skiparray_set_with_pair sa key value replace_key =
     (if has_iterators sa then Some (SKIPARRAY_SET_ERROR_LOCKED, None, sa)
      else do {
        (sres, a, index) \<leftarrow> search sa key;
        (if sres = SEARCH_FOUND then do {
           n \<leftarrow> heap sa a;
           previous \<leftarrow> pair_at sa n index;
           n' \<leftarrow> rebind_in_node sa n index key value replace_key;
           Some (SKIPARRAY_SET_REPLACED, Some previous, set_node sa a n')
         } else do {
           n \<leftarrow> heap sa a;
           (place, sa') \<leftarrow>
             (if count n = node_size sa then do {
                (r, sa1) \<leftarrow> split_node sa a;
                (case r of
                   None \<Rightarrow> Some (None, sa1)
                 | Some b \<Rightarrow> do {
                     bn \<leftarrow> heap sa1 b;
                     assert_c (0 < count bn);
                     sa2 \<leftarrow> link_split sa1 a b;
                     n2 \<leftarrow> heap sa2 a;
                     Some (Some (if count n2 < index then (b, u16_dec index (count n2)) else (a, index)), sa2)
                   })
              } else Some (Some (a, index), sa));
           (case place of
              None \<Rightarrow> Some (SKIPARRAY_SET_ERROR_MEMORY, None, sa')
            | Some (c, i) \<Rightarrow> do {
                cn \<leftarrow> heap sa' c;
                cn' \<leftarrow> bind_in_node sa' cn i key value;
                Some (SKIPARRAY_SET_BOUND, None, set_node sa' c cn')
              })
         })
      })"

definition skiparray_set :: "skiparray \<Rightarrow> voidp \<Rightarrow> voidp \<Rightarrow> (skiparray_set_res \<times> skiparray) option" where
  "skiparray_set sa key value = do {
     (res, previous, sa') \<leftarrow> skiparray_set_with_pair sa key value True;
     Some (res, sa')
   }"

lemma take_drop_glue: "take i l @ drop i l @ r = l @ r"
  by (metis append_assoc append_take_drop_id)

lemma take_nth_drop_glue: "i < length l \<Longrightarrow> take i l @ l ! i # drop (Suc i) l @ r = l @ r"
  using split_nth [of i l] by (metis append_Cons append_assoc Suc_eq_plus1)

section \<open>Splitting\<close>

lemma draw_level_bound:
  assumes "cfg_ok sa"
  shows "fst (draw_level sa) < max_level sa" "u8 (fst (draw_level sa) + 1) = fst (draw_level sa) + 1"
proof -
  have "u8 (max_level sa + 2 ^ 8 - 1) = max_level sa - 1"
  proof -
    have "max_level sa + 256 - 1 = (max_level sa - 1) + 256" using cfg_okD(3) [OF assms] by simp
    moreover have "u8 ((max_level sa - 1) + 256) = u8 (max_level sa - 1)" by (simp add: u8_def)
    ultimately show ?thesis using cfg_okD(4) [OF assms] by simp
  qed
  then show *: "fst (draw_level sa) < max_level sa"
    using cfg_okD(3,4) [OF assms] by (auto simp: draw_level_def Let_def split: prod.split)
  with cfg_okD(4) [OF assms] show "u8 (fst (draw_level sa) + 1) = fst (draw_level sa) + 1" by simp
qed

lemma node_pairs_prefix: "c \<le> count n \<Longrightarrow> node_pairs (n\<lparr>count := c\<rparr>) = take c (node_pairs n)"
  by (auto simp: node_pairs_def node_keys_def node_vals_def take_zip min_def split: option.splits)

lemma node_pairs_suffix:
  "c \<le> count n \<Longrightarrow> node_pairs (n\<lparr>offset := offset n + c, count := count n - c\<rparr>) = drop c (node_pairs n)"
  by (auto simp: node_pairs_def node_keys_def node_vals_def drop_zip drop_take add.commute split: option.splits)

text \<open>The contents of the two nodes after a split.\<close>

definition split_into :: "skiparray \<Rightarrow> addr \<Rightarrow> node \<Rightarrow> addr \<Rightarrow> skiparray \<Rightarrow> node \<Rightarrow> node \<Rightarrow> bool" where
  "split_into sa a n b sa1 n1 bn \<longleftrightarrow>
     heap sa1 = (heap sa)(a \<mapsto> n1, b \<mapsto> bn) \<and> nodes sa1 = nodes sa \<and> sa_height sa1 = sa_height sa \<and>
     node_ok (node_size sa) (use_values sa) n1 \<and> node_ok (node_size sa) (use_values sa) bn \<and> same_links n n1 \<and>
     node_pairs n1 = take (count n - count n div 2) (node_pairs n) \<and>
     node_pairs bn = drop (count n - count n div 2) (node_pairs n) \<and>
     height bn = fst (draw_level sa) + 1 \<and> prng_state sa1 = snd (draw_level sa) \<and>
     height bn \<le> max_level sa \<and> fwd bn = replicate (height bn) None \<and> back_p bn = Some a \<and>
     distinct (node_blocks b bn) \<and> set (node_blocks b bn) \<inter> set (live (mst sa)) = {} \<and>
     set (live (mst sa1)) = set (node_blocks b bn) \<union> set (live (mst sa))"

lemma split_node_correct:
  assumes cfg: "cfg_ok sa" and n: "heap sa a = Some n" "node_ok (node_size sa) (use_values sa) n" "2 \<le> count n"
  shows "\<exists>r sa1. split_node sa a = Some (r, sa1) \<and> same_env sa sa1 \<and>
    (case r of
       None \<Rightarrow> heap sa1 = heap sa \<and> nodes sa1 = nodes sa \<and> sa_height sa1 = sa_height sa \<and>
         prng_state sa1 = snd (draw_level sa) \<and> set (live (mst sa1)) = set (live (mst sa))
     | Some b \<Rightarrow> \<exists>n1 bn. split_into sa a n b sa1 n1 bn)"
proof -
  obtain lv g where lg: "draw_level sa = (lv, g)" by fastforce
  then have lv: "lv < max_level sa" "u8 (lv + 1) = lv + 1" using draw_level_bound [OF cfg] by auto
  obtain r m where alloc: "node_alloc (lv + 1) (node_size sa) (snd (mem sa)) (use_values sa) (mst sa) = Some (r, m)"
    "case r of None \<Rightarrow> set (live m) = set (live (mst sa))
     | Some (b, bn) \<Rightarrow> fresh_node (lv + 1) (node_size sa) (use_values sa) bn \<and> distinct (node_blocks b bn) \<and>
         set (node_blocks b bn) \<inter> set (live (mst sa)) = {} \<and>
         set (live m) = set (node_blocks b bn) \<union> set (live (mst sa))"
    using allocator.node_alloc_total [OF cfg_okD(9) [OF cfg], of "lv + 1" "node_size sa" "use_values sa" "mst sa"] cfg_okD(1) [OF cfg] by auto
  show ?thesis
  proof (cases r)
    case None
    with alloc lg lv node_alloc_oom [OF alloc(1)] show ?thesis by (auto simp: split_node_def same_env_def)
  next
    case (Some bb)
    then obtain b bn where r: "r = Some (b, bn)" by (cases bb) auto
    have f: "fresh_node (lv + 1) (node_size sa) (use_values sa) bn" "distinct (node_blocks b bn)"
      "set (node_blocks b bn) \<inter> set (live (mst sa)) = {}" "set (live m) = set (node_blocks b bn) \<union> set (live (mst sa))"
      using alloc(2) r by auto
    let ?tm = "count n div 2" and ?c = "count n - count n div 2"
    let ?m = "n\<lparr>offset := offset n + ?c, count := count n - ?c\<rparr>" and ?new = "bn\<lparr>offset := 0\<rparr>"
    have b: "count n < 65536" "offset n + count n \<le> node_size sa" "?tm \<le> node_size sa" "count n - ?c = ?tm" "0 < ?tm"
      using node_okD [OF n(2)] cfg_okD(2) [OF cfg] n(3) by auto
    have okm: "node_ok (node_size sa) (use_values sa) ?m" using n(2) b by (auto simp: node_ok_def)
    have okn: "node_ok (node_size sa) (use_values sa) ?new" "count ?new = 0"
      using f(1) cfg_okD(1) [OF cfg] by (auto simp: fresh_node_def node_ok_def)
    have bnd: "count ?new + ?tm \<le> node_size sa" "?tm \<le> count ?m" using okn(2) b by auto
    obtain n' where n': "move_pairs ?new ?m (count ?new) (offset ?m) ?tm = Some n'" "same_links ?new n'" "offset n' = 0"
      "node_ok (node_size sa) (use_values sa) (n'\<lparr>count := count ?new + ?tm\<rparr>)"
      "node_pairs (n'\<lparr>count := count ?new + ?tm\<rparr>) = node_pairs ?new @ take ?tm (node_pairs ?m)"
      using move_pairs_append [OF okn(1) okm _ bnd(2,1)] by auto
    obtain ks vs where kv: "n' = ?new\<lparr>keys := ks, vals := vs\<rparr>"
      "memcpy_c (keys ?new) 0 (keys n) (offset n + ?c) ?tm = Some ks"
      "(case vals ?new of None \<Rightarrow> Some None
         | Some v \<Rightarrow> (case vals n of None \<Rightarrow> None | Some w \<Rightarrow> map_option Some (memcpy_c v 0 w (offset n + ?c) ?tm))) = Some vs"
      using n'(1) okn(2) by (auto simp: move_pairs_def bind_eq_Some_conv cong: option.case_cong)
    let ?n1 = "n\<lparr>count := ?c\<rparr>" and ?bn = "n'\<lparr>count := ?tm, back_p := Some a\<rparr>"
    let ?sa1 = "sa\<lparr>prng_state := g, mst := m, heap := (heap sa)(a \<mapsto> ?n1, b \<mapsto> ?bn)\<rparr>"
    have pos: "offset n + count n - ?tm = offset n + ?c" by simp
    have u: "u16_dec (count n) ?tm = ?c" "u16 (count bn + ?tm) = ?tm" using b okn(2) by auto
    have kv2: "memcpy_c (keys bn) 0 (keys n) (offset n + ?c) ?tm = Some ks" using kv(2) by simp
    have "split_node sa a = Some (Some b, ?sa1)"
    proof (cases "use_values sa")
      case True
      then obtain v w where vw: "vals bn = Some v" "vals n = Some w"
        using okn(1) n(2) by (auto simp: node_ok_def)
      with kv(3) obtain vs' where vs': "memcpy_c v 0 w (offset n + ?c) ?tm = Some vs'" "vs = Some vs'" by auto
      show ?thesis
        using lg lv(2) alloc(1) r n(1) b(5) kv2 vw vs'(1) True
        unfolding split_node_def by (simp add: Let_def u kv(1) vs'(2))
    next
      case False
      then have vN: "vals bn = None" using okn(1) by (auto simp: node_ok_def)
      with kv(3) have "vs = None" by simp
      moreover have "n' = bn\<lparr>offset := 0, keys := ks\<rparr>" if "vs = None" using that kv(1) vN by (cases bn) simp
      ultimately have "n' = bn\<lparr>offset := 0, keys := ks\<rparr>" by blast
      with lg lv(2) alloc(1) r n(1) b(5) kv2 vN False show ?thesis
        unfolding split_node_def by (simp add: Let_def u)
    qed
    moreover have "split_into sa a n b ?sa1 ?n1 ?bn"
    proof -
      have p1: "node_pairs ?n1 = take ?c (node_pairs n)" by (rule node_pairs_prefix) simp
      have "node_pairs ?new = []" using okn by (metis length_node_pairs length_0_conv)
      moreover have "node_pairs ?m = drop ?c (node_pairs n)" by (rule node_pairs_suffix) simp
      ultimately have p2: "node_pairs (n'\<lparr>count := ?tm\<rparr>) = drop ?c (node_pairs n)"
        using n'(5) okn(2) b length_node_pairs [OF n(2)] by simp
      have ok: "node_ok (node_size sa) (use_values sa) ?n1" "node_ok (node_size sa) (use_values sa) ?bn"
        using n(2) n'(4) okn(2) by (auto simp: node_ok_def)
      have "node_blocks b ?bn = node_blocks b bn" using kv(1) by simp
      then show ?thesis
        using p1 p2 ok f lv(1) kv(1) lg unfolding split_into_def by (auto simp: same_links_def fresh_node_def)
    qed
    moreover have "same_env sa ?sa1" using node_alloc_oom [OF alloc(1)] by (simp add: same_env_def)
    ultimately show ?thesis by (intro exI [of _ "Some b"] exI [of _ ?sa1]) auto
  qed
qed

text \<open>The new node is ready to be linked in.\<close>

lemma ordered_around:
  assumes f: "full sa (xs @ a # ys)" and n: "heap sa a = Some n" and k: "k \<in> set (node_keys n)"
  shows "\<And>c m. c \<in> set xs \<Longrightarrow> heap sa c = Some m \<Longrightarrow> 0 < call_cmp sa k (last (node_keys m))"
    and "\<And>c m. c \<in> set ys \<Longrightarrow> heap sa c = Some m \<Longrightarrow> call_cmp sa k (last (node_keys m)) < 0"
proof -
  have nk: "map fst (pairs_at (heap sa) a) = node_keys n" using full_nodeD(3) [OF f _ n] by simp
  have asc: "ascending (call_cmp sa) (keys_of (heap sa) xs @ node_keys n @ keys_of (heap sa) ys)"
    using fullD(6) [OF f] by (simp add: nk)
  have lk: "last (node_keys m) \<in> set (keys_of (heap sa) zs)"
    if c: "c \<in> set zs" "heap sa c = Some m" "set zs \<subseteq> set (xs @ a # ys)" for c m zs
  proof -
    have "map fst (pairs_at (heap sa) c) = node_keys m" "node_keys m \<noteq> []"
      using full_nodeD(3,6) [OF f _ c(2)] c(1,3) by auto
    then have "last (node_keys m) \<in> fst ` set (pairs_at (heap sa) c)" by (metis last_in_set list.set_map)
    with c(1) show ?thesis by (auto simp: pairs_of_def)
  qed
  show "0 < call_cmp sa k (last (node_keys m))" if "c \<in> set xs" "heap sa c = Some m" for c m
  proof -
    have "last (node_keys m) \<in> set (keys_of (heap sa) xs)" using lk [OF that] by auto
    with asc k have "call_cmp sa (last (node_keys m)) k < 0"
      unfolding ascending_append above_def set_append by blast
    then show ?thesis using comparator.cmp_swap [OF fullD(5) [OF f]] by blast
  qed
  show "call_cmp sa k (last (node_keys m)) < 0" if "c \<in> set ys" "heap sa c = Some m" for c m
  proof -
    have "last (node_keys m) \<in> set (keys_of (heap sa) ys)" using lk [OF that] by auto
    with asc k show ?thesis unfolding ascending_append above_def set_append by blast
  qed
qed

lemma split_intoD:
  assumes "split_into sa a n b sa1 n1 bn"
  shows "heap sa1 = (heap sa)(a \<mapsto> n1, b \<mapsto> bn)" "nodes sa1 = nodes sa" "sa_height sa1 = sa_height sa"
    "node_ok (node_size sa) (use_values sa) n1" "node_ok (node_size sa) (use_values sa) bn" "same_links n n1"
    "node_pairs n1 = take (count n - count n div 2) (node_pairs n)"
    "node_pairs bn = drop (count n - count n div 2) (node_pairs n)"
    "height bn \<le> max_level sa" "fwd bn = replicate (height bn) None" "back_p bn = Some a"
    "distinct (node_blocks b bn)" "set (node_blocks b bn) \<inter> set (live (mst sa)) = {}"
    "set (live (mst sa1)) = set (node_blocks b bn) \<union> set (live (mst sa))"
    "height bn = fst (draw_level sa) + 1" "prng_state sa1 = snd (draw_level sa)"
  using assms by (auto simp: split_into_def)

lemma split_into_counts:
  assumes s: "split_into sa a n b sa1 n1 bn" and n: "node_ok (node_size sa) (use_values sa) n" "2 \<le> count n"
  shows "count n1 = count n - count n div 2" "count bn = count n div 2" "0 < count n1" "0 < count bn"
    "node_keys n1 = take (count n - count n div 2) (node_keys n)"
    "node_keys bn = drop (count n - count n div 2) (node_keys n)"
proof -
  show c: "count n1 = count n - count n div 2" "count bn = count n div 2"
    using length_node_pairs [OF split_intoD(4) [OF s]] length_node_pairs [OF split_intoD(5) [OF s]]
      length_node_pairs [OF n(1)] split_intoD(7,8) [OF s] by auto
  then show "0 < count n1" "0 < count bn" using n(2) by auto
  show "node_keys n1 = take (count n - count n div 2) (node_keys n)"
    "node_keys bn = drop (count n - count n div 2) (node_keys n)"
    using split_intoD(4,5,7,8) [OF s] n(1) map_fst_node_pairs take_map drop_map by metis+
qed

lemma split_insert_ctx:
  assumes f: "full sa (xs @ a # ys)" and n: "heap sa a = Some n" "2 \<le> count n"
    and env: "same_env sa sa1" and s: "split_into sa a n b sa1 n1 bn" and b: "b \<notin> set (xs @ a # ys)"
  shows "\<exists>fk. insert_ctx sa1 xs a b ys fk" "inserting sa1 xs a b ys {} sa1"
proof -
  note sd = split_intoD [OF s] and ok = full_nodeD(1) [OF f _ n(1), simplified]
  note sc = split_into_counts [OF s ok n(2)]
  have d: "distinct (xs @ a # b # ys)" using fullD(7) [OF f] b by auto
  have e: "node_size sa1 = node_size sa" "use_values sa1 = use_values sa" "max_level sa1 = max_level sa"
    "cmp sa1 = cmp sa" using env by (auto simp: same_env_def)
  have hs: "ht (heap sa1) c = ht (heap sa) c" if "c \<noteq> b" for c
    using that sd(1,6) n(1) by (simp add: chain at_Some same_links_def)
  have fw: "fwd_at (heap sa1) c l = fwd_at (heap sa) c l" if "c \<noteq> b" for c l
    using that sd(1,6) n(1) by (simp add: chain same_links_def fwd_at_def)
  have lk: "linked (heap sa1) (nodes sa1) l (xs @ a # ys)" if "l < max_level sa" for l
    by (rule linked_cong [OF shape_linked [OF fullD(2) [OF f] that]])
      (use d sd(2) in \<open>auto intro!: hs fw\<close>)
  define fk where "fk = hd (node_keys bn)"
  have fk: "fk \<in> set (node_keys n)" "first_key bn = Some fk"
  proof -
    have "node_keys bn \<noteq> []" using length_node_keys [OF sd(5)] sc(4) by auto
    then show "fk \<in> set (node_keys n)" unfolding fk_def sc(6) by (metis hd_in_set in_set_dropD)
    show "first_key bn = Some fk" unfolding fk_def by (rule first_key_ok [OF sd(5) sc(4)])
  qed
  have "\<exists>m. heap sa1 c = Some m \<and> node_ok (node_size sa1) (use_values sa1) m \<and> 0 < count m \<and> height m \<le> max_level sa1"
    if c: "c \<in> set (xs @ a # b # ys)" for c
  proof -
    consider "c = b" | "c = a" "c \<noteq> b" | "c \<in> set (xs @ a # ys)" "c \<noteq> a" "c \<noteq> b" using c by auto
    then show ?thesis
    proof cases
      case 1
      with sd sc(4) e show ?thesis by simp
    next
      case 2
      have "height n \<le> max_level sa" using shape_node [OF fullD(2) [OF f], of a] n(1) by auto
      with 2 sd sc(3) e show ?thesis by (simp add: same_links_def)
    next
      case 3
      obtain m where "heap sa c = Some m" "node_ok (node_size sa) (use_values sa) m" "0 < count m"
        using full_node [OF f 3(1)] by blast
      with 3 sd(1) e shape_node [OF fullD(2) [OF f] 3(1)] show ?thesis by auto
    qed
  qed
  moreover have "cfg_ok sa1"
    by (rule cfg_ok_env [OF env fullD(1) [OF f]]) (use sd(2,3) cfg_okD(5,6) [OF fullD(1) [OF f]] in auto)
  moreover have "0 < call_cmp sa1 fk (last (node_keys m))" if "c \<in> set xs" "heap sa1 c = Some m" for c m
  proof -
    have "c \<noteq> a" "c \<noteq> b" using that(1) d by auto
    with ordered_around(1) [OF f n(1) fk(1) that(1), of m] that(2) sd(1) e(4) show ?thesis by simp
  qed
  moreover have "call_cmp sa1 fk (last (node_keys m)) < 0" if "c \<in> set ys" "heap sa1 c = Some m" for c m
  proof -
    have "c \<noteq> a" "c \<noteq> b" using that(1) d by auto
    with ordered_around(2) [OF f n(1) fk(1) that(1), of m] that(2) sd(1) e(4) show ?thesis by simp
  qed
  moreover have "l < sa_height sa1 \<longleftrightarrow> nxt (heap sa1) l (xs @ a # ys) \<noteq> None" if "l < max_level sa1" for l
    using fullD(2) [OF f] that linked_headD [OF lk, of l] sd(2,3) e(3) by (simp add: shape_def)
  moreover have "first_key m = Some fk" if "heap sa1 b = Some m" for m using that sd(1) fk(2) by simp
  ultimately show "\<exists>fk. insert_ctx sa1 xs a b ys fk" using d unfolding insert_ctx_def by blast
  have "fwd_at (heap sa1) b l = None" for l using sd(1,10) by (simp add: fwd_at_def)
  then show "inserting sa1 xs a b ys {} sa1" using lk e(3) by (simp add: inserting_def)
qed

lemma node_in_blocks:
  assumes "shape sa ns" "a \<in> set ns"
  shows "a \<in> set (blocks sa ns its)"
proof -
  obtain n where "heap sa a = Some n" using shape_node [OF assms] by blast
  then have "a \<in> set (blocks_at (heap sa) a)" by (simp add: at_Some node_blocks_def)
  with assms(2) show ?thesis by (auto simp: blocks_def)
qed

lemma owned_insert:
  assumes o: "owned sa (xs @ ys) its" and env: "same_env sa sa'" and b: "b \<notin> set (xs @ ys)"
    and bl: "blocks_at (heap sa') = (blocks_at (heap sa))(b := bs)"
    and bs: "distinct bs" "set bs \<inter> set (live (mst sa)) = {}"
    and lv: "set (live (mst sa')) = set bs \<union> set (live (mst sa))"
  shows "owned sa' (xs @ b # ys) its" "foreign sa' (xs @ b # ys) its = foreign sa (xs @ ys) its"
proof -
  have bb: "b \<notin> set xs" "b \<notin> set ys" using b by auto
  have e: "blocks sa' (xs @ b # ys) its =
      self sa # concat (map (blocks_at (heap sa)) xs) @ bs @ concat (map (blocks_at (heap sa)) ys) @ its"
    "blocks sa (xs @ ys) its =
      self sa # concat (map (blocks_at (heap sa)) xs) @ concat (map (blocks_at (heap sa)) ys) @ its"
    using env by (simp_all add: blocks_def same_env_def bl concat_map_upd bb)
  from o e have d: "distinct (blocks sa (xs @ ys) its)" "set (blocks sa (xs @ ys) its) \<subseteq> set (live (mst sa))"
    by (auto simp: owned_def)
  have s: "set (blocks sa' (xs @ b # ys) its) = set (blocks sa (xs @ ys) its) \<union> set bs" unfolding e by auto
  have dj: "set (blocks sa (xs @ ys) its) \<inter> set bs = {}" using d(2) bs(2) by auto
  have "distinct (blocks sa' (xs @ b # ys) its)" using d(1) bs(1) dj unfolding e by auto
  then show "owned sa' (xs @ b # ys) its" using s d(2) lv by (auto simp: owned_def)
  show "foreign sa' (xs @ b # ys) its = foreign sa (xs @ ys) its" unfolding s lv using bs(2) d(2) by auto
qed

text \<open>Back pointers once \<open>b\<close> follows \<open>a\<close>.\<close>

lemma prev_of_insert:
  assumes "distinct (xs @ a # b # ys)" "c \<in> set (xs @ a # ys)"
  shows "prev_of c (xs @ a # b # ys) = (if ys \<noteq> [] \<and> c = hd ys then Some b else prev_of c (xs @ a # ys))"
proof -
  consider "c \<in> set xs" | "c = a" | "c \<in> set ys" using assms(2) by auto
  then show ?thesis
  proof cases
    case 1
    with assms(1) show ?thesis by (cases ys) (auto simp: chain)
  next
    case 2
    with assms(1) show ?thesis by (cases ys) (auto simp: chain)
  next
    case 3
    then obtain y zs where ys: "ys = y # zs" by (cases ys) auto
    have n: "c \<notin> set (xs @ [a, b])" "c \<notin> set (xs @ [a])" using 3 assms(1) by auto
    show ?thesis
      using prev_of_notin [OF n(1), of y zs] prev_of_notin [OF n(2), of y zs] ys
      by (auto simp: last_opt_def)
  qed
qed

lemma back_after_split:
  assumes d: "distinct (xs @ a # b # ys)"
    and old: "\<And>c. c \<in> set (xs @ a # ys) \<Longrightarrow> bk c = prev_of c (xs @ a # ys)" and b: "bk b = Some a"
    and bk': "bk' = (case ys of [] \<Rightarrow> bk | y # _ \<Rightarrow> bk(y := Some b))" and c: "c \<in> set (xs @ a # b # ys)"
  shows "bk' c = prev_of c (xs @ a # b # ys)"
proof (cases "c = b")
  case True
  have "prev_of b ((xs @ [a]) @ b # ys) = Some a" using d by (subst prev_of_split) auto
  with True b d show ?thesis unfolding bk' by (cases ys) auto
next
  case False
  then have "c \<in> set (xs @ a # ys)" using c by auto
  with old prev_of_insert [OF d] show ?thesis unfolding bk' by (cases ys) auto
qed

text \<open>A full node that is split and linked leaves a proper skiparray with the same pairs.\<close>

lemma split_link_wf:
  assumes w: "wf sa (xs @ a # ys) its" and n: "heap sa a = Some n" "count n = node_size sa"
    and env: "same_env sa sa1" and s: "split_into sa a n b sa1 n1 bn"
  shows "\<exists>sa2 n2 b2. link_split sa1 a b = Some sa2 \<and> same_env sa sa2 \<and> wf sa2 (xs @ a # b # ys) its \<and>
    heap sa2 a = Some n2 \<and> heap sa2 b = Some b2 \<and>
    pairs_of (heap sa2) xs = pairs_of (heap sa) xs \<and> pairs_of (heap sa2) ys = pairs_of (heap sa) ys \<and>
    node_pairs n2 = node_pairs n1 \<and> node_pairs b2 = node_pairs bn \<and>
    height b2 = height bn \<and> sa_height sa2 = max (sa_height sa) (height bn) \<and> prng_state sa2 = prng_state sa1 \<and>
    foreign sa2 (xs @ a # b # ys) its = foreign sa (xs @ a # ys) its"
proof -
  note sh = wfD(2) [OF w] and cfg = cfg_okD [OF wfD(1) [OF w]] and sd = split_intoD [OF s]
  have ok: "node_ok (node_size sa) (use_values sa) n" using shape_node [OF sh, of a] n(1) by auto
  have c2: "2 \<le> count n" using n(2) cfg(1) by simp
  have f: "full sa (xs @ a # ys)"
    using w
  proof (cases rule: wf_cases)
    case (empty c m)
    then show ?thesis using n cfg(1) by (cases xs) auto
  qed
  have b: "b \<notin> set (xs @ a # ys)"
  proof
    assume "b \<in> set (xs @ a # ys)"
    then have "b \<in> set (blocks sa (xs @ a # ys) its)" by (rule node_in_blocks [OF sh])
    with wfD(6) [OF w] sd(13) show False by (auto simp: owned_def node_blocks_def)
  qed
  have d: "distinct (xs @ a # b # ys)" using fullD(7) [OF f] b by auto
  obtain fk where ctx: "insert_ctx sa1 xs a b ys fk" and ins: "inserting sa1 xs a b ys {} sa1"
    using split_insert_ctx [OF f n(1) c2 env s b] by blast
  obtain sa2 where l: "link_split sa1 a b = Some sa2" "relinked sa1 sa2"
    "sa_height sa2 = max (sa_height sa1) (ht (heap sa1) b)"
    "\<forall>l < max_level sa1. linked (heap sa2) (nodes sa2) l (xs @ a # b # ys)"
    "back_at (heap sa2) = (case ys of [] \<Rightarrow> back_at (heap sa1) | y # _ \<Rightarrow> (back_at (heap sa1))(y := Some b))"
    using link_split_correct [OF ctx ins] by blast
  note r = relinkedD [OF l(2)] and de = data_eq_at [OF relinkedD(5) [OF l(2)]]
  have env2: "same_env sa sa2" using same_env_trans [OF env r(1)] .
  have e: "node_size sa2 = node_size sa" "use_values sa2 = use_values sa" "max_level sa2 = max_level sa"
    "cmp sa2 = cmp sa" "max_level sa1 = max_level sa" "use_values sa1 = use_values sa" "node_size sa1 = node_size sa"
    using env2 env by (auto simp: same_env_def)
  have hb: "ht (heap sa1) b = height bn" "height bn \<le> max_level sa" using sd(1,9) by (simp_all add: chain)
  have old: "pairs_at (heap sa1) c = pairs_at (heap sa) c" if "c \<noteq> a" "c \<noteq> b" for c
    using that sd(1) by (simp add: chain)
  have pxy: "pairs_of (heap sa2) xs = pairs_of (heap sa) xs" "pairs_of (heap sa2) ys = pairs_of (heap sa) ys"
    using d by (auto simp: data_eq_pairs_of [OF r(5)] intro!: pairs_of_cong old)
  have pab: "pairs_at (heap sa2) a = node_pairs n1" "pairs_at (heap sa2) b = node_pairs bn"
    using sd(1) d by (auto simp: de chain)
  obtain n2 where n2: "heap sa2 a = Some n2" "node_pairs n2 = node_pairs n1"
    using data_eq_SomeD [OF r(5), of a n1] sd(1) d pab(1) by (auto simp: at_Some)
  obtain b2 where b2: "heap sa2 b = Some b2" "node_pairs b2 = node_pairs bn"
    using data_eq_SomeD [OF r(5), of b bn] sd(1) d pab(2) by (auto simp: at_Some)
  have pairs: "node_pairs n1 @ node_pairs bn = node_pairs n" using sd(7,8) by simp
  have cnt: "length (node_pairs n1) = count n - count n div 2" "length (node_pairs bn) = count n div 2"
    using sd(4,5) split_into_counts(1,2) [OF s ok c2] by auto
  have cfg2: "cfg_ok sa2"
    by (rule cfg_ok_env [OF env2 wfD(1) [OF w]])
      (use l(3) sd(2,3) cfg(5,6) r(4) hb in \<open>auto simp: max_def\<close>)
  have shape2: "shape sa2 (xs @ a # b # ys)"
  proof -
    have "dom (heap sa2) = set (xs @ a # b # ys)" using sh sd(1) n(1) by (auto simp: de shape_def)
    moreover have "\<exists>m. heap sa2 c = Some m \<and> node_ok (node_size sa2) (use_values sa2) m \<and> height m \<le> max_level sa2"
      if c: "c \<in> set (xs @ a # b # ys)" for c
    proof -
      have "\<forall>c \<in> set (xs @ a # b # ys). \<exists>m. heap sa1 c = Some m \<and>
          node_ok (node_size sa) (use_values sa) m \<and> 0 < count m \<and> height m \<le> max_level sa"
        using ctx e(5-7) unfolding insert_ctx_def by simp
      with c obtain m where m: "heap sa1 c = Some m" "node_ok (node_size sa) (use_values sa) m" "height m \<le> max_level sa"
        by meson
      obtain m' where "heap sa2 c = Some m'" "node_ok (node_size sa) (use_values sa) m' = node_ok (node_size sa) (use_values sa) m"
        "height m' = height m"
        by (rule data_eq_node [OF r(5) m(1), of "node_size sa" "use_values sa"])
      with m e show ?thesis by simp
    qed
    moreover have "back_at (heap sa2) c = prev_of c (xs @ a # b # ys)" if c: "c \<in> set (xs @ a # b # ys)" for c
    proof (rule back_after_split [OF d _ _ l(5) c])
      show "back_at (heap sa1) x = prev_of x (xs @ a # ys)" if "x \<in> set (xs @ a # ys)" for x
        using sh that b sd(1,6) n(1) by (auto simp: shape_def chain same_links_def at_Some)
      show "back_at (heap sa1) b = Some a" using sd(1,11) by (simp add: chain)
    qed
    moreover have "l < sa_height sa2 \<longleftrightarrow> nodes sa2 ! l \<noteq> None" if "l < max_level sa" for l
    proof -
      have hs: "nxt (heap sa2) l (xs @ a # b # ys) \<noteq> None \<longleftrightarrow>
          nxt (heap sa1) l (xs @ a # ys) \<noteq> None \<or> l < height bn"
        using hb(1) by (auto simp: nxt_None de)
      have "nxt (heap sa1) l (xs @ a # ys) \<noteq> None \<longleftrightarrow> l < sa_height sa1"
        using ctx that e by (simp add: insert_ctx_def)
      then show ?thesis using l(3,4) that e hs hb(1) linked_headD by (metis less_max_iff_disj)
    qed
    ultimately show ?thesis using d l(4) e unfolding shape_def by auto
  qed
  have ord: "ordered sa2 (xs @ a # b # ys)"
    using wfD(3) [OF w] pxy pab pairs n(1) e(4) by (simp add: ordered_def at_Some) (metis map_append append_assoc)
  have occ: "occupied sa2 (xs @ a # b # ys)"
  proof -
    have "node_size sa div 2 \<le> length (pairs_at (heap sa2) c)" if c: "c \<in> set (butlast (xs @ a # b # ys))" for c
    proof (cases "c = a \<or> c = b")
      case True
      with pab cnt n(2) show ?thesis by auto
    next
      case False
      then have "pairs_at (heap sa2) c = pairs_at (heap sa) c" using old by (simp add: de)
      moreover have "c \<in> set (butlast (xs @ a # ys))"
        using c False by (auto simp: butlast_append split: if_splits)
      then have "node_size sa div 2 \<le> length (pairs_at (heap sa) c)"
        using wfD(4) [OF w] unfolding occupied_def by blast
      ultimately show ?thesis by simp
    qed
    moreover have "pairs_at (heap sa2) (last (xs @ a # b # ys)) \<noteq> []"
    proof (cases ys)
      case Nil
      with pab cnt c2 show ?thesis by auto
    next
      case (Cons y zs)
      then have "last ys \<in> set ys" by simp
      then have "last ys \<noteq> a" "last ys \<noteq> b" using d by auto
      with old Cons fullD(4) [OF f] show ?thesis by (simp add: de nonempty_nodes_def)
    qed
    ultimately show ?thesis using e by (simp add: occupied_def)
  qed
  have bl: "blocks_at (heap sa2) = (blocks_at (heap sa))(b := node_blocks b bn)"
    using sd(1,6) n(1) by (intro ext) (simp add: de chain at_Some same_links_def node_blocks_def)
  have lv: "set (live (mst sa2)) = set (node_blocks b bn) \<union> set (live (mst sa))" using r(2) sd(14) by simp
  have own: "owned sa ((xs @ [a]) @ ys) its" using wfD(6) [OF w] by simp
  have "b \<notin> set ((xs @ [a]) @ ys)" using b by simp
  note ow = owned_insert [OF own env2 this bl sd(12,13) lv]
  have "iters_ok sa2 (xs @ a # b # ys) its" by (rule iters_ok_env [OF env2 wfD(5) [OF w]]) auto
  then have "wf sa2 (xs @ a # b # ys) its" using cfg2 shape2 ord occ ow(1) by (simp add: wf_def)
  moreover have "height b2 = height bn" using fun_cong [OF de(1), of b] hb(1) b2(1) by (simp add: ht_def)
  moreover have "sa_height sa2 = max (sa_height sa) (height bn)" using l(3) sd(3) hb(1) by simp
  ultimately show ?thesis using l(1) env2 n2 b2 pxy ow(2) r(3) by auto
qed

section \<open>Storing the pair\<close>

text \<open>Replacing the pairs of a node by at least as many, in order, keeps the invariant.\<close>

lemma wf_upd_node:
  assumes w: "wf sa (xs @ a # ys) its" and n: "heap sa a = Some n"
    and n': "node_ok (node_size sa) (use_values sa) n'" "same_links n n'"
    and ge: "length (node_pairs n) \<le> length (node_pairs n')"
    and asc: "ascending (call_cmp sa) (map fst (pairs_of (heap sa) xs @ node_pairs n' @ pairs_of (heap sa) ys))"
  shows "wf (set_node sa a n') (xs @ a # ys) its"
    "pairs_of (heap (set_node sa a n')) (xs @ a # ys) = pairs_of (heap sa) xs @ node_pairs n' @ pairs_of (heap sa) ys"
    "foreign (set_node sa a n') (xs @ a # ys) its = foreign sa (xs @ a # ys) its"
proof -
  have d: "distinct (xs @ a # ys)" using wfD(2) [OF w] by (simp add: shape_def)
  show p: "pairs_of (heap (set_node sa a n')) (xs @ a # ys) = pairs_of (heap sa) xs @ node_pairs n' @ pairs_of (heap sa) ys"
    using pairs_of_upd [OF d] by simp
  show "foreign (set_node sa a n') (xs @ a # ys) its = foreign sa (xs @ a # ys) its"
    using blocks_upd_pairs [OF n n'(2)] by simp
  have env: "same_env sa (set_node sa a n')" by simp
  have "cfg_ok (set_node sa a n')"
    by (rule cfg_ok_env [OF env wfD(1) [OF w]]) (use cfg_okD(5,6) [OF wfD(1) [OF w]] in auto)
  moreover have "ordered (set_node sa a n') (xs @ a # ys)" unfolding ordered_def p using asc by simp
  moreover have "occupied (set_node sa a n') (xs @ a # ys)"
    by (rule occupied_upd_pairs [OF wfD(4) [OF w]]) (use n ge in \<open>simp add: at_Some\<close>)
  moreover have "iters_ok (set_node sa a n') (xs @ a # ys) its"
    by (rule iters_ok_env [OF env wfD(5) [OF w]]) simp
  ultimately show "wf (set_node sa a n') (xs @ a # ys) its"
    using shape_upd_pairs [OF wfD(2) [OF w] n n'] wfD(6) [OF w] owned_upd_pairs [OF n n'(2)]
    by (simp add: wf_def)
qed

lemma bind_wf:
  assumes w: "wf sa (xs @ a # ys) its" and n: "heap sa a = Some n" "count n < node_size sa" "i \<le> count n"
    and b: "below (call_cmp sa) key (map fst (pairs_of (heap sa) xs @ take i (node_pairs n)))"
    and ab: "above (call_cmp sa) key (map fst (drop i (node_pairs n) @ pairs_of (heap sa) ys))"
  shows "\<exists>n'. bind_in_node sa n i key v = Some n' \<and> wf (set_node sa a n') (xs @ a # ys) its \<and>
    pairs_of (heap (set_node sa a n')) (xs @ a # ys) =
      spec_set (call_cmp sa) rk key (if use_values sa then v else 0) (pairs_of (heap sa) (xs @ a # ys)) \<and>
    foreign (set_node sa a n') (xs @ a # ys) its = foreign sa (xs @ a # ys) its"
proof -
  note c = cfg_okD(8) [OF wfD(1) [OF w]]
  have ok: "node_ok (node_size sa) (use_values sa) n" using shape_node [OF wfD(2) [OF w], of a] n(1) by auto
  let ?v = "if use_values sa then v else 0"
  obtain n' where n': "bind_in_node sa n i key v = Some n'" "node_ok (node_size sa) (use_values sa) n'"
    "node_pairs n' = take i (node_pairs n) @ (key, ?v) # drop i (node_pairs n)" "count n' = count n + 1" "same_links n n'"
    using bind_in_node_correct [OF ok cfg_okD(2) [OF wfD(1) [OF w]] n(2,3), of key v] by blast
  let ?P = "pairs_of (heap sa) xs @ take i (node_pairs n)" and ?Q = "drop i (node_pairs n) @ pairs_of (heap sa) ys"
  have pq: "pairs_of (heap sa) (xs @ a # ys) = ?P @ ?Q" using n(1) by (simp add: at_Some)
  have "ascending (call_cmp sa) (map fst ?P @ map fst ?Q)"
    using wfD(3) [OF w] unfolding ordered_def pq by simp
  then have "ascending (call_cmp sa) (map fst ?P @ key # map fst ?Q)"
    using b ab by (rule comparator.ascending_insert [OF c])
  then have asc: "ascending (call_cmp sa) (map fst (pairs_of (heap sa) xs @ node_pairs n' @ pairs_of (heap sa) ys))"
    by (simp add: n'(3))
  have ge: "length (node_pairs n) \<le> length (node_pairs n')" using ok n'(2,4) by simp
  note u = wf_upd_node [OF w n(1) n'(2,5) ge asc]
  have "spec_set (call_cmp sa) rk key ?v (?P @ ?Q) = ?P @ (key, ?v) # ?Q"
    by (rule comparator.spec_set_insert [OF c b ab])
  with u n'(1,3) show ?thesis unfolding pq by simp
qed

lemma rebind_wf:
  assumes w: "wf sa (xs @ a # ys) its" and n: "heap sa a = Some n" "i < count n"
    and b: "below (call_cmp sa) key (map fst (pairs_of (heap sa) xs @ take i (node_pairs n)))"
    and e: "call_cmp sa key (fst (node_pairs n ! i)) = 0"
  shows "\<exists>n'. rebind_in_node sa n i key v rk = Some n' \<and> wf (set_node sa a n') (xs @ a # ys) its \<and>
    pairs_of (heap (set_node sa a n')) (xs @ a # ys) =
      spec_set (call_cmp sa) rk key (if use_values sa then v else 0) (pairs_of (heap sa) (xs @ a # ys)) \<and>
    foreign (set_node sa a n') (xs @ a # ys) its = foreign sa (xs @ a # ys) its"
proof -
  note c = cfg_okD(8) [OF wfD(1) [OF w]]
  have ok: "node_ok (node_size sa) (use_values sa) n" using shape_node [OF wfD(2) [OF w], of a] n(1) by auto
  let ?v = "if use_values sa then v else 0" and ?p = "node_pairs n ! i"
  let ?k = "if rk then key else fst ?p"
  obtain n' where n': "rebind_in_node sa n i key v rk = Some n'" "node_ok (node_size sa) (use_values sa) n'"
    "node_pairs n' = (node_pairs n)[i := (?k, ?v)]" "count n' = count n" "same_links n n'"
    using rebind_in_node_correct [OF ok n(2), of key v rk] by blast
  have i: "i < length (node_pairs n)" using ok n(2) by simp
  let ?P = "pairs_of (heap sa) xs @ take i (node_pairs n)" and ?Q = "drop (i + 1) (node_pairs n) @ pairs_of (heap sa) ys"
  have np: "node_pairs n = take i (node_pairs n) @ (fst ?p, snd ?p) # drop (i + 1) (node_pairs n)"
    using split_nth [OF i] by simp
  have pq: "pairs_of (heap sa) (xs @ a # ys) = ?P @ (fst ?p, snd ?p) # ?Q"
    using n(1) np by (simp add: at_Some)
  have np': "node_pairs n' = take i (node_pairs n) @ (?k, ?v) # drop (i + 1) (node_pairs n)"
    using i by (simp add: n'(3) upd_conv_take_nth_drop)
  have "ascending (call_cmp sa) (map fst ?P @ fst ?p # map fst ?Q)"
    using wfD(3) [OF w] unfolding ordered_def pq by simp
  with comparator.ascending_replace [OF c this e]
  have "ascending (call_cmp sa) (map fst ?P @ ?k # map fst ?Q)" by (cases rk) simp_all
  then have asc: "ascending (call_cmp sa) (map fst (pairs_of (heap sa) xs @ node_pairs n' @ pairs_of (heap sa) ys))"
    by (simp add: np')
  have ge: "length (node_pairs n) \<le> length (node_pairs n')" using ok n'(2,4) by simp
  note u = wf_upd_node [OF w n(1) n'(2,5) ge asc]
  have "spec_set (call_cmp sa) rk key ?v (?P @ (fst ?p, snd ?p) # ?Q) = ?P @ (?k, ?v) # ?Q"
    by (rule comparator.spec_set_replace [OF c b e])
  with u n'(1) np' show ?thesis unfolding pq by simp
qed

text \<open>Where the new pair goes after a split.\<close>

lemma split_position:
  assumes np: "node_pairs n1 @ node_pairs n2 = ps" "length (node_pairs n1) = k"
    and b: "below c key (map fst (P @ take i ps))" and ab: "above c key (map fst (drop i ps @ Q))"
  shows "i \<le> k \<Longrightarrow> below c key (map fst (P @ take i (node_pairs n1)))"
    "i \<le> k \<Longrightarrow> above c key (map fst (drop i (node_pairs n1) @ node_pairs n2 @ Q))"
    "k < i \<Longrightarrow> below c key (map fst ((P @ node_pairs n1) @ take (i - k) (node_pairs n2)))"
    "k < i \<Longrightarrow> above c key (map fst (drop (i - k) (node_pairs n2) @ Q))"
  using b ab unfolding np(1) [symmetric] by (auto simp: np(2))

section \<open>Correctness of insertion\<close>

text \<open>What an insertion ends in: \<open>ps\<close> are the pairs before.\<close>

definition set_outcome :: "skiparray \<Rightarrow> bindings \<Rightarrow> addr list \<Rightarrow> addr set \<Rightarrow> bool \<Rightarrow> voidp \<Rightarrow> voidp \<Rightarrow>
    skiparray_set_res \<Rightarrow> (voidp \<times> voidp) option \<Rightarrow> skiparray \<Rightarrow> bool" where
  "set_outcome sa ps its F rk key v res previous sa' \<longleftrightarrow>
     (let ps' = spec_set (call_cmp sa) rk key (if use_values sa then v else 0) ps
      in same_env sa sa' \<and> previous = spec_get (call_cmp sa) key ps \<and>
         (case previous of
            Some p \<Rightarrow> res = SKIPARRAY_SET_REPLACED \<and> represents sa' ps' its F
          | None \<Rightarrow> res = SKIPARRAY_SET_BOUND \<and> represents sa' ps' its F \<or>
                    res = SKIPARRAY_SET_ERROR_MEMORY \<and> represents sa' ps its F))"

lemma set_absent:
  assumes w: "wf sa (xs @ a # ys) its" and it: "\<not> has_iterators sa"
    and se: "search sa key = Some (SEARCH_NOT_FOUND, a, i)"
    and n: "heap sa a = Some n" "i \<le> count n"
    and b: "below (call_cmp sa) key (map fst (pairs_of (heap sa) xs @ take i (node_pairs n)))"
    and ab: "above (call_cmp sa) key (map fst (drop i (node_pairs n) @ pairs_of (heap sa) ys))"
  shows "\<exists>res sa'. skiparray_set_with_pair sa key v rk = Some (res, None, sa') \<and>
    set_outcome sa (pairs_of (heap sa) (xs @ a # ys)) its (foreign sa (xs @ a # ys) its) rk key v res None sa'"
proof -
  note c = cfg_okD(8) [OF wfD(1) [OF w]] and cfg = cfg_okD [OF wfD(1) [OF w]]
  have ok: "node_ok (node_size sa) (use_values sa) n" using shape_node [OF wfD(2) [OF w], of a] n(1) by auto
  let ?ps = "pairs_of (heap sa) (xs @ a # ys)"
  let ?F = "foreign sa (xs @ a # ys) its"
  let ?ps' = "spec_set (call_cmp sa) rk key (if use_values sa then v else 0) ?ps"
  have "?ps = (pairs_of (heap sa) xs @ take i (node_pairs n)) @ (drop i (node_pairs n) @ pairs_of (heap sa) ys)"
    using n(1) by (simp add: at_Some take_drop_glue)
  then have g: "spec_get (call_cmp sa) key ?ps = None" using comparator.spec_get_absent [OF c b ab] by (simp only:)
  have out: "set_outcome sa ?ps its ?F rk key v SKIPARRAY_SET_BOUND None sa'"
    if "same_env sa sa'" "wf sa' ns its" "pairs_of (heap sa') ns = ?ps'" "foreign sa' ns its = ?F" for sa' ns
    using that g by (auto simp: set_outcome_def represents_def Let_def)
  show ?thesis
  proof (cases "count n = node_size sa")
    case False
    then have "count n < node_size sa" using node_okD(4) [OF ok] by simp
    from bind_wf [OF w n(1) this n(2) b ab, of v rk] obtain n' where n':
      "bind_in_node sa n i key v = Some n'" "wf (set_node sa a n') (xs @ a # ys) its"
      "pairs_of (heap (set_node sa a n')) (xs @ a # ys) = ?ps'"
      "foreign (set_node sa a n') (xs @ a # ys) its = ?F" by blast
    have "skiparray_set_with_pair sa key v rk = Some (SKIPARRAY_SET_BOUND, None, set_node sa a n')"
      using it se n(1) False n'(1) by (simp add: skiparray_set_with_pair_def)
    moreover have "set_outcome sa ?ps its ?F rk key v SKIPARRAY_SET_BOUND None (set_node sa a n')"
      by (rule out [OF _ n'(2,3,4)]) simp
    ultimately show ?thesis by blast
  next
    case True
    then have c2: "2 \<le> count n" using cfg(1) by simp
    obtain r sa1 where sp: "split_node sa a = Some (r, sa1)" "same_env sa sa1"
      "case r of
         None \<Rightarrow> heap sa1 = heap sa \<and> nodes sa1 = nodes sa \<and> sa_height sa1 = sa_height sa \<and>
           prng_state sa1 = snd (draw_level sa) \<and> set (live (mst sa1)) = set (live (mst sa))
       | Some b \<Rightarrow> \<exists>n1 bn. split_into sa a n b sa1 n1 bn"
      using split_node_correct [OF wfD(1) [OF w] n(1) ok c2] by blast
    show ?thesis
    proof (cases r)
      case None
      have env: "node_size sa1 = node_size sa" "use_values sa1 = use_values sa" "max_level sa1 = max_level sa"
        "cmp sa1 = cmp sa" "self sa1 = self sa" using sp(2) by (auto simp: same_env_def)
      have "cfg_ok sa1" by (rule cfg_ok_env [OF sp(2) wfD(1) [OF w]]) (use sp(3) None cfg in auto)
      moreover have "iters_ok sa1 (xs @ a # ys) its" by (rule iters_ok_env [OF sp(2) wfD(5) [OF w]]) simp
      ultimately have "wf sa1 (xs @ a # ys) its" "blocks sa1 (xs @ a # ys) its = blocks sa (xs @ a # ys) its"
        using w sp(3) None env
        by (simp_all add: wf_def shape_def ordered_def occupied_def owned_def blocks_def)
      then have "represents sa1 ?ps its ?F" using sp(3) None by (auto simp: represents_def)
      then have "set_outcome sa ?ps its ?F rk key v SKIPARRAY_SET_ERROR_MEMORY None sa1"
        using sp(2) g by (simp add: set_outcome_def Let_def)
      moreover have "skiparray_set_with_pair sa key v rk = Some (SKIPARRAY_SET_ERROR_MEMORY, None, sa1)"
        using it se n(1) True sp(1) None by (simp add: skiparray_set_with_pair_def)
      ultimately show ?thesis by blast
    next
      case (Some bb)
      then obtain n1 bn where si: "split_into sa a n bb sa1 n1 bn" using sp(3) by auto
      note sc = split_into_counts [OF si ok c2] and sd = split_intoD [OF si]
      obtain sa2 n2 b2 where l: "link_split sa1 a bb = Some sa2" "same_env sa sa2" "wf sa2 (xs @ a # bb # ys) its"
        "heap sa2 a = Some n2" "heap sa2 bb = Some b2"
        "pairs_of (heap sa2) xs = pairs_of (heap sa) xs" "pairs_of (heap sa2) ys = pairs_of (heap sa) ys"
        "node_pairs n2 = node_pairs n1" "node_pairs b2 = node_pairs bn"
        "foreign sa2 (xs @ a # bb # ys) its = ?F"
        using split_link_wf [OF w n(1) True sp(2) si] by blast
      have env: "node_size sa2 = node_size sa" "use_values sa2 = use_values sa" "cmp sa2 = cmp sa"
        using l(2) by (auto simp: same_env_def)
      have ok2: "node_ok (node_size sa) (use_values sa) n2" "node_ok (node_size sa) (use_values sa) b2"
        using shape_node [OF wfD(2) [OF l(3)], of a] shape_node [OF wfD(2) [OF l(3)], of bb] l(4,5) env by auto
      have cnt: "count n2 = count n - count n div 2" "count b2 = count n div 2" "length (node_pairs n2) = count n2"
        using sc(1,2) length_node_pairs [OF ok2(1)] length_node_pairs [OF ok2(2)]
          length_node_pairs [OF sd(4)] length_node_pairs [OF sd(5)] l(8,9) by auto
      have pp: "node_pairs n2 @ node_pairs b2 = node_pairs n" using l(8,9) sd(7,8) by simp
      have all: "pairs_of (heap sa2) (xs @ a # bb # ys) = ?ps"
        using l(4-7) n(1) pp by (simp add: at_Some)
      note pos = split_position [OF pp cnt(3) b ab]
      have hb: "heap sa1 bb = Some bn" "0 < count bn" using sd(1) sc(4) by auto
      show ?thesis
      proof (cases "count n2 < i")
        case False
        have "count n2 < node_size sa2" using cnt(1) True c2 env by simp
        moreover have "i \<le> count n2" using False by simp
        moreover have "below (call_cmp sa2) key (map fst (pairs_of (heap sa2) xs @ take i (node_pairs n2)))"
          using pos(1) False l(6) env by simp
        moreover have "above (call_cmp sa2) key (map fst (drop i (node_pairs n2) @ pairs_of (heap sa2) (bb # ys)))"
          using pos(2) False l(5,7) env by (simp add: at_Some)
        ultimately obtain n' where n':
          "bind_in_node sa2 n2 i key v = Some n'" "wf (set_node sa2 a n') (xs @ a # bb # ys) its"
          "pairs_of (heap (set_node sa2 a n')) (xs @ a # bb # ys) = ?ps'"
          "foreign (set_node sa2 a n') (xs @ a # bb # ys) its = ?F"
          using bind_wf [OF l(3,4), of i key v rk] l(10) all env by auto
        have "skiparray_set_with_pair sa key v rk = Some (SKIPARRAY_SET_BOUND, None, set_node sa2 a n')"
          using it se n(1) True sp(1) Some hb l(1,4) False n'(1) by (simp add: skiparray_set_with_pair_def)
        moreover have "set_outcome sa ?ps its ?F rk key v SKIPARRAY_SET_BOUND None (set_node sa2 a n')"
          by (rule out [OF _ n'(2,3,4)]) (use l(2) in simp)
        ultimately show ?thesis by blast
      next
        case True': True
        let ?j = "i - count n2"
        have j: "u16_dec i (count n2) = ?j"
          using True' n(2) node_okD(4) [OF ok] cfg(2) by simp
        have w': "wf sa2 ((xs @ [a]) @ bb # ys) its" using l(3) by simp
        have "count b2 < node_size sa2" using cnt(2) True c2 env by simp
        moreover have "?j \<le> count b2" using n(2) cnt by simp
        moreover have "below (call_cmp sa2) key (map fst (pairs_of (heap sa2) (xs @ [a]) @ take ?j (node_pairs b2)))"
          using pos(3) True' l(4,6) env by (simp add: at_Some)
        moreover have "above (call_cmp sa2) key (map fst (drop ?j (node_pairs b2) @ pairs_of (heap sa2) ys))"
          using pos(4) True' l(7) env by simp
        ultimately obtain n' where n':
          "bind_in_node sa2 b2 ?j key v = Some n'" "wf (set_node sa2 bb n') (xs @ a # bb # ys) its"
          "pairs_of (heap (set_node sa2 bb n')) (xs @ a # bb # ys) = ?ps'"
          "foreign (set_node sa2 bb n') (xs @ a # bb # ys) its = ?F"
          using bind_wf [OF w' l(5), of ?j key v rk] l(10) all env by auto
        have "skiparray_set_with_pair sa key v rk = Some (SKIPARRAY_SET_BOUND, None, set_node sa2 bb n')"
          using it se n(1) True sp(1) Some hb l(1,4,5) True' j n'(1) by (simp add: skiparray_set_with_pair_def)
        moreover have "set_outcome sa ?ps its ?F rk key v SKIPARRAY_SET_BOUND None (set_node sa2 bb n')"
          by (rule out [OF _ n'(2,3,4)]) (use l(2) in simp)
        ultimately show ?thesis by blast
      qed
    qed
  qed
qed

lemma set_with_pair_correct:
  assumes r: "represents sa ps [] F"
  shows "\<exists>res previous sa'. skiparray_set_with_pair sa key v rk = Some (res, previous, sa') \<and>
    set_outcome sa ps [] F rk key v res previous sa'"
proof -
  obtain ns where w: "wf sa ns []" and ps: "pairs_of (heap sa) ns = ps" "F = foreign sa ns []"
    using r by (rule representsE)
  note c = represents_ascending(2) [OF r]
  have it: "\<not> has_iterators sa" using iters_ok_locked [OF wfD(5) [OF w]] by simp
  obtain fd a i where s: "search sa key = Some (if fd then SEARCH_FOUND else SEARCH_NOT_FOUND, a, i)"
    and pos: "position sa ns key fd a i" using search_correct [OF w] by blast
  from w pos obtain xs ys n where x: "ns = xs @ a # ys" "heap sa a = Some n" "node_ok (node_size sa) (use_values sa) n"
    "i \<le> count n" "below (call_cmp sa) key (map fst (pairs_of (heap sa) xs @ take i (node_pairs n)))"
    "fd \<Longrightarrow> i < count n \<and> call_cmp sa key (fst (node_pairs n ! i)) = 0"
    "\<not> fd \<Longrightarrow> above (call_cmp sa) key (map fst (drop i (node_pairs n) @ pairs_of (heap sa) ys))"
    by (rule position_pairs) blast
  have w': "wf sa (xs @ a # ys) []" using w x(1) by simp
  show ?thesis
  proof (cases fd)
    case False
    with set_absent [OF w' it _ x(2,4,5) x(7), of v rk] s show ?thesis
      unfolding ps(1) [symmetric] ps(2) x(1) by auto
  next
    case True
    then have i: "i < count n" "call_cmp sa key (fst (node_pairs n ! i)) = 0" using x(6) by auto
    let ?p = "node_pairs n ! i"
    obtain n' where n': "rebind_in_node sa n i key v rk = Some n'" "wf (set_node sa a n') (xs @ a # ys) []"
      "pairs_of (heap (set_node sa a n')) (xs @ a # ys) =
        spec_set (call_cmp sa) rk key (if use_values sa then v else 0) (pairs_of (heap sa) (xs @ a # ys))"
      "foreign (set_node sa a n') (xs @ a # ys) [] = foreign sa (xs @ a # ys) []"
      using rebind_wf [OF w' x(2) i(1) x(5) i(2), of v rk] by blast
    have "i < length (node_pairs n)" using x(3) i(1) by simp
    note glue = take_nth_drop_glue [OF this, of "pairs_of (heap sa) ys"]
    have "ps = pairs_of (heap sa) xs @ (node_pairs n @ pairs_of (heap sa) ys)"
      using ps(1) x(1,2) by (simp add: at_Some)
    then have "ps = (pairs_of (heap sa) xs @ take i (node_pairs n)) @ (fst ?p, snd ?p) #
        (drop (i + 1) (node_pairs n) @ pairs_of (heap sa) ys)"
      unfolding glue [symmetric] by simp
    then have "spec_get (call_cmp sa) key ps = Some (fst ?p, snd ?p)"
      by (simp only: comparator.spec_get_found [OF c x(5) i(2)])
    then have g: "spec_get (call_cmp sa) key ps = Some ?p" by simp
    have "skiparray_set_with_pair sa key v rk = Some (SKIPARRAY_SET_REPLACED, Some ?p, set_node sa a n')"
      using it s True x(2) pair_at_correct [OF x(3) i(1)] n'(1) by (simp add: skiparray_set_with_pair_def)
    moreover have "represents (set_node sa a n') (spec_set (call_cmp sa) rk key (if use_values sa then v else 0) ps) [] F"
      unfolding represents_def using n' ps x(1) by metis
    then have "set_outcome sa ps [] F rk key v SKIPARRAY_SET_REPLACED (Some ?p) (set_node sa a n')"
      using g by (simp add: set_outcome_def Let_def)
    ultimately show ?thesis by blast
  qed
qed

lemma set_locked: "its \<noteq> [] \<Longrightarrow> represents sa ps its F \<Longrightarrow>
    skiparray_set_with_pair sa key v rk = Some (SKIPARRAY_SET_ERROR_LOCKED, None, sa)"
  using iters_ok_locked wfD(5) by (fastforce simp: represents_def skiparray_set_with_pair_def)

lemma split_node_refused:
  assumes "split_node sa a = Some (None, sa1)"
  shows "may_refuse sa"
proof -
  obtain lv g where d: "draw_level sa = (lv, g)" by fastforce
  have "\<exists>r m. node_alloc (u8 (lv + 1)) (node_size sa) (snd (mem sa)) (use_values sa) (mst sa) = Some (r, m)"
    using assms d by (auto simp: split_node_def bind_eq_Some_conv)
  then obtain r m where n: "node_alloc (u8 (lv + 1)) (node_size sa) (snd (mem sa)) (use_values sa) (mst sa) = Some (r, m)"
    by blast
  have "r = None"
  proof (cases r)
    case (Some p)
    with assms d n show ?thesis by (cases p) (auto simp: split_node_def Let_def bind_eq_Some_conv)
  qed
  with n show ?thesis by (auto simp: may_refuse_def intro: node_alloc_refused)
qed

lemma set_error_memory:
  assumes "skiparray_set_with_pair sa key v rk = Some (SKIPARRAY_SET_ERROR_MEMORY, previous, sa')"
  shows "may_refuse sa"
  using assms
  by (auto simp: skiparray_set_with_pair_def Let_def bind_eq_Some_conv split: if_splits option.splits
      intro: split_node_refused)

section \<open>Properties\<close>

text \<open>
  C1. Setting a binding of an unlocked skiparray always returns and keeps the invariant. The
  previous binding reported is the one the key had; a key that had one is REPLACED, one that
  had none is BOUND, and the pairs are then those of the ordered association list with the
  binding set, the key itself exchanged only on request. The one error is for want of memory,
  only when the memory callback may refuse a request: then the key had no binding and the
  pairs are unchanged.
\<close>

theorem set_with_pair_spec:
  assumes "represents sa ps [] F"
  shows "\<exists>res previous sa'. skiparray_set_with_pair sa key v rk = Some (res, previous, sa') \<and> same_env sa sa' \<and>
    previous = spec_get (call_cmp sa) key ps \<and>
    (if res = SKIPARRAY_SET_ERROR_MEMORY
     then previous = None \<and> represents sa' ps [] F \<and> may_refuse sa
     else res = (if previous = None then SKIPARRAY_SET_BOUND else SKIPARRAY_SET_REPLACED) \<and>
       represents sa' (spec_set (call_cmp sa) rk key (if use_values sa then v else 0) ps) [] F)"
proof -
  obtain res previous sa' where s: "skiparray_set_with_pair sa key v rk = Some (res, previous, sa')"
    "set_outcome sa ps [] F rk key v res previous sa'" using set_with_pair_correct [OF assms] by blast
  moreover have "may_refuse sa" if "res = SKIPARRAY_SET_ERROR_MEMORY"
    using set_error_memory [of sa key v rk] s(1) that by blast
  ultimately show ?thesis by (auto simp: set_outcome_def Let_def split: option.splits)
qed

theorem set_with_pair_spec_witness:
  "\<exists>res previous sa'. skiparray_set_with_pair sample 3 33 False = Some (res, previous, sa') \<and> same_env sample sa' \<and>
    previous = spec_get (call_cmp sample) 3 sample_pairs \<and>
    (if res = SKIPARRAY_SET_ERROR_MEMORY
     then previous = None \<and> represents sa' sample_pairs [] {99} \<and> may_refuse sample
     else res = (if previous = None then SKIPARRAY_SET_BOUND else SKIPARRAY_SET_REPLACED) \<and>
       represents sa' (spec_set (call_cmp sample) False 3 (if use_values sample then 33 else 0) sample_pairs) [] {99})"
  by (rule set_with_pair_spec [OF sample_represents])

text \<open>
  C27. Splitting a full node and linking the new one. The split draws the height of the new
  node from the level callback and steps the generator once. It fails only when the memory
  callback may refuse a request, and then changes nothing else; otherwise it moves the upper
  half of the pairs into a new node of the drawn height, which is then linked after the split
  node on every one of its levels, the height of the skiparray raised to it if it is less. The
  pairs stay the same and the whole invariant holds for the chain with the new node.
\<close>

theorem split_spec:
  assumes "wf sa (xs @ a # ys) its" "heap sa a = Some n" "count n = node_size sa"
  shows "\<exists>r sa1. split_node sa a = Some (r, sa1) \<and> same_env sa sa1 \<and> prng_state sa1 = snd (draw_level sa) \<and>
    (case r of
       None \<Rightarrow> may_refuse sa \<and> heap sa1 = heap sa \<and> nodes sa1 = nodes sa \<and> sa_height sa1 = sa_height sa \<and>
         set (live (mst sa1)) = set (live (mst sa))
     | Some b \<Rightarrow> \<exists>sa2 bn. link_split sa1 a b = Some sa2 \<and> same_env sa sa2 \<and> wf sa2 (xs @ a # b # ys) its \<and>
         heap sa2 b = Some bn \<and> count bn = count n div 2 \<and> height bn = fst (draw_level sa) + 1 \<and>
         sa_height sa2 = max (sa_height sa) (height bn) \<and> prng_state sa2 = prng_state sa1 \<and>
         pairs_of (heap sa2) (xs @ a # b # ys) = pairs_of (heap sa) (xs @ a # ys))"
proof -
  have c: "cfg_ok sa" and sh: "shape sa (xs @ a # ys)" using assms(1) by (simp_all add: wf_def)
  have ok: "node_ok (node_size sa) (use_values sa) n" using shape_node [OF sh, of a] assms(2) by auto
  have "2 \<le> count n" using cfg_okD(1) [OF c] assms(3) by simp
  from split_node_correct [OF c assms(2) ok this]
  obtain r sa1 where s: "split_node sa a = Some (r, sa1)" "same_env sa sa1"
    and r: "case r of None \<Rightarrow> heap sa1 = heap sa \<and> nodes sa1 = nodes sa \<and> sa_height sa1 = sa_height sa \<and>
         prng_state sa1 = snd (draw_level sa) \<and>
         set (live (mst sa1)) = set (live (mst sa)) | Some b \<Rightarrow> \<exists>n1 bn. split_into sa a n b sa1 n1 bn" by blast
  show ?thesis
  proof (cases r)
    case None
    with s r split_node_refused show ?thesis by auto
  next
    case (Some b)
    then obtain n1 bn where i: "split_into sa a n b sa1 n1 bn" using r by auto
    obtain sa2 n2 b2 where l: "link_split sa1 a b = Some sa2" "same_env sa sa2" "wf sa2 (xs @ a # b # ys) its"
      "heap sa2 a = Some n2" "heap sa2 b = Some b2" "pairs_of (heap sa2) xs = pairs_of (heap sa) xs"
      "pairs_of (heap sa2) ys = pairs_of (heap sa) ys" "node_pairs n2 = node_pairs n1" "node_pairs b2 = node_pairs bn"
      "height b2 = height bn" "sa_height sa2 = max (sa_height sa) (height bn)" "prng_state sa2 = prng_state sa1"
      using split_link_wf [OF assms s(2) i] by blast
    note p = split_intoD(7,8,15,16) [OF i]
    have "node_ok (node_size sa2) (use_values sa2) b2" using shape_node [OF wfD(2) [OF l(3)], of b] l(5) by auto
    then have "count b2 = count n div 2" using length_node_pairs [of "node_size sa2" "use_values sa2" b2]
        length_node_pairs [OF ok] l(9) p(2) by simp
    moreover have "pairs_of (heap sa2) (xs @ a # b # ys) = pairs_of (heap sa) (xs @ a # ys)"
      using l(4-9) p(1,2) assms(2) by (simp add: at_Some take_drop_glue)
    ultimately show ?thesis using s l(1-3,5,10-12) p(3,4) Some by simp
  qed
qed

theorem split_spec_witness:
  "\<exists>b sa1 sa2 bn. split_node sample_full 2 = Some (Some b, sa1) \<and> link_split sa1 2 b = Some sa2 \<and>
    wf sa2 [2, b] [] \<and> heap sa2 b = Some bn \<and> count bn = 1 \<and> height bn = fst (draw_level sample_full) + 1 \<and>
    sa_height sa2 = max 1 (height bn) \<and> prng_state sa2 = snd (draw_level sample_full) \<and>
    pairs_of (heap sa2) [2, b] = [(1, 0), (4, 0)]"
proof -
  have "\<not> may_refuse sample_full" by (simp add: may_refuse_def sample_full_def malloc_refusing)
  moreover have "pairs_of (heap sample_full) [2] = [(1, 0), (4, 0)]"
    by (simp add: pairs_at_def sample_full_def full_node_def node_pairs_def node_keys_def node_vals_def numeral_2_eq_2)
  ultimately show ?thesis
    using split_spec [of sample_full "[]" 2 "[]" "[]" full_node] sample_full_wf
    by (auto simp: sample_full_def full_node_def split: option.splits)
qed

end
