(* ===== verification/Unlink.thy ===== *)
theory Unlink
  imports Insert
begin

text \<open>
  Removing a node from the chains and freeing it: \<^verbatim>\<open>unlink_node\<close> of \<open>src/skiparray.c\<close>, with the
  loop that lowers the height, both shared by \<^verbatim>\<open>skiparray_forget\<close> and the two \<^verbatim>\<open>pop\<close> operations.
\<close>

section \<open>Definitions\<close>

text \<open>The heads of the levels, from \<open>l - 1\<close> down to 0.\<close>

fun unlink_heads :: "skiparray \<Rightarrow> addr \<Rightarrow> nat \<Rightarrow> skiparray option" where
  "unlink_heads sa b 0 = Some sa"
| "unlink_heads sa b (Suc l) = do {
     h \<leftarrow> get_head sa l;
     sa1 \<leftarrow> (if h = Some b then do { f \<leftarrow> get_fwd sa b l; set_head sa l f } else Some sa);
     unlink_heads sa1 b l
   }"

text \<open>\<^verbatim>\<open>while (sa->height > 1 && sa->nodes[sa->height - 1] == NULL) { sa->height--; }\<close>\<close>

definition lower_step :: "skiparray \<Rightarrow> (skiparray + skiparray) option" where
  "lower_step sa =
     (if 1 < sa_height sa then do {
        h \<leftarrow> get_head sa (sa_height sa - 1);
        Some (if h = None then Inl (sa\<lparr>sa_height := u8 (sa_height sa - 1)\<rparr>) else Inr sa)
      } else Some (Inr sa))"

text \<open>
  One iteration of the walk over the levels; \<open>nk\<close> is the key of the nearest node and \<open>cond\<close> the
  bound its comparison is tested against.
\<close>

definition unlink_step :: "addr \<Rightarrow> voidp \<Rightarrow> int \<Rightarrow> int \<times> addr option \<times> skiparray \<Rightarrow>
    (int \<times> addr option \<times> skiparray + skiparray) option" where
  "unlink_step b nk cond = (\<lambda>(lev, cur, sa).
     (if lev < 0 then Some (Inr sa)
      else do {
        let l = nat lev;
        (skip, cur1) \<leftarrow>
          (case cur of
             Some c \<Rightarrow> Some (False, Some c)
           | None \<Rightarrow> do {
               head \<leftarrow> get_head sa l;
               (case head of
                  None \<Rightarrow> Some (False, None)
                | Some h \<Rightarrow> do {
                    hn \<leftarrow> heap sa h;
                    lk \<leftarrow> last_key hn;
                    Some (if call_cmp sa lk nk < cond then (False, Some h) else (True, None))
                  })
             });
        (if skip then Some (Inl (lev - 1, None, sa))
         else do {
           c \<leftarrow> cur1;
           f \<leftarrow> get_fwd sa c l;
           (case f of
              None \<Rightarrow> Some (Inl (lev - 1, Some c, sa))
            | Some x \<Rightarrow>
                (if x = b then do {
                   nfwd \<leftarrow> get_fwd sa b l;
                   sa1 \<leftarrow> set_fwd sa c l nfwd;
                   sa2 \<leftarrow> (case nfwd of
                             None \<Rightarrow> Some sa1
                           | Some y \<Rightarrow> if lev = 0 then set_back sa1 y (Some c) else Some sa1);
                   Some (Inl (lev - 1, Some c, sa2))
                 } else do {
                   xn \<leftarrow> heap sa x;
                   lk \<leftarrow> last_key xn;
                   Some (Inl (if call_cmp sa lk nk < cond then (lev, Some x, sa) else (lev - 1, Some c, sa)))
                 }))
         })
      }))"

text \<open>Freeing a node of the heap.\<close>

definition free_node :: "skiparray \<Rightarrow> addr \<Rightarrow> skiparray option" where
  "free_node sa b = do {
     bn \<leftarrow> heap sa b;
     m \<leftarrow> node_free b bn (mst sa);
     Some (sa\<lparr>heap := (heap sa)(b := None), mst := m\<rparr>)
   }"

definition unlink_node :: "skiparray \<Rightarrow> addr \<Rightarrow> skiparray option" where
  "unlink_node sa b = do {
     h0 \<leftarrow> get_head sa 0;
     (if h0 = Some b then do { f \<leftarrow> get_fwd sa b 0; assert_c (f \<noteq> None) } else Some ());
     sa1 \<leftarrow> unlink_heads sa b (sa_height sa);
     sa2 \<leftarrow> loop_c lower_step sa1;
     bn \<leftarrow> heap sa2 b;
     near \<leftarrow> (case back_p bn of
               Some p \<Rightarrow> Some p
             | None \<Rightarrow> do { f \<leftarrow> get_fwd sa2 b 0; f });
     nn \<leftarrow> heap sa2 near;
     nk \<leftarrow> (if back_p bn \<noteq> None then last_key nn else first_key nn);
     sa3 \<leftarrow> loop_c (unlink_step b nk (if back_p bn \<noteq> None then 1 else 0)) (int (sa_height sa2) - 1, None, sa2);
     free_node sa3 b
   }"

section \<open>Levels a node has been removed from\<close>

text \<open>The situation all callers are in: \<open>b\<close> is not the first node, and the others are not empty.\<close>

definition unlink_ctx :: "skiparray \<Rightarrow> addr list \<Rightarrow> addr \<Rightarrow> addr list \<Rightarrow> addr list \<Rightarrow> bool" where
  "unlink_ctx sa xs b ys its \<longleftrightarrow>
     cfg_ok sa \<and> shape sa (xs @ b # ys) \<and> xs \<noteq> [] \<and> nonempty_nodes sa (xs @ ys) \<and>
     ascending (call_cmp sa) (keys_of (heap sa) (xs @ ys)) \<and> owned sa (xs @ b # ys) its"

definition removing :: "skiparray \<Rightarrow> addr list \<Rightarrow> addr \<Rightarrow> addr list \<Rightarrow> nat set \<Rightarrow> skiparray \<Rightarrow> bool" where
  "removing sa0 xs b ys D sa \<longleftrightarrow>
     relinked sa0 sa \<and> fwd_at (heap sa) b = fwd_at (heap sa0) b \<and>
     (\<forall>l < max_level sa0. linked (heap sa) (nodes sa) l (if l \<in> D then xs @ ys else xs @ b # ys))"

lemma unlink_ctxD:
  assumes "unlink_ctx sa xs b ys its"
  shows "cfg_ok sa" "shape sa (xs @ b # ys)" "xs \<noteq> []" "nonempty_nodes sa (xs @ ys)"
    "ascending (call_cmp sa) (keys_of (heap sa) (xs @ ys))" "owned sa (xs @ b # ys) its"
    "distinct (xs @ b # ys)" "distinct (xs @ ys)"
  using assms by (auto simp: unlink_ctx_def shape_def)

lemma removingD:
  assumes "removing sa0 xs b ys D sa"
  shows "relinked sa0 sa" "fwd_at (heap sa) b = fwd_at (heap sa0) b"
    "l < max_level sa0 \<Longrightarrow> l \<notin> D \<Longrightarrow> linked (heap sa) (nodes sa) l (xs @ b # ys)"
    "l < max_level sa0 \<Longrightarrow> l \<in> D \<Longrightarrow> linked (heap sa) (nodes sa) l (xs @ ys)"
  using assms by (auto simp: removing_def split: if_splits)

lemma unlink_node_at:
  assumes c: "unlink_ctx sa0 xs b ys its" and r: "relinked sa0 sa" and x: "x \<in> set (xs @ b # ys)"
  obtains n where "heap sa x = Some n" "length (fwd n) = ht (heap sa0) x" "1 \<le> ht (heap sa0) x"
    "ht (heap sa0) x \<le> max_level sa0"
    "x \<in> set (xs @ ys) \<Longrightarrow> last_key n = Some (last (map fst (pairs_at (heap sa0) x))) \<and> pairs_at (heap sa0) x \<noteq> []"
proof -
  obtain n where n: "heap sa0 x = Some n" "node_ok (node_size sa0) (use_values sa0) n" "height n \<le> max_level sa0"
    using shape_node [OF unlink_ctxD(2) [OF c] x] by blast
  obtain n' where n': "heap sa x = Some n'" "last_key n' = last_key n" "length (fwd n') = length (fwd n)"
    using data_eq_node [OF relinkedD(5) [OF r] n(1)] by metis
  have lk: "last_key n' = Some (last (map fst (pairs_at (heap sa0) x))) \<and> pairs_at (heap sa0) x \<noteq> []"
    if "x \<in> set (xs @ ys)"
  proof -
    have "pairs_at (heap sa0) x \<noteq> []" using unlink_ctxD(4) [OF c] that by (simp add: nonempty_nodes_def)
    moreover from this have "0 < count n" using pairs_at_ok(1) [of sa0 x n] n by (metis length_greater_0_conv)
    ultimately show ?thesis using last_key_ok [OF n(2)] n' pairs_at_ok(2) [OF n(1,2)] by simp
  qed
  show ?thesis
    by (rule that [OF n'(1) _ _ _ lk]) (use n n'(3) node_okD(5,6) [OF n(2)] in \<open>auto simp: at_Some\<close>)
qed

text \<open>Removing \<open>b\<close> from one more level.\<close>

lemma removing_level:
  assumes c: "unlink_ctx sa0 xs b ys its" and i: "removing sa0 xs b ys D sa"
    and l: "l \<notin> D" "l < max_level sa0" "l < ht (heap sa0) b"
    and r: "relinked sa sa'" "fwd_at (heap sa') b = fwd_at (heap sa) b"
    and p: "\<And>x. x \<in> set (xs @ ys) \<Longrightarrow> fwd_at (heap sa') x l =
        (if prv (heap sa0) l xs = Some x then nxt (heap sa0) l ys else fwd_at (heap sa) x l)"
    and h: "nodes sa' ! l = (if prv (heap sa0) l xs = None then nxt (heap sa0) l ys else nodes sa ! l)"
    and o: "\<And>x k. k \<noteq> l \<Longrightarrow> fwd_at (heap sa') x k = fwd_at (heap sa) x k"
      "\<And>k. k \<noteq> l \<Longrightarrow> nodes sa' ! k = nodes sa ! k"
  shows "removing sa0 xs b ys (insert l D) sa'"
proof -
  note de = relinkedD(5) [OF removingD(1) [OF i]] and de' = relinkedD(5) [OF r(1)]
  note d = unlink_ctxD(7) [OF c]
  have hts: "ht (heap sa') = ht (heap sa)" "ht (heap sa) = ht (heap sa0)" using data_eq_at(1) de de' by auto
  have np: "nxt (heap sa) = nxt (heap sa0)" "prv (heap sa) = prv (heap sa0)"
    using data_eq_nxt [OF de] data_eq_prv [OF de] by auto
  have lk: "linked (heap sa) (nodes sa) l (xs @ b # ys)" using removingD(3) [OF i l(2,1)] .
  have fb: "fwd_at (heap sa) b l = nxt (heap sa0) l ys"
    using linked_fwdD [OF lk, of b] l(3) d hts np by (simp add: chain)
  have "linked (heap sa') (nodes sa') l (xs @ ys)"
  proof (rule linked_remove [OF lk d])
    show "fwd_at (heap sa') x l = fwd_at (heap sa) x l" if x: "x \<in> set ys" for x
    proof -
      have "prv (heap sa0) l xs \<noteq> Some x" using x d prv_SomeD [of "heap sa0" l xs x] by auto
      then show ?thesis using p x by simp
    qed
  qed (use hts l h p fb np in simp_all)
  then have "linked (heap sa') (nodes sa') k (if k \<in> insert l D then xs @ ys else xs @ b # ys)"
    if k: "k < max_level sa0" for k
  proof (cases "k = l")
    case False
    have "linked (heap sa) (nodes sa) k (if k \<in> D then xs @ ys else xs @ b # ys)"
      using i k by (simp add: removing_def)
    then have "linked (heap sa') (nodes sa') k (if k \<in> D then xs @ ys else xs @ b # ys)"
      by (rule linked_cong) (use o False hts in simp_all)
    with False show ?thesis by simp
  qed simp
  then show ?thesis
    using i relinked_trans [OF removingD(1) [OF i] r(1)] r(2)
    unfolding removing_def by simp
qed

lemma removing_start: "unlink_ctx sa xs b ys its \<Longrightarrow> removing sa xs b ys {l. ht (heap sa) b \<le> l} sa"
  using unlink_ctxD(2,7) [of sa xs b ys its] linked_short [of xs b ys _ "heap sa" "nodes sa"]
  by (auto simp: removing_def shape_def)

lemma removing_heads:
  assumes c: "unlink_ctx sa0 xs b ys its" and i: "removing sa0 xs b ys D sa" and l: "l < max_level sa0"
    and D: "l \<notin> D \<Longrightarrow> prv (heap sa0) l xs \<noteq> None"
  shows "nodes sa ! l = nxt (heap sa0) l (xs @ ys)"
proof (cases "l \<in> D")
  case True
  show ?thesis
    using linked_headD [OF removingD(4) [OF i l True]] data_eq_nxt [OF relinkedD(5) [OF removingD(1) [OF i]]] by simp
next
  case False
  with D have "nxt (heap sa0) l xs \<noteq> None" by (simp add: nxt_None prv_None)
  then show ?thesis
    using linked_headD [OF removingD(3) [OF i l False]] data_eq_nxt [OF relinkedD(5) [OF removingD(1) [OF i]]]
    by (auto simp: nxt_append)
qed

text \<open>Heads.\<close>

lemma unlink_heads_correct:
  assumes c: "unlink_ctx sa0 xs b ys its" and k: "k \<le> max_level sa0"
    and i: "removing sa0 xs b ys {l. ht (heap sa0) b \<le> l \<or> k \<le> l \<and> prv (heap sa0) l xs = None} sa"
    and h: "sa_height sa = sa_height sa0" "back_at (heap sa) = back_at (heap sa0)"
  shows "\<exists>s. unlink_heads sa b k = Some s \<and> sa_height s = sa_height sa0 \<and> back_at (heap s) = back_at (heap sa0) \<and>
    removing sa0 xs b ys {l. ht (heap sa0) b \<le> l \<or> prv (heap sa0) l xs = None} s"
  using k i h
proof (induction k arbitrary: sa)
  case (Suc k)
  let ?D = "\<lambda>k. {l. ht (heap sa0) b \<le> l \<or> k \<le> l \<and> prv (heap sa0) l xs = None}"
  note i = Suc.prems(2) and r = removingD(1) [OF Suc.prems(2)] and d = unlink_ctxD(7) [OF c]
  note np = data_eq_nxt [OF relinkedD(5) [OF r]]
  have nodes: "length (nodes sa) = max_level sa0"
    using relinkedD(4) [OF r] cfg_okD(7) [OF unlink_ctxD(1) [OF c]] by simp
  have g: "get_head sa k = Some (nodes sa ! k)" using nodes Suc.prems(1) by (simp add: get_head_def)
  show ?case
  proof (cases "k < ht (heap sa0) b \<and> prv (heap sa0) k xs = None")
    case True
    have kD: "k \<notin> ?D (Suc k)" "k < max_level sa0" using True Suc.prems(1) by auto
    have lk: "linked (heap sa) (nodes sa) k (xs @ b # ys)" using removingD(3) [OF i kD(2,1)] .
    have "nxt (heap sa0) k xs = None" using True by (simp add: nxt_None prv_None)
    then have hd: "nodes sa ! k = Some b" using linked_headD [OF lk] True by (simp add: np nxt_append)
    obtain n where n: "heap sa b = Some n" "length (fwd n) = ht (heap sa0) b" using unlink_node_at [OF c r, of b] by auto
    have fb: "get_fwd sa b k = Some (nxt (heap sa0) k ys)"
      using linked_fwdD [OF lk, of b] True d get_fwd_at [OF n(1), of k] n(2) data_eq_at(1) [OF relinkedD(5) [OF r]]
      by (simp add: chain np)
    obtain s1 where s1: "set_head sa k (nxt (heap sa0) k ys) = Some s1" using nodes kD(2) by (simp add: set_head_def)
    note e1 = set_headD [OF s1]
    have "removing sa0 xs b ys (insert k (?D (Suc k))) s1"
      by (rule removing_level [OF c i kD _ e1(1)]) (use True e1 nodes kD in auto)
    moreover have "insert k (?D (Suc k)) = ?D k" using True by auto
    ultimately obtain s where "unlink_heads s1 b k = Some s" "sa_height s = sa_height sa0" "back_at (heap s) = back_at (heap sa0)"
      "removing sa0 xs b ys {l. ht (heap sa0) b \<le> l \<or> prv (heap sa0) l xs = None} s"
      using Suc.IH [of s1] Suc.prems e1 by auto
    with g hd fb s1 show ?thesis by simp
  next
    case False
    have D: "?D (Suc k) = ?D k"
    proof
      show "?D k \<subseteq> ?D (Suc k)" using False by (auto simp: Suc_le_eq le_less)
    qed auto
    have "nodes sa ! k = nxt (heap sa0) k (xs @ ys)"
      by (rule removing_heads [OF c i]) (use False Suc.prems(1) in auto)
    then have "nodes sa ! k \<noteq> Some b" using nxt_SomeD [of "heap sa0" k "xs @ ys" b] d by auto
    then show ?thesis using Suc.IH [of sa] Suc.prems D g by simp
  qed
qed simp

text \<open>Lowering the height.\<close>

lemma lower_correct:
  assumes hd: "\<And>l. l < max_level sa \<Longrightarrow> nodes sa ! l = nxt h l ns" and ne: "nxt h 0 ns \<noteq> None"
    and m: "length (nodes sa) = max_level sa" "1 \<le> sa_height sa" "sa_height sa \<le> max_level sa" "max_level sa < 256"
    and used: "\<And>l. l < max_level sa \<Longrightarrow> nxt h l ns \<noteq> None \<Longrightarrow> l < sa_height sa"
  shows "\<exists>k. loop_c lower_step sa = Some (sa\<lparr>sa_height := k\<rparr>) \<and> 1 \<le> k \<and> k \<le> sa_height sa \<and>
    (\<forall>l < max_level sa. l < k \<longleftrightarrow> nxt h l ns \<noteq> None)"
proof -
  let ?I = "\<lambda>s. \<exists>k. s = sa\<lparr>sa_height := k\<rparr> \<and> 1 \<le> k \<and> k \<le> sa_height sa \<and>
    (\<forall>l < max_level sa. nxt h l ns \<noteq> None \<longrightarrow> l < k)"
  let ?Q = "\<lambda>s. \<exists>k. s = sa\<lparr>sa_height := k\<rparr> \<and> 1 \<le> k \<and> k \<le> sa_height sa \<and>
    (\<forall>l < max_level sa. l < k \<longleftrightarrow> nxt h l ns \<noteq> None)"
  have "\<exists>s. loop_c lower_step sa = Some s \<and> ?Q s"
  proof (rule loop_c_rule [where I = ?I and V = sa_height])
    show "?I sa" using m used by (intro exI [of _ "sa_height sa"]) simp
  next
    fix s assume "?I s"
    then obtain k where k: "s = sa\<lparr>sa_height := k\<rparr>" "1 \<le> k" "k \<le> sa_height sa"
      "\<forall>l < max_level sa. nxt h l ns \<noteq> None \<longrightarrow> l < k" by blast
    show "(\<exists>s'. lower_step s = Some (Inl s') \<and> ?I s' \<and> sa_height s' < sa_height s) \<or>
      (\<exists>r. lower_step s = Some (Inr r) \<and> ?Q r)"
    proof (cases "1 < k \<and> nxt h (k - 1) ns = None")
      case True
      have "k - 1 < max_level sa" using k(2,3) m(3) by linarith
      then have g: "get_head s (k - 1) = Some None" using True k(1) m hd [of "k - 1"] by (simp add: get_head_def)
      have "l < k - 1" if "l < max_level sa" "nxt h l ns \<noteq> None" for l
      proof -
        have "l \<noteq> k - 1" using that True by auto
        with k(4) that show ?thesis by fastforce
      qed
      then have "?I (sa\<lparr>sa_height := k - 1\<rparr>)" using True k(3) by (intro exI [of _ "k - 1"]) auto
      moreover have "lower_step s = Some (Inl (sa\<lparr>sa_height := k - 1\<rparr>))"
        using True g k m by (simp add: lower_step_def)
      ultimately show ?thesis using k(1,2) by (intro disjI1 exI [of _ "sa\<lparr>sa_height := k - 1\<rparr>"]) auto
    next
      case False
      have top: "nxt h (k - 1) ns \<noteq> None" using False k(2) ne by (cases "k = 1") auto
      have "nxt h l ns \<noteq> None" if "l < k" for l using nxt_lower [OF top, of l] that by simp
      then have "?Q s" using k by (intro exI [of _ k]) auto
      moreover have "lower_step s = Some (Inr s)"
        using False top k m hd by (auto simp: lower_step_def get_head_def)
      ultimately show ?thesis by blast
    qed
  qed
  then show ?thesis by auto
qed

section \<open>The walk\<close>

abbreviation lastk :: "skiparray \<Rightarrow> addr \<Rightarrow> voidp" where
  "lastk sa x \<equiv> last (map fst (pairs_at (heap sa) x))"

text \<open>The comparisons with the last key of the preceding node.\<close>

lemma lastk_in: "pairs_at (heap sa) x \<noteq> [] \<Longrightarrow> x \<in> set zs \<Longrightarrow> lastk sa x \<in> set (keys_of (heap sa) zs)"
proof -
  assume x: "pairs_at (heap sa) x \<noteq> []" "x \<in> set zs"
  from x(1) have "lastk sa x \<in> set (map fst (pairs_at (heap sa) x))" by (intro last_in_set) simp
  with x(2) show ?thesis by (auto simp: pairs_of_def)
qed

lemma nearest_cmp:
  assumes c: "unlink_ctx sa xs b ys its"
  shows "x \<in> set xs \<Longrightarrow> call_cmp sa (lastk sa x) (lastk sa (last xs)) < 1"
    and "y \<in> set ys \<Longrightarrow> \<not> call_cmp sa (lastk sa y) (lastk sa (last xs)) < 1"
proof -
  note cmp = cfg_okD(8) [OF unlink_ctxD(1) [OF c]] and ne = unlink_ctxD(4) [OF c]
  have asc: "ascending (call_cmp sa) (keys_of (heap sa) xs @ keys_of (heap sa) ys)"
    using unlink_ctxD(5) [OF c] by simp
  have a: "last xs \<in> set xs" using unlink_ctxD(3) [OF c] by simp
  show "call_cmp sa (lastk sa x) (lastk sa (last xs)) < 1" if x: "x \<in> set xs"
  proof (cases "x = last xs")
    case True
    then show ?thesis using comparator.cmp_refl [OF cmp] by simp
  next
    case False
    obtain us vs where uv: "xs = us @ x # vs" using split_list [OF x] by blast
    with False have v: "vs \<noteq> []" "last xs = last vs" by auto
    then have "last vs \<in> set vs" by simp
    then have "lastk sa (last xs) \<in> set (keys_of (heap sa) vs)"
      using lastk_in [of sa "last vs" vs] ne uv v(2) by (simp add: nonempty_nodes_def)
    moreover have "lastk sa x \<in> set (keys_of (heap sa) (us @ [x]))"
      using lastk_in [of sa x "us @ [x]"] ne x by (simp add: nonempty_nodes_def)
    moreover have "ascending (call_cmp sa) (keys_of (heap sa) (us @ [x]) @ keys_of (heap sa) vs)"
      using asc unfolding uv by (simp add: ascending_append)
    ultimately have "call_cmp sa (lastk sa x) (lastk sa (last xs)) < 0"
      unfolding ascending_append above_def by blast
    then show ?thesis by simp
  qed
  show "\<not> call_cmp sa (lastk sa y) (lastk sa (last xs)) < 1" if y: "y \<in> set ys"
  proof -
    have "lastk sa (last xs) \<in> set (keys_of (heap sa) xs)" "lastk sa y \<in> set (keys_of (heap sa) ys)"
      using lastk_in a y ne by (auto simp: nonempty_nodes_def)
    then have "call_cmp sa (lastk sa (last xs)) (lastk sa y) < 0"
      using asc unfolding ascending_append above_def by blast
    then show ?thesis using comparator.cmp_swap [OF cmp] by fastforce
  qed
qed

text \<open>Back pointers once \<open>b\<close> is gone.\<close>

definition back_without :: "(addr \<Rightarrow> addr option) \<Rightarrow> addr list \<Rightarrow> addr list \<Rightarrow> addr \<Rightarrow> addr option" where
  "back_without bk xs ys = (case ys of [] \<Rightarrow> bk | y # _ \<Rightarrow> bk(y := last_opt xs))"

definition unlink_inv :: "skiparray \<Rightarrow> addr list \<Rightarrow> addr \<Rightarrow> addr list \<Rightarrow> nat \<Rightarrow> int \<times> addr option \<times> skiparray \<Rightarrow> bool" where
  "unlink_inv sa0 xs b ys k = (\<lambda>(lev, cur, sa).
     removing sa0 xs b ys {l. ht (heap sa0) b \<le> l \<or> prv (heap sa0) l xs = None \<or> lev < int l} sa \<and>
     sa_height sa = k \<and> lev < int k \<and>
     (\<forall>c. cur = Some c \<longrightarrow> c \<in> set xs \<and> lev < int (ht (heap sa0) c)) \<and>
     back_at (heap sa) = (if lev < 0 then back_without (back_at (heap sa0)) xs ys else back_at (heap sa0)))"

lemma unlink_invI:
  assumes "removing sa0 xs b ys D sa" "D = {l. ht (heap sa0) b \<le> l \<or> prv (heap sa0) l xs = None \<or> lev < int l}"
    and "sa_height sa = k" "lev < int k"
    and "\<And>c. cur = Some c \<Longrightarrow> c \<in> set xs \<and> lev < int (ht (heap sa0) c)"
    and "back_at (heap sa) = (if lev < 0 then back_without (back_at (heap sa0)) xs ys else back_at (heap sa0))"
  shows "unlink_inv sa0 xs b ys k (lev, cur, sa)"
  using assms by (simp add: unlink_inv_def)

lemma removing_back:
  assumes i: "removing sa0 xs b ys D sa" and r: "relinked sa sa'" "nodes sa' = nodes sa"
    "fwd_at (heap sa') = fwd_at (heap sa)"
  shows "removing sa0 xs b ys D sa'"
proof -
  have "linked (heap sa') (nodes sa') l ns" if "linked (heap sa) (nodes sa) l ns" for l ns
    by (rule linked_cong [OF that]) (use r data_eq_at(1) [OF relinkedD(5) [OF r(1)]] in auto)
  with i r relinked_trans [of sa0 sa sa'] show ?thesis by (simp add: removing_def)
qed

text \<open>One level, from a node before \<open>b\<close>: advance on it, or unlink and descend.\<close>

definition step_on :: "addr \<Rightarrow> voidp \<Rightarrow> int \<Rightarrow> int \<Rightarrow> addr \<Rightarrow> skiparray \<Rightarrow> (int \<times> addr option \<times> skiparray + skiparray) option" where
  "step_on b nk cond lev c sa = do {
     f \<leftarrow> get_fwd sa c (nat lev);
     (case f of
        None \<Rightarrow> Some (Inl (lev - 1, Some c, sa))
      | Some x \<Rightarrow>
          (if x = b then do {
             nfwd \<leftarrow> get_fwd sa b (nat lev);
             sa1 \<leftarrow> set_fwd sa c (nat lev) nfwd;
             sa2 \<leftarrow> (case nfwd of
                       None \<Rightarrow> Some sa1
                     | Some y \<Rightarrow> if lev = 0 then set_back sa1 y (Some c) else Some sa1);
             Some (Inl (lev - 1, Some c, sa2))
           } else do {
             xn \<leftarrow> heap sa x;
             lk \<leftarrow> last_key xn;
             Some (Inl (if call_cmp sa lk nk < cond then (lev, Some x, sa) else (lev - 1, Some c, sa)))
           }))
   }"

lemma unlink_step_eqs:
  "lev < 0 \<Longrightarrow> unlink_step b nk cond (lev, cur, sa) = Some (Inr sa)"
  "0 \<le> lev \<Longrightarrow> unlink_step b nk cond (lev, Some c, sa) = step_on b nk cond lev c sa"
  "0 \<le> lev \<Longrightarrow> get_head sa (nat lev) = Some (Some h) \<Longrightarrow> heap sa h = Some hn \<Longrightarrow> last_key hn = Some lk \<Longrightarrow>
   unlink_step b nk cond (lev, None, sa) =
     (if call_cmp sa lk nk < cond then step_on b nk cond lev h sa else Some (Inl (lev - 1, None, sa)))"
  by (simp_all add: unlink_step_def step_on_def Let_def)

lemma prv_last:
  "xs \<noteq> [] \<Longrightarrow> l < ht h (last xs) \<Longrightarrow> prv h l xs = Some (last xs)"
  by (metis append_butlast_last_id prv_snoc)

lemma step_on_correct:
  assumes c: "unlink_ctx sa0 xs b ys its" and I: "unlink_inv sa0 xs b ys k (lev, cur, sa)" and lev: "0 \<le> lev"
    and k: "k \<le> max_level sa0" and x: "x \<in> set xs" "lev < int (ht (heap sa0) x)"
  shows "\<exists>lev' cur' sa'. step_on b (lastk sa0 (last xs)) 1 lev x sa = Some (Inl (lev', cur', sa')) \<and>
    unlink_inv sa0 xs b ys k (lev', cur', sa') \<and>
    (lev' = lev - 1 \<or> lev' = lev \<and> (\<exists>z. cur' = Some z \<and> length (after z xs) < length (after x xs)))"
proof -
  let ?l = "nat lev" and ?b = "ht (heap sa0) b"
  let ?D = "{l. ?b \<le> l \<or> prv (heap sa0) l xs = None \<or> lev < int l}"
  have i: "removing sa0 xs b ys ?D sa" "sa_height sa = k" "lev < int k" "back_at (heap sa) = back_at (heap sa0)"
    using I lev by (auto simp: unlink_inv_def)
  note r = removingD(1) [OF i(1)] and d = unlink_ctxD(7) [OF c]
  note np = data_eq_nxt [OF relinkedD(5) [OF r]] data_eq_prv [OF relinkedD(5) [OF r]]
    data_eq_at(1) [OF relinkedD(5) [OF r]]
  have l: "?l < max_level sa0" "?l < ht (heap sa0) x" using lev i(3) k x(2) by auto
  have pv: "prv (heap sa0) ?l xs \<noteq> None" using x(1) l(2) by (auto simp: prv_None)
  have cmpe: "call_cmp sa = call_cmp sa0" using relinkedD(9) [OF r] by simp
  have lD: "?l \<in> ?D \<longleftrightarrow> ?b \<le> ?l" using pv lev by auto
  obtain n where n: "heap sa x = Some n" "length (fwd n) = ht (heap sa0) x" using unlink_node_at [OF c r, of x] x(1) by auto
  obtain bn where bn: "heap sa b = Some bn" "length (fwd bn) = ?b" "1 \<le> ?b" using unlink_node_at [OF c r, of b] by auto
  have f: "get_fwd sa x ?l = Some (case nxt (heap sa0) ?l (after x xs) of Some z \<Rightarrow> Some z
      | None \<Rightarrow> if ?l < ?b then Some b else nxt (heap sa0) ?l ys)"
  proof (cases "?b \<le> ?l")
    case True
    then have "linked (heap sa) (nodes sa) ?l (xs @ ys)" using removingD(4) [OF i(1) l(1)] by simp
    from linked_fwdD [OF this, of x] True show ?thesis
      using get_fwd_at [OF n(1), of ?l] n(2) x(1) l(2) by (auto simp: chain nxt_append np split: option.splits)
  next
    case False
    then have "linked (heap sa) (nodes sa) ?l (xs @ b # ys)" using removingD(3) [OF i(1) l(1)] lD by blast
    from linked_fwdD [OF this, of x] False show ?thesis
      using get_fwd_at [OF n(1), of ?l] n(2) x(1) l(2) by (auto simp: chain nxt_append np split: option.splits)
  qed
  have down: "unlink_inv sa0 xs b ys k (lev - 1, Some x, sa)" if "?b \<le> ?l"
  proof (rule unlink_invI [OF i(1)])
    show "?D = {l. ?b \<le> l \<or> prv (heap sa0) l xs = None \<or> lev - 1 < int l}" using that lev by fastforce
    have "lev \<noteq> 0" using that bn(3) by auto
    then show "back_at (heap sa) = (if lev - 1 < 0 then back_without (back_at (heap sa0)) xs ys else back_at (heap sa0))"
      using i(4) lev by simp
  qed (use i x in auto)
  show ?thesis
  proof (cases "nxt (heap sa0) ?l (after x xs)")
    case (Some z)
    have z: "z \<in> set (after x xs)" "?l < ht (heap sa0) z" using nxt_SomeD [OF Some] by auto
    then have zx: "z \<in> set xs" "z \<noteq> b" using set_after [of x xs] d by auto
    obtain zn where zn: "heap sa z = Some zn" "last_key zn = Some (lastk sa0 z)"
      using unlink_node_at [OF c r, of z] zx(1) by auto
    have "step_on b (lastk sa0 (last xs)) 1 lev x sa = Some (Inl (lev, Some z, sa))"
      using f Some zx(2) zn nearest_cmp(1) [OF c zx(1)] cmpe by (simp add: step_on_def)
    moreover have "unlink_inv sa0 xs b ys k (lev, Some z, sa)"
      by (rule unlink_invI [OF i(1) refl]) (use i zx z lev in auto)
    moreover have "length (after z xs) < length (after x xs)"
    proof -
      obtain us where us: "xs = us @ x # after x xs" using split_at [OF x(1)] by blast
      have "distinct (us @ x # after x xs)" using d us by (metis distinct_append)
      then have "z \<notin> set (us @ [x])" using z(1) by auto
      then have "after z ((us @ [x]) @ after x xs) = after z (after x xs)" by (rule after_notin)
      then have "after z xs = after z (after x xs)" using us by simp
      moreover obtain vs where "after x xs = vs @ z # after z (after x xs)" using split_at [OF z(1)] by blast
      ultimately show ?thesis by (metis length_append length_Cons add_Suc_right less_add_Suc2 add.commute)
    qed
    ultimately show ?thesis by blast
  next
    case None
    have px: "prv (heap sa0) ?l xs = Some x" using None x(1) l(2) d prv_iff [of xs "heap sa0" ?l x] by auto
    show ?thesis
    proof (cases "?b \<le> ?l")
      case True
      have "step_on b (lastk sa0 (last xs)) 1 lev x sa = Some (Inl (lev - 1, Some x, sa))"
      proof (cases "nxt (heap sa0) ?l ys")
        case None': None
        with f None True show ?thesis by (simp add: step_on_def)
      next
        case (Some y)
        then have y: "y \<in> set ys" "y \<noteq> b" using nxt_SomeD [OF Some] d by auto
        obtain yn where yn: "heap sa y = Some yn" "last_key yn = Some (lastk sa0 y)"
          using unlink_node_at [OF c r, of y] y(1) by auto
        show ?thesis
          using f None Some True y(2) yn nearest_cmp(2) [OF c y(1)] cmpe by (simp add: step_on_def)
      qed
      with down [OF True] show ?thesis by blast
    next
      case False
      then have lb: "?l < ?b" "?l \<notin> ?D" using lD by auto
      have lk: "linked (heap sa) (nodes sa) ?l (xs @ b # ys)" using removingD(3) [OF i(1) l(1) lb(2)] .
      have fb: "get_fwd sa b ?l = Some (nxt (heap sa0) ?l ys)"
        using linked_fwdD [OF lk, of b] lb(1) d get_fwd_at [OF bn(1), of ?l] bn(2) by (simp add: chain np)
      obtain s1 where s1: "set_fwd sa x ?l (nxt (heap sa0) ?l ys) = Some s1"
        using set_fwd_Some [OF n(1), of ?l "nxt (heap sa0) ?l ys"] n(2) l(2) by auto
      note e1 = set_fwdD [OF s1]
      have xb: "x \<noteq> b" using x(1) d by auto
      have r1: "removing sa0 xs b ys (insert ?l ?D) s1"
        by (rule removing_level [OF c i(1) lb(2) l(1) lb(1) e1(1)]) (use px e1 xb in auto)
      have D: "insert ?l ?D = {l. ?b \<le> l \<or> prv (heap sa0) l xs = None \<or> lev - 1 < int l}"
        using lev by (auto simp: le_less)
      show ?thesis
      proof (cases "lev = 0")
        case False
        have "step_on b (lastk sa0 (last xs)) 1 lev x sa = Some (Inl (lev - 1, Some x, s1))"
          using f None lb fb s1 False by (auto simp: step_on_def split: option.splits)
        moreover have "unlink_inv sa0 xs b ys k (lev - 1, Some x, s1)"
          by (rule unlink_invI [OF r1 D]) (use i e1 x lev False in auto)
        ultimately show ?thesis by blast
      next
        case True
        have "last xs \<in> set xs" using x(1) by (cases xs) auto
        then have "0 < ht (heap sa0) (last xs)" using shape_ht(1) [OF unlink_ctxD(2) [OF c], of "last xs"] by simp
        then have "prv (heap sa0) 0 xs = Some (last xs)" using unlink_ctxD(3) [OF c] by (intro prv_last)
        then have xl: "last_opt xs = Some x" using px True unlink_ctxD(3) [OF c] by (simp add: last_opt_def)
        have n0: "nxt (heap sa0) 0 ys = (case ys of [] \<Rightarrow> None | y # _ \<Rightarrow> Some y)"
        proof (cases ys)
          case (Cons y zs)
          then have "1 \<le> ht (heap sa0) y" using unlink_node_at [OF c r, of y] by auto
          with Cons show ?thesis by simp
        qed simp
        obtain s2 where s2: "(case (case ys of [] \<Rightarrow> None | y # _ \<Rightarrow> Some y) of None \<Rightarrow> Some s1 | Some y \<Rightarrow> set_back s1 y (Some x)) = Some s2"
          "relinked s1 s2" "nodes s2 = nodes s1" "sa_height s2 = sa_height s1" "fwd_at (heap s2) = fwd_at (heap s1)"
          "back_at (heap s2) = back_without (back_at (heap s1)) xs ys"
        proof (cases ys)
          case Nil
          then show ?thesis by (intro that [of s1]) (simp_all add: back_without_def)
        next
          case (Cons y zs)
          then obtain yn where yn: "heap s1 y = Some yn"
            using unlink_node_at [OF c removingD(1) [OF r1], of y] by auto
          show ?thesis
            by (rule set_back_effect [OF yn, of "Some x"], rule that) (simp_all add: Cons back_without_def xl)
        qed
        have "step_on b (lastk sa0 (last xs)) 1 lev x sa = Some (Inl (lev - 1, Some x, s2))"
          using f None lb fb s1 s2(1) True by (simp add: step_on_def n0 cong: option.case_cong)
        moreover have "unlink_inv sa0 xs b ys k (lev - 1, Some x, s2)"
          by (rule unlink_invI [OF removing_back [OF r1 s2(2,3,5)] D]) (use i e1 s2 x True in auto)
        ultimately show ?thesis by blast
      qed
    qed
  qed
qed

lemma unlink_walk:
  assumes c: "unlink_ctx sa0 xs b ys its" and I: "unlink_inv sa0 xs b ys k s0"
    and k: "k \<le> max_level sa0" "\<forall>l < k. nxt (heap sa0) l (xs @ ys) \<noteq> None"
  shows "\<exists>s. loop_c (unlink_step b (lastk sa0 (last xs)) 1) s0 = Some s \<and> sa_height s = k \<and>
    removing sa0 xs b ys UNIV s \<and> back_at (heap s) = back_without (back_at (heap sa0)) xs ys"
proof -
  let ?nk = "lastk sa0 (last xs)"
  let ?Q = "\<lambda>s. sa_height s = k \<and> removing sa0 xs b ys UNIV s \<and> back_at (heap s) = back_without (back_at (heap sa0)) xs ys"
  let ?W = "\<lambda>(lev, cur, sa). case cur of None \<Rightarrow> Suc (length xs) | Some c \<Rightarrow> length (after c xs)"
  have le: "length (after c xs) \<le> length xs" for c by (induction xs) auto
  have "\<exists>s. loop_c (unlink_step b ?nk 1) s0 = Some s \<and> ?Q s"
  proof (rule loop_c_rule2 [where I = "unlink_inv sa0 xs b ys k" and V = "\<lambda>(lev, cur, sa). nat (lev + 1)" and W = ?W])
    fix t assume t: "unlink_inv sa0 xs b ys k t"
    obtain lev cur sa where e: "t = (lev, cur, sa)" by (cases t)
    note I = t [unfolded e]
    show "(\<exists>s'. unlink_step b ?nk 1 t = Some (Inl s') \<and> unlink_inv sa0 xs b ys k s' \<and>
        ((case s' of (lev, cur, sa) \<Rightarrow> nat (lev + 1)) < (case t of (lev, cur, sa) \<Rightarrow> nat (lev + 1)) \<or>
         (case s' of (lev, cur, sa) \<Rightarrow> nat (lev + 1)) = (case t of (lev, cur, sa) \<Rightarrow> nat (lev + 1)) \<and> ?W s' < ?W t)) \<or>
      (\<exists>r. unlink_step b ?nk 1 t = Some (Inr r) \<and> ?Q r)"
    proof (cases "lev < 0")
      case True
      then have "{l. ht (heap sa0) b \<le> l \<or> prv (heap sa0) l xs = None \<or> lev < int l} = UNIV" by auto
      with I True e show ?thesis by (simp add: unlink_step_eqs unlink_inv_def)
    next
      case False
      then have lev: "0 \<le> lev" by simp
      have i: "removing sa0 xs b ys {l. ht (heap sa0) b \<le> l \<or> prv (heap sa0) l xs = None \<or> lev < int l} sa"
        "sa_height sa = k" "lev < int k" "back_at (heap sa) = back_at (heap sa0)"
        using I lev by (auto simp: unlink_inv_def)
      note r = removingD(1) [OF i(1)]
      have l: "nat lev < max_level sa0" "nat lev < k" using i(3) k(1) lev by auto
      obtain h where hn: "nxt (heap sa0) (nat lev) (xs @ ys) = Some h" using k(2) l(2) by auto
      have g: "get_head sa (nat lev) = Some (Some h)"
      proof -
        have "nodes sa ! nat lev = nxt (heap sa0) (nat lev) (xs @ ys)" by (rule removing_heads [OF c i(1) l(1)]) auto
        then show ?thesis
          using hn l(1) relinkedD(4) [OF r] cfg_okD(7) [OF unlink_ctxD(1) [OF c]] by (simp add: get_head_def)
      qed
      have h: "h \<in> set (xs @ ys)" "nat lev < ht (heap sa0) h" using nxt_SomeD [OF hn] by auto
      obtain n where n: "heap sa h = Some n" "last_key n = Some (lastk sa0 h)"
        using unlink_node_at [OF c r, of h] h(1) by auto
      note st = unlink_step_eqs(3) [OF lev g n, of b ?nk 1]
      have cmpe: "call_cmp sa = call_cmp sa0" using relinkedD(9) [OF r] by simp
      have on: "?thesis" if x: "x \<in> set xs" "lev < int (ht (heap sa0) x)" and eq: "unlink_step b ?nk 1 t = step_on b ?nk 1 lev x sa"
        and w: "?W t \<ge> length (after x xs)" for x
      proof -
        obtain lev' cur' sa' where s: "step_on b ?nk 1 lev x sa = Some (Inl (lev', cur', sa'))"
          "unlink_inv sa0 xs b ys k (lev', cur', sa')"
          "lev' = lev - 1 \<or> lev' = lev \<and> (\<exists>z. cur' = Some z \<and> length (after z xs) < length (after x xs))"
          using step_on_correct [OF c I lev k(1) x] by blast
        then show ?thesis
          using eq w e lev by (intro disjI1 exI [of _ "(lev', cur', sa')"]) auto
      qed
      show ?thesis
      proof (cases cur)
        case (Some x)
        with I have "x \<in> set xs" "lev < int (ht (heap sa0) x)" by (auto simp: unlink_inv_def)
        then show ?thesis by (rule on) (use e Some lev unlink_step_eqs(2) in auto)
      next
        case None
        show ?thesis
        proof (cases "h \<in> set xs")
          case True
          then show ?thesis
            by (rule on) (use h lev e None st nearest_cmp(1) [OF c True] cmpe le [of h] in auto)
        next
          case False
          then have hy: "h \<in> set ys" using h(1) by simp
          have xn: "nxt (heap sa0) (nat lev) xs = None"
          proof (cases "nxt (heap sa0) (nat lev) xs")
            case (Some z)
            with hn nxt_SomeD [OF Some] False show ?thesis by (simp add: nxt_append)
          qed
          then have pn: "prv (heap sa0) (nat lev) xs = None" by (simp add: nxt_None prv_None)
          have "lev \<noteq> 0"
          proof
            assume "lev = 0"
            moreover have "last xs \<in> set xs" using unlink_ctxD(3) [OF c] by simp
            moreover from this have "1 \<le> ht (heap sa0) (last xs)"
              using shape_ht(1) [OF unlink_ctxD(2) [OF c], of "last xs"] by simp
            ultimately show False using xn by (auto simp: nxt_None)
          qed
          then have "unlink_inv sa0 xs b ys k (lev - 1, None, sa)"
          proof (intro unlink_invI [OF i(1)])
            have "prv (heap sa0) l xs = None" if "lev - 1 < int l" "\<not> lev < int l" for l
            proof -
              have "l = nat lev" using that lev by simp
              with pn show ?thesis by simp
            qed
            then show "{l. ht (heap sa0) b \<le> l \<or> prv (heap sa0) l xs = None \<or> lev < int l} =
                {l. ht (heap sa0) b \<le> l \<or> prv (heap sa0) l xs = None \<or> lev - 1 < int l}" by auto
          qed (use i lev in auto)
          moreover have "unlink_step b ?nk 1 t = Some (Inl (lev - 1, None, sa))"
            using st nearest_cmp(2) [OF c hy] cmpe e None by simp
          ultimately show ?thesis using e lev by (intro disjI1 exI [of _ "(lev - 1, None, sa)"]) auto
        qed
      qed
    qed
  qed (rule I)
  then show ?thesis .
qed

section \<open>Correctness\<close>

text \<open>A skiparray without the node \<open>b\<close>.\<close>

definition unlinked :: "skiparray \<Rightarrow> addr list \<Rightarrow> addr \<Rightarrow> addr list \<Rightarrow> addr list \<Rightarrow> skiparray \<Rightarrow> bool" where
  "unlinked sa xs b ys its sa' \<longleftrightarrow>
     same_env sa sa' \<and> cfg_ok sa' \<and> shape sa' (xs @ ys) \<and> owned sa' (xs @ ys) its \<and>
     (\<forall>a \<in> set (xs @ ys). pairs_at (heap sa') a = pairs_at (heap sa) a) \<and>
     foreign sa' (xs @ ys) its = foreign sa (xs @ b # ys) its"

lemma prev_of_remove:
  assumes "distinct (xs @ b # ys)" "xs \<noteq> []" "c \<in> set (xs @ ys)"
  shows "prev_of c (xs @ ys) = (if ys \<noteq> [] \<and> c = hd ys then last_opt xs else prev_of c (xs @ b # ys))"
proof (cases "c \<in> set xs")
  case True
  with assms(1) show ?thesis by (cases ys) (auto simp: chain)
next
  case False
  then obtain y zs where ys: "ys = y # zs" using assms(3) by (cases ys) auto
  have n: "c \<notin> set (xs @ [b])" using False assms(1,3) by auto
  show ?thesis
    using prev_of_notin [OF n, of y zs] prev_of_notin [OF False, of y zs] ys by auto
qed

lemma back_without_prev:
  assumes d: "distinct (xs @ b # ys)" and ne: "xs \<noteq> []"
    and old: "\<And>c. c \<in> set (xs @ b # ys) \<Longrightarrow> bk c = prev_of c (xs @ b # ys)" and c: "c \<in> set (xs @ ys)"
  shows "back_without bk xs ys c = prev_of c (xs @ ys)"
  using prev_of_remove [OF d ne c] old [of c] c by (cases ys) (auto simp: back_without_def)

lemma free_unlinked:
  assumes c: "unlink_ctx sa0 xs b ys its" and r: "removing sa0 xs b ys UNIV sa"
    and bk: "back_at (heap sa) = back_without (back_at (heap sa0)) xs ys"
    and h: "1 \<le> sa_height sa" "sa_height sa \<le> max_level sa0"
      "\<forall>l < max_level sa0. l < sa_height sa \<longleftrightarrow> nxt (heap sa0) l (xs @ ys) \<noteq> None"
  shows "\<exists>sa'. free_node sa b = Some sa' \<and> unlinked sa0 xs b ys its sa'"
proof -
  note rr = relinkedD [OF removingD(1) [OF r]] and de = data_eq_at [OF relinkedD(5) [OF removingD(1) [OF r]]]
  note d = unlink_ctxD(7) [OF c] and sh = unlink_ctxD(2) [OF c] and o = unlink_ctxD(6) [OF c]
  have bx: "b \<notin> set (xs @ ys)" using d by auto
  obtain bn0 where bn0: "heap sa0 b = Some bn0" using shape_node [OF sh, of b] by auto
  obtain bn where bn: "heap sa b = Some bn" using unlink_node_at [OF c removingD(1) [OF r], of b] by auto
  have nb: "node_blocks b bn = blocks_at (heap sa0) b" using bn de(3) by (metis at_Some(4))
  have bl0: "blocks sa0 (xs @ b # ys) its = self sa0 # concat (map (blocks_at (heap sa0)) xs) @ node_blocks b bn @
      concat (map (blocks_at (heap sa0)) ys) @ its" by (simp add: blocks_def nb)
  have "distinct (node_blocks b bn)" "set (node_blocks b bn) \<subseteq> set (live (mst sa))"
    using o rr(2) unfolding owned_def bl0 by auto
  then obtain m where m: "node_free b bn (mst sa) = Some m" "set (live m) = set (live (mst sa)) - set (node_blocks b bn)"
    using node_free_total by blast
  let ?sa = "sa\<lparr>heap := (heap sa)(b := None), mst := m\<rparr>"
  have at: "ht (heap ?sa) x = ht (heap sa0) x" "pairs_at (heap ?sa) x = pairs_at (heap sa0) x"
    "blocks_at (heap ?sa) x = blocks_at (heap sa0) x" "fwd_at (heap ?sa) x l = fwd_at (heap sa) x l"
    "back_at (heap ?sa) x = back_at (heap sa) x" if "x \<in> set (xs @ ys)" for x l
  proof -
    have "x \<noteq> b" using that bx by auto
    then show "ht (heap ?sa) x = ht (heap sa0) x" "pairs_at (heap ?sa) x = pairs_at (heap sa0) x"
      "blocks_at (heap ?sa) x = blocks_at (heap sa0) x" "fwd_at (heap ?sa) x l = fwd_at (heap sa) x l"
      "back_at (heap ?sa) x = back_at (heap sa) x" by (simp_all add: chain de)
  qed
  have env: "same_env sa0 ?sa" using rr(1) node_free_oom [OF m(1)] by (simp add: same_env_def)
  have cfg: "cfg_ok ?sa"
    by (rule cfg_ok_env [OF env unlink_ctxD(1) [OF c]]) (use h rr(4) in auto)
  have lk: "linked (heap sa) (nodes sa) l (xs @ ys)" if "l < max_level sa0" for l
    using removingD(4) [OF r that] by simp
  have lk': "linked (heap ?sa) (nodes ?sa) l (xs @ ys)" if "l < max_level sa0" for l
    by (rule linked_cong [OF lk [OF that]]) (use at de in auto)
  have "shape ?sa (xs @ ys)"
  proof -
    have "dom (heap ?sa) = set (xs @ ys)" using sh de(4) bx by (auto simp: shape_def)
    moreover have "\<exists>n. heap ?sa x = Some n \<and> node_ok (node_size ?sa) (use_values ?sa) n \<and> height n \<le> max_level ?sa"
      if x: "x \<in> set (xs @ ys)" for x
    proof -
      obtain n where n: "heap sa0 x = Some n" "node_ok (node_size sa0) (use_values sa0) n" "height n \<le> max_level sa0"
        using shape_node [OF sh, of x] x by auto
      obtain n' where n': "heap sa x = Some n'"
        "node_ok (node_size sa0) (use_values sa0) n' = node_ok (node_size sa0) (use_values sa0) n" "height n' = height n"
        by (rule data_eq_node [OF rr(5) n(1), of "node_size sa0" "use_values sa0"])
      have "x \<noteq> b" using x bx by auto
      with n n' rr show ?thesis by simp
    qed
    moreover have "back_at (heap ?sa) x = prev_of x (xs @ ys)" if x: "x \<in> set (xs @ ys)" for x
    proof -
      have "back_at (heap sa0) z = prev_of z (xs @ b # ys)" if "z \<in> set (xs @ b # ys)" for z
        using sh that unfolding shape_def by blast
      from back_without_prev [OF d unlink_ctxD(3) [OF c] this x] at(5) [OF x] bk show ?thesis by simp
    qed
    moreover have "l < sa_height ?sa \<longleftrightarrow> nodes ?sa ! l \<noteq> None" if "l < max_level sa0" for l
      using linked_headD [OF lk [OF that]] h(3) that data_eq_nxt [OF rr(5)] by simp
    ultimately show ?thesis using d lk' unlink_ctxD(3) [OF c] rr unfolding shape_def by auto
  qed
  moreover have b1: "blocks ?sa (xs @ ys) its = self sa0 # concat (map (blocks_at (heap sa0)) xs) @
      concat (map (blocks_at (heap sa0)) ys) @ its"
  proof -
    have maps: "map (blocks_at (heap ?sa)) xs = map (blocks_at (heap sa0)) xs"
      "map (blocks_at (heap ?sa)) ys = map (blocks_at (heap sa0)) ys" using at(3) by auto
    have "self ?sa = self sa0" using rr(1) by (simp add: same_env_def)
    then show ?thesis unfolding blocks_def map_append concat_append maps by simp
  qed
  have s: "set (blocks sa0 (xs @ b # ys) its) = set (blocks ?sa (xs @ ys) its) \<union> set (node_blocks b bn)"
    unfolding bl0 b1 by auto
  have dj: "set (blocks ?sa (xs @ ys) its) \<inter> set (node_blocks b bn) = {}"
    using o unfolding owned_def bl0 b1 by auto
  have db: "distinct (blocks ?sa (xs @ ys) its)" using o unfolding owned_def bl0 b1 by auto
  have "owned ?sa (xs @ ys) its"
    using o db dj m(2) rr(2) unfolding owned_def s by auto
  moreover have "foreign ?sa (xs @ ys) its = foreign sa0 (xs @ b # ys) its"
    using m(2) rr(2) unfolding s by auto
  moreover have "free_node sa b = Some ?sa" using bn m(1) by (simp add: free_node_def)
  ultimately show ?thesis using env cfg at(2) by (intro exI [of _ ?sa]) (simp add: unlinked_def)
qed

lemma unlink_node_correct:
  assumes c: "unlink_ctx sa xs b ys its"
  shows "\<exists>sa'. unlink_node sa b = Some sa' \<and> unlinked sa xs b ys its sa'"
proof -
  note cfg = cfg_okD [OF unlink_ctxD(1) [OF c]] and sh = unlink_ctxD(2) [OF c] and d = unlink_ctxD(7) [OF c]
  let ?h = "heap sa" and ?b = "ht (heap sa) b"
  have ne: "nxt ?h 0 (xs @ ys) \<noteq> None"
  proof -
    have "last xs \<in> set xs" using unlink_ctxD(3) [OF c] by simp
    then show ?thesis using shape_ht(1) [OF sh, of "last xs"] by (auto simp: nxt_None Suc_le_eq)
  qed
  have h0: "nodes sa ! 0 \<noteq> Some b"
    using shape_head0 [OF sh cfg(3)] unlink_ctxD(3) [OF c] d by (cases xs) auto
  have g0: "get_head sa 0 = Some (nodes sa ! 0)" using cfg(3,7) by (simp add: get_head_def)
  have used: "l < sa_height sa" if "l < max_level sa" "nxt ?h l (xs @ ys) \<noteq> None" for l
  proof -
    have "nxt ?h l (xs @ b # ys) \<noteq> None" using that(2) by (auto simp: nxt_None)
    then show ?thesis
      using sh that(1) linked_headD [OF shape_linked [OF sh that(1)]] by (simp add: shape_def)
  qed
  have D0: "{l. ?b \<le> l} = {l. ?b \<le> l \<or> sa_height sa \<le> l \<and> prv ?h l xs = None}"
  proof -
    have "?b \<le> sa_height sa"
    proof -
      have "nxt ?h (?b - 1) (xs @ b # ys) \<noteq> None" using shape_ht(1) [OF sh, of b] by (auto simp: nxt_None)
      moreover have "?b - 1 < max_level sa" using shape_ht [OF sh, of b] by auto
      ultimately have "?b - 1 < sa_height sa"
        using sh linked_headD [OF shape_linked [OF sh \<open>?b - 1 < max_level sa\<close>]] by (simp add: shape_def)
      then show ?thesis by simp
    qed
    then show ?thesis by auto
  qed
  obtain s1 where s1: "unlink_heads sa b (sa_height sa) = Some s1" "sa_height s1 = sa_height sa"
    "back_at (heap s1) = back_at ?h" "removing sa xs b ys {l. ?b \<le> l \<or> prv ?h l xs = None} s1"
    using unlink_heads_correct [OF c cfg(6) removing_start [OF c, unfolded D0] refl refl] by blast
  note r1 = relinkedD [OF removingD(1) [OF s1(4)]]
  have hd: "nodes s1 ! l = nxt ?h l (xs @ ys)" if "l < max_level s1" for l
    by (rule removing_heads [OF c s1(4)]) (use that r1 in auto)
  obtain k where k: "loop_c lower_step s1 = Some (s1\<lparr>sa_height := k\<rparr>)" "1 \<le> k" "k \<le> sa_height s1"
    "\<forall>l < max_level s1. l < k \<longleftrightarrow> nxt ?h l (xs @ ys) \<noteq> None"
    using lower_correct [of s1 ?h "xs @ ys", OF hd ne] used r1 s1(2) cfg by auto
  let ?s2 = "s1\<lparr>sa_height := k\<rparr>"
  have rel: "relinked s1 ?s2" by (simp add: relinked_def)
  have rem2: "removing sa xs b ys {l. ?b \<le> l \<or> prv ?h l xs = None} ?s2"
    by (rule removing_back [OF s1(4) rel]) simp_all
  have km: "k \<le> max_level sa" using k(3) s1(2) cfg(6) by simp
  obtain bn where bn: "heap s1 b = Some bn" using unlink_node_at [OF c removingD(1) [OF s1(4)], of b] by auto
  have bp: "back_p bn = Some (last xs)"
  proof -
    have "back_at (heap s1) b = prev_of b (xs @ b # ys)" using s1(3) sh by (simp add: shape_def)
    then show ?thesis using bn d unlink_ctxD(3) [OF c] by (simp add: at_Some chain last_opt_def)
  qed
  have "last xs \<in> set xs" using unlink_ctxD(3) [OF c] by simp
  then obtain nn where nn: "heap s1 (last xs) = Some nn" "last_key nn = Some (lastk sa (last xs))"
    using unlink_node_at [OF c removingD(1) [OF s1(4)], of "last xs"] by auto
  have inv: "unlink_inv sa xs b ys k (int k - 1, None, ?s2)"
  proof (rule unlink_invI [OF rem2])
    show "{l. ?b \<le> l \<or> prv ?h l xs = None} = {l. ?b \<le> l \<or> prv ?h l xs = None \<or> int k - 1 < int l}"
    proof -
      have "?b \<le> l \<or> prv ?h l xs = None" if "int k - 1 < int l" for l
      proof (cases "l < max_level sa")
        case True
        with that k(4) r1 have "nxt ?h l (xs @ ys) = None" by auto
        then show ?thesis by (auto simp: nxt_None prv_None)
      next
        case False
        with shape_ht(2) [OF sh, of b] show ?thesis by simp
      qed
      then show ?thesis by (intro Collect_cong) metis
    qed
  qed (use s1 k(2) in auto)
  have klt: "\<forall>l < k. nxt ?h l (xs @ ys) \<noteq> None"
  proof (intro allI impI)
    fix l assume "l < k"
    with km r1(7) have "l < max_level s1" by simp
    with k(4) \<open>l < k\<close> show "nxt ?h l (xs @ ys) \<noteq> None" by blast
  qed
  have k4: "\<forall>l < max_level sa. l < k \<longleftrightarrow> nxt ?h l (xs @ ys) \<noteq> None" using k(4) r1(7) by simp
  obtain s3 where s3: "loop_c (unlink_step b (lastk sa (last xs)) 1) (int k - 1, None, ?s2) = Some s3"
    "sa_height s3 = k" "removing sa xs b ys UNIV s3" "back_at (heap s3) = back_without (back_at ?h) xs ys"
    using unlink_walk [OF c inv km klt] by blast
  obtain sa' where sa': "free_node s3 b = Some sa'" "unlinked sa xs b ys its sa'"
    using free_unlinked [OF c s3(3,4), unfolded s3(2), OF k(2) km k4] by blast
  have "unlink_node sa b = Some sa'"
    using g0 h0 s1(1) k(1) bn bp nn s3(1) sa'(1) by (simp add: unlink_node_def)
  with sa'(2) show ?thesis by blast
qed

section \<open>Properties\<close>

text \<open>
  C28. Unlinking a node other than the first removes it from the chain of every level it is
  on, lowers the height of the skiparray past the levels left empty, repairs the back pointer
  of its successor, and gives back exactly the blocks of the node; the pairs of the other
  nodes stay as they are.
\<close>

theorem unlink_node_spec:
  assumes "unlink_ctx sa xs b ys its"
  shows "\<exists>sa'. unlink_node sa b = Some sa' \<and> unlinked sa xs b ys its sa'"
  by (rule unlink_node_correct [OF assms])

theorem unlink_node_spec_witness: "\<exists>sa'. unlink_node sample 5 = Some sa' \<and> unlinked sample [2] 5 [] [] sa'"
proof -
  have "owned sample [2, 5] []" using sample_wf by (simp add: wf_def)
  then have "unlink_ctx sample [2] 5 [] []"
    using sample_cfg(1) sample_shape
    by (simp add: unlink_ctx_def nonempty_nodes_def at_Some sample_env cmp_intptr_t_def)
  then show ?thesis by (rule unlink_node_spec)
qed

end
