(* ===== verification/Forget.thy ===== *)
theory Forget
  imports Unlink
begin

text \<open>
  Removal by key: \<^verbatim>\<open>shift_or_merge\<close> and \<^verbatim>\<open>skiparray_forget\<close> of \<open>src/skiparray.c\<close>, shown to be
  \<open>spec_del\<close> on the pairs, with every node but the last kept at least half full.
\<close>

section \<open>Definitions\<close>

definition shift_or_merge :: "skiparray \<Rightarrow> addr \<Rightarrow> skiparray option" where
  "shift_or_merge sa a = do {
     n \<leftarrow> heap sa a;
     h0 \<leftarrow> get_head sa 0;
     f0 \<leftarrow> get_fwd sa a 0;
     (if h0 = Some a \<and> f0 = None then Some sa
      else do {
        let required = node_size sa div 2;
        assert_c (count n < required);
        (case f0 of
           None \<Rightarrow> do {
             p \<leftarrow> back_p n;
             pn \<leftarrow> heap sa p;
             (if count pn + count n \<le> node_size sa then do {
                p1 \<leftarrow> shift_pairs pn 0 (offset pn) (count pn);
                let p2 = p1\<lparr>offset := 0\<rparr>;
                p3 \<leftarrow> move_pairs p2 n (count p2) (offset n) (count n);
                let sa1 = set_node sa p (p3\<lparr>count := u16 (count p3 + count n)\<rparr>);
                f \<leftarrow> get_fwd sa1 a 0;
                sa2 \<leftarrow> (case f of None \<Rightarrow> Some sa1 | Some y \<Rightarrow> set_back sa1 y (Some p));
                unlink_node sa2 a
              } else Some sa)
           }
         | Some x \<Rightarrow> do {
             xn \<leftarrow> heap sa x;
             (if count xn + count n \<le> node_size sa then do {
                n1 \<leftarrow> to_front n;
                n2 \<leftarrow> move_pairs n1 xn (count n1) (offset xn) (count xn);
                unlink_node (set_node sa a (n2\<lparr>count := u16 (count n2 + count xn)\<rparr>)) x
              } else do {
                let to_move = u16_dec (count xn) required;
                n1 \<leftarrow> to_front n;
                n2 \<leftarrow> move_pairs n1 xn (count n1) (offset xn) to_move;
                let xn' = xn\<lparr>count := u16_dec (count xn) to_move, offset := u16 (offset xn + to_move)\<rparr>;
                let n3 = n2\<lparr>count := u16 (count n2 + to_move)\<rparr>;
                assert_c (count xn' = required);
                assert_c (count n3 \<le> node_size sa);
                Some (set_node (set_node sa x xn') a n3)
              })
           })
      })
   }"

text \<open>The result, the pair written to \<^verbatim>\<open>forgotten\<close>, and the new state.\<close>

definition skiparray_forget :: "skiparray \<Rightarrow> voidp \<Rightarrow>
    (skiparray_forget_res \<times> (voidp \<times> voidp) option \<times> skiparray) option" where
  "skiparray_forget sa key =
     (if has_iterators sa then Some (SKIPARRAY_FORGET_ERROR_LOCKED, None, sa)
      else do {
        (sres, a, index) \<leftarrow> search sa key;
        (if sres \<noteq> SEARCH_FOUND then Some (SKIPARRAY_FORGET_NOT_FOUND, None, sa)
         else do {
           n \<leftarrow> heap sa a;
           assert_c (index < count n);
           forgotten \<leftarrow> pair_at sa n index;
           n' \<leftarrow> erase_in_node sa n index;
           let sa1 = set_node sa a n';
           sa2 \<leftarrow> (if count n' < node_size sa div 2 then shift_or_merge sa1 a else Some sa1);
           Some (SKIPARRAY_FORGET_OK, Some forgotten, sa2)
         })
      })"

section \<open>Under-filled nodes\<close>

text \<open>The invariant with the occupancy of the node \<open>a\<close> left open.\<close>

definition wf_but :: "skiparray \<Rightarrow> addr list \<Rightarrow> addr \<Rightarrow> addr list \<Rightarrow> bool" where
  "wf_but sa ns a its \<longleftrightarrow>
     cfg_ok sa \<and> shape sa ns \<and> ordered sa ns \<and> iters_ok sa ns its \<and> owned sa ns its \<and>
     (\<forall>c \<in> set (butlast ns). c \<noteq> a \<longrightarrow> node_size sa div 2 \<le> length (pairs_at (heap sa) c)) \<and>
     (last ns \<noteq> a \<longrightarrow> pairs_at (heap sa) (last ns) \<noteq> [])"

lemma wf_butD:
  assumes "wf_but sa ns a its"
  shows "cfg_ok sa" "shape sa ns" "ordered sa ns" "iters_ok sa ns its" "owned sa ns its"
    "\<And>c. c \<in> set (butlast ns) \<Longrightarrow> c \<noteq> a \<Longrightarrow> node_size sa div 2 \<le> length (pairs_at (heap sa) c)"
    "last ns \<noteq> a \<Longrightarrow> pairs_at (heap sa) (last ns) \<noteq> []"
  using assms by (auto simp: wf_but_def)

lemma wf_but_nonempty:
  assumes w: "wf_but sa ns a its" and c: "c \<in> set ns" "c \<noteq> a"
  shows "pairs_at (heap sa) c \<noteq> []"
proof (cases "c = last ns")
  case True
  with wf_butD(7) [OF w] c(2) show ?thesis by simp
next
  case False
  have "ns \<noteq> []" using c(1) by auto
  then have "set ns = set (butlast ns) \<union> {last ns}"
    by (metis append_butlast_last_id list.set(1) list.set(2) set_append)
  with False c(1) have "c \<in> set (butlast ns)" by auto
  with wf_butD(6) [OF w _ c(2)] cfg_okD(1) [OF wf_butD(1) [OF w]] show ?thesis by fastforce
qed

text \<open>A change of the pairs of one node.\<close>

lemma wf_but_upd:
  assumes w: "wf sa (xs @ a # ys) its" and n: "heap sa a = Some n"
    and n': "node_ok (node_size sa) (use_values sa) n'" "same_links n n'"
    and asc: "ascending (call_cmp sa) (map fst (pairs_of (heap sa) xs @ node_pairs n' @ pairs_of (heap sa) ys))"
  shows "wf_but (set_node sa a n') (xs @ a # ys) a its"
    "pairs_of (heap (set_node sa a n')) (xs @ a # ys) = pairs_of (heap sa) xs @ node_pairs n' @ pairs_of (heap sa) ys"
    "foreign (set_node sa a n') (xs @ a # ys) its = foreign sa (xs @ a # ys) its"
proof -
  have d: "distinct (xs @ a # ys)" using wfD(2) [OF w] by (simp add: shape_def)
  show p: "pairs_of (heap (set_node sa a n')) (xs @ a # ys) = pairs_of (heap sa) xs @ node_pairs n' @ pairs_of (heap sa) ys"
    using pairs_of_upd [OF d] by simp
  show "foreign (set_node sa a n') (xs @ a # ys) its = foreign sa (xs @ a # ys) its"
    using blocks_upd_pairs [OF n n'(2)] by simp
  have env: "same_env sa (set_node sa a n')" by simp
  have "cfg_ok (set_node sa a n')"
    by (rule cfg_ok_env [OF env wfD(1) [OF w]]) (use cfg_okD(5,6) [OF wfD(1) [OF w]] in auto)
  moreover have "ordered (set_node sa a n') (xs @ a # ys)" unfolding ordered_def p using asc by simp
  moreover have "iters_ok (set_node sa a n') (xs @ a # ys) its"
    by (rule iters_ok_env [OF env wfD(5) [OF w]]) simp
  moreover have "node_size sa div 2 \<le> length (pairs_at (heap (set_node sa a n')) c)"
    if "c \<in> set (butlast (xs @ a # ys))" "c \<noteq> a" for c
    using wfD(4) [OF w] that by (simp add: occupied_def chain)
  moreover have "pairs_at (heap (set_node sa a n')) (last (xs @ a # ys)) \<noteq> []" if l: "last (xs @ a # ys) \<noteq> a"
  proof -
    have "tl (xs @ a # ys) \<noteq> []" using l by (cases xs; cases ys) auto
    then show ?thesis using wfD(4) [OF w] l by (simp add: occupied_def chain)
  qed
  ultimately show "wf_but (set_node sa a n') (xs @ a # ys) a its"
    using shape_upd_pairs [OF wfD(2) [OF w] n n'] wfD(6) [OF w] owned_upd_pairs [OF n n'(2)]
    by (simp add: wf_but_def)
qed

lemma wf_but_wf:
  assumes w: "wf_but sa ns a its" and a: "a \<in> set ns" "node_size sa div 2 \<le> length (pairs_at (heap sa) a)"
  shows "wf sa ns its"
proof -
  have "pairs_at (heap sa) a \<noteq> []" using a(2) cfg_okD(1) [OF wf_butD(1) [OF w]] by fastforce
  then have "pairs_at (heap sa) (last ns) \<noteq> []" using wf_butD(7) [OF w] by (cases "last ns = a") auto
  moreover have "node_size sa div 2 \<le> length (pairs_at (heap sa) c)" if "c \<in> set (butlast ns)" for c
    using wf_butD(6) [OF w that] a(2) by (cases "c = a") auto
  ultimately show ?thesis using wf_butD(1-5) [OF w] by (simp add: wf_def occupied_def)
qed

section \<open>A node that takes over the pairs of the next\<close>

lemma absorb:
  assumes cfg: "cfg_ok sa" and sh: "shape sa (us @ p # q # zs)" and ord: "ordered sa (us @ p # q # zs)"
    and own: "owned sa (us @ p # q # zs) its"
    and pq: "heap sa p = Some pn" "heap sa q = Some qn"
    and p': "node_ok (node_size sa) (use_values sa) p'" "same_links pn p'" "node_pairs p' = node_pairs pn @ node_pairs qn"
    and ne: "\<forall>c \<in> set (us @ zs). pairs_at (heap sa) c \<noteq> []" "node_pairs p' \<noteq> []"
  shows "unlink_ctx (set_node sa p p') (us @ [p]) q zs its"
    and "unlinked (set_node sa p p') (us @ [p]) q zs its sa' \<Longrightarrow>
      same_env sa sa' \<and> cfg_ok sa' \<and> shape sa' (us @ p # zs) \<and> ordered sa' (us @ p # zs) \<and> owned sa' (us @ p # zs) its \<and>
      pairs_of (heap sa') (us @ p # zs) = pairs_of (heap sa) (us @ p # q # zs) \<and>
      (\<forall>c \<in> set (us @ zs). pairs_at (heap sa') c = pairs_at (heap sa) c) \<and> pairs_at (heap sa') p = node_pairs p' \<and>
      foreign sa' (us @ p # zs) its = foreign sa (us @ p # q # zs) its"
proof -
  let ?s = "set_node sa p p'"
  have d: "distinct (us @ p # q # zs)" using sh by (simp add: shape_def)
  have dp: "p \<notin> set us" "p \<notin> set zs" "q \<noteq> p" using d by auto
  have env: "same_env sa ?s" by simp
  have pu: "pairs_of (heap ?s) us = pairs_of (heap sa) us" "pairs_of (heap ?s) zs = pairs_of (heap sa) zs"
    using dp by (auto intro!: pairs_of_cong simp: chain)
  have keep: "pairs_of (heap ?s) (us @ p # zs) = pairs_of (heap sa) (us @ p # q # zs)"
    using pu pq p'(3) by (simp add: chain at_Some)
  have asc: "ascending (call_cmp sa) (keys_of (heap ?s) (us @ p # zs))"
    unfolding keep using ord by (simp add: ordered_def)
  have "cfg_ok ?s" by (rule cfg_ok_env [OF env cfg]) (use cfg_okD(5,6) [OF cfg] in auto)
  moreover have "nonempty_nodes ?s ((us @ [p]) @ zs)" using ne by (auto simp: nonempty_nodes_def chain)
  moreover have "shape ?s ((us @ [p]) @ q # zs)" using shape_upd_pairs [OF sh pq(1) p'(1,2)] by simp
  moreover have "owned ?s ((us @ [p]) @ q # zs) its" using owned_upd_pairs [OF pq(1) p'(2)] own by simp
  moreover have "ascending (call_cmp ?s) (keys_of (heap ?s) ((us @ [p]) @ zs))" using asc by simp
  ultimately show "unlink_ctx ?s (us @ [p]) q zs its" unfolding unlink_ctx_def by blast
  assume u: "unlinked ?s (us @ [p]) q zs its sa'"
  then have u1: "same_env sa sa'" "cfg_ok sa'" "shape sa' (us @ p # zs)" "owned sa' (us @ p # zs) its"
    "\<And>c. c \<in> set (us @ p # zs) \<Longrightarrow> pairs_at (heap sa') c = pairs_at (heap ?s) c"
    "foreign sa' (us @ p # zs) its = foreign ?s (us @ p # q # zs) its"
    using same_env_trans [OF env] by (auto simp: unlinked_def)
  have "pairs_of (heap sa') (us @ p # zs) = pairs_of (heap ?s) (us @ p # zs)" using u1(5) by (rule pairs_of_cong)
  with keep have pp: "pairs_of (heap sa') (us @ p # zs) = pairs_of (heap sa) (us @ p # q # zs)" by simp
  have "ordered sa' (us @ p # zs)" using ord pp u1(1) by (simp add: ordered_def same_env_def)
  moreover have "pairs_at (heap sa') c = pairs_at (heap sa) c" if "c \<in> set (us @ zs)" for c
    using u1(5) [of c] that dp by (auto simp: chain)
  moreover have "pairs_at (heap sa') p = node_pairs p'" using u1(5) [of p] by (simp add: chain)
  moreover have "foreign sa' (us @ p # zs) its = foreign sa (us @ p # q # zs) its"
    using u1(6) blocks_upd_pairs [OF pq(1) p'(2)] by simp
  ultimately show "same_env sa sa' \<and> cfg_ok sa' \<and> shape sa' (us @ p # zs) \<and> ordered sa' (us @ p # zs) \<and> owned sa' (us @ p # zs) its \<and>
      pairs_of (heap sa') (us @ p # zs) = pairs_of (heap sa) (us @ p # q # zs) \<and>
      (\<forall>c \<in> set (us @ zs). pairs_at (heap sa') c = pairs_at (heap sa) c) \<and> pairs_at (heap sa') p = node_pairs p' \<and>
      foreign sa' (us @ p # zs) its = foreign sa (us @ p # q # zs) its"
    using u1(1-4) pp by blast
qed

lemma absorb_wf:
  assumes w: "wf_but sa (us @ p # q # zs) a []" and a: "a = p \<or> a = q"
    and pq: "heap sa p = Some pn" "heap sa q = Some qn"
    and p': "node_ok (node_size sa) (use_values sa) p'" "same_links pn p'" "node_pairs p' = node_pairs pn @ node_pairs qn"
    and ne: "node_pairs p' \<noteq> []" "zs \<noteq> [] \<Longrightarrow> node_size sa div 2 \<le> length (node_pairs p')"
  shows "unlink_ctx (set_node sa p p') (us @ [p]) q zs []"
    and "unlinked (set_node sa p p') (us @ [p]) q zs [] sa' \<Longrightarrow>
      same_env sa sa' \<and> wf sa' (us @ p # zs) [] \<and> pairs_of (heap sa') (us @ p # zs) = pairs_of (heap sa) (us @ p # q # zs) \<and>
      foreign sa' (us @ p # zs) [] = foreign sa (us @ p # q # zs) []"
proof -
  have d: "distinct (us @ p # q # zs)" using wf_butD(2) [OF w] by (simp add: shape_def)
  have others: "\<forall>c \<in> set (us @ zs). pairs_at (heap sa) c \<noteq> []"
    using wf_but_nonempty [OF w] d a by auto
  note ab = absorb [OF wf_butD(1-3,5) [OF w] pq p' others ne(1)]
  show "unlink_ctx (set_node sa p p') (us @ [p]) q zs []" by (rule ab(1))
  assume "unlinked (set_node sa p p') (us @ [p]) q zs [] sa'"
  from ab(2) [OF this] have u: "same_env sa sa'" "cfg_ok sa'" "shape sa' (us @ p # zs)" "ordered sa' (us @ p # zs)"
    "owned sa' (us @ p # zs) []" "pairs_of (heap sa') (us @ p # zs) = pairs_of (heap sa) (us @ p # q # zs)"
    "\<And>c. c \<in> set (us @ zs) \<Longrightarrow> pairs_at (heap sa') c = pairs_at (heap sa) c" "pairs_at (heap sa') p = node_pairs p'"
    "foreign sa' (us @ p # zs) [] = foreign sa (us @ p # q # zs) []" by auto
  have ns: "node_size sa' = node_size sa" using u(1) by (simp add: same_env_def)
  have "node_size sa div 2 \<le> length (pairs_at (heap sa') c)" if c: "c \<in> set (butlast (us @ p # zs))" for c
  proof (cases "c = p")
    case True
    with c have "zs \<noteq> []" using d by (auto simp: butlast_append split: if_splits)
    with True ne(2) u(8) show ?thesis by simp
  next
    case False
    then have c1: "c \<in> set (us @ butlast zs)" using c by (auto simp: butlast_append split: if_splits)
    then have c2: "c \<in> set (us @ zs)" by (auto dest: in_set_butlastD)
    have "c \<in> set (butlast (us @ p # q # zs))" using c1 by (cases zs) (auto simp: butlast_append)
    moreover have "c \<noteq> a" using c2 d a by auto
    ultimately show ?thesis using wf_butD(6) [OF w] u(7) [OF c2] by simp
  qed
  moreover have "pairs_at (heap sa') (last (us @ p # zs)) \<noteq> []"
  proof (cases zs)
    case Nil
    with u(8) ne(1) show ?thesis by simp
  next
    case (Cons z ws)
    then have "last zs \<in> set (us @ zs)" by simp
    with others u(7) Cons show ?thesis by simp
  qed
  moreover have "iters_ok sa' (us @ p # zs) []"
    using wf_butD(4) [OF w] u(1) by (simp add: iters_ok_none same_env_def)
  ultimately show "same_env sa sa' \<and> wf sa' (us @ p # zs) [] \<and>
      pairs_of (heap sa') (us @ p # zs) = pairs_of (heap sa) (us @ p # q # zs) \<and>
      foreign sa' (us @ p # zs) [] = foreign sa (us @ p # q # zs) []"
    using u ns by (simp add: wf_def occupied_def)
qed

text \<open>The node arrays after taking over \<open>k\<close> pairs.\<close>

lemma take_over:
  assumes ok: "node_ok ns uv n" "node_ok ns uv m" and k: "k \<le> count m" "count n + k \<le> ns" and ns: "ns < 65536"
  shows "\<exists>n1 n2. to_front n = Some n1 \<and> move_pairs n1 m (count n1) (offset m) k = Some n2 \<and>
    node_ok ns uv (n2\<lparr>count := u16 (count n2 + k)\<rparr>) \<and> same_links n (n2\<lparr>count := u16 (count n2 + k)\<rparr>) \<and>
    count n2 = count n \<and> node_pairs (n2\<lparr>count := u16 (count n2 + k)\<rparr>) = node_pairs n @ take k (node_pairs m)"
proof -
  obtain n1 where n1: "to_front n = Some n1" "node_ok ns uv n1" "offset n1 = 0" "node_pairs n1 = node_pairs n"
    "count n1 = count n" "same_links n n1" using to_front_correct [OF ok(1)] by blast
  have "count n1 + k \<le> ns" using n1(5) k(2) by simp
  from move_pairs_append [OF n1(2) ok(2) n1(3) k(1) this] obtain n2 where n2:
    "move_pairs n1 m (count n1) (offset m) k = Some n2" "count n2 = count n1" "same_links n1 n2"
    "node_ok ns uv (n2\<lparr>count := count n1 + k\<rparr>)"
    "node_pairs (n2\<lparr>count := count n1 + k\<rparr>) = node_pairs n1 @ take k (node_pairs m)" by blast
  have "u16 (count n2 + k) = count n1 + k" using n2(2) n1(5) k(2) ns by simp
  with n1 n2 show ?thesis using same_links_trans [OF n1(6) n2(3)] by (simp add: same_links_def)
qed

text \<open>Dropping the first \<open>k\<close> pairs of a node.\<close>

lemma drop_pairs:
  assumes ok: "node_ok ns uv n" and k: "k < count n" and ns: "ns < 65536"
  shows "node_ok ns uv (n\<lparr>count := u16_dec (count n) k, offset := u16 (offset n + k)\<rparr>)"
    "same_links n (n\<lparr>count := u16_dec (count n) k, offset := u16 (offset n + k)\<rparr>)"
    "node_pairs (n\<lparr>count := u16_dec (count n) k, offset := u16 (offset n + k)\<rparr>) = drop k (node_pairs n)"
    "count (n\<lparr>count := u16_dec (count n) k, offset := u16 (offset n + k)\<rparr>) = count n - k"
proof -
  have b: "offset n + count n \<le> ns" "count n < 65536" using node_okD [OF ok] ns by auto
  then have e: "n\<lparr>count := u16_dec (count n) k, offset := u16 (offset n + k)\<rparr> =
      n\<lparr>offset := offset n + k, count := count n - k\<rparr>" using k ns by simp
  show "node_ok ns uv (n\<lparr>count := u16_dec (count n) k, offset := u16 (offset n + k)\<rparr>)"
    using ok k b unfolding e by (auto simp: node_ok_def)
  show "same_links n (n\<lparr>count := u16_dec (count n) k, offset := u16 (offset n + k)\<rparr>)"
    unfolding e by (simp add: same_links_def)
  show "node_pairs (n\<lparr>count := u16_dec (count n) k, offset := u16 (offset n + k)\<rparr>) = drop k (node_pairs n)"
    unfolding e using k by (intro node_pairs_suffix) simp
  show "count (n\<lparr>count := u16_dec (count n) k, offset := u16 (offset n + k)\<rparr>) = count n - k" unfolding e by simp
qed

text \<open>Moving some pairs from a node to the one before it.\<close>

lemma rebalance_wf:
  assumes w: "wf_but sa (us @ p # q # zs) p its"
    and pq: "heap sa p = Some pn" "heap sa q = Some qn"
    and p': "node_ok (node_size sa) (use_values sa) p'" "same_links pn p'" "node_pairs p' = node_pairs pn @ take k (node_pairs qn)"
    and q': "node_ok (node_size sa) (use_values sa) q'" "same_links qn q'" "node_pairs q' = drop k (node_pairs qn)"
    and half: "node_size sa div 2 \<le> length (node_pairs p')" "node_size sa div 2 \<le> length (node_pairs q')"
  defines "sa' \<equiv> set_node (set_node sa q q') p p'"
  shows "wf sa' (us @ p # q # zs) its" "pairs_of (heap sa') (us @ p # q # zs) = pairs_of (heap sa) (us @ p # q # zs)"
    "foreign sa' (us @ p # q # zs) its = foreign sa (us @ p # q # zs) its"
proof -
  let ?ns = "us @ p # q # zs" and ?s = "set_node sa q q'"
  have d: "distinct ?ns" using wf_butD(2) [OF w] by (simp add: shape_def)
  have dp: "p \<noteq> q" using d by auto
  have pn: "heap ?s p = Some pn" using pq(1) dp by simp
  have env: "same_env sa sa'" by (simp add: sa'_def)
  have e: "pairs_of (heap sa') us = pairs_of (heap sa) us" "pairs_of (heap sa') zs = pairs_of (heap sa) zs"
    using d by (auto simp: sa'_def chain intro!: pairs_of_cong)
  show pp: "pairs_of (heap sa') ?ns = pairs_of (heap sa) ?ns"
    using e pq p'(3) q'(3) dp by (simp add: sa'_def chain at_Some)
  have sh1: "shape ?s ?ns" by (rule shape_upd_pairs [OF wf_butD(2) [OF w] pq(2) q'(1,2)])
  have sh: "shape sa' ?ns" unfolding sa'_def by (rule shape_upd_pairs [OF sh1 pn _ p'(2)]) (use p'(1) in simp)
  have bl: "blocks sa' ?ns its = blocks sa ?ns its"
    using blocks_upd_pairs [OF pn p'(2)] blocks_upd_pairs [OF pq(2) q'(2)] by (simp add: sa'_def)
  show "foreign sa' ?ns its = foreign sa ?ns its" using bl by (simp add: sa'_def)
  have own: "owned sa' ?ns its" using bl wf_butD(5) [OF w] by (simp add: owned_def sa'_def)
  have ord: "ordered sa' ?ns" using wf_butD(3) [OF w] pp by (simp add: ordered_def sa'_def)
  have cfg: "cfg_ok sa'"
    by (rule cfg_ok_env [OF env wf_butD(1) [OF w]]) (use cfg_okD(5,6) [OF wf_butD(1) [OF w]] in \<open>auto simp: sa'_def\<close>)
  have it: "iters_ok sa' ?ns its" by (rule iters_ok_env [OF env wf_butD(4) [OF w]]) simp
  have at: "pairs_at (heap sa') c = (if c = p then node_pairs p' else if c = q then node_pairs q' else pairs_at (heap sa) c)" for c
    using dp by (simp add: sa'_def chain)
  have ns: "node_size sa' = node_size sa" by (simp add: sa'_def)
  have "1 \<le> node_size sa div 2" using cfg_okD(1) [OF wf_butD(1) [OF w]] by simp
  then have ne: "node_pairs q' \<noteq> []" "node_pairs p' \<noteq> []" using half by auto
  have "pairs_at (heap sa') (last ?ns) \<noteq> []"
  proof (cases "last ?ns = p")
    case False
    with wf_butD(7) [OF w] ne at [of "last ?ns"] show ?thesis by (cases "last ?ns = q") simp_all
  qed (use ne at in simp)
  moreover have "node_size sa' div 2 \<le> length (pairs_at (heap sa') c)" if "c \<in> set (butlast ?ns)" for c
    using wf_butD(6) [OF w that] half ns at by simp
  ultimately have "occupied sa' ?ns" unfolding occupied_def by blast
  with cfg sh ord it own show "wf sa' ?ns its" by (simp add: wf_def)
qed

section \<open>Correctness\<close>

text \<open>The state after a repair: the same pairs in a proper skiparray.\<close>

definition repaired :: "skiparray \<Rightarrow> addr list \<Rightarrow> skiparray \<Rightarrow> bool" where
  "repaired sa ns sa' \<longleftrightarrow> same_env sa sa' \<and> represents sa' (pairs_of (heap sa) ns) [] (foreign sa ns [])"

lemma repairedI:
  "same_env sa sa' \<Longrightarrow> wf sa' ns' [] \<Longrightarrow> pairs_of (heap sa') ns' = pairs_of (heap sa) ns \<Longrightarrow>
   foreign sa' ns' [] = foreign sa ns [] \<Longrightarrow> repaired sa ns sa'"
  unfolding repaired_def represents_def by metis

lemma repair_with_next:
  assumes w: "wf_but sa (xs @ a # x # zs) a []" and n: "heap sa a = Some n" "count n < node_size sa div 2"
    and g: "get_head sa 0 = Some h0" "get_fwd sa a 0 = Some (Some x)"
  shows "\<exists>sa'. shift_or_merge sa a = Some sa' \<and> repaired sa (xs @ a # x # zs) sa'"
proof -
  note sh = wf_butD(2) [OF w] and cfg = cfg_okD [OF wf_butD(1) [OF w]]
  have d: "distinct (xs @ a # x # zs)" using sh by (simp add: shape_def)
  have ok: "node_ok (node_size sa) (use_values sa) n" using shape_node [OF sh, of a] n(1) by auto
  obtain xn where xn: "heap sa x = Some xn" "node_ok (node_size sa) (use_values sa) xn"
    using shape_node [OF sh, of x] by auto
  have xne: "pairs_at (heap sa) x \<noteq> []" by (rule wf_but_nonempty [OF w]) (use d in auto)
  then have xpos: "0 < count xn" using xn pairs_at_ok(1) [OF xn] by (metis length_greater_0_conv)
  have lp: "length (node_pairs n) = count n" "length (node_pairs xn) = count xn" using ok xn by auto
  show ?thesis
  proof (cases "count xn + count n \<le> node_size sa")
    case True
    have fits: "count n + count xn \<le> node_size sa" using True by simp
    obtain n1 n2 where t: "to_front n = Some n1" "move_pairs n1 xn (count n1) (offset xn) (count xn) = Some n2"
      "node_ok (node_size sa) (use_values sa) (n2\<lparr>count := u16 (count n2 + count xn)\<rparr>)"
      "same_links n (n2\<lparr>count := u16 (count n2 + count xn)\<rparr>)"
      "node_pairs (n2\<lparr>count := u16 (count n2 + count xn)\<rparr>) = node_pairs n @ take (count xn) (node_pairs xn)"
      using take_over [OF ok xn(2) order_refl fits cfg(2)] by blast
    let ?n = "n2\<lparr>count := u16 (count n2 + count xn)\<rparr>"
    have pairs: "node_pairs ?n = node_pairs n @ node_pairs xn" using t(5) lp(2) by simp
    have ne: "node_pairs ?n \<noteq> []" unfolding pairs using xpos lp by auto
    have half: "node_size sa div 2 \<le> length (node_pairs ?n)" if "zs \<noteq> []"
    proof -
      have "x \<in> set (butlast (xs @ a # x # zs))" "x \<noteq> a" using that d by (auto simp: butlast_append)
      from wf_butD(6) [OF w this] show ?thesis unfolding pairs using pairs_at_ok(1) [OF xn] lp by simp
    qed
    note ab = absorb_wf [OF w _ n(1) xn(1) t(3,4) pairs ne half, simplified]
    obtain sa' where u: "unlink_node (set_node sa a ?n) x = Some sa'" "unlinked (set_node sa a ?n) (xs @ [a]) x zs [] sa'"
      using unlink_node_correct [OF ab(1)] by blast
    have "shift_or_merge sa a = Some sa'"
      using n g xn(1) True t(1,2) u(1) by (simp add: shift_or_merge_def)
    moreover have "repaired sa (xs @ a # x # zs) sa'" using ab(2) [OF u(2)] by (intro repairedI) auto
    ultimately show ?thesis by blast
  next
    case False
    let ?h = "node_size sa div 2" and ?k = "count xn - node_size sa div 2"
    have b: "?h < count xn" "count xn \<le> node_size sa" "1 \<le> ?h" using False n(2) node_okD(4) [OF xn(2)] cfg(1) by auto
    have k: "?k < count xn" "?k \<le> count xn" "count n + ?k \<le> node_size sa" "u16_dec (count xn) ?h = ?k"
      using b n(2) cfg(2) by auto
    obtain n1 n2 where t: "to_front n = Some n1" "move_pairs n1 xn (count n1) (offset xn) ?k = Some n2"
      "node_ok (node_size sa) (use_values sa) (n2\<lparr>count := u16 (count n2 + ?k)\<rparr>)"
      "same_links n (n2\<lparr>count := u16 (count n2 + ?k)\<rparr>)" "count n2 = count n"
      "node_pairs (n2\<lparr>count := u16 (count n2 + ?k)\<rparr>) = node_pairs n @ take ?k (node_pairs xn)"
      using take_over [OF ok xn(2) k(2,3) cfg(2)] by blast
    let ?n = "n2\<lparr>count := u16 (count n2 + ?k)\<rparr>"
    let ?x = "xn\<lparr>count := u16_dec (count xn) ?k, offset := u16 (offset xn + ?k)\<rparr>"
    note dx = drop_pairs [OF xn(2) k(1) cfg(2)]
    have cx: "u16_dec (count xn) ?k = ?h" using k b cfg(2) by simp
    have cn: "u16 (count n2 + ?k) = count n + ?k" using t(5) k(3) cfg(2) by simp
    have half: "?h \<le> length (node_pairs ?n)" "?h \<le> length (node_pairs ?x)"
      using False lp b unfolding t(6) dx(3) by auto
    note rw = rebalance_wf [OF w n(1) xn(1) t(3,4,6) dx(1-3) half]
    have "shift_or_merge sa a = Some (set_node (set_node sa x ?x) a ?n)"
      using n g xn(1) False t(1,2) k(3,4) cx cn by (simp add: shift_or_merge_def Let_def)
    moreover have "repaired sa (xs @ a # x # zs) (set_node (set_node sa x ?x) a ?n)"
      by (rule repairedI [OF _ rw]) simp
    ultimately show ?thesis by blast
  qed
qed

lemma repair_last:
  assumes w: "wf_but sa (us @ [p, a]) a []" and n: "heap sa a = Some n" "count n < node_size sa div 2"
    and g: "get_head sa 0 = Some h0" "h0 \<noteq> Some a" "get_fwd sa a 0 = Some None"
  shows "\<exists>sa'. shift_or_merge sa a = Some sa' \<and> repaired sa (us @ [p, a]) sa'"
proof -
  note sh = wf_butD(2) [OF w] and cfg = cfg_okD [OF wf_butD(1) [OF w]]
  have d: "distinct (us @ [p, a])" using sh by (simp add: shape_def)
  have ok: "node_ok (node_size sa) (use_values sa) n" using shape_node [OF sh, of a] n(1) by auto
  obtain pn where pn: "heap sa p = Some pn" "node_ok (node_size sa) (use_values sa) pn"
    using shape_node [OF sh, of p] by auto
  have bk: "back_p n = Some p"
  proof -
    have "back_at (heap sa) a = prev_of a ((us @ [p]) @ a # [])" using sh by (simp add: shape_def)
    moreover have "prev_of a ((us @ [p]) @ a # []) = Some p" using d by (subst prev_of_split) auto
    ultimately show ?thesis using n(1) by (simp add: at_Some)
  qed
  have "p \<in> set (butlast (us @ [p, a]))" "p \<noteq> a" using d by (auto simp: butlast_append)
  from wf_butD(6) [OF w this] have ph: "node_size sa div 2 \<le> count pn" using pairs_at_ok(1) [OF pn] by simp
  have lp: "length (node_pairs n) = count n" "length (node_pairs pn) = count pn" using ok pn by auto
  show ?thesis
  proof (cases "count pn + count n \<le> node_size sa")
    case True
    obtain n1 n2 where t: "to_front pn = Some n1" "move_pairs n1 n (count n1) (offset n) (count n) = Some n2"
      "node_ok (node_size sa) (use_values sa) (n2\<lparr>count := u16 (count n2 + count n)\<rparr>)"
      "same_links pn (n2\<lparr>count := u16 (count n2 + count n)\<rparr>)"
      "node_pairs (n2\<lparr>count := u16 (count n2 + count n)\<rparr>) = node_pairs pn @ take (count n) (node_pairs n)"
      using take_over [OF pn(2) ok order_refl True cfg(2)] by blast
    obtain p1 where p1: "shift_pairs pn 0 (offset pn) (count pn) = Some p1" "p1\<lparr>offset := 0\<rparr> = n1"
    proof (cases "0 < offset pn")
      case True
      with t(1) that show ?thesis by (auto simp: to_front_def bind_eq_Some_conv)
    next
      case False
      then have o: "offset pn = 0" by simp
      have "shift_pairs pn 0 0 (count pn) = Some (rearranged pn (\<lambda>xs. moved xs 0 0 (count pn)) (offset pn))"
        by (rule shift_pairs_Some [OF pn(2)]) (use node_okD(4) [OF pn(2)] in auto)
      moreover have "rearranged pn (\<lambda>xs. moved xs 0 0 (count pn)) (offset pn) = pn"
        by (simp add: rearranged_def moved_def option.map_ident)
      moreover have "n1 = pn" using t(1) False by (simp add: to_front_def)
      moreover have "pn\<lparr>offset := 0\<rparr> = pn" using o by (cases pn) simp
      ultimately show ?thesis using that o by simp
    qed
    let ?p = "n2\<lparr>count := u16 (count n2 + count n)\<rparr>"
    have pairs: "node_pairs ?p = node_pairs pn @ node_pairs n" using t(5) lp(1) by simp
    have ne: "node_pairs ?p \<noteq> []" unfolding pairs using ph cfg(1) lp by auto
    have w': "wf_but sa (us @ p # a # []) a []" using w by simp
    note ab = absorb_wf [OF w' _ pn(1) n(1) t(3,4) pairs ne, simplified]
    obtain sa' where u: "unlink_node (set_node sa p ?p) a = Some sa'" "unlinked (set_node sa p ?p) (us @ [p]) a [] [] sa'"
      using unlink_node_correct [OF ab(1)] by blast
    have f: "get_fwd (set_node sa p ?p) a 0 = Some None" using g(3) d by (simp add: get_fwd_def)
    have "shift_or_merge sa a = Some sa'"
      using n g bk pn(1) True p1(1) t(2) u(1) f unfolding p1(2) [symmetric] by (simp add: shift_or_merge_def)
    moreover have "repaired sa (us @ [p, a]) sa'" using ab(2) [OF u(2)] by (intro repairedI) auto
    ultimately show ?thesis by blast
  next
    case False
    then have pos: "0 < count n" using node_okD(4) [OF pn(2)] by simp
    then have "pairs_at (heap sa) a \<noteq> []" using lp n(1) by (auto simp: at_Some)
    then have "occupied sa (us @ [p, a])"
      using wf_butD(6) [OF w] d unfolding occupied_def by (auto simp: butlast_append)
    then have "wf sa (us @ [p, a]) []" using wf_butD(1-5) [OF w] by (simp add: wf_def)
    then have "repaired sa (us @ [p, a]) sa" by (intro repairedI) auto
    moreover have "shift_or_merge sa a = Some sa"
      using n g bk pn(1) False by (simp add: shift_or_merge_def)
    ultimately show ?thesis by blast
  qed
qed

lemma shift_or_merge_correct:
  assumes w: "wf_but sa (xs @ a # ys) a []" and n: "heap sa a = Some n" "count n < node_size sa div 2"
  shows "\<exists>sa'. shift_or_merge sa a = Some sa' \<and> repaired sa (xs @ a # ys) sa'"
proof -
  note sh = wf_butD(2) [OF w] and cfg = cfg_okD [OF wf_butD(1) [OF w]]
  have d: "distinct (xs @ a # ys)" using sh by (simp add: shape_def)
  have h: "get_head sa 0 = Some (Some (hd (xs @ a # ys)))"
    using shape_head0 [OF sh cfg(3)] cfg(3,7) by (simp add: get_head_def)
  have f: "get_fwd sa a 0 = Some (case ys of [] \<Rightarrow> None | y # _ \<Rightarrow> Some y)"
    using get_fwd_shape [OF sh, of a 0] shape_ht(1) [OF sh, of a] nxt0 [OF sh, of ys] d by (auto simp: chain)
  show ?thesis
  proof (cases ys)
    case (Cons x zs)
    then show ?thesis using repair_with_next [of sa xs a x zs n] w n h f by simp
  next
    case Nil
    show ?thesis
    proof (cases "xs = []")
      case True
      have "wf sa [a] []" using w True Nil by (simp add: wf_but_def wf_def occupied_def)
      then have "repaired sa [a] sa" by (intro repairedI) auto
      moreover have "shift_or_merge sa a = Some sa" using n h f True Nil by (simp add: shift_or_merge_def)
      ultimately show ?thesis using True Nil by auto
    next
      case False
      define us p where "us = butlast xs" "p = last xs"
      have xs: "xs = us @ [p]" using False by (simp add: us_p_def)
      have "hd (xs @ [a]) \<noteq> a" using False d by (cases xs) auto
      then show ?thesis using repair_last [of sa us p a n] w n h f xs Nil by auto
    qed
  qed
qed

text \<open>Removing the pair number \<open>i\<close> of a node and repairing the node.\<close>

lemma erase_spec:
  assumes w: "wf sa (xs @ a # ys) its" and n: "heap sa a = Some n" "i < count n"
  shows "\<exists>n'. erase_in_node sa n i = Some n' \<and> count n' = count n - 1 \<and>
    wf_but (set_node sa a n') (xs @ a # ys) a its \<and>
    pairs_of (heap (set_node sa a n')) (xs @ a # ys) =
      (pairs_of (heap sa) xs @ take i (node_pairs n)) @ (drop (i + 1) (node_pairs n) @ pairs_of (heap sa) ys) \<and>
    foreign (set_node sa a n') (xs @ a # ys) its = foreign sa (xs @ a # ys) its \<and> length (node_pairs n') = count n'"
proof -
  note c = cfg_okD(8) [OF wfD(1) [OF w]]
  have ok: "node_ok (node_size sa) (use_values sa) n" using shape_node [OF wfD(2) [OF w], of a] n(1) by auto
  obtain n' where n': "erase_in_node sa n i = Some n'" "node_ok (node_size sa) (use_values sa) n'"
    "node_pairs n' = take i (node_pairs n) @ drop (i + 1) (node_pairs n)" "count n' = count n - 1" "same_links n n'"
    using erase_in_node_correct [OF ok cfg_okD(2,1) [OF wfD(1) [OF w]] n(2)] by blast
  have i: "i < length (node_pairs n)" using ok n(2) by simp
  let ?P = "pairs_of (heap sa) xs @ take i (node_pairs n)" and ?Q = "drop (i + 1) (node_pairs n) @ pairs_of (heap sa) ys"
  have pq: "pairs_of (heap sa) (xs @ a # ys) = ?P @ [node_pairs n ! i] @ ?Q"
  proof -
    note glue = take_nth_drop_glue [OF i, of "pairs_of (heap sa) ys"]
    have "pairs_of (heap sa) (xs @ a # ys) = pairs_of (heap sa) xs @ (node_pairs n @ pairs_of (heap sa) ys)"
      using n(1) by (simp add: at_Some)
    then show ?thesis unfolding glue [symmetric] by simp
  qed
  have "ascending (call_cmp sa) (map fst ?P @ map fst [node_pairs n ! i] @ map fst ?Q)"
    using wfD(3) [OF w] unfolding ordered_def pq by (simp only: map_append)
  then have "ascending (call_cmp sa) (map fst ?P @ map fst ?Q)" by (rule comparator.ascending_remove [OF c])
  then have asc: "ascending (call_cmp sa) (map fst (pairs_of (heap sa) xs @ node_pairs n' @ pairs_of (heap sa) ys))"
    by (simp add: n'(3))
  note u = wf_but_upd [OF w n(1) n'(2,5) asc]
  have "length (node_pairs n') = count n'" using n'(2) by simp
  with u n'(1,3,4) show ?thesis by simp
qed

lemma forget_correct:
  assumes r: "represents sa ps [] F"
  shows "\<exists>sa'. skiparray_forget sa key =
      Some (if spec_get (call_cmp sa) key ps = None then SKIPARRAY_FORGET_NOT_FOUND else SKIPARRAY_FORGET_OK,
        spec_get (call_cmp sa) key ps, sa') \<and>
    same_env sa sa' \<and> represents sa' (spec_del (call_cmp sa) key ps) [] F"
proof -
  obtain ns where w: "wf sa ns []" and ps: "pairs_of (heap sa) ns = ps" "F = foreign sa ns []"
    using r by (rule representsE)
  note c = represents_ascending(2) [OF r]
  have it: "\<not> has_iterators sa" using iters_ok_locked [OF wfD(5) [OF w]] by simp
  obtain fd a i where s: "search sa key = Some (if fd then SEARCH_FOUND else SEARCH_NOT_FOUND, a, i)"
    and pos: "position sa ns key fd a i" using search_correct [OF w] by blast
  from w pos obtain xs ys n where x: "ns = xs @ a # ys" "heap sa a = Some n" "node_ok (node_size sa) (use_values sa) n"
    "i \<le> count n" "below (call_cmp sa) key (map fst (pairs_of (heap sa) xs @ take i (node_pairs n)))"
    "fd \<Longrightarrow> i < count n \<and> call_cmp sa key (fst (node_pairs n ! i)) = 0 \<and>
       above (call_cmp sa) key (map fst (drop (i + 1) (node_pairs n) @ pairs_of (heap sa) ys))"
    "\<not> fd \<Longrightarrow> above (call_cmp sa) key (map fst (drop i (node_pairs n) @ pairs_of (heap sa) ys))"
    by (rule position_pairs) blast
  show ?thesis
  proof (cases fd)
    case False
    have pq: "ps = (pairs_of (heap sa) xs @ take i (node_pairs n)) @ (drop i (node_pairs n) @ pairs_of (heap sa) ys)"
      using ps(1) x(1,2) by (auto simp: at_Some take_drop_glue)
    have "spec_get (call_cmp sa) key ps = None" "spec_del (call_cmp sa) key ps = ps"
      unfolding pq by (rule comparator.spec_get_absent [OF c x(5) x(7) [OF False]])
        (rule comparator.spec_del_absent [OF c x(5) x(7) [OF False]])
    then show ?thesis using it s False r by (simp add: skiparray_forget_def)
  next
    case True
    then have i: "i < count n" "call_cmp sa key (fst (node_pairs n ! i)) = 0"
      "above (call_cmp sa) key (map fst (drop (i + 1) (node_pairs n) @ pairs_of (heap sa) ys))" using x(6) by auto
    let ?p = "node_pairs n ! i"
    let ?P = "pairs_of (heap sa) xs @ take i (node_pairs n)" and ?Q = "drop (i + 1) (node_pairs n) @ pairs_of (heap sa) ys"
    have w': "wf sa (xs @ a # ys) []" using w x(1) by simp
    have "i < length (node_pairs n)" using x(3) i(1) by simp
    note glue = take_nth_drop_glue [OF this, of "pairs_of (heap sa) ys"]
    have "ps = pairs_of (heap sa) xs @ (node_pairs n @ pairs_of (heap sa) ys)" using ps(1) x(1,2) by (simp add: at_Some)
    then have pq: "ps = ?P @ (fst ?p, snd ?p) # ?Q" unfolding glue [symmetric] by simp
    have g: "spec_get (call_cmp sa) key ps = Some ?p" "spec_del (call_cmp sa) key ps = ?P @ ?Q"
      unfolding pq comparator.spec_get_found [OF c x(5) i(2)] comparator.spec_del_found [OF c x(5) i(2,3)] by simp_all
    obtain n' where n': "erase_in_node sa n i = Some n'" "count n' = count n - 1"
      "wf_but (set_node sa a n') (xs @ a # ys) a []"
      "pairs_of (heap (set_node sa a n')) (xs @ a # ys) = ?P @ ?Q"
      "foreign (set_node sa a n') (xs @ a # ys) [] = F" "length (node_pairs n') = count n'"
      using erase_spec [OF w' x(2) i(1)] ps(2) x(1) by auto
    let ?s = "set_node sa a n'"
    have "\<exists>sa2. (if count n' < node_size sa div 2 then shift_or_merge ?s a else Some ?s) = Some sa2 \<and>
        same_env sa sa2 \<and> represents sa2 (?P @ ?Q) [] F"
    proof (cases "count n' < node_size sa div 2")
      case True
      then obtain sa2 where "shift_or_merge ?s a = Some sa2" "repaired ?s (xs @ a # ys) sa2"
        using shift_or_merge_correct [OF n'(3), of n'] by auto
      then show ?thesis using True n'(4,5) same_env_trans [of sa ?s sa2] by (auto simp: repaired_def)
    next
      case False
      then have "node_size ?s div 2 \<le> length (pairs_at (heap ?s) a)" using n'(6) by (simp add: chain)
      then have "wf ?s (xs @ a # ys) []" by (intro wf_but_wf [OF n'(3)]) auto
      then have "represents ?s (?P @ ?Q) [] F" unfolding represents_def using n'(4,5) by metis
      with False show ?thesis by simp
    qed
    then obtain sa2 where sa2: "(if count n' < node_size sa div 2 then shift_or_merge ?s a else Some ?s) = Some sa2"
      "same_env sa sa2" "represents sa2 (?P @ ?Q) [] F" by blast
    have "skiparray_forget sa key = Some (SKIPARRAY_FORGET_OK, Some ?p, sa2)"
      using it s True x(2) i(1) pair_at_correct [OF x(3) i(1)] n'(1) sa2(1)
      by (simp add: skiparray_forget_def Let_def)
    with sa2 g show ?thesis by simp
  qed
qed

lemma forget_locked: "its \<noteq> [] \<Longrightarrow> represents sa ps its F \<Longrightarrow>
    skiparray_forget sa key = Some (SKIPARRAY_FORGET_ERROR_LOCKED, None, sa)"
  using iters_ok_locked wfD(5) by (fastforce simp: represents_def skiparray_forget_def)

lemma sample_low_wf_but: "wf_but sample_low ([] @ 2 # [5]) 2 []"
proof -
  have "cfg_ok sample_low" using sample_cfg(1) by (simp add: cfg_ok_def sample_low_def)
  moreover have "pairs_of (heap sample_low) [2, 5] = [(1, 10), (3, 30), (5, 50)]"
    by (simp add: at_Some sample_low_at sample_low_pairs [simplified])
  then have "ordered sample_low [2, 5]" by (simp add: ordered_def sample_low_at cmp_intptr_t_def)
  moreover have "iters_ok sample_low [2, 5] []" using sample_wf by (simp add: wf_def iters_ok_def sample_low_def)
  moreover have "blocks sample_low [2, 5] [] = blocks sample [2, 5] []"
    by (simp add: blocks_def at_Some sample_low_at sample_env) (simp add: sample_low_def)
  then have "owned sample_low [2, 5] []" using sample_wf by (simp add: wf_def owned_def sample_low_def)
  ultimately show ?thesis
    using sample_low_shape by (simp add: wf_but_def at_Some sample_low_at)
qed

section \<open>Properties\<close>

text \<open>
  C2. Forgetting a key of an unlocked skiparray always returns, with the binding the key had,
  if any; the pairs are then those without it, in the same order, and the invariant holds
  again: nodes that became less than half full have been refilled from a neighbour or merged
  into it, the memory of merged nodes given back, and every level is linked.
\<close>

theorem forget_spec:
  assumes "represents sa ps [] F"
  shows "\<exists>sa'. skiparray_forget sa key =
      Some (if spec_get (call_cmp sa) key ps = None then SKIPARRAY_FORGET_NOT_FOUND else SKIPARRAY_FORGET_OK,
        spec_get (call_cmp sa) key ps, sa') \<and>
    same_env sa sa' \<and> represents sa' (spec_del (call_cmp sa) key ps) [] F"
  by (rule forget_correct [OF assms])

theorem forget_spec_witness:
  "\<exists>sa'. skiparray_forget sample 3 =
      Some (if spec_get (call_cmp sample) 3 sample_pairs = None then SKIPARRAY_FORGET_NOT_FOUND else SKIPARRAY_FORGET_OK,
        spec_get (call_cmp sample) 3 sample_pairs, sa') \<and>
    same_env sample sa' \<and> represents sa' (spec_del (call_cmp sample) 3 sample_pairs) [] {99}"
  by (rule forget_spec [OF sample_represents])

text \<open>
  C29. Repairing a node that is less than half full: pairs are shifted into it from its
  neighbour, or the two are merged and one unlinked, so that the invariant with its occupancy
  condition holds again, the pairs and their order unchanged.
\<close>

theorem shift_or_merge_spec:
  assumes "wf_but sa (xs @ a # ys) a []" "heap sa a = Some n" "count n < node_size sa div 2"
  shows "\<exists>sa'. shift_or_merge sa a = Some sa' \<and> same_env sa sa' \<and>
    represents sa' (pairs_of (heap sa) (xs @ a # ys)) [] (foreign sa (xs @ a # ys) [])"
  using shift_or_merge_correct [OF assms] by (simp add: repaired_def)

theorem shift_or_merge_spec_witness:
  "\<exists>sa'. shift_or_merge sample_low 2 = Some sa' \<and> same_env sample_low sa' \<and>
    represents sa' (pairs_of (heap sample_low) ([] @ 2 # [5])) [] (foreign sample_low ([] @ 2 # [5]) [])"
  by (rule shift_or_merge_spec [of _ _ _ _ "node_a\<lparr>count := 1\<rparr>"])
     (use sample_low_wf_but in \<open>simp_all add: sample_low_def sample_env\<close>)

end
