(* ===== verification/Pop.thy ===== *)
theory Pop
  imports Forget
begin

text \<open>
  Removal at the ends: \<^verbatim>\<open>skiparray_pop_first\<close> and \<^verbatim>\<open>skiparray_pop_last\<close> of
  \<open>src/skiparray.c\<close>, shown to remove the first and the last pair.
\<close>

section \<open>Definitions\<close>

text \<open>One level of the loop that takes \<^verbatim>\<open>next\<close> (\<open>x\<close>) out of the chains behind the first node \<open>a\<close>.\<close>

definition bypass_step :: "addr \<Rightarrow> addr \<Rightarrow> nat \<times> skiparray \<Rightarrow> (nat \<times> skiparray + skiparray) option" where
  "bypass_step a x = (\<lambda>(i, sa). do {
     xn \<leftarrow> heap sa x;
     (if i < height xn then do {
        n \<leftarrow> heap sa a;
        f \<leftarrow> get_fwd sa x i;
        sa' \<leftarrow> (if i < height n then set_fwd sa a i f
                 else do { h \<leftarrow> get_head sa i; assert_c (h = Some x); set_head sa i f });
        Some (Inl (i + 1, sa'))
      } else Some (Inr sa))
   })"

text \<open>The whole removal of the second node in \<^verbatim>\<open>skiparray_pop_first\<close>.\<close>

definition bypass :: "addr \<Rightarrow> addr \<Rightarrow> skiparray \<Rightarrow> skiparray option" where
  "bypass a x sa = do {
     sa3 \<leftarrow> loop_c (bypass_step a x) (0, sa);
     fx \<leftarrow> get_fwd sa3 x 0;
     sa4 \<leftarrow> (case fx of None \<Rightarrow> Some sa3 | Some y \<Rightarrow> set_back sa3 y (Some a));
     sa5 \<leftarrow> free_node sa4 x;
     loop_c lower_step sa5
   }"

text \<open>
  After the pair is gone: when the first node \<open>a\<close> is less than half full and not the only one,
  pairs are taken from the next node, or the two are combined.
\<close>

definition refill_first :: "skiparray \<Rightarrow> addr \<Rightarrow> skiparray option" where
  "refill_first sa a = do {
     n \<leftarrow> heap sa a;
     f \<leftarrow> get_fwd sa a 0;
     let required = node_size sa div 2;
     (case f of
        None \<Rightarrow> Some sa
      | Some x \<Rightarrow>
          (if count n < node_size sa div 2 then do {
             xn \<leftarrow> heap sa x;
             (if count n + count xn \<le> node_size sa then do {
                let to_move = count xn;
                n1 \<leftarrow> to_front n;
                n2 \<leftarrow> move_pairs n1 xn (count n1) (offset xn) to_move;
                bypass a x (set_node sa a (n2\<lparr>count := u16 (count n2 + to_move)\<rparr>))
              } else do {
                let to_move = u16_dec (count xn) required;
                n1 \<leftarrow> to_front n;
                n2 \<leftarrow> move_pairs n1 xn (count n1) (offset xn) to_move;
                let xn' = xn\<lparr>count := u16_dec (count xn) to_move, offset := u16 (offset xn + to_move)\<rparr>;
                Some (set_node (set_node sa x xn') a (n2\<lparr>count := u16 (count n2 + to_move)\<rparr>))
              })
           } else Some sa))
   }"

definition skiparray_pop_first :: "skiparray \<Rightarrow>
    (skiparray_pop_res \<times> (voidp \<times> voidp option) option \<times> skiparray) option" where
  "skiparray_pop_first sa = do {
     h \<leftarrow> get_head sa 0;
     a \<leftarrow> h;
     n \<leftarrow> heap sa a;
     (if has_iterators sa then Some (SKIPARRAY_POP_ERROR_LOCKED, None, sa)
      else if count n = 0 then do {
        f \<leftarrow> get_fwd sa a 0;
        assert_c (f = None);
        Some (SKIPARRAY_POP_EMPTY, None, sa)
      } else do {
        kv \<leftarrow> out_pair sa n (offset n);
        sa' \<leftarrow> refill_first (set_node sa a (drop_first sa n)) a;
        Some (SKIPARRAY_POP_OK, Some kv, sa')
      })
   }"

text \<open>The descent to the last node; \<open>level\<close> is an \<^verbatim>\<open>int8_t\<close>.\<close>

definition pop_step :: "skiparray \<Rightarrow> int \<times> addr \<Rightarrow> (int \<times> addr + addr) option" where
  "pop_step sa = (\<lambda>(lev, cur).
     (if 0 \<le> lev then do {
        f \<leftarrow> get_fwd sa cur (nat lev);
        (case f of
           None \<Rightarrow> do {
             f0 \<leftarrow> get_fwd sa cur 0;
             Some (if f0 = None then Inr cur else Inl (lev - 1, cur))
           }
         | Some x \<Rightarrow> Some (Inl (lev, x)))
      } else Some (Inr cur)))"

definition skiparray_pop_last :: "skiparray \<Rightarrow>
    (skiparray_pop_res \<times> (voidp \<times> voidp option) option \<times> skiparray) option" where
  "skiparray_pop_last sa = do {
     h \<leftarrow> get_head sa 0;
     a \<leftarrow> h;
     n \<leftarrow> heap sa a;
     (if has_iterators sa then Some (SKIPARRAY_POP_ERROR_LOCKED, None, sa)
      else if count n = 0 then do {
        f \<leftarrow> get_fwd sa a 0;
        assert_c (f = None);
        Some (SKIPARRAY_POP_EMPTY, None, sa)
      } else do {
        let lev = s8 (sa_height sa - 1);
        hd \<leftarrow> (if lev < 0 then None else get_head sa (nat lev));
        cur \<leftarrow> hd;
        b \<leftarrow> loop_c (pop_step sa) (lev, cur);
        bn \<leftarrow> heap sa b;
        f \<leftarrow> get_fwd sa b 0;
        assert_c (f = None);
        assert_c (0 < count bn);
        kv \<leftarrow> out_pair sa bn (offset bn + count bn - 1);
        let bn' = bn\<lparr>count := u16_dec (count bn) 1\<rparr>;
        let sa1 = set_node sa b bn';
        sa' \<leftarrow> (if count bn' = 0 then do {
                   h0 \<leftarrow> get_head sa1 0;
                   (if h0 = Some b then Some sa1 else unlink_node sa1 b)
                 } else Some sa1);
        Some (SKIPARRAY_POP_OK, Some kv, sa')
      })
   }"

section \<open>Bypassing the second node\<close>

lemma bypass_loop:
  assumes c: "unlink_ctx sa [a] x zs its"
  shows "\<exists>s. loop_c (bypass_step a x) (0, sa) = Some s \<and> sa_height s = sa_height sa \<and>
    back_at (heap s) = back_at (heap sa) \<and> removing sa [a] x zs UNIV s"
proof -
  let ?x = "ht (heap sa) x" and ?a = "ht (heap sa) a"
  let ?D = "\<lambda>i. {l. ?x \<le> l \<or> l < i}"
  let ?I = "\<lambda>(i, s). i \<le> ?x \<and> sa_height s = sa_height sa \<and> back_at (heap s) = back_at (heap sa) \<and>
    removing sa [a] x zs (?D i) s"
  note d = unlink_ctxD(7) [OF c] and sh = unlink_ctxD(2) [OF c]
  have "\<exists>s. loop_c (bypass_step a x) (0, sa) = Some s \<and> ?I (?x, s)"
  proof (rule loop_c_rule [where I = ?I and V = "\<lambda>(i, s). ?x - i"])
    show "?I (0, sa)" using removing_start [OF c] by simp
  next
    fix t assume I: "?I t"
    obtain i s where e: "t = (i, s)" by (cases t)
    have i: "i \<le> ?x" "sa_height s = sa_height sa" "back_at (heap s) = back_at (heap sa)" "removing sa [a] x zs (?D i) s"
      using I e by auto
    note r = removingD(1) [OF i(4)]
    note np = data_eq_nxt [OF relinkedD(5) [OF r]] data_eq_at(1) [OF relinkedD(5) [OF r]]
    obtain xn where xn: "heap s x = Some xn" "length (fwd xn) = ?x" using unlink_node_at [OF c r, of x] by auto
    obtain n where n: "heap s a = Some n" "length (fwd n) = ?a" using unlink_node_at [OF c r, of a] by auto
    have hx: "height xn = ?x" "height n = ?a" using np(2) xn(1) n(1) by (metis at_Some(1))+
    show "(\<exists>s'. bypass_step a x t = Some (Inl s') \<and> ?I s' \<and>
        (case s' of (i, s) \<Rightarrow> ?x - i) < (case t of (i, s) \<Rightarrow> ?x - i)) \<or>
      (\<exists>s. bypass_step a x t = Some (Inr s) \<and> ?I (?x, s))"
    proof (cases "i < ?x")
      case False
      then have ix: "i = ?x" using i(1) by simp
      have "bypass_step a x t = Some (Inr s)" using e xn hx False by (simp add: bypass_step_def)
      with i ix show ?thesis by blast
    next
      case True
      have l: "i \<notin> ?D i" "i < max_level sa" using True shape_ht(2) [OF sh, of x] by auto
      have lk: "linked (heap s) (nodes s) i ([a] @ x # zs)" using removingD(3) [OF i(4) l(2,1)] .
      have fx: "get_fwd s x i = Some (nxt (heap sa) i zs)"
        using linked_fwdD [OF lk, of x] True d get_fwd_at [OF xn(1), of i] xn(2) by (auto simp: chain np)
      have nodes: "length (nodes s) = max_level sa"
        using relinkedD(4) [OF r] cfg_okD(7) [OF unlink_ctxD(1) [OF c]] by simp
      have D: "insert i (?D i) = ?D (i + 1)" by auto
      show ?thesis
      proof (cases "i < ?a")
        case ia: True
        obtain s1 where s1: "set_fwd s a i (nxt (heap sa) i zs) = Some s1"
          using set_fwd_Some [OF n(1), of i "nxt (heap sa) i zs"] n(2) ia by auto
        note e1 = set_fwdD [OF s1]
        have "prv (heap sa) i [a] = Some a" using ia by (simp add: prv_def)
        then have "removing sa [a] x zs (insert i (?D i)) s1"
          by (intro removing_level [OF c i(4) l True e1(1)]) (use e1 d in auto)
        then have "?I (i + 1, s1)" using True i e1 D by simp
        moreover have "bypass_step a x t = Some (Inl (i + 1, s1))"
          using e xn(1) n(1) hx True ia fx s1 by (simp add: bypass_step_def)
        ultimately show ?thesis using e True by auto
      next
        case ia: False
        have pN: "prv (heap sa) i [a] = None" using ia by (simp add: prv_def)
        have hd: "get_head s i = Some (Some x)"
          using linked_headD [OF lk] ia True nodes l(2) by (simp add: np get_head_def)
        obtain s1 where s1: "set_head s i (nxt (heap sa) i zs) = Some s1" using nodes l(2) by (simp add: set_head_def)
        note e1 = set_headD [OF s1]
        have "removing sa [a] x zs (insert i (?D i)) s1"
          by (intro removing_level [OF c i(4) l True e1(1)]) (use e1 pN nodes l in auto)
        then have "?I (i + 1, s1)" using True i e1 D by simp
        moreover have "bypass_step a x t = Some (Inl (i + 1, s1))"
          using e xn(1) n(1) hx True ia fx s1 hd by (simp add: bypass_step_def)
        ultimately show ?thesis using e True by auto
      qed
    qed
  qed
  moreover have "?D ?x = UNIV" by auto
  ultimately show ?thesis by auto
qed

lemma free_node_height:
  "free_node sa b = Some sa' \<Longrightarrow> free_node (sa\<lparr>sa_height := k\<rparr>) b = Some (sa'\<lparr>sa_height := k\<rparr>)"
  by (auto simp: free_node_def bind_eq_Some_conv)

lemma bypass_correct:
  assumes c: "unlink_ctx sa [a] x zs its"
  shows "\<exists>sa'. bypass a x sa = Some sa' \<and> unlinked sa [a] x zs its sa'"
proof -
  note cfg = cfg_okD [OF unlink_ctxD(1) [OF c]] and sh = unlink_ctxD(2) [OF c] and d = unlink_ctxD(7) [OF c]
  let ?h = "heap sa"
  obtain s3 where s3: "loop_c (bypass_step a x) (0, sa) = Some s3" "sa_height s3 = sa_height sa"
    "back_at (heap s3) = back_at ?h" "removing sa [a] x zs UNIV s3" using bypass_loop [OF c] by auto
  note r3 = relinkedD [OF removingD(1) [OF s3(4)]]
  obtain xn where xn: "heap s3 x = Some xn" "length (fwd xn) = ht ?h x" "1 \<le> ht ?h x"
    using unlink_node_at [OF c removingD(1) [OF s3(4)], of x] by auto
  have n0: "nxt ?h 0 zs = (case zs of [] \<Rightarrow> None | y # _ \<Rightarrow> Some y)" by (rule nxt0 [OF sh]) auto
  have "fwd_at ?h x 0 = nxt ?h 0 zs"
    using linked_fwdD [OF shape_linked [OF sh], of 0 x] cfg(3) shape_ht(1) [OF sh, of x] d by (auto simp: chain)
  then have fx: "get_fwd s3 x 0 = Some (case zs of [] \<Rightarrow> None | y # _ \<Rightarrow> Some y)"
    using get_fwd_at [OF xn(1), of 0] xn(2,3) removingD(2) [OF s3(4)] n0 by simp
  obtain s4 where s4: "(case (case zs of [] \<Rightarrow> None | y # _ \<Rightarrow> Some y) of None \<Rightarrow> Some s3 | Some y \<Rightarrow> set_back s3 y (Some a)) = Some s4"
    "relinked s3 s4" "nodes s4 = nodes s3" "sa_height s4 = sa_height s3" "fwd_at (heap s4) = fwd_at (heap s3)"
    "back_at (heap s4) = back_without (back_at (heap s3)) [a] zs"
  proof (cases zs)
    case Nil
    then show ?thesis by (intro that [of s3]) (simp_all add: back_without_def)
  next
    case (Cons y ws)
    then obtain yn where yn: "heap s3 y = Some yn"
      using unlink_node_at [OF c removingD(1) [OF s3(4)], of y] by auto
    show ?thesis
      by (rule set_back_effect [OF yn, of "Some a"], rule that) (simp_all add: Cons back_without_def last_opt_def)
  qed
  have rem4: "removing sa [a] x zs UNIV s4" by (rule removing_back [OF s3(4) s4(2,3,5)])
  note r4 = relinkedD [OF removingD(1) [OF rem4]]
  have hd: "nodes s4 ! l = nxt ?h l ([a] @ zs)" if "l < max_level s4" for l
    by (rule removing_heads [OF c rem4]) (use that r4 in auto)
  have a1: "1 \<le> ht ?h a" using shape_ht(1) [OF sh, of a] by simp
  then have ne: "nxt ?h 0 ([a] @ zs) \<noteq> None" by simp
  have used: "l < sa_height sa" if "l < max_level sa" "nxt ?h l ([a] @ zs) \<noteq> None" for l
  proof -
    have "nxt ?h l ([a] @ x # zs) \<noteq> None" using that(2) by (auto simp: nxt_None)
    then show ?thesis
      using sh that(1) linked_headD [OF shape_linked [OF sh that(1)]] by (simp add: shape_def)
  qed
  have h4: "sa_height s4 = sa_height sa" using s4(4) s3(2) by simp
  obtain bn where bn: "heap s4 x = Some bn" using unlink_node_at [OF c removingD(1) [OF rem4], of x] by auto
  obtain s5 where s5: "free_node s4 x = Some s5"
  proof -
    have "removing sa [a] x zs UNIV (s4\<lparr>sa_height := k\<rparr>)" for k
      by (rule removing_back [OF rem4]) (simp_all add: relinked_def)
    have nb: "node_blocks x bn = blocks_at ?h x" using bn data_eq_at(3) [OF r4(5)] by (metis at_Some(4))
    have "distinct (node_blocks x bn)" "set (node_blocks x bn) \<subseteq> set (live (mst s4))"
      using unlink_ctxD(6) [OF c] r4(2) unfolding owned_def blocks_def nb by auto
    from node_free_total [OF this] bn that show ?thesis by (auto simp: free_node_def)
  qed
  have e5: "nodes s5 = nodes s4" "sa_height s5 = sa_height s4" "max_level s5 = max_level s4"
    using s5 by (auto simp: free_node_def bind_eq_Some_conv)
  have pre: "\<And>l. l < max_level s5 \<Longrightarrow> nodes s5 ! l = nxt ?h l ([a] @ zs)" using hd e5 by simp
  have "\<exists>k. loop_c lower_step s5 = Some (s5\<lparr>sa_height := k\<rparr>) \<and> 1 \<le> k \<and> k \<le> sa_height s5 \<and>
      (\<forall>l < max_level s5. l < k \<longleftrightarrow> nxt ?h l ([a] @ zs) \<noteq> None)"
    by (rule lower_correct [OF pre ne]) (use used e5 h4 r4 cfg in auto)
  then obtain k where k: "loop_c lower_step s5 = Some (s5\<lparr>sa_height := k\<rparr>)" "1 \<le> k" "k \<le> sa_height sa"
    "\<forall>l < max_level sa. l < k \<longleftrightarrow> nxt ?h l ([a] @ zs) \<noteq> None"
    using e5 h4 r4(7) by auto
  let ?s = "s4\<lparr>sa_height := k\<rparr>"
  have rem: "removing sa [a] x zs UNIV ?s" by (rule removing_back [OF rem4]) (simp_all add: relinked_def)
  have "\<exists>sa'. free_node ?s x = Some sa' \<and> unlinked sa [a] x zs its sa'"
    by (rule free_unlinked [OF c rem]) (use s4(6) s3(3) k cfg(6) in auto)
  then have "unlinked sa [a] x zs its (s5\<lparr>sa_height := k\<rparr>)" using free_node_height [OF s5] by auto
  moreover have "bypass a x sa = Some (s5\<lparr>sa_height := k\<rparr>)"
    using s3(1) fx s4(1) s5 k(1) by (simp add: bypass_def)
  ultimately show ?thesis by blast
qed

section \<open>Correctness of pop\_first\<close>

text \<open>The chain after the first pair has been dropped from its first node.\<close>

lemma pop_first_repair:
  assumes w: "wf_but sa (a # ys) a []" and n: "heap sa a = Some n"
  shows "\<exists>sa'. refill_first sa a = Some sa' \<and> repaired sa (a # ys) sa'"
proof -
  note sh = wf_butD(2) [OF w] and cfg = cfg_okD [OF wf_butD(1) [OF w]]
  have d: "distinct (a # ys)" using sh by (simp add: shape_def)
  have ok: "node_ok (node_size sa) (use_values sa) n" using shape_node [OF sh, of a] n by auto
  have f0: "get_fwd sa a 0 = Some (case ys of [] \<Rightarrow> None | y # _ \<Rightarrow> Some y)"
    using get_fwd_shape [OF sh, of a 0] shape_ht(1) [OF sh, of a] nxt0 [OF sh, of ys] by auto
  show ?thesis
  proof (cases ys)
    case Nil
    then have "wf sa [a] []" using w by (simp add: wf_but_def wf_def occupied_def)
    then have "repaired sa [a] sa" by (intro repairedI) auto
    with Nil f0 n show ?thesis by (simp add: refill_first_def)
  next
    case (Cons x zs)
    have dx: "a \<noteq> x" "x \<notin> set zs" "a \<notin> set zs" using d Cons by auto
    obtain xn where xn: "heap sa x = Some xn" "node_ok (node_size sa) (use_values sa) xn"
      using shape_node [OF sh, of x] Cons by auto
    have lp: "length (node_pairs n) = count n" "length (node_pairs xn) = count xn" using ok xn by auto
    show ?thesis
    proof (cases "count n < node_size sa div 2")
      case False
      have "wf sa (a # ys) []"
        by (rule wf_but_wf [OF w]) (use False lp(1) n in \<open>simp_all add: at_Some\<close>)
      then have "repaired sa (a # ys) sa" by (intro repairedI) auto
      with False f0 Cons n show ?thesis by (simp add: refill_first_def)
    next
      case small: True
      have w': "wf_but sa ([] @ a # x # zs) a []" using w Cons by simp
      have xne: "pairs_at (heap sa) x \<noteq> []" by (rule wf_but_nonempty [OF w']) (use dx in auto)
      then have xpos: "0 < count xn" using xn pairs_at_ok(1) [OF xn] by (metis length_greater_0_conv)
      show ?thesis
      proof (cases "count n + count xn \<le> node_size sa")
        case True
        obtain n1 n2 where t: "to_front n = Some n1" "move_pairs n1 xn (count n1) (offset xn) (count xn) = Some n2"
          "node_ok (node_size sa) (use_values sa) (n2\<lparr>count := u16 (count n2 + count xn)\<rparr>)"
          "same_links n (n2\<lparr>count := u16 (count n2 + count xn)\<rparr>)"
          "node_pairs (n2\<lparr>count := u16 (count n2 + count xn)\<rparr>) = node_pairs n @ take (count xn) (node_pairs xn)"
          using take_over [OF ok xn(2) order_refl True cfg(2)] by blast
        let ?n = "n2\<lparr>count := u16 (count n2 + count xn)\<rparr>"
        have pairs: "node_pairs ?n = node_pairs n @ node_pairs xn" using t(5) lp(2) by simp
        have ne: "node_pairs ?n \<noteq> []" unfolding pairs using xpos lp by auto
        have half: "node_size sa div 2 \<le> length (node_pairs ?n)" if "zs \<noteq> []"
        proof -
          have "x \<in> set (butlast ([] @ a # x # zs))" "x \<noteq> a" using that dx by auto
          from wf_butD(6) [OF w' this] show ?thesis unfolding pairs using pairs_at_ok(1) [OF xn] lp by simp
        qed
        note ab = absorb_wf [OF w' _ n xn(1) t(3,4) pairs ne half, simplified]
        obtain sa' where u: "bypass a x (set_node sa a ?n) = Some sa'" "unlinked (set_node sa a ?n) [a] x zs [] sa'"
          using bypass_correct [OF ab(1)] by blast
        have "refill_first sa a = Some sa'" using n f0 Cons small xn(1) True t(1,2) u(1) by (simp add: refill_first_def)
        moreover have "repaired sa (a # ys) sa'" using ab(2) [OF u(2)] Cons by (intro repairedI) auto
        ultimately show ?thesis by blast
      next
        case False
        let ?h = "node_size sa div 2" and ?k = "count xn - node_size sa div 2"
        have b: "?h < count xn" "count xn \<le> node_size sa" "1 \<le> ?h"
          using False small node_okD(4) [OF xn(2)] cfg(1) by auto
        have k: "?k < count xn" "?k \<le> count xn" "count n + ?k \<le> node_size sa" "u16_dec (count xn) ?h = ?k"
          using b small cfg(2) by auto
        obtain n1 n2 where t: "to_front n = Some n1" "move_pairs n1 xn (count n1) (offset xn) ?k = Some n2"
          "node_ok (node_size sa) (use_values sa) (n2\<lparr>count := u16 (count n2 + ?k)\<rparr>)"
          "same_links n (n2\<lparr>count := u16 (count n2 + ?k)\<rparr>)" "count n2 = count n"
          "node_pairs (n2\<lparr>count := u16 (count n2 + ?k)\<rparr>) = node_pairs n @ take ?k (node_pairs xn)"
          using take_over [OF ok xn(2) k(2,3) cfg(2)] by blast
        let ?n = "n2\<lparr>count := u16 (count n2 + ?k)\<rparr>"
        let ?x = "xn\<lparr>count := u16_dec (count xn) ?k, offset := u16 (offset xn + ?k)\<rparr>"
        note dx = drop_pairs [OF xn(2) k(1) cfg(2)]
        have half: "?h \<le> length (node_pairs ?n)" "?h \<le> length (node_pairs ?x)"
          using False lp b unfolding t(6) dx(3) by auto
        note rw = rebalance_wf [OF w' n xn(1) t(3,4,6) dx(1-3) half]
        have "refill_first sa a = Some (set_node (set_node sa x ?x) a ?n)"
          using n f0 Cons small xn(1) False t(1,2) k(4) by (simp add: refill_first_def Let_def)
        moreover have "repaired sa ([] @ a # x # zs) (set_node (set_node sa x ?x) a ?n)"
          by (rule repairedI [OF _ rw]) simp
        ultimately show ?thesis using Cons by auto
      qed
    qed
  qed
qed

lemma pop_first_correct:
  assumes r: "represents sa ps [] F"
  shows "\<exists>sa'. skiparray_pop_first sa =
      Some (case ps of [] \<Rightarrow> (SKIPARRAY_POP_EMPTY, None, sa') | p # _ \<Rightarrow> (SKIPARRAY_POP_OK, Some (out_of sa p), sa')) \<and>
    same_env sa sa' \<and> represents sa' (tl ps) [] F"
proof -
  obtain ns where w: "wf sa ns []" and ps: "pairs_of (heap sa) ns = ps" "F = foreign sa ns []"
    using r by (rule representsE)
  have it: "\<not> has_iterators sa" using iters_ok_locked [OF wfD(5) [OF w]] by simp
  note h = head0 [OF w]
  note sh = wfD(2) [OF w]
  from w show ?thesis
  proof (cases rule: wf_cases)
    case (empty a n)
    have "get_fwd sa a 0 = Some None"
      using get_fwd_shape [OF sh, of a 0] shape_ht(1) [OF sh, of a] empty(1) by simp
    with h ps empty it r show ?thesis by (simp add: skiparray_pop_first_def)
  next
    case full
    obtain a ys where ns: "ns = a # ys" using sh by (cases ns) (auto simp: shape_def)
    have w': "wf sa ([] @ a # ys) []" using w ns by simp
    obtain n where n: "heap sa a = Some n" using full_node [OF full(1), of a] ns by auto
    have ok: "node_ok (node_size sa) (use_values sa) n" "0 < count n"
      using full_nodeD [OF full(1) _ n] ns by auto
    then obtain p qs where np: "node_pairs n = p # qs"
      by (metis length_node_pairs length_greater_0_conv list.exhaust)
    have pps: "ps = p # qs @ pairs_of (heap sa) ys" using ps ns n np by (simp add: at_Some)
    have er: "erase_in_node sa n 0 = Some (drop_first sa n)" by (simp add: erase_in_node_def)
    from erase_spec [OF w' n ok(2)] er have e: "count (drop_first sa n) = count n - 1"
      "wf_but (set_node sa a (drop_first sa n)) (a # ys) a []"
      "pairs_of (heap (set_node sa a (drop_first sa n))) (a # ys) = tl ps"
      "foreign (set_node sa a (drop_first sa n)) (a # ys) [] = F"
      using np pps ps(2) ns by auto
    let ?n = "drop_first sa n" let ?s = "set_node sa a ?n"
    have hn: "heap ?s a = Some ?n" by simp
    have kv: "out_pair sa n (offset n) = Some (out_of sa p)"
      using out_pair_correct [OF ok] np by (simp add: out_of_def)
    obtain sa' where sa': "refill_first ?s a = Some sa'" "repaired ?s (a # ys) sa'"
      using pop_first_repair [OF e(2) hn] by blast
    then have "skiparray_pop_first sa = Some (SKIPARRAY_POP_OK, Some (out_of sa p), sa')"
      using h ns n it ok(2) kv by (simp add: skiparray_pop_first_def)
    then show ?thesis using sa'(2) pps e(3,4) same_env_trans [of sa ?s sa'] by (auto simp: repaired_def)
  qed
qed

lemma pop_first_locked: "its \<noteq> [] \<Longrightarrow> represents sa ps its F \<Longrightarrow>
    skiparray_pop_first sa = Some (SKIPARRAY_POP_ERROR_LOCKED, None, sa)"
proof -
  assume a: "its \<noteq> []" "represents sa ps its F"
  then obtain ns where w: "wf sa ns its" by (auto simp: represents_def)
  have "hd ns \<in> set ns" using wfD(2) [OF w] by (cases ns) (auto simp: shape_def)
  then obtain n where "heap sa (hd ns) = Some n" using shape_node [OF wfD(2) [OF w]] by blast
  with head0 [OF w] iters_ok_locked [OF wfD(5) [OF w]] a(1) show ?thesis by (simp add: skiparray_pop_first_def)
qed

section \<open>Correctness of pop\_last\<close>

lemma pop_descent:
  assumes s: "shape sa ns" and a: "a \<in> set ns" "l < ht (heap sa) a"
  shows "loop_c (pop_step sa) (int l, a) = Some (last ns)"
proof -
  let ?I = "\<lambda>(l, a). 0 \<le> l \<and> a \<in> set ns \<and> l < int (ht (heap sa) a)"
  have d: "distinct ns" using s by (simp add: shape_def)
  have step: "(\<exists>s'. pop_step sa t = Some (Inl s') \<and> ?I s' \<and> (nat (fst s') < nat (fst t) \<or>
       nat (fst s') = nat (fst t) \<and> length (after (snd s') ns) < length (after (snd t) ns))) \<or>
     (\<exists>r. pop_step sa t = Some (Inr r) \<and> r = last ns)" if "?I t" for t
  proof -
    obtain l a where t: "t = (l, a)" by (cases t)
    with that have a: "0 \<le> l" "a \<in> set ns" "nat l < ht (heap sa) a" by auto
    obtain us where us: "ns = us @ a # after a ns" "a \<notin> set us" using split_at [OF a(2)] by blast
    have g: "get_fwd sa a (nat l) = Some (nxt (heap sa) (nat l) (after a ns))" by (rule get_fwd_shape [OF s a(2,3)])
    have g0: "get_fwd sa a 0 = Some (nxt (heap sa) 0 (after a ns))" by (rule get_fwd_shape [OF s a(2)]) (use a(3) in simp)
    show ?thesis
    proof (cases "nxt (heap sa) (nat l) (after a ns)")
      case (Some x)
      obtain ws vs where v: "after a ns = ws @ x # vs" using nxt_Some_split [OF Some] by blast
      have e: "ns = (us @ a # ws) @ x # vs" using us v by simp
      have "after x ns = vs" using d unfolding e by (subst after_notin) auto
      moreover have "x \<in> set ns" "nat l < ht (heap sa) x"
        using nxt_SomeD [OF Some] set_after [of a ns] by auto
      ultimately show ?thesis using t a g Some v by (simp add: pop_step_def)
    next
      case None
      show ?thesis
      proof (cases "nxt (heap sa) 0 (after a ns)")
        case None': None
        with nxt0 [OF s set_after [of a ns]] have "after a ns = []" by (cases "after a ns") auto
        with us have "last ns = a" by (metis last_snoc)
        with t a g g0 None None' show ?thesis by (simp add: pop_step_def)
      next
        case (Some y)
        then have "l \<noteq> 0" using None by auto
        with t a g g0 None Some show ?thesis by (simp add: pop_step_def)
      qed
    qed
  qed
  have "\<exists>r. loop_c (pop_step sa) (int l, a) = Some r \<and> r = last ns"
    by (rule loop_c_rule2 [where I = ?I and V = "\<lambda>t. nat (fst t)" and W = "\<lambda>t. length (after (snd t) ns)"])
      (use a step in auto)
  then show ?thesis by simp
qed

lemma pop_last_repair:
  assumes w: "wf sa (xs @ [b]) []" and n: "heap sa b = Some n" "0 < count n"
  defines "n' \<equiv> n\<lparr>count := u16_dec (count n) 1\<rparr>"
  shows "\<exists>sa'. (if count n' = 0 then do {
                   h0 \<leftarrow> get_head (set_node sa b n') 0;
                   (if h0 = Some b then Some (set_node sa b n') else unlink_node (set_node sa b n') b)
                 } else Some (set_node sa b n')) = Some sa' \<and> same_env sa sa' \<and>
    represents sa' (butlast (pairs_of (heap sa) (xs @ [b]))) [] (foreign sa (xs @ [b]) [])"
proof -
  let ?s = "set_node sa b n'"
  note cfg = cfg_okD [OF wfD(1) [OF w]] and sh = wfD(2) [OF w]
  have d: "distinct (xs @ [b])" using sh by (simp add: shape_def)
  have ok: "node_ok (node_size sa) (use_values sa) n" using shape_node [OF sh, of b] n(1) by auto
  have e: "n' = n\<lparr>count := count n - 1\<rparr>" using n(2) node_okD(4) [OF ok] cfg(2) by (simp add: n'_def)
  have ok': "node_ok (node_size sa) (use_values sa) n'" "same_links n n'" "count n' = count n - 1"
    using ok unfolding e by (auto simp: node_ok_def same_links_def)
  have np: "node_pairs n' = take (count n - 1) (node_pairs n)" unfolding e by (rule node_pairs_prefix) simp
  have len: "length (node_pairs n) = count n" "length (node_pairs n') = count n - 1" using ok ok' by auto
  have bl: "node_pairs n' = butlast (node_pairs n)" by (simp add: np butlast_conv_take len)
  have ne: "node_pairs n \<noteq> []" using len(1) n(2) by auto
  have ps: "pairs_of (heap sa) (xs @ [b]) = pairs_of (heap sa) xs @ node_pairs n" using n(1) by (simp add: at_Some)
  have bps: "butlast (pairs_of (heap sa) (xs @ [b])) = pairs_of (heap sa) xs @ node_pairs n'"
    unfolding ps bl using ne by (simp add: butlast_append)
  have "ascending (call_cmp sa) (map fst (pairs_of (heap sa) xs) @ map fst (butlast (node_pairs n)) @ map fst [last (node_pairs n)])"
    using wfD(3) [OF w] ne unfolding ordered_def ps by (metis append_butlast_last_id map_append)
  then have asc: "ascending (call_cmp sa) (map fst (pairs_of (heap sa) xs @ node_pairs n' @ pairs_of (heap sa) []))"
    unfolding bl by (simp add: ascending_append)
  note u = wf_but_upd [OF w n(1) ok'(1,2) asc]
  have up: "pairs_of (heap ?s) (xs @ [b]) = butlast (pairs_of (heap sa) (xs @ [b]))" using u(2) bps by simp
  show ?thesis
  proof (cases "count n' = 0")
    case False
    then have "node_pairs n' \<noteq> []" using len(2) ok'(3) by auto
    then have "pairs_at (heap ?s) (last (xs @ [b])) \<noteq> []" by (simp add: chain)
    moreover have "c \<noteq> b" if "c \<in> set (butlast (xs @ [b]))" for c using that d by auto
    ultimately have "wf ?s (xs @ [b]) []"
      using wf_butD [OF u(1)] by (simp add: wf_def occupied_def)
    then have "represents ?s (butlast (pairs_of (heap sa) (xs @ [b]))) [] (foreign sa (xs @ [b]) [])"
      unfolding represents_def using up u(3) by metis
    with False show ?thesis by simp
  next
    case True
    then have npN: "node_pairs n' = []" using len(2) ok'(3) by simp
    have h0: "get_head ?s 0 = Some (Some (hd (xs @ [b])))"
      using shape_head0 [OF wf_butD(2) [OF u(1)]] cfg_okD [OF wf_butD(1) [OF u(1)]] by (simp add: get_head_def)
    show ?thesis
    proof (cases "xs = []")
      case xN: True
      have "wf ?s (xs @ [b]) []" using wf_butD [OF u(1)] xN by (simp add: wf_def occupied_def)
      then have "represents ?s (butlast (pairs_of (heap sa) (xs @ [b]))) [] (foreign sa (xs @ [b]) [])"
        unfolding represents_def using up u(3) by metis
      with True h0 xN show ?thesis by simp
    next
      case False
      have hb: "hd (xs @ [b]) \<noteq> b" using False d by (cases xs) auto
      have xne: "\<forall>c \<in> set xs. pairs_at (heap ?s) c \<noteq> []"
        using wf_but_nonempty [OF u(1)] d by auto
      have px: "pairs_of (heap ?s) xs = butlast (pairs_of (heap sa) (xs @ [b]))"
        using up npN by (simp add: chain)
      have asx: "ascending (call_cmp ?s) (keys_of (heap ?s) xs)"
        using wf_butD(3) [OF u(1)] npN by (simp add: ordered_def chain)
      have "unlink_ctx ?s xs b [] []"
        using wf_butD [OF u(1)] False xne asx by (simp add: unlink_ctx_def nonempty_nodes_def)
      then obtain sa' where sa': "unlink_node ?s b = Some sa'" "unlinked ?s xs b [] [] sa'"
        using unlink_node_correct by blast
      then have q: "same_env ?s sa'" "cfg_ok sa'" "shape sa' xs" "owned sa' xs []"
        "\<And>c. c \<in> set xs \<Longrightarrow> pairs_at (heap sa') c = pairs_at (heap ?s) c"
        "foreign sa' xs [] = foreign ?s (xs @ [b]) []" by (auto simp: unlinked_def)
      have env: "same_env sa sa'" using same_env_trans [OF _ q(1), of sa] by simp
      have pp: "pairs_of (heap sa') xs = butlast (pairs_of (heap sa) (xs @ [b]))"
        using pairs_of_cong [of xs "heap sa'" "heap ?s"] q(5) px by simp
      have "ordered sa' xs" using asx px pp q(1) by (simp add: ordered_def same_env_def)
      moreover have "occupied sa' xs"
      proof -
        have "node_size sa' div 2 \<le> length (pairs_at (heap sa') c)" if "c \<in> set (butlast xs)" for c
        proof -
          have cx: "c \<in> set xs" "c \<noteq> b" using that d by (auto dest: in_set_butlastD)
          then have "node_size ?s div 2 \<le> length (pairs_at (heap ?s) c)" by (intro wf_butD(6) [OF u(1)]) auto
          with cx q(1,5) show ?thesis by (simp add: same_env_def)
        qed
        moreover have "pairs_at (heap sa') (last xs) \<noteq> []" using xne q(5) False by simp
        ultimately show ?thesis by (simp add: occupied_def)
      qed
      moreover have "iters_ok sa' xs []" using wfD(5) [OF w] env by (simp add: iters_ok_none same_env_def)
      ultimately have "wf sa' xs []" using q by (simp add: wf_def)
      then have "represents sa' (butlast (pairs_of (heap sa) (xs @ [b]))) [] (foreign sa (xs @ [b]) [])"
        unfolding represents_def using pp q(6) u(3) by metis
      with True h0 hb sa'(1) env show ?thesis by simp
    qed
  qed
qed

lemma pop_last_total:
  assumes r: "represents sa ps [] F" and h128: "ps \<noteq> [] \<Longrightarrow> sa_height sa \<le> 128"
  shows "\<exists>sa'. skiparray_pop_last sa =
      Some (if ps = [] then (SKIPARRAY_POP_EMPTY, None, sa') else (SKIPARRAY_POP_OK, Some (out_of sa (last ps)), sa')) \<and>
    same_env sa sa' \<and> represents sa' (butlast ps) [] F"
proof -
  obtain ns where w: "wf sa ns []" and ps: "pairs_of (heap sa) ns = ps" "F = foreign sa ns []"
    using r by (rule representsE)
  have it: "\<not> has_iterators sa" using iters_ok_locked [OF wfD(5) [OF w]] by simp
  note h = head0 [OF w] and sh = wfD(2) [OF w] and cfg = cfg_okD [OF wfD(1) [OF w]]
  from w show ?thesis
  proof (cases rule: wf_cases)
    case (empty a n)
    have "get_fwd sa a 0 = Some None"
      using get_fwd_shape [OF sh, of a 0] shape_ht(1) [OF sh, of a] empty(1) by simp
    with h ps empty it r show ?thesis by (simp add: skiparray_pop_last_def)
  next
    case full
    have ne: "ns \<noteq> []" using sh by (simp add: shape_def)
    define xs b where "xs = butlast ns" "b = last ns"
    have ns: "ns = xs @ [b]" using ne by (simp add: xs_b_def)
    have w': "wf sa (xs @ [b]) []" using w ns by simp
    obtain n where n: "heap sa b = Some n" using full_node [OF full(1), of b] ns by auto
    have ok: "node_ok (node_size sa) (use_values sa) n" "0 < count n"
      using full_nodeD [OF full(1) _ n] ns by auto
    obtain m where m: "heap sa (hd ns) = Some m" "0 < count m"
      using full_node [OF full(1), of "hd ns"] ne by auto
    have np: "node_pairs n \<noteq> []" using ok by (metis length_node_pairs list.size(3) less_irrefl)
    have pps: "ps = pairs_of (heap sa) xs @ node_pairs n" using ps n ns by (simp add: at_Some)
    then have lp: "ps \<noteq> []" "last ps = node_pairs n ! (count n - 1)"
      using np ok(1) last_conv_nth [OF np] by auto
    let ?l = "sa_height sa - 1"
    have l: "?l < sa_height sa" "?l < max_level sa" "s8 ?l = int ?l" using cfg h128 [OF lp(1)] by auto
    obtain c where c: "nxt (heap sa) ?l ns = Some c" using nxt_head [OF sh l(1) cfg(6)] by auto
    have hc: "get_head sa ?l = Some (Some c)" using get_head_shape [OF sh cfg(7) l(2)] c by simp
    have desc: "loop_c (pop_step sa) (int ?l, c) = Some b"
      using pop_descent [OF sh, of c ?l] nxt_SomeD [OF c] by (simp add: xs_b_def)
    have f: "get_fwd sa b 0 = Some None"
      using get_fwd_shape [OF sh, of b 0] shape_ht(1) [OF sh, of b] sh ns by (auto simp: chain shape_def)
    have kv: "out_pair sa n (offset n + count n - 1) = Some (out_of sa (last ps))"
      using out_pair_correct [OF ok(1), of "count n - 1"] ok(2) lp(2) by (simp add: out_of_def)
    let ?n = "n\<lparr>count := u16_dec (count n) 1\<rparr>"
    obtain sa' where sa': "(if count ?n = 0 then do {
                   h0 \<leftarrow> get_head (set_node sa b ?n) 0;
                   (if h0 = Some b then Some (set_node sa b ?n) else unlink_node (set_node sa b ?n) b)
                 } else Some (set_node sa b ?n)) = Some sa'" "same_env sa sa'"
      "represents sa' (butlast ps) [] F"
      using pop_last_repair [OF w' n ok(2)] ps ns by auto
    have "skiparray_pop_last sa = Some (SKIPARRAY_POP_OK, Some (out_of sa (last ps)), sa')"
      using h m it l(3) hc desc n f ok(2) kv sa'(1)
      unfolding skiparray_pop_last_def Let_def by simp
    with sa'(2,3) lp(1) show ?thesis by auto
  qed
qed

lemma pop_last_correct:
  assumes "represents sa ps [] F" "sa_height sa \<le> 128"
  shows "\<exists>sa'. skiparray_pop_last sa =
      Some (if ps = [] then (SKIPARRAY_POP_EMPTY, None, sa') else (SKIPARRAY_POP_OK, Some (out_of sa (last ps)), sa')) \<and>
    same_env sa sa' \<and> represents sa' (butlast ps) [] F"
  using pop_last_total [OF assms(1)] assms(2) by simp

text \<open>Above 128 levels the level no longer fits the \<^verbatim>\<open>int8_t\<close> it is kept in.\<close>

lemma pop_last_overflow:
  assumes r: "represents sa ps [] F" "ps \<noteq> []" and h: "128 < sa_height sa"
  shows "skiparray_pop_last sa = None"
proof -
  obtain ns where w: "wf sa ns []" and ps: "pairs_of (heap sa) ns = ps"
    using r(1) by (rule representsE)
  have it: "\<not> has_iterators sa" using iters_ok_locked [OF wfD(5) [OF w]] by simp
  note hd = head0 [OF w] and cfg = cfg_okD [OF wfD(1) [OF w]]
  have neg: "s8 (sa_height sa - 1) < 0" using h cfg(4,6) by (simp add: s8_def Let_def)
  from w show ?thesis
  proof (cases rule: wf_cases)
    case (empty a n)
    with ps r(2) show ?thesis by simp
  next
    case full
    have "hd ns \<in> set ns" using wfD(2) [OF w] by (cases ns) (auto simp: shape_def)
    then obtain m where "heap sa (hd ns) = Some m" "0 < count m" using full_node [OF full(1)] by blast
    with hd it neg show ?thesis by (simp add: skiparray_pop_last_def Let_def)
  qed
qed

lemma pop_last_locked: "its \<noteq> [] \<Longrightarrow> represents sa ps its F \<Longrightarrow>
    skiparray_pop_last sa = Some (SKIPARRAY_POP_ERROR_LOCKED, None, sa)"
proof -
  assume a: "its \<noteq> []" "represents sa ps its F"
  then obtain ns where w: "wf sa ns its" by (auto simp: represents_def)
  have "hd ns \<in> set ns" using wfD(2) [OF w] by (cases ns) (auto simp: shape_def)
  then obtain n where "heap sa (hd ns) = Some n" using shape_node [OF wfD(2) [OF w]] by blast
  with head0 [OF w] iters_ok_locked [OF wfD(5) [OF w]] a(1) show ?thesis by (simp add: skiparray_pop_last_def)
qed

section \<open>Properties\<close>

text \<open>
  C15. Popping the first pair of an unlocked skiparray returns the first pair in key order,
  removes exactly it and keeps the invariant, including when the first node runs empty and is
  refilled from the second or bypassed; on an empty skiparray it says so and changes nothing.
\<close>

theorem pop_first_spec:
  assumes "represents sa ps [] F"
  shows "\<exists>sa'. skiparray_pop_first sa =
      Some (case ps of [] \<Rightarrow> (SKIPARRAY_POP_EMPTY, None, sa') | p # _ \<Rightarrow> (SKIPARRAY_POP_OK, Some (out_of sa p), sa')) \<and>
    same_env sa sa' \<and> represents sa' (tl ps) [] F"
  by (rule pop_first_correct [OF assms])

theorem pop_first_spec_witness:
  "\<exists>sa'. skiparray_pop_first sample =
      Some (case sample_pairs of [] \<Rightarrow> (SKIPARRAY_POP_EMPTY, None, sa') | p # _ \<Rightarrow> (SKIPARRAY_POP_OK, Some (out_of sample p), sa')) \<and>
    same_env sample sa' \<and> represents sa' (tl sample_pairs) [] {99}"
  by (rule pop_first_spec [OF sample_represents])

text \<open>
  C16. Popping the last pair of an unlocked skiparray: when it is empty, the result says so
  and nothing changes; up to a height of 128 the last pair in key order is returned, exactly
  it is removed and the invariant kept, the last node being unlinked and freed when it runs
  empty. Above 128, which max_level up to 255 allows, popping fails: the level it starts from
  is kept in an int8_t and comes out negative, so that the first node is read from before the
  array of chains.
\<close>

theorem pop_last_spec:
  assumes "represents sa ps [] F"
  shows "if ps = [] \<or> sa_height sa \<le> 128
    then \<exists>sa'. skiparray_pop_last sa =
        Some (if ps = [] then (SKIPARRAY_POP_EMPTY, None, sa') else (SKIPARRAY_POP_OK, Some (out_of sa (last ps)), sa')) \<and>
      same_env sa sa' \<and> represents sa' (butlast ps) [] F
    else skiparray_pop_last sa = None"
  using pop_last_total [OF assms] pop_last_overflow [OF assms] by (auto simp: not_le)

theorem pop_last_spec_witness:
  "(\<exists>sa'. skiparray_pop_last sample = Some (SKIPARRAY_POP_OK, Some (out_of sample (5, 50)), sa') \<and>
      same_env sample sa' \<and> represents sa' [(1, 10), (2, 20), (3, 30)] [] {99}) \<and>
    skiparray_pop_last (tall 150) = None"
proof -
  obtain ps F where t: "represents (tall 150) ps [] F" "ps \<noteq> []" using tall_represents [of 150] by auto
  then have "skiparray_pop_last (tall 150) = None" using pop_last_spec [OF t(1)] by (simp add: tall_def)
  moreover have "sample_pairs \<noteq> []" "sa_height sample \<le> 128" "last sample_pairs = (5, 50)"
    "butlast sample_pairs = [(1, 10), (2, 20), (3, 30)]" by (simp_all add: sample_pairs_def sample_env)
  ultimately show ?thesis using pop_last_spec [OF sample_represents] by simp
qed

text \<open>
  C19. While an iterator is active the skiparray is locked: setting, forgetting and popping
  all report LOCKED and change nothing, not even the memory accounting.
\<close>

theorem locked_spec:
  assumes "represents sa ps its F" "its \<noteq> []"
  shows "skiparray_set_with_pair sa key v rk = Some (SKIPARRAY_SET_ERROR_LOCKED, None, sa) \<and>
    skiparray_set sa key v = Some (SKIPARRAY_SET_ERROR_LOCKED, sa) \<and>
    skiparray_forget sa key = Some (SKIPARRAY_FORGET_ERROR_LOCKED, None, sa) \<and>
    skiparray_pop_first sa = Some (SKIPARRAY_POP_ERROR_LOCKED, None, sa) \<and>
    skiparray_pop_last sa = Some (SKIPARRAY_POP_ERROR_LOCKED, None, sa)"
  using set_locked [OF assms(2,1)] forget_locked [OF assms(2,1)] pop_first_locked [OF assms(2,1)]
    pop_last_locked [OF assms(2,1)] by (simp_all add: skiparray_set_def)

theorem locked_spec_witness:
  "skiparray_set_with_pair sample_locked 4 40 True = Some (SKIPARRAY_SET_ERROR_LOCKED, None, sample_locked) \<and>
   skiparray_set sample_locked 4 40 = Some (SKIPARRAY_SET_ERROR_LOCKED, sample_locked) \<and>
   skiparray_forget sample_locked 4 = Some (SKIPARRAY_FORGET_ERROR_LOCKED, None, sample_locked) \<and>
   skiparray_pop_first sample_locked = Some (SKIPARRAY_POP_ERROR_LOCKED, None, sample_locked) \<and>
   skiparray_pop_last sample_locked = Some (SKIPARRAY_POP_ERROR_LOCKED, None, sample_locked)"
  by (rule locked_spec [OF sample_locked_represents]) simp

end
