(* ===== verification/Lifecycle.thy ===== *)
theory Lifecycle
  imports Pop
begin

text \<open>
  Creation and destruction: \<^verbatim>\<open>skiparray_new\<close> and \<^verbatim>\<open>skiparray_free\<close> of \<open>src/skiparray.c\<close>, with
  every block accounted for.
\<close>

section \<open>Definitions\<close>

text \<open>The default callbacks, at addresses of their own.\<close>

definition def_memory_ptr :: "mem_fun fnptr" where "def_memory_ptr = (1, malloc)"
definition def_level_ptr :: "level_fun fnptr" where "def_level_ptr = (2, def_level_fun)"

text \<open>The fields of a new skiparray, from the configuration.\<close>

definition cfg_nsize :: "skiparray_config \<Rightarrow> nat" where
  "cfg_nsize c = (if cfg_node_size c = 0 then SKIPARRAY_DEF_NODE_SIZE else cfg_node_size c)"

definition cfg_levels :: "skiparray_config \<Rightarrow> nat" where
  "cfg_levels c = (if cfg_max_level c = 0 then SKIPARRAY_DEF_MAX_LEVEL else cfg_max_level c)"

definition cfg_mem :: "skiparray_config \<Rightarrow> mem_fun fnptr" where
  "cfg_mem c = (case cfg_memory c of None \<Rightarrow> def_memory_ptr | Some f \<Rightarrow> f)"

definition cfg_lev :: "skiparray_config \<Rightarrow> level_fun fnptr" where
  "cfg_lev c = (case cfg_level c of None \<Rightarrow> def_level_ptr | Some f \<Rightarrow> f)"

text \<open>
  \<open>out\<close> says whether the out-pointer is not NULL, \<open>config\<close> is the pointed-to configuration, if
  any; \<open>m\<close> is the state of the memory callback.
\<close>

definition skiparray_new :: "bool \<Rightarrow> skiparray_config option \<Rightarrow> mstate \<Rightarrow>
    (skiparray_new_res \<times> skiparray option \<times> mstate) option" where
  "skiparray_new out config m =
     (case config of
        None \<Rightarrow> Some (SKIPARRAY_NEW_ERROR_NULL, None, m)
      | Some c \<Rightarrow>
        (if \<not> out then Some (SKIPARRAY_NEW_ERROR_NULL, None, m)
         else case cfg_cmp c of
           None \<Rightarrow> Some (SKIPARRAY_NEW_ERROR_CONFIG, None, m)
         | Some cp \<Rightarrow>
           (if cfg_node_size c = 1 then Some (SKIPARRAY_NEW_ERROR_CONFIG, None, m)
            else
              (let nsize = cfg_nsize c;
                   levels = cfg_levels c;
                   mf = cfg_mem c
               in (case mem_alloc (snd mf) (sizeof_skiparray + levels * sizeof_ptr) m of
                     (None, m1) \<Rightarrow> Some (SKIPARRAY_NEW_ERROR_MEMORY, None, m1)
                   | (Some res, m1) \<Rightarrow> do {
                       let (l, g) = snd (cfg_lev c) (cfg_seed c);
                       let root_level = (if levels \<le> to_u8 (l + 1) then levels else to_u8 (l + 1));
                       (r, m2) \<leftarrow> node_alloc root_level nsize (snd mf) (\<not> cfg_ignore_values c) m1;
                       (case r of
                          None \<Rightarrow> do { m3 \<leftarrow> mem_free res m2; Some (SKIPARRAY_NEW_ERROR_MEMORY, None, m3) }
                        | Some (root, n) \<Rightarrow>
                            Some (SKIPARRAY_NEW_OK,
                              Some \<lparr>self = res, node_size = nsize, max_level = levels, sa_height = root_level,
                                use_values = \<not> cfg_ignore_values c, prng_state = g, mem = mf, cmp = cp,
                                free_cb = cfg_free c, level = cfg_lev c, iter = None,
                                nodes = replicate root_level (Some root) @ replicate (levels - root_level) None,
                                heap = [root \<mapsto> n], iters = Map.empty, mst = m2\<rparr>, m2))
                     })))))"

text \<open>
  \<^verbatim>\<open>skiparray_free\<close> returns the pairs its \<^verbatim>\<open>free\<close> callback was called with, in order, and the
  state of the memory callback.
\<close>

definition free_nodes_step :: "addr option \<times> bindings \<times> skiparray \<Rightarrow>
    (addr option \<times> bindings \<times> skiparray + bindings \<times> skiparray) option" where
  "free_nodes_step = (\<lambda>(n, freed, sa).
     (case n of
        None \<Rightarrow> Some (Inr (freed, sa))
      | Some a \<Rightarrow> do {
          nd \<leftarrow> heap sa a;
          nx \<leftarrow> get_fwd sa a 0;
          ps \<leftarrow> (if free_cb sa \<noteq> None then those (map (pair_at sa nd) [0..<count nd]) else Some []);
          sa' \<leftarrow> free_node sa a;
          Some (Inl (nx, freed @ ps, sa'))
        }))"

definition free_iters_step :: "addr option \<times> skiparray \<Rightarrow> (addr option \<times> skiparray + skiparray) option" where
  "free_iters_step = (\<lambda>(p, sa).
     (case p of
        None \<Rightarrow> Some (Inr sa)
      | Some i \<Rightarrow> do {
          it \<leftarrow> iters sa i;
          m \<leftarrow> mem_free i (mst sa);
          Some (Inl (it_next it, sa\<lparr>iters := (iters sa)(i := None), mst := m\<rparr>))
        }))"

definition skiparray_free :: "skiparray \<Rightarrow> (bindings \<times> mstate) option" where
  "skiparray_free sa = do {
     h \<leftarrow> get_head sa 0;
     (freed, sa1) \<leftarrow> loop_c free_nodes_step (h, [], sa);
     sa2 \<leftarrow> loop_c free_iters_step (iter sa1, sa1);
     m \<leftarrow> mem_free (self sa2) (mst sa2);
     Some (freed, m)
   }"

section \<open>Creation\<close>

text \<open>The width of the fields of a configuration, and the contracts of its callbacks.\<close>

definition config_ok :: "skiparray_config \<Rightarrow> bool" where
  "config_ok c \<longleftrightarrow>
     cfg_node_size c < 65536 \<and> cfg_max_level c < 256 \<and>
     (\<forall>cp. cfg_cmp c = Some cp \<longrightarrow> comparator (snd cp)) \<and>
     allocator (snd (cfg_mem c)) \<and> level_source (snd (cfg_lev c))"

lemma to_u8_level: "0 \<le> l \<Longrightarrow> l < 255 \<Longrightarrow> to_u8 (l + 1) = nat l + 1"
  by (simp add: to_u8_def nat_add_distrib)

lemma new_represents:
  assumes c: "config_ok c" "cfg_cmp c = Some cp" "cfg_node_size c \<noteq> 1"
    and rl: "1 \<le> rl" "rl \<le> cfg_levels c"
    and fr: "fresh_node rl (cfg_nsize c) (\<not> cfg_ignore_values c) n"
    and bl: "distinct (node_blocks root n)" "res \<notin> set (node_blocks root n)"
      "set (node_blocks root n) \<inter> set (live m) = {}" "res \<notin> set (live m)"
    and lv: "set (live m2) = set (node_blocks root n) \<union> {res} \<union> set (live m)"
  shows "represents \<lparr>self = res, node_size = cfg_nsize c, max_level = cfg_levels c, sa_height = rl,
      use_values = \<not> cfg_ignore_values c, prng_state = g, mem = cfg_mem c, cmp = cp,
      free_cb = cfg_free c, level = cfg_lev c, iter = None,
      nodes = replicate rl (Some root) @ replicate (cfg_levels c - rl) None,
      heap = [root \<mapsto> n], iters = Map.empty, mst = m2\<rparr> [] [] (set (live m))" (is "represents ?s _ _ _")
proof -
  have nd: "node_ok (cfg_nsize c) (\<not> cfg_ignore_values c) n" "height n = rl" "count n = 0" "back_p n = None"
    "fwd n = replicate rl None" using fr by (auto simp: fresh_node_def)
  have np: "node_pairs n = []" using nd by (metis length_node_pairs length_0_conv)
  have cfg: "cfg_ok ?s"
    using c rl by (auto simp: cfg_ok_def config_ok_def cfg_nsize_def cfg_levels_def
        SKIPARRAY_DEF_NODE_SIZE_def SKIPARRAY_DEF_MAX_LEVEL_def)
  have lk: "linked (heap ?s) (nodes ?s) l [root]" if "l < cfg_levels c" for l
    using that nd rl by (auto simp: linked_def nth_append ht_def fwd_at_def)
  have "shape ?s [root]"
    using nd rl lk by (auto simp: shape_def back_at_def nth_append)
  moreover have "ordered ?s [root]" "occupied ?s [root]" using np by (auto simp: ordered_def occupied_def pairs_at_def)
  moreover have "iters_ok ?s [root] []" by (simp add: iters_ok_none)
  moreover have b: "blocks ?s [root] [] = res # node_blocks root n" by (simp add: blocks_def blocks_at_def)
  moreover have "owned ?s [root] []" using bl lv unfolding owned_def b by auto
  ultimately have "wf ?s [root] []" using cfg by (simp add: wf_def)
  moreover have "pairs_of (heap ?s) [root] = []" using np by (simp add: pairs_at_def)
  moreover have "set (live m) = foreign ?s [root] []" using bl lv unfolding b by auto
  ultimately show ?thesis unfolding represents_def by blast
qed

text \<open>What a new skiparray was configured with.\<close>

definition configured :: "skiparray_config \<Rightarrow> skiparray \<Rightarrow> bool" where
  "configured c sa \<longleftrightarrow> node_size sa = cfg_nsize c \<and> max_level sa = cfg_levels c \<and>
     use_values sa = (\<not> cfg_ignore_values c) \<and> mem sa = cfg_mem c \<and> Some (cmp sa) = cfg_cmp c \<and>
     free_cb sa = cfg_free c \<and> level sa = cfg_lev c"

lemma new_correct:
  assumes c: "config_ok c"
  shows "\<exists>res r m'. skiparray_new True (Some c) m = Some (res, r, m') \<and>
    (if cfg_cmp c = None \<or> cfg_node_size c = 1 then res = SKIPARRAY_NEW_ERROR_CONFIG \<and> r = None \<and> m' = m
     else res = SKIPARRAY_NEW_ERROR_MEMORY \<and> r = None \<and> set (live m') = set (live m) \<or>
          res = SKIPARRAY_NEW_OK \<and> (\<exists>sa. r = Some sa \<and> mst sa = m' \<and> configured c sa \<and> represents sa [] [] (set (live m))))"
proof (cases "cfg_cmp c = None \<or> cfg_node_size c = 1")
  case True
  then show ?thesis by (cases "cfg_cmp c") (auto simp: skiparray_new_def)
next
  case False
  then obtain cp where cp: "cfg_cmp c = Some cp" and ns: "cfg_node_size c \<noteq> 1" by auto
  have al: "allocator (snd (cfg_mem c))" using c by (simp add: config_ok_def)
  obtain r1 m1 where 1: "mem_alloc (snd (cfg_mem c)) (sizeof_skiparray + cfg_levels c * sizeof_ptr) m = (r1, m1)"
    by fastforce
  show ?thesis
  proof (cases r1)
    case None
    with 1 have "live m1 = live m" by (auto dest: allocator.mem_alloc_NoneD [OF al])
    with 1 None cp ns show ?thesis by (auto simp: skiparray_new_def Let_def)
  next
    case (Some res)
    with 1 have a: "res \<notin> set (live m)" "live m1 = res # live m" by (auto dest: allocator.mem_alloc_SomeD [OF al])
    obtain l g where lg: "snd (cfg_lev c) (cfg_seed c) = (l, g)" by fastforce
    have "level_source (snd (cfg_lev c))" using c by (simp add: config_ok_def)
    from level_source.lev_nonneg [OF this, of "cfg_seed c"] level_source.lev_small [OF this, of "cfg_seed c"]
    have t: "to_u8 (l + 1) = nat l + 1" using lg by (intro to_u8_level) auto
    define rl where "rl = (if cfg_levels c \<le> to_u8 (l + 1) then cfg_levels c else to_u8 (l + 1))"
    have rl: "1 \<le> rl" "rl \<le> cfg_levels c"
      unfolding rl_def t by (auto simp: cfg_levels_def SKIPARRAY_DEF_MAX_LEVEL_def)
    have n2: "2 \<le> cfg_nsize c" using ns by (simp add: cfg_nsize_def SKIPARRAY_DEF_NODE_SIZE_def)
    obtain r m2 where al2: "node_alloc rl (cfg_nsize c) (snd (cfg_mem c)) (\<not> cfg_ignore_values c) m1 = Some (r, m2)"
      "case r of None \<Rightarrow> set (live m2) = set (live m1)
       | Some (root, n) \<Rightarrow> fresh_node rl (cfg_nsize c) (\<not> cfg_ignore_values c) n \<and> distinct (node_blocks root n) \<and>
           set (node_blocks root n) \<inter> set (live m1) = {} \<and> set (live m2) = set (node_blocks root n) \<union> set (live m1)"
      using allocator.node_alloc_total [OF al rl(1) n2, of "\<not> cfg_ignore_values c" m1] by blast
    show ?thesis
    proof (cases r)
      case None
      with al2 a have lv: "set (live m2) = insert res (set (live m))" by simp
      then obtain m3 where "mem_free res m2 = Some m3" "live m3 = removeAll res (live m2)"
        using mem_free_Some [of res m2] by auto
      moreover from this lv a(1) have "set (live m3) = set (live m)" by auto
      ultimately show ?thesis
        using 1 \<open>r1 = Some res\<close> cp ns lg al2(1) None by (auto simp: skiparray_new_def Let_def rl_def [symmetric])
    next
      case (Some rn)
      then obtain root n where r: "r = Some (root, n)" by (cases rn) auto
      let ?s = "\<lparr>self = res, node_size = cfg_nsize c, max_level = cfg_levels c, sa_height = rl,
        use_values = \<not> cfg_ignore_values c, prng_state = g, mem = cfg_mem c, cmp = cp,
        free_cb = cfg_free c, level = cfg_lev c, iter = None,
        nodes = replicate rl (Some root) @ replicate (cfg_levels c - rl) None,
        heap = [root \<mapsto> n], iters = Map.empty, mst = m2\<rparr>"
      have "represents ?s [] [] (set (live m))"
        by (rule new_represents [OF c cp ns rl]) (use al2(2) r a in auto)
      moreover have "configured c ?s" by (simp add: configured_def cp)
      moreover have "skiparray_new True (Some c) m = Some (SKIPARRAY_NEW_OK, Some ?s, m2)"
        using 1 \<open>r1 = Some res\<close> cp ns lg al2(1) r by (simp add: skiparray_new_def Let_def rl_def [symmetric])
      ultimately show ?thesis using cp ns by auto
    qed
  qed
qed

section \<open>Destruction\<close>

lemma those_map_Some: "(\<And>x. x \<in> set xs \<Longrightarrow> f x = Some (g x)) \<Longrightarrow> those (map f xs) = Some (map g xs)"
  by (induction xs) auto

lemma all_pairs:
  assumes "node_ok (node_size sa) (use_values sa) n"
  shows "those (map (pair_at sa n) [0..<count n]) = Some (node_pairs n)"
proof -
  have "those (map (pair_at sa n) [0..<count n]) = Some (map ((!) (node_pairs n)) [0..<count n])"
    by (rule those_map_Some) (simp add: pair_at_correct [OF assms])
  also have "map ((!) (node_pairs n)) [0..<count n] = node_pairs n"
    using map_nth [of "node_pairs n"] length_node_pairs [OF assms] by simp
  finally show ?thesis .
qed

text \<open>The state after the nodes \<open>ds\<close> have been freed.\<close>

definition freeing :: "skiparray \<Rightarrow> addr list \<Rightarrow> skiparray \<Rightarrow> bool" where
  "freeing sa ds s \<longleftrightarrow> same_env sa s \<and> heap s = (\<lambda>a. if a \<in> set ds then None else heap sa a) \<and>
     set (live (mst s)) = set (live (mst sa)) - set (concat (map (blocks_at (heap sa)) ds))"

lemma free_nodes_correct:
  assumes w: "wf sa ns its"
  shows "\<exists>s. loop_c free_nodes_step (Some (hd ns), [], sa) =
      Some (if free_cb sa = None then [] else pairs_of (heap sa) ns, s) \<and> freeing sa ns s"
proof -
  note sh = wfD(2) [OF w]
  have d: "distinct ns" "ns \<noteq> []" using sh by (auto simp: shape_def)
  let ?tr = "\<lambda>ds. if free_cb sa = None then [] else pairs_of (heap sa) ds"
  let ?I = "\<lambda>(n, tr, s). \<exists>ds rs. ns = ds @ rs \<and> n = (case rs of [] \<Rightarrow> None | r # _ \<Rightarrow> Some r) \<and> tr = ?tr ds \<and> freeing sa ds s"
  have "\<exists>r. loop_c free_nodes_step (Some (hd ns), [], sa) = Some r \<and> (\<exists>s. r = (?tr ns, s) \<and> freeing sa ns s)"
  proof (rule loop_c_rule [where I = ?I and V = "\<lambda>(n, tr, s). case n of None \<Rightarrow> 0 | Some a \<Rightarrow> Suc (length (after a ns))"])
    show "?I (Some (hd ns), [], sa)"
      unfolding prod.case
      by (rule exI [of _ "[]"], rule exI [of _ ns]) (use d(2) in \<open>auto simp: freeing_def split: list.splits\<close>)
  next
    fix t assume "?I t"
    then obtain n tr s ds rs where t: "t = (n, tr, s)" and i: "ns = ds @ rs"
      "n = (case rs of [] \<Rightarrow> None | r # _ \<Rightarrow> Some r)" "tr = ?tr ds" "freeing sa ds s" by (cases t) auto
    show "(\<exists>s'. free_nodes_step t = Some (Inl s') \<and> ?I s' \<and>
        (case s' of (n, tr, s) \<Rightarrow> case n of None \<Rightarrow> 0 | Some a \<Rightarrow> Suc (length (after a ns))) <
        (case t of (n, tr, s) \<Rightarrow> case n of None \<Rightarrow> 0 | Some a \<Rightarrow> Suc (length (after a ns)))) \<or>
      (\<exists>r. free_nodes_step t = Some (Inr r) \<and> (\<exists>s. r = (?tr ns, s) \<and> freeing sa ns s))"
    proof (cases rs)
      case Nil
      with t i show ?thesis by (simp add: free_nodes_step_def)
    next
      case (Cons a rs')
      have an: "a \<in> set ns" "a \<notin> set ds" "after a ns = rs'" using i(1) Cons d(1) by (auto simp: chain)
      obtain nd where nd: "heap sa a = Some nd" "node_ok (node_size sa) (use_values sa) nd"
        using shape_node [OF sh an(1)] by blast
      have fr: "same_env sa s" "heap s = (\<lambda>a. if a \<in> set ds then None else heap sa a)"
        "set (live (mst s)) = set (live (mst sa)) - set (concat (map (blocks_at (heap sa)) ds))"
        using i(4) by (auto simp: freeing_def)
      have hs: "heap s a = Some nd" using fr(2) an(2) nd(1) by simp
      have g: "get_fwd s a 0 = Some (case rs' of [] \<Rightarrow> None | r # _ \<Rightarrow> Some r)"
      proof -
        have "get_fwd sa a 0 = Some (nxt (heap sa) 0 rs')"
          using get_fwd_shape [OF sh an(1), of 0] shape_ht(1) [OF sh an(1)] an(3) by simp
        then show ?thesis using nxt0 [OF sh, of rs'] i(1) Cons hs nd(1) by (auto simp: get_fwd_def)
      qed
      have ps: "those (map (pair_at s nd) [0..<count nd]) = Some (node_pairs nd)"
        by (rule all_pairs) (use nd(2) fr(1) in \<open>simp add: same_env_def\<close>)
      have bl: "blocks_at (heap sa) a = node_blocks a nd" using nd(1) by (simp add: at_Some)
      have own: "distinct (blocks sa (ds @ a # rs') its)" "set (blocks sa (ds @ a # rs') its) \<subseteq> set (live (mst sa))"
        using wfD(6) [OF w] i(1) Cons by (auto simp: owned_def)
      have dj: "distinct (node_blocks a nd)" "set (node_blocks a nd) \<subseteq> set (live (mst s))"
        using own unfolding fr(3) blocks_def by (auto simp: bl)
      obtain m where m: "node_free a nd (mst s) = Some m" "set (live m) = set (live (mst s)) - set (node_blocks a nd)"
        using node_free_total [OF dj] by blast
      let ?s = "s\<lparr>heap := (heap s)(a := None), mst := m\<rparr>"
      have f: "free_node s a = Some ?s" using hs m(1) by (simp add: free_node_def)
      have fra: "freeing sa (ds @ [a]) ?s"
        using fr m(2) bl node_free_oom [OF m(1)] by (auto simp: freeing_def same_env_def fun_eq_iff)
      have step: "free_nodes_step t = Some (Inl (case rs' of [] \<Rightarrow> None | r # _ \<Rightarrow> Some r, ?tr (ds @ [a]), ?s))"
        using t i Cons hs g ps f fr(1) nd(1) by (auto simp: free_nodes_step_def at_Some same_env_def)
      have var: "(case (case rs' of [] \<Rightarrow> None | r # _ \<Rightarrow> Some r) of None \<Rightarrow> 0 | Some a \<Rightarrow> Suc (length (after a ns)))
          < Suc (length (after a ns))"
      proof (cases rs')
        case (Cons b rs'')
        have "ns = (ds @ [a]) @ b # rs''" using i(1) \<open>rs = a # rs'\<close> Cons by simp
        then have "after b ns = rs''" using d(1) by (simp add: chain)
        with Cons an(3) show ?thesis by simp
      qed simp
      have inv: "?I (case rs' of [] \<Rightarrow> None | r # _ \<Rightarrow> Some r, ?tr (ds @ [a]), ?s)"
        unfolding prod.case
        by (rule exI [of _ "ds @ [a]"], rule exI [of _ rs']) (use i(1) Cons fra in simp)
      show ?thesis
        by (rule disjI1, rule exI, rule conjI [OF step], rule conjI [OF inv]) (use var t i(2) Cons in simp)
    qed
  qed
  then show ?thesis by auto
qed

lemma free_iters_correct:
  fixes s sa :: skiparray
  assumes it: "iters s = iters sa" "iter s = iter sa" "iters_ok sa ns its"
    and lv: "set its \<subseteq> set (live (mst s))"
  shows "\<exists>s'. loop_c free_iters_step (iter s, s) = Some s' \<and> self s' = self s \<and>
    set (live (mst s')) = set (live (mst s)) - set its \<and> oom (mst s') = oom (mst s)"
proof -
  have d: "distinct its" "\<And>a. a \<in> set its \<Longrightarrow> \<exists>it. iters sa a = Some it \<and>
      it_next it = (case after a its of [] \<Rightarrow> None | b # _ \<Rightarrow> Some b)"
    "iter sa = (case its of [] \<Rightarrow> None | a # _ \<Rightarrow> Some a)"
    using it(3) by (auto simp: iters_ok_def)
  let ?I = "\<lambda>(p, t :: skiparray). \<exists>ds rs. its = ds @ rs \<and> p = (case rs of [] \<Rightarrow> None | r # _ \<Rightarrow> Some r) \<and> self t = self s \<and>
    iters t = (\<lambda>a. if a \<in> set ds then None else iters s a) \<and> set (live (mst t)) = set (live (mst s)) - set ds \<and>
    oom (mst t) = oom (mst s)"
  have "\<exists>r. loop_c free_iters_step (iter s, s) = Some r \<and> (self r = self s \<and> set (live (mst r)) = set (live (mst s)) - set its \<and> oom (mst r) = oom (mst s))"
  proof (rule loop_c_rule [where I = ?I and V = "\<lambda>(p, t). case p of None \<Rightarrow> 0 | Some a \<Rightarrow> Suc (length (after a its))"])
    show "?I (iter s, s)"
      unfolding prod.case by (rule exI [of _ "[]"], rule exI [of _ its]) (use it(2) d(3) in auto)
  next
    fix u assume "?I u"
    then obtain p t ds rs where u: "u = (p, t)" and i: "its = ds @ rs" "p = (case rs of [] \<Rightarrow> None | r # _ \<Rightarrow> Some r)"
      "self t = self s" "iters t = (\<lambda>a. if a \<in> set ds then None else iters s a)"
      "set (live (mst t)) = set (live (mst s)) - set ds" "oom (mst t) = oom (mst s)" by (cases u) auto
    show "(\<exists>s'. free_iters_step u = Some (Inl s') \<and> ?I s' \<and>
        (case s' of (p, t) \<Rightarrow> case p of None \<Rightarrow> 0 | Some a \<Rightarrow> Suc (length (after a its))) <
        (case u of (p, t) \<Rightarrow> case p of None \<Rightarrow> 0 | Some a \<Rightarrow> Suc (length (after a its)))) \<or>
      (\<exists>r. free_iters_step u = Some (Inr r) \<and> (self r = self s \<and> set (live (mst r)) = set (live (mst s)) - set its \<and> oom (mst r) = oom (mst s)))"
    proof (cases rs)
      case Nil
      with u i show ?thesis by (simp add: free_iters_step_def)
    next
      case (Cons a rs')
      have an: "a \<in> set its" "a \<notin> set ds" "after a its = rs'" using i(1) Cons d(1) by (auto simp: chain)
      obtain x where x: "iters sa a = Some x" "it_next x = (case rs' of [] \<Rightarrow> None | r # _ \<Rightarrow> Some r)"
        using d(2) [OF an(1)] an(3) by auto
      have "a \<in> set (live (mst t))" using i(5) an lv by auto
      then obtain m where m: "mem_free a (mst t) = Some m" "live m = removeAll a (live (mst t))" using mem_free_Some by blast
      let ?t = "t\<lparr>iters := (iters t)(a := None), mst := m\<rparr>"
      have "free_iters_step u = Some (Inl (it_next x, ?t))"
        using u i Cons an(2) x(1) it(1) m(1) by (simp add: free_iters_step_def)
      moreover have "?I (it_next x, ?t)"
        unfolding prod.case
        by (rule exI [of _ "ds @ [a]"], rule exI [of _ rs']) (use i Cons x(2) m(2) mem_free_oom [OF m(1)] in \<open>auto simp: fun_eq_iff\<close>)
      moreover have "(case it_next x of None \<Rightarrow> 0 | Some a \<Rightarrow> Suc (length (after a its))) < Suc (length (after a its))"
      proof (cases rs')
        case (Cons b rs'')
        have "its = (ds @ [a]) @ b # rs''" using i(1) \<open>rs = a # rs'\<close> Cons by simp
        then have "after b its = rs''" using d(1) by (simp add: chain)
        with Cons an(3) x(2) show ?thesis by simp
      qed (use x(2) in simp)
      ultimately show ?thesis using u i(2) Cons by (intro disjI1 exI [of _ "(it_next x, ?t)"]) auto
    qed
  qed
  then show ?thesis .
qed

lemma free_correct:
  assumes r: "represents sa ps its F"
  shows "\<exists>m. skiparray_free sa = Some (if free_cb sa = None then [] else ps, m) \<and> set (live m) = F \<and> oom m = oom (mst sa)"
proof -
  obtain ns where w: "wf sa ns its" and ps: "pairs_of (heap sa) ns = ps" "F = foreign sa ns its"
    using r by (rule representsE)
  let ?B = "concat (map (blocks_at (heap sa)) ns)"
  have own: "distinct (self sa # ?B @ its)" "set (self sa # ?B @ its) \<subseteq> set (live (mst sa))"
    using wfD(6) [OF w] by (auto simp: owned_def blocks_def)
  obtain s1 where s1: "loop_c free_nodes_step (Some (hd ns), [], sa) = Some (if free_cb sa = None then [] else ps, s1)"
    "freeing sa ns s1" using free_nodes_correct [OF w] ps(1) by auto
  then have e: "iters s1 = iters sa" "iter s1 = iter sa" "self s1 = self sa" "set (live (mst s1)) = set (live (mst sa)) - set ?B"
    "oom (mst s1) = oom (mst sa)"
    by (auto simp: freeing_def same_env_def)
  have "set its \<subseteq> set (live (mst s1))" using own e(4) by auto
  from free_iters_correct [OF e(1,2) wfD(5) [OF w] this] obtain s2 where s2: "loop_c free_iters_step (iter s1, s1) = Some s2" "self s2 = self s1"
    "set (live (mst s2)) = set (live (mst s1)) - set its" "oom (mst s2) = oom (mst s1)" by blast
  have "self s2 \<in> set (live (mst s2))" using own s2(2,3) e(3,4) by auto
  then obtain m where m: "mem_free (self s2) (mst s2) = Some m" "live m = removeAll (self s2) (live (mst s2))"
    using mem_free_Some by blast
  have "set (live m) = F" "oom m = oom (mst sa)"
    using m s2 e(3,4,5) ps(2) mem_free_oom [OF m(1)] by (auto simp: blocks_def)
  moreover have "skiparray_free sa = Some (if free_cb sa = None then [] else ps, m)"
    using head0 [OF w] s1(1) s2(1) m(1) by (simp add: skiparray_free_def)
  ultimately show ?thesis by blast
qed

lemma new_oom: "skiparray_new out (Some c) m = Some (res, r, m') \<Longrightarrow> oom m' = oom m"
  by (auto simp: skiparray_new_def Let_def bind_eq_Some_conv split: if_splits option.splits prod.splits
      dest!: mem_alloc_oom mem_free_oom node_alloc_oom)

lemma new_error_memory:
  assumes "skiparray_new out (Some c) m = Some (SKIPARRAY_NEW_ERROR_MEMORY, r, m')"
  shows "refusing (snd (cfg_mem c)) m"
proof -
  obtain r1 m1 where 1: "mem_alloc (snd (cfg_mem c)) (sizeof_skiparray + cfg_levels c * sizeof_ptr) m = (r1, m1)" by fastforce
  obtain l g where l: "snd (cfg_lev c) (cfg_seed c) = (l, g)" by fastforce
  show ?thesis
  proof (cases r1)
    case None
    with mem_alloc_refused 1 show ?thesis by blast
  next
    case (Some a)
    let ?rl = "if cfg_levels c \<le> to_u8 (l + 1) then cfg_levels c else to_u8 (l + 1)"
    have "\<exists>r2 m2. node_alloc ?rl (cfg_nsize c) (snd (cfg_mem c)) (\<not> cfg_ignore_values c) m1 = Some (r2, m2) \<and>
        (\<forall>a n. r2 \<noteq> Some (a, n))"
      using assms 1 l Some
      by (auto simp: skiparray_new_def Let_def bind_eq_Some_conv split: if_splits option.splits)
    then show ?thesis using node_alloc_refused' refusing_cong [OF mem_alloc_oom [OF 1]] by blast
  qed
qed

section \<open>Properties\<close>

text \<open>
  C17. Creating a skiparray from a configuration within the widths of its fields: no
  comparison callback or a node size of 1 is a configuration error; otherwise the result is a
  proper empty skiparray with the configured (or default) sizes and callbacks, owning exactly
  what it allocated, or, only when the memory callback may refuse a request, an error with
  everything allocated given back.
\<close>

theorem new_spec:
  assumes "config_ok c"
  shows "\<exists>res r m'. skiparray_new True (Some c) m = Some (res, r, m') \<and>
    (if cfg_cmp c = None \<or> cfg_node_size c = 1 then res = SKIPARRAY_NEW_ERROR_CONFIG \<and> r = None \<and> m' = m
     else res = SKIPARRAY_NEW_ERROR_MEMORY \<and> r = None \<and> set (live m') = set (live m) \<and> refusing (snd (cfg_mem c)) m \<or>
          res = SKIPARRAY_NEW_OK \<and> (\<exists>sa. r = Some sa \<and> mst sa = m' \<and> configured c sa \<and> represents sa [] [] (set (live m))))"
proof -
  obtain res r m' where n: "skiparray_new True (Some c) m = Some (res, r, m')"
    "if cfg_cmp c = None \<or> cfg_node_size c = 1 then res = SKIPARRAY_NEW_ERROR_CONFIG \<and> r = None \<and> m' = m
     else res = SKIPARRAY_NEW_ERROR_MEMORY \<and> r = None \<and> set (live m') = set (live m) \<or>
          res = SKIPARRAY_NEW_OK \<and> (\<exists>sa. r = Some sa \<and> mst sa = m' \<and> configured c sa \<and> represents sa [] [] (set (live m)))"
    using new_correct [OF assms, of m] by blast
  moreover have "refusing (snd (cfg_mem c)) m" if "res = SKIPARRAY_NEW_ERROR_MEMORY"
    using new_error_memory n(1) that by blast
  ultimately show ?thesis by (intro exI [of _ res] exI [of _ r] exI [of _ m']) (auto split: if_splits)
qed

theorem new_spec_witness:
  "let c = \<lparr>cfg_node_size = 0, cfg_max_level = 0, cfg_seed = 1, cfg_ignore_values = False,
        cfg_cmp = Some (9, cmp_intptr_t), cfg_memory = None, cfg_free = None, cfg_level = None\<rparr>;
       m = \<lparr>live = [5], clock = 0, oom = []\<rparr>
   in \<exists>res r m'. skiparray_new True (Some c) m = Some (res, r, m') \<and>
    (if cfg_cmp c = None \<or> cfg_node_size c = 1 then res = SKIPARRAY_NEW_ERROR_CONFIG \<and> r = None \<and> m' = m
     else res = SKIPARRAY_NEW_ERROR_MEMORY \<and> r = None \<and> set (live m') = set (live m) \<and> refusing (snd (cfg_mem c)) m \<or>
          res = SKIPARRAY_NEW_OK \<and> (\<exists>sa. r = Some sa \<and> mst sa = m' \<and> configured c sa \<and> represents sa [] [] (set (live m))))"
  unfolding Let_def
  by (rule new_spec)
     (use intptr.comparator_axioms def_memory.allocator_axioms def_level.level_source_axioms
      in \<open>simp add: config_ok_def cfg_mem_def cfg_lev_def def_memory_ptr_def def_level_ptr_def\<close>)

text \<open>
  C18. Freeing a skiparray, with active iterators or without, never frees a block twice or one
  it does not own, and gives back exactly what it owns: the node blocks, the arrays, the
  iterators and the skiparray itself. The free callback, when there is one, is called on every
  pair, once, in key order.
\<close>

theorem free_spec:
  assumes "represents sa ps its F"
  shows "\<exists>m. skiparray_free sa = Some (if free_cb sa = None then [] else ps, m) \<and> set (live m) = F"
  using free_correct [OF assms] by blast

theorem free_spec_witness:
  "\<exists>m. skiparray_free sample_locked = Some (if free_cb sample_locked = None then [] else sample_pairs, m) \<and> set (live m) = {99}"
  by (rule free_spec [OF sample_locked_represents])

end
