(* ===== verification/Iter.thy ===== *)
theory Iter
  imports Lifecycle
begin

text \<open>
  Iterators (\<open>src/skiparray.c\<close>, \<^verbatim>\<open>skiparray_iter_new\<close> to \<^verbatim>\<open>skiparray_iter_get\<close>): the doubly linked
  list of active iterators that locks the skiparray, and the position of each as an index into
  the list of pairs.
\<close>

section \<open>Definitions\<close>

definition set_iter :: "skiparray \<Rightarrow> addr \<Rightarrow> skiparray_iter \<Rightarrow> skiparray" where
  "set_iter sa i it = sa\<lparr>iters := (iters sa)(i \<mapsto> it)\<rparr>"

text \<open>\<^verbatim>\<open>nx->prev = p\<close>, when there is a next iterator.\<close>

definition set_prev :: "skiparray \<Rightarrow> addr option \<Rightarrow> addr option \<Rightarrow> skiparray option" where
  "set_prev sa nx p =
     (case nx of
        None \<Rightarrow> Some sa
      | Some x \<Rightarrow> do { xt \<leftarrow> iters sa x; Some (set_iter sa x (xt\<lparr>it_prev := p\<rparr>)) })"

definition skiparray_iter_new :: "skiparray \<Rightarrow> (skiparray_iter_new_res \<times> addr option \<times> skiparray) option" where
  "skiparray_iter_new sa = do {
     h \<leftarrow> get_head sa 0;
     a \<leftarrow> h;
     n \<leftarrow> heap sa a;
     f \<leftarrow> get_fwd sa a 0;
     (if f = None \<and> count n = 0 then Some (SKIPARRAY_ITER_NEW_EMPTY, None, sa)
      else case mem_alloc (snd (mem sa)) sizeof_iter (mst sa) of
        (None, m) \<Rightarrow> Some (SKIPARRAY_ITER_NEW_ERROR_MEMORY, None, sa\<lparr>mst := m\<rparr>)
      | (Some si, m) \<Rightarrow> do {
          sa1 \<leftarrow> set_prev sa (iter sa) (Some si);
          Some (SKIPARRAY_ITER_NEW_OK, Some si,
            (set_iter sa1 si \<lparr>it_prev = None, it_next = iter sa, it_n = a, it_index = 0\<rparr>)\<lparr>iter := Some si, mst := m\<rparr>)
        })
   }"

definition skiparray_iter_free :: "skiparray \<Rightarrow> addr option \<Rightarrow> skiparray option" where
  "skiparray_iter_free sa i =
     (case i of
        None \<Rightarrow> Some sa
      | Some i \<Rightarrow> do {
          it \<leftarrow> iters sa i;
          sa1 \<leftarrow> (case it_prev it of
                    None \<Rightarrow> do {
                      assert_c (iter sa = Some i);
                      set_prev (sa\<lparr>iter := it_next it\<rparr>) (it_next it) None
                    }
                  | Some p \<Rightarrow> do {
                      pt \<leftarrow> iters sa p;
                      set_prev (set_iter sa p (pt\<lparr>it_next := it_next it\<rparr>)) (it_next it) (it_prev it)
                    });
          m \<leftarrow> mem_free i (mst sa1);
          Some (sa1\<lparr>iters := (iters sa1)(i := None), mst := m\<rparr>)
        })"

definition skiparray_iter_seek_endpoint :: "skiparray \<Rightarrow> addr \<Rightarrow> skiparray_iter_seek_endpoint \<Rightarrow> skiparray option" where
  "skiparray_iter_seek_endpoint sa i which = do {
     it \<leftarrow> iters sa i;
     (case which of
        SKIPARRAY_ITER_SEEK_FIRST \<Rightarrow> do {
          h \<leftarrow> get_head sa 0;
          a \<leftarrow> h;
          Some (set_iter sa i (it\<lparr>it_n := a, it_index := 0\<rparr>))
        }
      | SKIPARRAY_ITER_SEEK_LAST \<Rightarrow> do {
          a \<leftarrow> last_node sa;
          n \<leftarrow> heap sa a;
          Some (set_iter sa i (it\<lparr>it_n := a, it_index := u16_dec (count n) 1\<rparr>))
        })
   }"

definition skiparray_iter_seek :: "skiparray \<Rightarrow> addr \<Rightarrow> voidp \<Rightarrow> (skiparray_iter_seek_res \<times> skiparray) option" where
  "skiparray_iter_seek sa i key = do {
     it \<leftarrow> iters sa i;
     (sres, a, index) \<leftarrow> search sa key;
     (case sres of
        SEARCH_FOUND \<Rightarrow> Some (SKIPARRAY_ITER_SEEK_FOUND, set_iter sa i (it\<lparr>it_n := a, it_index := index\<rparr>))
      | SEARCH_EMPTY \<Rightarrow> None
      | SEARCH_NOT_FOUND \<Rightarrow> do {
          n \<leftarrow> heap sa a;
          (if index = 0 \<and> back_p n = None then Some (SKIPARRAY_ITER_SEEK_ERROR_BEFORE_FIRST, sa)
           else if index = count n then do {
             f \<leftarrow> get_fwd sa a 0;
             (case f of
                None \<Rightarrow> Some (SKIPARRAY_ITER_SEEK_ERROR_AFTER_LAST, sa)
              | Some x \<Rightarrow> Some (SKIPARRAY_ITER_SEEK_NOT_FOUND, set_iter sa i (it\<lparr>it_n := x, it_index := 0\<rparr>)))
           } else Some (SKIPARRAY_ITER_SEEK_NOT_FOUND, set_iter sa i (it\<lparr>it_n := a, it_index := index\<rparr>)))
        })
   }"

definition skiparray_iter_next :: "skiparray \<Rightarrow> addr \<Rightarrow> (skiparray_iter_step_res \<times> skiparray) option" where
  "skiparray_iter_next sa i = do {
     it0 \<leftarrow> iters sa i;
     let it = it0\<lparr>it_index := u16 (it_index it0 + 1)\<rparr>;
     n \<leftarrow> heap sa (it_n it);
     (if it_index it = count n then do {
        f \<leftarrow> get_fwd sa (it_n it) 0;
        (case f of
           None \<Rightarrow> Some (SKIPARRAY_ITER_STEP_END, set_iter sa i it)
         | Some x \<Rightarrow> Some (SKIPARRAY_ITER_STEP_OK, set_iter sa i (it\<lparr>it_n := x, it_index := 0\<rparr>)))
      } else Some (SKIPARRAY_ITER_STEP_OK, set_iter sa i it))
   }"

definition skiparray_iter_prev :: "skiparray \<Rightarrow> addr \<Rightarrow> (skiparray_iter_step_res \<times> skiparray) option" where
  "skiparray_iter_prev sa i = do {
     it \<leftarrow> iters sa i;
     (if it_index it = 0 then do {
        n \<leftarrow> heap sa (it_n it);
        (case back_p n of
           None \<Rightarrow> Some (SKIPARRAY_ITER_STEP_END, sa)
         | Some b \<Rightarrow> do {
             bn \<leftarrow> heap sa b;
             Some (SKIPARRAY_ITER_STEP_OK, set_iter sa i (it\<lparr>it_n := b, it_index := u16_dec (count bn) 1\<rparr>))
           })
      } else Some (SKIPARRAY_ITER_STEP_OK, set_iter sa i (it\<lparr>it_index := u16_dec (it_index it) 1\<rparr>)))
   }"

definition skiparray_iter_get :: "skiparray \<Rightarrow> addr \<Rightarrow> (voidp \<times> voidp option) option" where
  "skiparray_iter_get sa i = do {
     it \<leftarrow> iters sa i;
     n \<leftarrow> heap sa (it_n it);
     assert_c (it_index it < count n);
     out_pair sa n (u16 (offset n + it_index it))
   }"

section \<open>Positions\<close>

text \<open>
  Iterator \<open>i\<close> is at pair number \<open>k\<close>: on a node and an index in it, or one past the last
  index of the last node (\<open>k\<close> is then the number of pairs), where \<^verbatim>\<open>skiparray_iter_next\<close> leaves
  it at the end.
\<close>

definition located :: "skiparray \<Rightarrow> addr list \<Rightarrow> addr \<Rightarrow> nat \<Rightarrow> bool" where
  "located sa ns i k \<longleftrightarrow>
     (\<exists>xs a ys it. ns = xs @ a # ys \<and> iters sa i = Some it \<and> it_n it = a \<and>
        (it_index it < length (pairs_at (heap sa) a) \<or> ys = [] \<and> it_index it = length (pairs_at (heap sa) a)) \<and>
        k = length (pairs_of (heap sa) xs) + it_index it)"

text \<open>A skiparray with its pairs, its active iterators and the position of each.\<close>

definition iter_view :: "skiparray \<Rightarrow> bindings \<Rightarrow> addr list \<Rightarrow> addr set \<Rightarrow> (addr \<Rightarrow> nat) \<Rightarrow> bool" where
  "iter_view sa ps its F pos \<longleftrightarrow>
     (\<exists>ns. wf sa ns its \<and> pairs_of (heap sa) ns = ps \<and> F = foreign sa ns its \<and>
        (its \<noteq> [] \<longrightarrow> ps \<noteq> []) \<and> (\<forall>i \<in> set its. located sa ns i (pos i)))"

lemma iter_view_represents: "iter_view sa ps its F pos \<Longrightarrow> represents sa ps its F"
  unfolding iter_view_def represents_def by blast

lemma represents_iter_view: "represents sa ps [] F \<longleftrightarrow> iter_view sa ps [] F pos"
  unfolding iter_view_def represents_def by auto

lemma iter_viewE:
  assumes "iter_view sa ps its F pos"
  obtains ns where "wf sa ns its" "pairs_of (heap sa) ns = ps" "F = foreign sa ns its"
    "its \<noteq> [] \<Longrightarrow> ps \<noteq> []" "\<And>i. i \<in> set its \<Longrightarrow> located sa ns i (pos i)"
  using assms unfolding iter_view_def by blast

lemma locatedE:
  assumes "located sa ns i k"
  obtains xs a ys it where "ns = xs @ a # ys" "iters sa i = Some it" "it_n it = a"
    "it_index it < length (pairs_at (heap sa) a) \<or> ys = [] \<and> it_index it = length (pairs_at (heap sa) a)"
    "k = length (pairs_of (heap sa) xs) + it_index it"
  using assms unfolding located_def by blast

lemma set_iter_simps [simp]:
  "self (set_iter sa i it) = self sa" "node_size (set_iter sa i it) = node_size sa"
  "max_level (set_iter sa i it) = max_level sa" "sa_height (set_iter sa i it) = sa_height sa"
  "use_values (set_iter sa i it) = use_values sa" "prng_state (set_iter sa i it) = prng_state sa"
  "mem (set_iter sa i it) = mem sa" "cmp (set_iter sa i it) = cmp sa"
  "free_cb (set_iter sa i it) = free_cb sa" "level (set_iter sa i it) = level sa"
  "iter (set_iter sa i it) = iter sa" "nodes (set_iter sa i it) = nodes sa"
  "iters (set_iter sa i it) = (iters sa)(i \<mapsto> it)" "mst (set_iter sa i it) = mst sa"
  "heap (set_iter sa i it) = heap sa"
  by (simp_all add: set_iter_def)

text \<open>The parts of the invariant that do not speak of iterators.\<close>

lemma wf_parts:
  assumes w: "wf sa ns its"
    and e: "self sa' = self sa" "node_size sa' = node_size sa" "max_level sa' = max_level sa" "sa_height sa' = sa_height sa"
      "use_values sa' = use_values sa" "mem sa' = mem sa" "cmp sa' = cmp sa" "level sa' = level sa"
      "nodes sa' = nodes sa" "heap sa' = heap sa"
    and i: "iters_ok sa' ns its'" "owned sa' ns its'"
  shows "wf sa' ns its'"
  using w i e by (simp add: wf_def cfg_ok_def shape_def ordered_def occupied_def)

text \<open>Moving one iterator.\<close>

lemma move_iter:
  assumes v: "wf sa ns its" "pairs_of (heap sa) ns = ps" "F = foreign sa ns its" "its \<noteq> [] \<longrightarrow> ps \<noteq> []"
      "\<forall>j \<in> set its. located sa ns j (pos j)"
    and i: "i \<in> set its" "iters sa i = Some it"
    and t: "ns = xs @ a # ys" "k < length (pairs_at (heap sa) a) \<or> ys = [] \<and> k = length (pairs_at (heap sa) a)"
  shows "iter_view (set_iter sa i (it\<lparr>it_n := a, it_index := k\<rparr>)) ps its F
    (pos(i := length (pairs_of (heap sa) xs) + k))"
proof -
  let ?it = "it\<lparr>it_n := a, it_index := k\<rparr>" let ?s = "set_iter sa i ?it"
  have ok: "iters_ok ?s ns its"
    using wfD(5) [OF v(1)] i t(1) unfolding iters_ok_def by auto
  have b: "blocks ?s ns its = blocks sa ns its" by (simp add: blocks_def)
  have "owned ?s ns its" using wfD(6) [OF v(1)] unfolding owned_def b by simp
  then have "wf ?s ns its" by (intro wf_parts [OF v(1) _ _ _ _ _ _ _ _ _ _ ok]) simp_all
  moreover have "located ?s ns j ((pos(i := length (pairs_of (heap sa) xs) + k)) j)" if "j \<in> set its" for j
  proof (cases "j = i")
    case True
    then show ?thesis unfolding located_def using t
      by (intro exI [of _ xs], intro exI [of _ a], intro exI [of _ ys], intro exI [of _ ?it]) simp
  next
    case False
    with v(5) that show ?thesis unfolding located_def by simp
  qed
  ultimately show ?thesis
    using v(2-4) b unfolding iter_view_def by (intro exI [of _ ns]) simp
qed

lemma move_iter_index:
  "iters sa i = Some it \<Longrightarrow> it_n it = a \<Longrightarrow>
   set_iter sa i (it\<lparr>it_index := k\<rparr>) = set_iter sa i (it\<lparr>it_n := a, it_index := k\<rparr>)"
  by (cases it) simp

section \<open>Creating and freeing iterators\<close>

lemma iter_new_correct:
  assumes v: "iter_view sa ps its F pos"
  shows "\<exists>res r sa'. skiparray_iter_new sa = Some (res, r, sa') \<and>
    (if ps = [] then res = SKIPARRAY_ITER_NEW_EMPTY \<and> r = None \<and> sa' = sa
     else res = SKIPARRAY_ITER_NEW_ERROR_MEMORY \<and> r = None \<and> iter_view sa' ps its F pos \<or>
       (\<exists>i. res = SKIPARRAY_ITER_NEW_OK \<and> r = Some i \<and> i \<notin> set its \<and> iter_view sa' ps (i # its) F (pos(i := 0))))"
proof -
  obtain ns where w: "wf sa ns its" and ps: "pairs_of (heap sa) ns = ps" "F = foreign sa ns its"
    "its \<noteq> [] \<Longrightarrow> ps \<noteq> []" "\<And>i. i \<in> set its \<Longrightarrow> located sa ns i (pos i)"
    using v by (rule iter_viewE) blast
  note sh = wfD(2) [OF w] and it = wfD(5) [OF w]
  have ne: "ns \<noteq> []" using sh by (simp add: shape_def)
  then obtain a ys where ns: "ns = a # ys" by (cases ns) auto
  have h: "get_head sa 0 = Some (Some a)" using head0 [OF w] ns by simp
  obtain n where n: "heap sa a = Some n" "node_ok (node_size sa) (use_values sa) n" using shape_node [OF sh, of a] ns by auto
  have f: "get_fwd sa a 0 = Some (case ys of [] \<Rightarrow> None | y # _ \<Rightarrow> Some y)"
    using get_fwd_shape [OF sh, of a 0] shape_ht(1) [OF sh, of a] nxt0 [OF sh, of ys] ns by auto
  have cn: "length (pairs_at (heap sa) a) = count n" by (rule pairs_at_ok(1) [OF n])
  have emp: "ps = [] \<longleftrightarrow> ys = [] \<and> count n = 0"
  proof
    assume "ps = []"
    with w show "ys = [] \<and> count n = 0"
    proof (cases rule: wf_cases)
      case (empty b m)
      with ns n(1) show ?thesis by simp
    next
      case full
      with ps(1) \<open>ps = []\<close> show ?thesis by simp
    qed
  next
    assume "ys = [] \<and> count n = 0"
    with ps(1) ns cn show "ps = []" by simp
  qed
  show ?thesis
  proof (cases "ps = []")
    case True
    with h n f emp show ?thesis by (simp add: skiparray_iter_new_def)
  next
    case False
    then have test: "\<not> ((case ys of [] \<Rightarrow> None | y # _ \<Rightarrow> Some y) = None \<and> count n = 0)"
      using emp by (cases ys) auto
    have al: "allocator (snd (mem sa))" using cfg_okD(9) [OF wfD(1) [OF w]] .
    obtain r m where alloc: "mem_alloc (snd (mem sa)) sizeof_iter (mst sa) = (r, m)" by fastforce
    show ?thesis
    proof (cases r)
      case None
      with alloc have lv: "live m = live (mst sa)" by (auto dest: allocator.mem_alloc_NoneD [OF al])
      let ?s = "sa\<lparr>mst := m\<rparr>"
      have ok: "iters_ok ?s ns its" using it by (simp add: iters_ok_def)
      have "owned ?s ns its" using wfD(6) [OF w] lv by (simp add: owned_def blocks_def)
      then have "wf ?s ns its" by (intro wf_parts [OF w _ _ _ _ _ _ _ _ _ _ ok]) simp_all
      then have "iter_view ?s ps its F pos"
        using ps lv unfolding iter_view_def by (intro exI [of _ ns]) (simp add: located_def blocks_def)
      moreover have "skiparray_iter_new sa = Some (SKIPARRAY_ITER_NEW_ERROR_MEMORY, None, ?s)"
        using h n(1) f test alloc None by (auto simp: skiparray_iter_new_def)
      ultimately show ?thesis using False by simp
    next
      case (Some i)
      with alloc have lv: "i \<notin> set (live (mst sa))" "live m = i # live (mst sa)"
        by (auto dest: allocator.mem_alloc_SomeD [OF al])
      have own: "distinct (blocks sa ns its)" "set (blocks sa ns its) \<subseteq> set (live (mst sa))"
        using wfD(6) [OF w] by (auto simp: owned_def)
      have inew: "i \<notin> set its" using own(2) lv(1) by (auto simp: blocks_def)
      let ?new = "\<lparr>it_prev = None, it_next = iter sa, it_n = a, it_index = 0\<rparr>"
      have hd: "iter sa = (case its of [] \<Rightarrow> None | j # _ \<Rightarrow> Some j)" using it by (simp add: iters_ok_def)
      obtain sa1 where sa1: "set_prev sa (iter sa) (Some i) = Some sa1"
        "sa1 = sa\<lparr>iters := (case its of [] \<Rightarrow> iters sa | j # _ \<Rightarrow> (iters sa)(j := map_option (it_prev_update (\<lambda>_. Some i)) (iters sa j)))\<rparr>"
      proof (cases its)
        case Nil
        with hd show ?thesis by (intro that [of sa]) (simp_all add: set_prev_def)
      next
        case (Cons j js)
        then obtain jt where "iters sa j = Some jt" using it by (auto simp: iters_ok_def)
        with Cons hd show ?thesis
          by (intro that [of "set_iter sa j (jt\<lparr>it_prev := Some i\<rparr>)"]) (simp_all add: set_prev_def set_iter_def)
      qed
      let ?s = "(set_iter sa1 i ?new)\<lparr>iter := Some i, mst := m\<rparr>"
      have e: "heap ?s = heap sa" "nodes ?s = nodes sa" "iter ?s = Some i" "mst ?s = m"
        "self ?s = self sa" "node_size ?s = node_size sa" "max_level ?s = max_level sa" "sa_height ?s = sa_height sa"
        "use_values ?s = use_values sa" "mem ?s = mem sa" "cmp ?s = cmp sa" "level ?s = level sa"
        unfolding sa1(2) by simp_all
      have isi: "iters ?s i = Some ?new" by simp
      have old: "\<exists>jt. iters sa j = Some jt \<and> iters ?s j = Some (jt\<lparr>it_prev := prev_of j (i # its)\<rparr>) \<and>
          it_n jt \<in> set ns \<and> it_next jt = (case after j its of [] \<Rightarrow> None | b # _ \<Rightarrow> Some b)" if j: "j \<in> set its" for j
      proof -
        obtain jt where jt: "iters sa j = Some jt" "it_n jt \<in> set ns" "it_prev jt = prev_of j its"
          "it_next jt = (case after j its of [] \<Rightarrow> None | b # _ \<Rightarrow> Some b)"
          using it j unfolding iters_ok_def by blast
        have ji: "j \<noteq> i" using j inew by auto
        obtain k ks where its: "its = k # ks" using j by (cases its) auto
        have "prev_of j (i # its) = (if j = k then Some i else it_prev jt)"
          using prev_of_notin [of j "[i]" k ks] ji jt(3) its by (simp add: last_opt_def)
        then have "iters ?s j = Some (jt\<lparr>it_prev := prev_of j (i # its)\<rparr>)"
          using jt(1) ji its unfolding sa1(2) by auto
        with jt show ?thesis by blast
      qed
      have ok: "iters_ok ?s ns (i # its)"
      proof -
        have dm: "dom (iters ?s) = set (i # its)"
        proof -
          have "dom (iters sa1) = set its" using it unfolding sa1(2) iters_ok_def by (cases its) (auto simp: domIff)
          then show ?thesis by simp
        qed
        have "\<exists>jt. iters ?s j = Some jt \<and> it_n jt \<in> set ns \<and> it_prev jt = prev_of j (i # its) \<and>
            it_next jt = (case after j (i # its) of [] \<Rightarrow> None | b # _ \<Rightarrow> Some b)" if j: "j \<in> set (i # its)" for j
        proof (cases "j = i")
          case True
          with isi hd ns show ?thesis by simp
        next
          case False
          then have "j \<in> set its" using j by simp
          from old [OF this] obtain jt where "iters ?s j = Some (jt\<lparr>it_prev := prev_of j (i # its)\<rparr>)"
            "it_n jt \<in> set ns" "it_next jt = (case after j its of [] \<Rightarrow> None | b # _ \<Rightarrow> Some b)" by blast
          with False show ?thesis by (intro exI [of _ "jt\<lparr>it_prev := prev_of j (i # its)\<rparr>"]) simp
        qed
        then show ?thesis using it inew dm e(3) unfolding iters_ok_def by auto
      qed
      have b: "set (blocks ?s ns (i # its)) = insert i (set (blocks sa ns its))"
        "distinct (blocks ?s ns (i # its))"
        using own lv(1) e(1,5) by (auto simp: blocks_def)
      have "owned ?s ns (i # its)" using b own(2) lv(2) e(4) by (auto simp: owned_def)
      then have wf': "wf ?s ns (i # its)" by (intro wf_parts [OF w _ _ _ _ _ _ _ _ _ _ ok]) (use e in simp_all)
      have fo: "foreign ?s ns (i # its) = F" using b(1) lv own(2) ps(2) e(4) by auto
      have "located ?s ns j ((pos(i := 0)) j)" if j: "j \<in> set (i # its)" for j
      proof (cases "j = i")
        case True
        have "0 < length (pairs_at (heap sa) a) \<or> ys = [] \<and> 0 = length (pairs_at (heap sa) a)"
        proof (cases "ys = []")
          case True
          with ps(1) ns False show ?thesis by auto
        next
          case False
          then have "nonempty_nodes sa ns" using wf_nonempty [OF w] ns by simp
          with ns show ?thesis by (simp add: nonempty_nodes_def)
        qed
        with True isi ns e(1) show ?thesis unfolding located_def
          by (intro exI [of _ "[]"], intro exI [of _ a], intro exI [of _ ys], intro exI [of _ ?new]) simp
      next
        case False
        then have ji: "j \<in> set its" using j by simp
        obtain xs b zs jt where l: "ns = xs @ b # zs" "iters sa j = Some jt" "it_n jt = b"
          "it_index jt < length (pairs_at (heap sa) b) \<or> zs = [] \<and> it_index jt = length (pairs_at (heap sa) b)"
          "pos j = length (pairs_of (heap sa) xs) + it_index jt" using ps(4) [OF ji] by (rule locatedE)
        have "iters ?s j = Some (jt\<lparr>it_prev := prev_of j (i # its)\<rparr>)" using old [OF ji] l(2) by auto
        with l False e(1) show ?thesis unfolding located_def
          by (intro exI [of _ xs], intro exI [of _ b], intro exI [of _ zs],
              intro exI [of _ "jt\<lparr>it_prev := prev_of j (i # its)\<rparr>"]) simp
      qed
      then have "iter_view ?s ps (i # its) F (pos(i := 0))"
        unfolding iter_view_def using wf' fo False ps(1) e(1) by (intro exI [of _ ns]) simp
      moreover have "skiparray_iter_new sa = Some (SKIPARRAY_ITER_NEW_OK, Some i, ?s)"
        using h n(1) f test alloc Some sa1(1) by (auto simp: skiparray_iter_new_def)
      ultimately show ?thesis using False inew by auto
    qed
  qed
qed

text \<open>Neighbours in the list of iterators once one is gone.\<close>

lemma after_remove:
  assumes "distinct (us @ i # vs)" "j \<in> set (us @ vs)"
  shows "(case after j (us @ vs) of [] \<Rightarrow> None | b # _ \<Rightarrow> Some b) =
    (if last_opt us = Some j then (case vs of [] \<Rightarrow> None | b # _ \<Rightarrow> Some b)
     else (case after j (us @ i # vs) of [] \<Rightarrow> None | b # _ \<Rightarrow> Some b))"
proof (cases "j \<in> set us")
  case True
  then obtain ws where ws: "us = ws @ j # after j us" using split_at by metis
  have "last_opt us = Some j \<longleftrightarrow> after j us = []"
  proof
    assume "last_opt us = Some j"
    then obtain zs where zs: "us = zs @ [j]" by (auto simp: last_opt_Some)
    then have "j \<notin> set zs" using assms(1) by auto
    then show "after j us = []" unfolding zs by (simp add: chain)
  next
    assume a: "after j us = []"
    then have "us = ws @ [j]" using ws by simp
    then show "last_opt us = Some j" by simp
  qed
  with True show ?thesis by (cases "after j us") (auto simp: chain)
next
  case False
  then have "last_opt us \<noteq> Some j" by (auto dest: last_opt_in)
  with False assms show ?thesis by (auto simp: chain)
qed

lemma iter_free_correct:
  assumes v: "iter_view sa ps its F pos" and i: "i \<in> set its"
  shows "\<exists>sa'. skiparray_iter_free sa (Some i) = Some sa' \<and> iter_view sa' ps (remove1 i its) F pos"
proof -
  obtain ns where w: "wf sa ns its" and ps: "pairs_of (heap sa) ns = ps" "F = foreign sa ns its"
    "its \<noteq> [] \<Longrightarrow> ps \<noteq> []" "\<And>i. i \<in> set its \<Longrightarrow> located sa ns i (pos i)"
    using v by (rule iter_viewE) blast
  note it = wfD(5) [OF w]
  obtain us vs where uv: "its = us @ i # vs" using split_list [OF i] by blast
  have d: "distinct (us @ i # vs)" "distinct (us @ vs)" using it uv by (auto simp: iters_ok_def)
  have rm: "remove1 i its = us @ vs" using d uv by (simp add: remove1_append)
  have at: "\<exists>jt. iters sa j = Some jt \<and> it_n jt \<in> set ns \<and> it_prev jt = prev_of j (us @ i # vs) \<and>
      it_next jt = (case after j (us @ i # vs) of [] \<Rightarrow> None | b # _ \<Rightarrow> Some b)" if "j \<in> set (us @ i # vs)" for j
    using it that unfolding uv iters_ok_def by blast
  have dom: "dom (iters sa) = set (us @ i # vs)" using it uv by (simp add: iters_ok_def)
  obtain x where x: "iters sa i = Some x" "it_prev x = last_opt us" "it_next x = (case vs of [] \<Rightarrow> None | b # _ \<Rightarrow> Some b)"
    using at [of i] d by (auto simp: chain prev_of_split)
  have hd: "iter sa = Some (hd (us @ [i]))" using it uv by (cases us) (auto simp: iters_ok_def)
  let ?nx = "case vs of [] \<Rightarrow> None | b # _ \<Rightarrow> Some b"
  define g where "g = (\<lambda>(j :: addr) (jt :: skiparray_iter). jt\<lparr>it_next := (if last_opt us = Some j then ?nx else it_next jt),
      it_prev := (if ?nx = Some j then last_opt us else it_prev jt)\<rparr>)"
  define I1 where "I1 = (\<lambda>j. map_option (g j) (iters sa j))"
  have gid: "g j jt = jt" if "last_opt us \<noteq> Some j" "?nx \<noteq> Some j" for j jt using that by (simp add: g_def)
  have gi: "I1 i = Some x"
  proof -
    have "last_opt us \<noteq> Some i" "?nx \<noteq> Some i" using d(1) by (auto dest: last_opt_in split: list.splits)
    with gid x(1) show ?thesis by (simp add: I1_def)
  qed
  obtain s1 where s1: "(case it_prev x of
        None \<Rightarrow> do { assert_c (iter sa = Some i); set_prev (sa\<lparr>iter := it_next x\<rparr>) (it_next x) None }
      | Some p \<Rightarrow> do { pt \<leftarrow> iters sa p; set_prev (set_iter sa p (pt\<lparr>it_next := it_next x\<rparr>)) (it_next x) (it_prev x) }) = Some s1"
    "s1 = sa\<lparr>iter := (if us = [] then ?nx else iter sa), iters := I1\<rparr>"
  proof (cases us)
    case Nil
    show ?thesis
    proof (cases vs)
      case vN: Nil
      have "I1 = iters sa" using Nil vN gid by (auto simp: I1_def fun_eq_iff option.map_ident_strong)
      with Nil vN x hd show ?thesis by (intro that [of "sa\<lparr>iter := None\<rparr>"]) (simp_all add: set_prev_def)
    next
      case (Cons q qs)
      obtain qt where qt: "iters sa q = Some qt" using at [of q] Cons by auto
      have "I1 = (iters sa)(q \<mapsto> qt\<lparr>it_prev := None\<rparr>)"
        using Nil Cons qt gid by (auto simp: I1_def fun_eq_iff g_def option.map_ident_strong)
      with Nil Cons x hd qt show ?thesis
        by (intro that [of "sa\<lparr>iter := Some q, iters := (iters sa)(q \<mapsto> qt\<lparr>it_prev := None\<rparr>)\<rparr>"])
          (simp_all add: set_prev_def set_iter_def)
    qed
  next
    case (Cons u0 us0)
    then obtain ws p where us: "us = ws @ [p]" by (metis append_butlast_last_id list.distinct(1))
    obtain pt where pt: "iters sa p = Some pt" using at [of p] us by auto
    have une: "us \<noteq> []" using Cons by simp
    show ?thesis
    proof (cases vs)
      case vN: Nil
      have "I1 = (iters sa)(p \<mapsto> pt\<lparr>it_next := None\<rparr>)"
        using us vN pt gid by (auto simp: I1_def fun_eq_iff g_def option.map_ident_strong)
      with us vN x pt show ?thesis
        by (intro that [of "sa\<lparr>iters := (iters sa)(p \<mapsto> pt\<lparr>it_next := None\<rparr>)\<rparr>"]) (simp_all add: set_prev_def set_iter_def)
    next
      case vC: (Cons q qs)
      obtain qt where qt: "iters sa q = Some qt" using at [of q] vC by auto
      have pq: "p \<noteq> q" using d us vC by auto
      have "I1 = (iters sa)(p \<mapsto> pt\<lparr>it_next := Some q\<rparr>, q \<mapsto> qt\<lparr>it_prev := Some p\<rparr>)"
        using us vC pt qt pq gid by (auto simp: I1_def fun_eq_iff g_def option.map_ident_strong)
      with us vC x pt qt pq show ?thesis
        by (intro that [of "sa\<lparr>iters := (iters sa)(p \<mapsto> pt\<lparr>it_next := Some q\<rparr>, q \<mapsto> qt\<lparr>it_prev := Some p\<rparr>)\<rparr>"])
          (simp_all add: set_prev_def set_iter_def)
    qed
  qed
  have own: "distinct (blocks sa ns its)" "set (blocks sa ns its) \<subseteq> set (live (mst sa))"
    using wfD(6) [OF w] by (auto simp: owned_def)
  have "i \<in> set (live (mst s1))" using own(2) i s1(2) by (auto simp: blocks_def)
  then obtain m where m: "mem_free i (mst s1) = Some m" "live m = removeAll i (live (mst s1))" using mem_free_Some by blast
  let ?s = "s1\<lparr>iters := (iters s1)(i := None), mst := m\<rparr>"
  have e: "heap ?s = heap sa" "nodes ?s = nodes sa" "mst ?s = m"
    "self ?s = self sa" "node_size ?s = node_size sa" "max_level ?s = max_level sa" "sa_height ?s = sa_height sa"
    "use_values ?s = use_values sa" "mem ?s = mem sa" "cmp ?s = cmp sa" "level ?s = level sa"
    unfolding s1(2) by simp_all
  have fr: "skiparray_iter_free sa (Some i) = Some ?s"
    using x(1) s1(1) m(1) by (simp add: skiparray_iter_free_def)
  have new: "\<exists>jt jt'. iters sa j = Some jt \<and> iters ?s j = Some jt' \<and> it_n jt' = it_n jt \<and> it_index jt' = it_index jt \<and>
      it_n jt \<in> set ns \<and> it_prev jt' = prev_of j (us @ vs) \<and>
      it_next jt' = (case after j (us @ vs) of [] \<Rightarrow> None | b # _ \<Rightarrow> Some b)" if j: "j \<in> set (us @ vs)" for j
  proof -
    obtain jt where jt: "iters sa j = Some jt" "it_n jt \<in> set ns" "it_prev jt = prev_of j (us @ i # vs)"
      "it_next jt = (case after j (us @ i # vs) of [] \<Rightarrow> None | b # _ \<Rightarrow> Some b)" using at [of j] j by auto
    have ji: "j \<noteq> i" using j d by auto
    have nx: "it_next (g j jt) = (case after j (us @ vs) of [] \<Rightarrow> None | b # _ \<Rightarrow> Some b)"
      using after_remove [OF d(1) j] jt(4) by (simp add: g_def)
    have pv: "it_prev (g j jt) = prev_of j (us @ vs)"
    proof (cases "j \<in> set us")
      case True
      then have "?nx \<noteq> Some j" using d(1) by (cases vs) auto
      with True jt(3) show ?thesis by (simp add: g_def chain)
    next
      case False
      then obtain q qs where vs: "vs = q # qs" using j by (cases vs) auto
      have n: "j \<notin> set (us @ [i])" using False ji by simp
      show ?thesis
        using prev_of_notin [OF n, of q qs] prev_of_notin [OF False, of q qs] jt(3) vs by (auto simp: g_def)
    qed
    have "iters ?s j = Some (g j jt)" using jt(1) ji s1(2) by (simp add: I1_def)
    with jt nx pv show ?thesis by (intro exI [of _ jt] exI [of _ "g j jt"]) (simp add: g_def)
  qed
  have ok: "iters_ok ?s ns (us @ vs)"
  proof -
    have "dom (iters ?s) = set (us @ vs)" using dom d s1(2) by (auto simp: I1_def domIff)
    moreover have "iter ?s = (case us @ vs of [] \<Rightarrow> None | a # _ \<Rightarrow> Some a)"
      using hd s1(2) by (cases us) auto
    moreover have "\<exists>jt. iters ?s j = Some jt \<and> it_n jt \<in> set ns \<and> it_prev jt = prev_of j (us @ vs) \<and>
        it_next jt = (case after j (us @ vs) of [] \<Rightarrow> None | b # _ \<Rightarrow> Some b)" if "j \<in> set (us @ vs)" for j
      using new [OF that] by metis
    ultimately show ?thesis using d(2) unfolding iters_ok_def by blast
  qed
  have b: "set (blocks sa ns its) = insert i (set (blocks ?s ns (us @ vs)))" "i \<notin> set (blocks ?s ns (us @ vs))"
    "distinct (blocks ?s ns (us @ vs))"
    using own(1) uv e(1,4) by (auto simp: blocks_def)
  have "owned ?s ns (us @ vs)" using b own(2) m(2) s1(2) by (auto simp: owned_def)
  then have wf': "wf ?s ns (us @ vs)" by (intro wf_parts [OF w _ _ _ _ _ _ _ _ _ _ ok]) (use e in simp_all)
  have fo: "foreign ?s ns (us @ vs) = F" using b m(2) ps(2) s1(2) by auto
  have "located ?s ns j (pos j)" if j: "j \<in> set (us @ vs)" for j
  proof -
    have "j \<in> set its" using j uv by auto
    then obtain xs b zs jt where l: "ns = xs @ b # zs" "iters sa j = Some jt" "it_n jt = b"
      "it_index jt < length (pairs_at (heap sa) b) \<or> zs = [] \<and> it_index jt = length (pairs_at (heap sa) b)"
      "pos j = length (pairs_of (heap sa) xs) + it_index jt" using ps(4) by (blast elim: locatedE)
    obtain jt' where jt': "iters ?s j = Some jt'" "it_n jt' = it_n jt" "it_index jt' = it_index jt"
      using new [OF j] l(2) by auto
    with l e(1) show ?thesis unfolding located_def
      by (intro exI [of _ xs], intro exI [of _ b], intro exI [of _ zs], intro exI [of _ jt']) simp
  qed
  then have "iter_view ?s ps (us @ vs) F pos"
    unfolding iter_view_def using wf' fo ps(1,3) e(1) uv by (intro exI [of _ ns]) simp
  with fr rm show ?thesis by auto
qed

section \<open>Moving iterators\<close>

lemma iter_view_at:
  assumes v: "iter_view sa ps its F pos" and i: "i \<in> set its"
  obtains ns xs a ys it n where "wf sa ns its" "pairs_of (heap sa) ns = ps" "F = foreign sa ns its"
    "its \<noteq> [] \<longrightarrow> ps \<noteq> []" "\<forall>j \<in> set its. located sa ns j (pos j)"
    "ns = xs @ a # ys" "iters sa i = Some it" "it_n it = a" "heap sa a = Some n"
    "node_ok (node_size sa) (use_values sa) n" "length (pairs_at (heap sa) a) = count n" "pairs_at (heap sa) a = node_pairs n"
    "it_index it < count n \<or> ys = [] \<and> it_index it = count n"
    "pos i = length (pairs_of (heap sa) xs) + it_index it" "count n < 65536"
proof -
  obtain ns where w: "wf sa ns its" and ps: "pairs_of (heap sa) ns = ps" "F = foreign sa ns its"
    "its \<noteq> [] \<Longrightarrow> ps \<noteq> []" "\<And>i. i \<in> set its \<Longrightarrow> located sa ns i (pos i)"
    using v by (rule iter_viewE) blast
  obtain xs a ys it where l: "ns = xs @ a # ys" "iters sa i = Some it" "it_n it = a"
    "it_index it < length (pairs_at (heap sa) a) \<or> ys = [] \<and> it_index it = length (pairs_at (heap sa) a)"
    "pos i = length (pairs_of (heap sa) xs) + it_index it" using ps(4) [OF i] by (rule locatedE)
  obtain n where n: "heap sa a = Some n" "node_ok (node_size sa) (use_values sa) n"
    using shape_node [OF wfD(2) [OF w], of a] l(1) by auto
  have "count n < 65536" using node_okD(4) [OF n(2)] cfg_okD(2) [OF wfD(1) [OF w]] by simp
  with w ps l n show ?thesis
    by (intro that [OF w ps(1,2)]) (auto simp: pairs_at_ok(1) [OF n] at_Some)
qed

lemma iter_get_correct:
  assumes v: "iter_view sa ps its F pos" and i: "i \<in> set its"
  shows "skiparray_iter_get sa i = (if pos i < length ps then Some (out_of sa (ps ! pos i)) else None)"
  using v i
proof (rule iter_view_at)
  fix ns xs a ys it n
  assume a: "wf sa ns its" "pairs_of (heap sa) ns = ps" "ns = xs @ a # ys" "iters sa i = Some it" "it_n it = a" "heap sa a = Some n"
    "node_ok (node_size sa) (use_values sa) n" "length (pairs_at (heap sa) a) = count n" "pairs_at (heap sa) a = node_pairs n"
    "it_index it < count n \<or> ys = [] \<and> it_index it = count n" "pos i = length (pairs_of (heap sa) xs) + it_index it"
    "count n < 65536"
  have len: "length (node_pairs n) = count n" using a(8,9) by simp
  have ps: "ps = pairs_of (heap sa) xs @ node_pairs n @ pairs_of (heap sa) ys" using a(2,3,9) by simp
  show ?thesis
  proof (cases "it_index it < count n")
    case True
    have "u16 (offset n + it_index it) = offset n + it_index it"
      using node_okD(3) [OF a(7)] True cfg_okD(2) [OF wfD(1) [OF a(1)]] by simp
    moreover have "ps ! pos i = node_pairs n ! it_index it" "pos i < length ps"
      using True len unfolding ps a(11) by (simp_all add: nth_append)
    ultimately show ?thesis
      using a(4-6) True out_pair_correct [OF a(7) True] by (simp add: skiparray_iter_get_def out_of_def)
  next
    case False
    then have "\<not> pos i < length ps" using a(10,11) len unfolding ps by auto
    with a(4-6) False show ?thesis by (simp add: skiparray_iter_get_def assert_c_def)
  qed
qed

lemma iter_next_correct:
  assumes v: "iter_view sa ps its F pos" and i: "i \<in> set its" and k: "pos i < length ps"
  shows "\<exists>sa'. skiparray_iter_next sa i =
      Some (if Suc (pos i) = length ps then SKIPARRAY_ITER_STEP_END else SKIPARRAY_ITER_STEP_OK, sa') \<and>
    iter_view sa' ps its F (pos(i := Suc (pos i)))"
  using v i
proof (rule iter_view_at)
  fix ns xs a ys it n
  assume w: "wf sa ns its" and p: "pairs_of (heap sa) ns = ps" "F = foreign sa ns its"
    "its \<noteq> [] \<longrightarrow> ps \<noteq> []" "\<forall>j \<in> set its. located sa ns j (pos j)"
    and a: "ns = xs @ a # ys" "iters sa i = Some it" "it_n it = a" "heap sa a = Some n"
    "node_ok (node_size sa) (use_values sa) n" "length (pairs_at (heap sa) a) = count n" "pairs_at (heap sa) a = node_pairs n"
    "it_index it < count n \<or> ys = [] \<and> it_index it = count n" "pos i = length (pairs_of (heap sa) xs) + it_index it"
    "count n < 65536"
  note sh = wfD(2) [OF w]
  have len: "length (node_pairs n) = count n" using a(6,7) by simp
  have ps: "ps = pairs_of (heap sa) xs @ node_pairs n @ pairs_of (heap sa) ys" using p(1) a(1,7) by simp
  have lt: "it_index it < count n" using a(8,9) k len unfolding ps by auto
  then have u: "u16 (it_index it + 1) = it_index it + 1" using a(10) by simp
  have d: "distinct (xs @ a # ys)" using sh a(1) by (simp add: shape_def)
  have f: "get_fwd sa a 0 = Some (case ys of [] \<Rightarrow> None | y # _ \<Rightarrow> Some y)"
    using get_fwd_shape [OF sh, of a 0] shape_ht(1) [OF sh, of a] nxt0 [OF sh, of ys] a(1) d by (auto simp: chain)
  note mi = move_iter [OF w p i a(2)]
  show ?thesis
  proof (cases "it_index it + 1 = count n")
    case False
    then have "it_index it + 1 < length (pairs_at (heap sa) a) \<or> ys = [] \<and> it_index it + 1 = length (pairs_at (heap sa) a)"
      using lt a(6) by simp
    note m = mi [OF a(1) this]
    have "Suc (pos i) \<noteq> length ps" using False lt len a(9) unfolding ps by auto
    with a(2-4,9) u False m move_iter_index [OF a(2,3)] show ?thesis by (simp add: skiparray_iter_next_def Let_def)
  next
    case True
    show ?thesis
    proof (cases ys)
      case Nil
      have "it_index it + 1 < length (pairs_at (heap sa) a) \<or> ys = [] \<and> it_index it + 1 = length (pairs_at (heap sa) a)"
        using True Nil a(6) by simp
      note m = mi [OF a(1) this]
      have e: "Suc (pos i) = length ps" "length (pairs_of (heap sa) xs) + (it_index it + 1) = Suc (pos i)"
        using True Nil len a(9) unfolding ps by simp_all
      have "skiparray_iter_next sa i =
          Some (SKIPARRAY_ITER_STEP_END, set_iter sa i (it\<lparr>it_n := a, it_index := it_index it + 1\<rparr>))"
        using a(2-4) u True Nil f move_iter_index [OF a(2,3)] by (simp add: skiparray_iter_next_def Let_def)
      with e(1) m [unfolded e(2)] show ?thesis by simp
    next
      case (Cons y zs)
      have "nonempty_nodes sa ns" using wf_nonempty [OF w] a(1) Cons by (cases xs) auto
      then have "pairs_at (heap sa) y \<noteq> []" using a(1) Cons by (simp add: nonempty_nodes_def)
      then have y: "0 < length (pairs_at (heap sa) y) \<or> zs = [] \<and> 0 = length (pairs_at (heap sa) y)" by simp
      have ns: "ns = (xs @ [a]) @ y # zs" using a(1) Cons by simp
      note m = mi [OF ns y]
      have "Suc (pos i) \<noteq> length ps" "Suc (pos i) = length (pairs_of (heap sa) (xs @ [a])) + 0"
        using True Cons len a(7,9) \<open>pairs_at (heap sa) y \<noteq> []\<close> unfolding ps by auto
      with a(2-4) u True Cons f m show ?thesis by (simp add: skiparray_iter_next_def Let_def)
    qed
  qed
qed

text \<open>
  Past the end, where \<^verbatim>\<open>SKIPARRAY_ITER_STEP_END\<close> leaves the iterator, another call of
  \<^verbatim>\<open>skiparray_iter_next\<close> reports success and moves outside the node.
\<close>

lemma iter_next_past_end:
  assumes v: "iter_view sa ps its F pos" and i: "i \<in> set its" and k: "pos i = length ps" and ns: "node_size sa < 65535"
  shows "\<exists>sa'. skiparray_iter_next sa i = Some (SKIPARRAY_ITER_STEP_OK, sa') \<and> skiparray_iter_get sa' i = None"
  using v i
proof (rule iter_view_at)
  fix ns xs a ys it n
  assume p: "wf sa ns its" "pairs_of (heap sa) ns = ps"
    and a: "ns = xs @ a # ys" "iters sa i = Some it" "it_n it = a" "heap sa a = Some n"
    "node_ok (node_size sa) (use_values sa) n" "length (pairs_at (heap sa) a) = count n" "pairs_at (heap sa) a = node_pairs n"
    "it_index it < count n \<or> ys = [] \<and> it_index it = count n" "pos i = length (pairs_of (heap sa) xs) + it_index it"
    "count n < 65536"
  have len: "length (node_pairs n) = count n" using a(6,7) by simp
  have "ps = pairs_of (heap sa) xs @ node_pairs n @ pairs_of (heap sa) ys" using p(2) a(1,7) by simp
  then have e: "it_index it = count n" using a(8,9) k len by auto
  have cn: "count n \<le> node_size sa" "node_size sa < 65536"
    using node_okD(4) [OF a(5)] cfg_okD(2) [OF wfD(1) [OF p(1)]] by auto
  have u: "u16 (count n + 1) = count n + 1" using cn(1) ns by simp
  let ?s = "set_iter sa i (it\<lparr>it_index := count n + 1\<rparr>)"
  have "skiparray_iter_next sa i = Some (SKIPARRAY_ITER_STEP_OK, ?s)"
    using a(2-4) e u by (simp add: skiparray_iter_next_def Let_def)
  moreover have "skiparray_iter_get ?s i = None" using a(2-4) by (simp add: skiparray_iter_get_def assert_c_def)
  ultimately show ?thesis by blast
qed


lemma iter_prev_correct:
  assumes v: "iter_view sa ps its F pos" and i: "i \<in> set its"
  shows "\<exists>sa'. skiparray_iter_prev sa i =
      Some (if pos i = 0 then SKIPARRAY_ITER_STEP_END else SKIPARRAY_ITER_STEP_OK, sa') \<and>
    iter_view sa' ps its F (pos(i := pos i - 1))"
  using v i
proof (rule iter_view_at)
  fix ns xs a ys it n
  assume w: "wf sa ns its" and p: "pairs_of (heap sa) ns = ps" "F = foreign sa ns its"
    "its \<noteq> [] \<longrightarrow> ps \<noteq> []" "\<forall>j \<in> set its. located sa ns j (pos j)"
    and a: "ns = xs @ a # ys" "iters sa i = Some it" "it_n it = a" "heap sa a = Some n"
    "node_ok (node_size sa) (use_values sa) n" "length (pairs_at (heap sa) a) = count n" "pairs_at (heap sa) a = node_pairs n"
    "it_index it < count n \<or> ys = [] \<and> it_index it = count n" "pos i = length (pairs_of (heap sa) xs) + it_index it"
    "count n < 65536"
  note sh = wfD(2) [OF w]
  have d: "distinct (xs @ a # ys)" using sh a(1) by (simp add: shape_def)
  have bk: "back_p n = last_opt xs"
    using sh a(1,4) d by (auto simp: shape_def at_Some prev_of_split)
  note mi = move_iter [OF w p i a(2)]
  show ?thesis
  proof (cases "it_index it = 0")
    case False
    then have "it_index it - 1 < length (pairs_at (heap sa) a) \<or> ys = [] \<and> it_index it - 1 = length (pairs_at (heap sa) a)"
      using a(6,8) by auto
    note m = mi [OF a(1) this]
    have u: "u16_dec (it_index it) 1 = it_index it - 1" using False a(8,10) by auto
    have e: "pos i \<noteq> 0" "length (pairs_of (heap sa) xs) + (it_index it - 1) = pos i - 1" using False a(9) by auto
    have "skiparray_iter_prev sa i =
        Some (SKIPARRAY_ITER_STEP_OK, set_iter sa i (it\<lparr>it_n := a, it_index := it_index it - 1\<rparr>))"
      using a(2) u False move_iter_index [OF a(2,3)] by (simp add: skiparray_iter_prev_def)
    with e(1) m [unfolded e(2)] show ?thesis by simp
  next
    case True
    show ?thesis
    proof (cases xs rule: rev_cases)
      case Nil
      then have "pos i = 0" using True a(9) by simp
      moreover from this have "pos(i := pos i - 1) = pos" by auto
      ultimately show ?thesis using True a(2-4) bk Nil v by (simp add: skiparray_iter_prev_def)
    next
      case (snoc us b)
      have ns: "ns = us @ b # a # ys" using a(1) snoc by simp
      obtain bn where bn: "heap sa b = Some bn" "node_ok (node_size sa) (use_values sa) bn"
        using shape_node [OF sh, of b] ns by auto
      have len: "length (pairs_at (heap sa) b) = count bn" by (rule pairs_at_ok(1) [OF bn])
      have "nonempty_nodes sa ns" using wf_nonempty [OF w] ns by (cases us) auto
      then have c: "0 < count bn" using ns by (auto simp: nonempty_nodes_def simp flip: len)
      then have "count bn - 1 < length (pairs_at (heap sa) b) \<or>
          a # ys = [] \<and> count bn - 1 = length (pairs_at (heap sa) b)" using len by simp
      note m = mi [OF ns this]
      have u: "u16_dec (count bn) 1 = count bn - 1"
        using c node_okD(4) [OF bn(2)] cfg_okD(2) [OF wfD(1) [OF w]] by simp
      have e: "pos i \<noteq> 0" "length (pairs_of (heap sa) us) + (count bn - 1) = pos i - 1"
        using True c a(9) len snoc by auto
      have "skiparray_iter_prev sa i =
          Some (SKIPARRAY_ITER_STEP_OK, set_iter sa i (it\<lparr>it_n := b, it_index := count bn - 1\<rparr>))"
        using True a(2-4) bk snoc bn(1) u by (simp add: skiparray_iter_prev_def)
      with e(1) m [unfolded e(2)] show ?thesis by simp
    qed
  qed
qed

lemma iter_seek_endpoint_correct:
  assumes v: "iter_view sa ps its F pos" and i: "i \<in> set its"
  shows "\<exists>sa'. skiparray_iter_seek_endpoint sa i which = Some sa' \<and>
    iter_view sa' ps its F
      (pos(i := (case which of SKIPARRAY_ITER_SEEK_FIRST \<Rightarrow> 0 | SKIPARRAY_ITER_SEEK_LAST \<Rightarrow> length ps - 1)))"
  using v i
proof (rule iter_view_at)
  fix ns xs a ys it n
  assume w: "wf sa ns its" and p: "pairs_of (heap sa) ns = ps" "F = foreign sa ns its"
    "its \<noteq> [] \<longrightarrow> ps \<noteq> []" "\<forall>j \<in> set its. located sa ns j (pos j)" and it: "iters sa i = Some it"
  note mi = move_iter [OF w p i it] and sh = wfD(2) [OF w]
  have "ns \<noteq> []" using sh by (simp add: shape_def)
  have "ps \<noteq> []" using p(3) i by auto
  with w p(1) have ne: "nonempty_nodes sa ns" by (cases rule: wf_cases) (auto simp: full_def)
  show ?thesis
  proof (cases which)
    case SKIPARRAY_ITER_SEEK_FIRST
    have ns: "ns = [] @ hd ns # tl ns" using \<open>ns \<noteq> []\<close> by simp
    have "pairs_at (heap sa) (hd ns) \<noteq> []" using ne \<open>ns \<noteq> []\<close> by (simp add: nonempty_nodes_def)
    then have "0 < length (pairs_at (heap sa) (hd ns)) \<or> tl ns = [] \<and> 0 = length (pairs_at (heap sa) (hd ns))" by simp
    note m = mi [OF ns this]
    then show ?thesis
      using SKIPARRAY_ITER_SEEK_FIRST it head0 [OF w] by (simp add: skiparray_iter_seek_endpoint_def)
  next
    case SKIPARRAY_ITER_SEEK_LAST
    have ns: "ns = butlast ns @ last ns # []" using \<open>ns \<noteq> []\<close> by simp
    obtain m where n: "heap sa (last ns) = Some m" "node_ok (node_size sa) (use_values sa) m"
      using shape_node [OF sh, of "last ns"] \<open>ns \<noteq> []\<close> by auto
    have len: "length (pairs_at (heap sa) (last ns)) = count m" by (rule pairs_at_ok(1) [OF n])
    have c: "0 < count m" using ne last_in_set [OF \<open>ns \<noteq> []\<close>] by (auto simp: nonempty_nodes_def simp flip: len)
    then have "count m - 1 < length (pairs_at (heap sa) (last ns)) \<or>
        [] = ([] :: addr list) \<and> count m - 1 = length (pairs_at (heap sa) (last ns))" using len by simp
    note mv = mi [OF ns this]
    have "length ps = length (pairs_of (heap sa) (butlast ns @ [last ns]))" using p(1) \<open>ns \<noteq> []\<close> by simp
    then have e: "length (pairs_of (heap sa) (butlast ns)) + (count m - 1) = length ps - 1" using len c by simp
    have u: "u16_dec (count m) 1 = count m - 1"
      using c node_okD(4) [OF n(2)] cfg_okD(2) [OF wfD(1) [OF w]] by simp
    show ?thesis
      using SKIPARRAY_ITER_SEEK_LAST it last_node_correct [OF wfD(1,2) [OF w]] n(1) u mv [unfolded e]
      by (simp add: skiparray_iter_seek_endpoint_def)
  qed
qed

text \<open>
  The position a key belongs at, the number of smaller keys: where the search stops.
\<close>

definition seek_pos :: "cmp_fun \<Rightarrow> voidp \<Rightarrow> bindings \<Rightarrow> nat" where
  "seek_pos c key ps = length (takeWhile (\<lambda>p. 0 < c key (fst p)) ps)"

definition seek_found :: "cmp_fun \<Rightarrow> voidp \<Rightarrow> bindings \<Rightarrow> bool" where
  "seek_found c key ps \<longleftrightarrow> seek_pos c key ps < length ps \<and> c key (fst (ps ! seek_pos c key ps)) = 0"

lemma seek_pos_below:
  assumes "below c key (map fst us)" "\<not> (case vs of [] \<Rightarrow> False | p # _ \<Rightarrow> 0 < c key (fst p))"
  shows "seek_pos c key (us @ vs) = length us"
proof -
  have "takeWhile (\<lambda>p. 0 < c key (fst p)) (us @ vs) = us @ takeWhile (\<lambda>p. 0 < c key (fst p)) vs"
    using assms(1) by (intro takeWhile_append2) (auto simp: below_def)
  moreover have "takeWhile (\<lambda>p. 0 < c key (fst p)) vs = []" using assms(2) by (cases vs) auto
  ultimately show ?thesis by (simp add: seek_pos_def)
qed

lemma search_seek:
  assumes w: "wf sa ns its"
  obtains fd xs a ys n i where "search sa key = Some (if fd then SEARCH_FOUND else SEARCH_NOT_FOUND, a, i)"
    "ns = xs @ a # ys" "heap sa a = Some n" "node_ok (node_size sa) (use_values sa) n" "i \<le> count n"
    "fd \<Longrightarrow> i < count n" "fd = seek_found (call_cmp sa) key (pairs_of (heap sa) ns)"
    "seek_pos (call_cmp sa) key (pairs_of (heap sa) ns) = length (pairs_of (heap sa) xs) + i"
proof -
  obtain fd a i where s: "search sa key = Some (if fd then SEARCH_FOUND else SEARCH_NOT_FOUND, a, i)"
    and pos: "position sa ns key fd a i" using search_correct [OF w] by blast
  from w pos obtain xs ys n where x: "ns = xs @ a # ys" "heap sa a = Some n" "node_ok (node_size sa) (use_values sa) n"
    "i \<le> count n" "below (call_cmp sa) key (map fst (pairs_of (heap sa) xs @ take i (node_pairs n)))"
    "pairs_of (heap sa) ns = pairs_of (heap sa) xs @ node_pairs n @ pairs_of (heap sa) ys"
    "fd \<Longrightarrow> i < count n \<and> call_cmp sa key (fst (node_pairs n ! i)) = 0"
    "\<not> fd \<Longrightarrow> above (call_cmp sa) key (map fst (drop i (node_pairs n) @ pairs_of (heap sa) ys))"
    by (rule position_pairs) blast
  let ?us = "pairs_of (heap sa) xs @ take i (node_pairs n)" let ?vs = "drop i (node_pairs n) @ pairs_of (heap sa) ys"
  have ps: "pairs_of (heap sa) ns = ?us @ ?vs" unfolding x(6) append_assoc
    by (subst append_assoc [symmetric, of "take i (node_pairs n)"]) (simp only: append_take_drop_id)
  have len: "length (node_pairs n) = count n" using x(3) by simp
  have vs: "fd \<Longrightarrow> ?vs = node_pairs n ! i # (drop (Suc i) (node_pairs n) @ pairs_of (heap sa) ys)"
    using x(7) len by (simp add: Cons_nth_drop_Suc [symmetric])
  have nb: "\<not> (case ?vs of [] \<Rightarrow> False | p # _ \<Rightarrow> 0 < call_cmp sa key (fst p))"
  proof (cases fd)
    case True
    with vs x(7) show ?thesis by simp
  next
    case False
    from x(8) [OF False] show ?thesis by (cases ?vs) auto
  qed
  have sp: "seek_pos (call_cmp sa) key (?us @ ?vs) = length ?us" by (rule seek_pos_below [OF x(5) nb])
  have k: "seek_pos (call_cmp sa) key (pairs_of (heap sa) ns) = length (pairs_of (heap sa) xs) + i"
    unfolding ps sp using x(4) len by simp
  have "fd = seek_found (call_cmp sa) key (pairs_of (heap sa) ns)"
  proof (cases fd)
    case True
    have e: "(?us @ ?vs) ! length ?us = node_pairs n ! i" "length ?us < length (?us @ ?vs)"
      by (simp only: vs [OF True] nth_append_length) (simp add: vs [OF True])
    show ?thesis unfolding seek_found_def ps sp by (simp only: e True x(7) [OF True] simp_thms)
  next
    case False
    have "call_cmp sa key (fst ((?us @ ?vs) ! length ?us)) \<noteq> 0" if l: "length ?us < length (?us @ ?vs)"
    proof -
      obtain p qs where "?vs = p # qs" using l by (cases ?vs) auto
      moreover from this x(8) [OF False] have "call_cmp sa key (fst p) < 0" by auto
      ultimately show ?thesis by (simp only: nth_append_length)
    qed
    with False show ?thesis unfolding seek_found_def ps sp by blast
  qed
  with s x(1-4,7) k show ?thesis by (intro that [OF s x(1-4)]) auto
qed

text \<open>A located iterator is moved there; off both ends it stays and the result is an error.\<close>

lemma iter_seek_correct:
  assumes v: "iter_view sa ps its F pos" and i: "i \<in> set its"
  assumes k_def: "k = seek_pos (call_cmp sa) key ps"
  shows "\<exists>res sa'. skiparray_iter_seek sa i key = Some (res, sa') \<and>
    (if seek_found (call_cmp sa) key ps then res = SKIPARRAY_ITER_SEEK_FOUND \<and> iter_view sa' ps its F (pos(i := k))
     else if k = 0 then res = SKIPARRAY_ITER_SEEK_ERROR_BEFORE_FIRST \<and> sa' = sa
     else if k = length ps then res = SKIPARRAY_ITER_SEEK_ERROR_AFTER_LAST \<and> sa' = sa
     else res = SKIPARRAY_ITER_SEEK_NOT_FOUND \<and> iter_view sa' ps its F (pos(i := k)))"
  using v i
proof (rule iter_view_at)
  fix ns xs0 a0 ys0 it n0
  assume w: "wf sa ns its" and p: "pairs_of (heap sa) ns = ps" "F = foreign sa ns its"
    "its \<noteq> [] \<longrightarrow> ps \<noteq> []" "\<forall>j \<in> set its. located sa ns j (pos j)" and it: "iters sa i = Some it"
  note mi = move_iter [OF w p i it] and sh = wfD(2) [OF w]
  have "ps \<noteq> []" using p(3) i by auto
  with w p(1) have ne: "nonempty_nodes sa ns" by (cases rule: wf_cases) (auto simp: full_def)
  obtain fd xs a ys n j where s: "search sa key = Some (if fd then SEARCH_FOUND else SEARCH_NOT_FOUND, a, j)"
    "ns = xs @ a # ys" "heap sa a = Some n" "node_ok (node_size sa) (use_values sa) n" "j \<le> count n" "fd \<Longrightarrow> j < count n"
    "fd = seek_found (call_cmp sa) key (pairs_of (heap sa) ns)"
    "seek_pos (call_cmp sa) key (pairs_of (heap sa) ns) = length (pairs_of (heap sa) xs) + j"
    by (rule search_seek [OF w]) blast
  have fd: "fd = seek_found (call_cmp sa) key ps" and k: "k = length (pairs_of (heap sa) xs) + j"
    using s(7,8) p(1) by (simp_all add: k_def)
  have len: "length (pairs_at (heap sa) a) = count n" by (rule pairs_at_ok(1) [OF s(3,4)])
  have d: "distinct (xs @ a # ys)" using sh s(2) by (simp add: shape_def)
  have bk: "back_p n = last_opt xs" using sh s(2,3) d by (auto simp: shape_def at_Some prev_of_split)
  have xs0: "length (pairs_of (heap sa) xs) = 0 \<longleftrightarrow> xs = []"
    using ne s(2) by (cases xs) (auto simp: nonempty_nodes_def)
  have lp: "length ps = length (pairs_of (heap sa) xs) + count n + length (pairs_of (heap sa) ys)"
    using len unfolding p(1) [symmetric] s(2) by simp
  show ?thesis
  proof (cases "j < count n")
    case True
    then have "j < length (pairs_at (heap sa) a) \<or> ys = [] \<and> j = length (pairs_at (heap sa) a)" using len by simp
    note m = mi [OF s(2) this, folded k]
    have "k \<noteq> length ps" "k = 0 \<longleftrightarrow> j = 0 \<and> back_p n = None"
      using True k lp xs0 bk by (auto simp: last_opt_def split: if_splits)
    with it s(1,3) True m fd show ?thesis by (auto simp: skiparray_iter_seek_def)
  next
    case False
    then have j: "j = count n" "\<not> fd" using s(5,6) by auto
    have c: "0 < count n" using ne s(2) by (auto simp: nonempty_nodes_def simp flip: len)
    have f: "get_fwd sa a 0 = Some (case ys of [] \<Rightarrow> None | y # _ \<Rightarrow> Some y)"
      using get_fwd_shape [OF sh, of a 0] shape_ht(1) [OF sh, of a] nxt0 [OF sh, of ys] s(2) d by (auto simp: chain)
    show ?thesis
    proof (cases ys)
      case Nil
      with j c k lp it s(1,3) f fd show ?thesis by (simp add: skiparray_iter_seek_def)
    next
      case (Cons y zs)
      have ns: "ns = (xs @ [a]) @ y # zs" using s(2) Cons by simp
      have y: "pairs_at (heap sa) y \<noteq> []" using ne ns by (simp add: nonempty_nodes_def)
      then have "0 < length (pairs_at (heap sa) y) \<or> zs = [] \<and> 0 = length (pairs_at (heap sa) y)" by simp
      note m = mi [OF ns this]
      have e: "length (pairs_of (heap sa) (xs @ [a])) + 0 = k" using k j len by simp
      have "k \<noteq> 0" "k \<noteq> length ps" using c j k lp Cons y by auto
      with it s(1,3) f fd j c Cons m [unfolded e] show ?thesis by (simp add: skiparray_iter_seek_def)
    qed
  qed
qed

lemma iter_new_refused:
  assumes "skiparray_iter_new sa = Some (SKIPARRAY_ITER_NEW_ERROR_MEMORY, r, sa')"
  shows "may_refuse sa"
  using assms
  by (auto simp: skiparray_iter_new_def may_refuse_def bind_eq_Some_conv split: if_splits option.splits prod.splits
      intro: mem_alloc_refused)

lemma sample_located: "located sample_locked [2, 5] 8 0"
  unfolding located_def
  by (rule exI [of _ "[]"], rule exI [of _ 2], rule exI [of _ "[5]"],
      rule exI [of _ "\<lparr>it_prev = None, it_next = None, it_n = 2, it_index = 0\<rparr>"])
     (simp add: sample_locked_def at_Some sample_env)

lemma sample_locked_view: "iter_view sample_locked sample_pairs [8] {99} (\<lambda>i. 0)"
proof -
  note sample_located
  moreover have "wf sample_locked [2, 5] [8]" by (rule sample_locked_wf)
  moreover have "pairs_of (heap sample_locked) [2, 5] = sample_pairs" "sample_pairs \<noteq> []"
    using sample_pairs_of by (simp_all add: sample_locked_def sample_pairs_def)
  moreover have "{99} = foreign sample_locked [2, 5] [8]"
    using sample_blocks by (auto simp: blocks_def sample_locked_def)
  ultimately show ?thesis unfolding iter_view_def by (intro exI [of _ "[2, 5]"]) simp
qed

lemma sample_past_end_view:
  "iter_view (set_iter sample_locked 8 \<lparr>it_prev = None, it_next = None, it_n = 5, it_index = 2\<rparr>) sample_pairs [8] {99}
     ((\<lambda>i. 0)(8 := length sample_pairs))"
proof -
  let ?it = "\<lparr>it_prev = None, it_next = None, it_n = 2, it_index = 0\<rparr>"
  note sample_located
  moreover have "pairs_of (heap sample_locked) [2, 5] = sample_pairs" "sample_pairs \<noteq> []"
    using sample_pairs_of by (simp_all add: sample_locked_def sample_pairs_def)
  moreover have "{99} = foreign sample_locked [2, 5] [8]"
    using sample_blocks by (auto simp: blocks_def sample_locked_def)
  moreover have "iters sample_locked 8 = Some ?it" by (simp add: sample_locked_def)
  moreover have "[2, 5] = [2] @ 5 # []" "2 < length (pairs_at (heap sample_locked) 5) \<or>
      [] = ([] :: addr list) \<and> 2 = length (pairs_at (heap sample_locked) 5)"
    by (simp_all add: sample_locked_def at_Some sample_env)
  ultimately have "iter_view (set_iter sample_locked 8 (?it\<lparr>it_n := 5, it_index := 2\<rparr>)) sample_pairs [8] {99}
      ((\<lambda>i. 0)(8 := length (pairs_of (heap sample_locked) [2]) + 2))"
    by (intro move_iter [OF sample_locked_wf, where a = 5 and xs = "[2]" and ys = "[]"]) auto
  moreover have "length (pairs_of (heap sample_locked) [2]) + 2 = length sample_pairs"
    by (simp add: sample_locked_def at_Some sample_env sample_pairs_def)
  ultimately show ?thesis by simp
qed

section \<open>Properties\<close>

text \<open>
  C23. Stepping an active iterator moves it by one pair in key order, across the nodes, and
  leaves every other iterator alone. Forward from the last pair it reports END and stands past
  it; backward from the first pair it reports END and stays. Reading it gives the pair at its
  position, and is an assertion failure past the end. Seeking an endpoint moves it to the
  first or the last pair.
\<close>

theorem iter_step_spec:
  assumes "iter_view sa ps its F pos" "i \<in> set its"
  shows "skiparray_iter_get sa i = (if pos i < length ps then Some (out_of sa (ps ! pos i)) else None) \<and>
    (pos i < length ps \<longrightarrow> (\<exists>sa'. skiparray_iter_next sa i =
       Some (if Suc (pos i) = length ps then SKIPARRAY_ITER_STEP_END else SKIPARRAY_ITER_STEP_OK, sa') \<and>
       iter_view sa' ps its F (pos(i := Suc (pos i))))) \<and>
    (\<exists>sa'. skiparray_iter_prev sa i =
       Some (if pos i = 0 then SKIPARRAY_ITER_STEP_END else SKIPARRAY_ITER_STEP_OK, sa') \<and>
       iter_view sa' ps its F (pos(i := pos i - 1))) \<and>
    (\<exists>sa'. skiparray_iter_seek_endpoint sa i which = Some sa' \<and>
       iter_view sa' ps its F
         (pos(i := (case which of SKIPARRAY_ITER_SEEK_FIRST \<Rightarrow> 0 | SKIPARRAY_ITER_SEEK_LAST \<Rightarrow> length ps - 1))))"
  using iter_get_correct [OF assms] iter_next_correct [OF assms] iter_prev_correct [OF assms]
    iter_seek_endpoint_correct [OF assms] by blast

theorem iter_step_spec_witness:
  "skiparray_iter_get sample_locked 8 = (if 0 < length sample_pairs then Some (out_of sample_locked (sample_pairs ! 0)) else None) \<and>
    (\<exists>sa'. skiparray_iter_next sample_locked 8 =
       Some (if Suc 0 = length sample_pairs then SKIPARRAY_ITER_STEP_END else SKIPARRAY_ITER_STEP_OK, sa') \<and>
       iter_view sa' sample_pairs [8] {99} ((\<lambda>i. 0)(8 := Suc 0))) \<and>
    (\<exists>sa'. skiparray_iter_prev sample_locked 8 =
       Some (if 0 = (0 :: nat) then SKIPARRAY_ITER_STEP_END else SKIPARRAY_ITER_STEP_OK, sa') \<and>
       iter_view sa' sample_pairs [8] {99} ((\<lambda>i. 0)(8 := 0 - 1))) \<and>
    (\<exists>sa'. skiparray_iter_seek_endpoint sample_locked 8 SKIPARRAY_ITER_SEEK_LAST = Some sa' \<and>
       iter_view sa' sample_pairs [8] {99} ((\<lambda>i. 0)(8 := length sample_pairs - 1)))"
  using iter_step_spec [OF sample_locked_view, of 8 SKIPARRAY_ITER_SEEK_LAST] by (simp add: sample_pairs_def)

text \<open>
  C24. Seeking a key moves the iterator to the first pair whose key is not smaller: FOUND when
  it compares equal, NOT_FOUND otherwise. When all keys are greater, or all smaller, the
  iterator stays where it is and the result says which.
\<close>

theorem iter_seek_spec:
  assumes "iter_view sa ps its F pos" "i \<in> set its" "k = seek_pos (call_cmp sa) key ps"
  shows "\<exists>res sa'. skiparray_iter_seek sa i key = Some (res, sa') \<and>
    (if seek_found (call_cmp sa) key ps then res = SKIPARRAY_ITER_SEEK_FOUND \<and> iter_view sa' ps its F (pos(i := k))
     else if k = 0 then res = SKIPARRAY_ITER_SEEK_ERROR_BEFORE_FIRST \<and> sa' = sa
     else if k = length ps then res = SKIPARRAY_ITER_SEEK_ERROR_AFTER_LAST \<and> sa' = sa
     else res = SKIPARRAY_ITER_SEEK_NOT_FOUND \<and> iter_view sa' ps its F (pos(i := k)))"
  by (rule iter_seek_correct [OF assms])

theorem iter_seek_spec_witness:
  "\<exists>res sa'. skiparray_iter_seek sample_locked 8 4 = Some (res, sa') \<and>
    (if seek_found (call_cmp sample_locked) 4 sample_pairs
     then res = SKIPARRAY_ITER_SEEK_FOUND \<and> iter_view sa' sample_pairs [8] {99} ((\<lambda>i. 0)(8 := 3))
     else if (3 :: nat) = 0 then res = SKIPARRAY_ITER_SEEK_ERROR_BEFORE_FIRST \<and> sa' = sample_locked
     else if 3 = length sample_pairs then res = SKIPARRAY_ITER_SEEK_ERROR_AFTER_LAST \<and> sa' = sample_locked
     else res = SKIPARRAY_ITER_SEEK_NOT_FOUND \<and> iter_view sa' sample_pairs [8] {99} ((\<lambda>i. 0)(8 := 3)))"
  by (rule iter_seek_spec [OF sample_locked_view])
     (simp_all add: sample_locked_def sample_def seek_pos_def sample_pairs_def cmp_intptr_t_def)

text \<open>
  C25. Creating an iterator: on an empty skiparray there is nothing to iterate over and
  nothing changes; otherwise a new iterator heads the list of active ones, at the first pair,
  the others staying where they are, or, only when the memory callback may refuse a request,
  an error with none created. Freeing an active iterator takes it out of the list of active
  ones, gives back exactly its block, and leaves the pairs and the positions of the others as
  they are; when it was the last, the skiparray is unlocked again. Freeing NULL does nothing.
\<close>

theorem iter_new_spec:
  assumes "iter_view sa ps its F pos"
  shows "(\<exists>res r sa'. skiparray_iter_new sa = Some (res, r, sa') \<and>
    (if ps = [] then res = SKIPARRAY_ITER_NEW_EMPTY \<and> r = None \<and> sa' = sa
     else res = SKIPARRAY_ITER_NEW_ERROR_MEMORY \<and> r = None \<and> iter_view sa' ps its F pos \<and> may_refuse sa \<or>
       (\<exists>i. res = SKIPARRAY_ITER_NEW_OK \<and> r = Some i \<and> i \<notin> set its \<and> iter_view sa' ps (i # its) F (pos(i := 0))))) \<and>
    (\<forall>i \<in> set its. \<exists>sa'. skiparray_iter_free sa (Some i) = Some sa' \<and> iter_view sa' ps (remove1 i its) F pos \<and>
       (has_iterators sa' \<longleftrightarrow> its \<noteq> [i])) \<and>
    skiparray_iter_free sa None = Some sa"
proof (intro conjI ballI)
  obtain res r sa' where n: "skiparray_iter_new sa = Some (res, r, sa')"
    "if ps = [] then res = SKIPARRAY_ITER_NEW_EMPTY \<and> r = None \<and> sa' = sa
     else res = SKIPARRAY_ITER_NEW_ERROR_MEMORY \<and> r = None \<and> iter_view sa' ps its F pos \<or>
       (\<exists>i. res = SKIPARRAY_ITER_NEW_OK \<and> r = Some i \<and> i \<notin> set its \<and> iter_view sa' ps (i # its) F (pos(i := 0)))"
    using iter_new_correct [OF assms] by blast
  moreover have "may_refuse sa" if "res = SKIPARRAY_ITER_NEW_ERROR_MEMORY"
    using iter_new_refused n(1) that by blast
  ultimately show "\<exists>res r sa'. skiparray_iter_new sa = Some (res, r, sa') \<and>
    (if ps = [] then res = SKIPARRAY_ITER_NEW_EMPTY \<and> r = None \<and> sa' = sa
     else res = SKIPARRAY_ITER_NEW_ERROR_MEMORY \<and> r = None \<and> iter_view sa' ps its F pos \<and> may_refuse sa \<or>
       (\<exists>i. res = SKIPARRAY_ITER_NEW_OK \<and> r = Some i \<and> i \<notin> set its \<and> iter_view sa' ps (i # its) F (pos(i := 0))))"
    by (intro exI [of _ res] exI [of _ r] exI [of _ sa']) (auto split: if_splits)
next
  fix i assume i: "i \<in> set its"
  obtain sa' where s: "skiparray_iter_free sa (Some i) = Some sa'" "iter_view sa' ps (remove1 i its) F pos"
    using iter_free_correct [OF assms i] by blast
  moreover have "has_iterators sa' \<longleftrightarrow> remove1 i its \<noteq> []"
    using s(2) iters_ok_locked wfD(5) by (blast elim: iter_viewE)
  moreover have "remove1 i its = [] \<longleftrightarrow> its = [i]" using i by (cases its) auto
  ultimately show "\<exists>sa'. skiparray_iter_free sa (Some i) = Some sa' \<and> iter_view sa' ps (remove1 i its) F pos \<and>
       (has_iterators sa' \<longleftrightarrow> its \<noteq> [i])" by blast
qed (simp add: skiparray_iter_free_def)

theorem iter_new_spec_witness:
  "(\<exists>res r sa'. skiparray_iter_new sample_locked = Some (res, r, sa') \<and>
    (res = SKIPARRAY_ITER_NEW_ERROR_MEMORY \<and> r = None \<and> iter_view sa' sample_pairs [8] {99} (\<lambda>i. 0) \<and>
         may_refuse sample_locked \<or>
       (\<exists>i. res = SKIPARRAY_ITER_NEW_OK \<and> r = Some i \<and> i \<noteq> 8 \<and> iter_view sa' sample_pairs [i, 8] {99} ((\<lambda>i. 0)(i := 0))))) \<and>
    (\<exists>sa'. skiparray_iter_free sample_locked (Some 8) = Some sa' \<and> iter_view sa' sample_pairs [] {99} (\<lambda>i. 0) \<and>
       \<not> has_iterators sa') \<and>
    skiparray_iter_free sample_locked None = Some sample_locked"
  using iter_new_spec [OF sample_locked_view] by (auto simp: sample_pairs_def)

text \<open>
  C40. An iterator that reported END stands past the last pair; a further forward step then
  reports OK and moves it outside the node, where reading it fails, instead of reporting END
  again. This is for node sizes below 65535, at which the index cannot wrap around its 16 bits
  in that step.
\<close>

theorem iter_next_past_end_spec:
  assumes "iter_view sa ps its F pos" "i \<in> set its" "pos i = length ps" "node_size sa < 65535"
  shows "\<exists>sa'. skiparray_iter_next sa i = Some (SKIPARRAY_ITER_STEP_OK, sa') \<and> skiparray_iter_get sa' i = None"
  by (rule iter_next_past_end [OF assms])

theorem iter_next_past_end_spec_witness:
  "\<exists>sa'. skiparray_iter_next (set_iter sample_locked 8 \<lparr>it_prev = None, it_next = None, it_n = 5, it_index = 2\<rparr>) 8
      = Some (SKIPARRAY_ITER_STEP_OK, sa') \<and> skiparray_iter_get sa' 8 = None"
  by (rule iter_next_past_end_spec [OF sample_past_end_view])
     (simp_all add: sample_pairs_def sample_locked_def sample_def)

end
