(* ===== verification/Contract.thy ===== *)
theory Contract
  imports Iter
begin

text \<open>
  What a client may rely on: the laws of an ordered map and of a cursor over it, as interfaces
  with the skiparray as their model, and the states a client can reach by a sequence of calls.
\<close>

section \<open>The ordered map\<close>

text \<open>\<^verbatim>\<open>skiparray_set\<close> and \<^verbatim>\<open>skiparray_forget\<close> with their result reduced to success or failure.\<close>

definition stored :: "skiparray \<Rightarrow> voidp \<Rightarrow> voidp \<Rightarrow> (bool \<times> skiparray) option" where
  "stored sa k v = do {
     (res, sa') \<leftarrow> skiparray_set sa k v;
     Some (res = SKIPARRAY_SET_BOUND \<or> res = SKIPARRAY_SET_REPLACED, sa')
   }"

definition erased :: "skiparray \<Rightarrow> voidp \<Rightarrow> (bool \<times> skiparray) option" where
  "erased sa k = do {
     (res, p, sa') \<leftarrow> skiparray_forget sa k;
     Some (res = SKIPARRAY_FORGET_OK, sa')
   }"

definition unlocked :: "skiparray \<Rightarrow> bindings \<Rightarrow> bool" where
  "unlocked sa ps \<longleftrightarrow> (\<exists>F. represents sa ps [] F)"

definition value_kept :: "skiparray \<Rightarrow> voidp \<Rightarrow> voidp" where
  "value_kept sa v = (if use_values sa then v else 0)"

locale ordered_map =
  fixes repr :: "'s \<Rightarrow> bindings \<Rightarrow> bool"
    and order :: "'s \<Rightarrow> cmp_fun"
    and kept :: "'s \<Rightarrow> voidp \<Rightarrow> voidp"
    and lookup :: "'s \<Rightarrow> voidp \<Rightarrow> voidp option option"
    and store :: "'s \<Rightarrow> voidp \<Rightarrow> voidp \<Rightarrow> (bool \<times> 's) option"
    and erase :: "'s \<Rightarrow> voidp \<Rightarrow> (bool \<times> 's) option"
  assumes order_ok: "repr s ps \<Longrightarrow> comparator (order s) \<and> ascending (order s) (map fst ps)"
    and lookup_ok: "repr s ps \<Longrightarrow> lookup s k = Some (map_option snd (spec_get (order s) k ps))"
    and store_ok: "repr s ps \<Longrightarrow> \<exists>ok s'. store s k v = Some (ok, s') \<and> order s' = order s \<and> kept s' = kept s \<and>
      repr s' (if ok then spec_set (order s) True k (kept s v) ps else ps)"
    and erase_ok: "repr s ps \<Longrightarrow> \<exists>s'. erase s k = Some (spec_get (order s) k ps \<noteq> None, s') \<and> order s' = order s \<and>
      kept s' = kept s \<and> repr s' (spec_del (order s) k ps)"
begin

lemma lookup_store:
  assumes r: "repr s ps" and s: "store s k v = Some (True, s')"
  shows "lookup s' j = (if order s j k = 0 then Some (Some (kept s v)) else lookup s j)"
proof -
  have r': "repr s' (spec_set (order s) True k (kept s v) ps)" "order s' = order s"
    using store_ok [OF r, of k v] s by auto
  have c: "comparator (order s)" "ascending (order s) (map fst ps)" using order_ok [OF r] by auto
  show ?thesis
    using lookup_ok [OF r'(1), of j] lookup_ok [OF r, of j] r'(2)
      comparator.spec_get_set_same [OF c, of j k True "kept s v"] comparator.spec_get_set_other [OF c(1), of j k True "kept s v" ps]
    by auto
qed

lemma lookup_failed_store:
  assumes r: "repr s ps" and s: "store s k v = Some (False, s')"
  shows "lookup s' j = lookup s j"
proof -
  have r': "repr s' ps" "order s' = order s" using store_ok [OF r, of k v] s by auto
  show ?thesis using lookup_ok [OF r'(1)] lookup_ok [OF r] r'(2) by simp
qed

lemma lookup_erase:
  assumes r: "repr s ps" and s: "erase s k = Some (ok, s')"
  shows "lookup s' j = (if order s j k = 0 then Some None else lookup s j)" "ok \<longleftrightarrow> lookup s k \<noteq> Some None"
proof -
  have r': "repr s' (spec_del (order s) k ps)" "order s' = order s" "ok \<longleftrightarrow> spec_get (order s) k ps \<noteq> None"
    using erase_ok [OF r, of k] s by auto
  have c: "comparator (order s)" using order_ok [OF r] by auto
  show "lookup s' j = (if order s j k = 0 then Some None else lookup s j)"
    using lookup_ok [OF r'(1), of j] lookup_ok [OF r, of j] r'(2) comparator.spec_get_del [OF c, of j k ps] by simp
  show "ok \<longleftrightarrow> lookup s k \<noteq> Some None" using lookup_ok [OF r, of k] r'(3) by simp
qed

text \<open>A sequence of stores that all succeed.\<close>

fun store_all :: "'s \<Rightarrow> bindings \<Rightarrow> 's option" where
  "store_all s [] = Some s"
| "store_all s ((k, v) # kvs) =
     (case store s k v of Some (True, s') \<Rightarrow> store_all s' kvs | _ \<Rightarrow> None)"

lemma store_all_repr:
  assumes "repr s ps" "store_all s kvs = Some s'"
  shows "repr s' (fold (\<lambda>(k, v). spec_set (order s) True k (kept s v)) kvs ps) \<and> order s' = order s"
  using assms
proof (induction s kvs arbitrary: ps rule: store_all.induct)
  case (1 s)
  then show ?case by simp
next
  case (2 s k v kvs)
  obtain s1 where s1: "store s k v = Some (True, s1)" "store_all s1 kvs = Some s'"
    using 2(3) by (auto split: option.splits prod.splits bool.splits)
  then have r: "repr s1 (spec_set (order s) True k (kept s v) ps)" "order s1 = order s" "kept s1 = kept s"
    using store_ok [OF 2(2), of k v] by auto
  from 2(1) [OF s1(1) refl refl r(1) s1(2)] r(2,3) show ?case by simp
qed

end

interpretation sa_map: ordered_map unlocked call_cmp value_kept skiparray_get stored erased
proof
  fix s ps k v assume "unlocked s ps"
  then obtain F where r: "represents s ps [] F" by (auto simp: unlocked_def)
  show "comparator (call_cmp s) \<and> ascending (call_cmp s) (map fst ps)" using represents_ascending [OF r] by simp
  show "skiparray_get s k = Some (map_option snd (spec_get (call_cmp s) k ps))" by (rule get_correct [OF r])
  show "\<exists>ok s'. stored s k v = Some (ok, s') \<and> call_cmp s' = call_cmp s \<and> value_kept s' = value_kept s \<and>
      unlocked s' (if ok then spec_set (call_cmp s) True k (value_kept s v) ps else ps)"
  proof -
    obtain res p s' where s': "skiparray_set_with_pair s k v True = Some (res, p, s')"
      "set_outcome s ps [] F True k v res p s'" using set_with_pair_correct [OF r, of k v True] by blast
    have e: "call_cmp s' = call_cmp s" "value_kept s' = value_kept s"
      using s'(2) by (auto simp: set_outcome_def Let_def same_env_def value_kept_def)
    have "res = SKIPARRAY_SET_BOUND \<or> res = SKIPARRAY_SET_REPLACED \<Longrightarrow>
        represents s' (spec_set (call_cmp s) True k (value_kept s v) ps) [] F"
      "\<not> (res = SKIPARRAY_SET_BOUND \<or> res = SKIPARRAY_SET_REPLACED) \<Longrightarrow> represents s' ps [] F"
      using s'(2) by (auto simp: set_outcome_def Let_def value_kept_def split: option.splits)
    with s'(1) e show ?thesis by (auto simp: stored_def skiparray_set_def unlocked_def)
  qed
  show "\<exists>s'. erased s k = Some (spec_get (call_cmp s) k ps \<noteq> None, s') \<and> call_cmp s' = call_cmp s \<and>
      value_kept s' = value_kept s \<and> unlocked s' (spec_del (call_cmp s) k ps)"
  proof -
    obtain s' where s': "skiparray_forget s k =
        Some (if spec_get (call_cmp s) k ps = None then SKIPARRAY_FORGET_NOT_FOUND else SKIPARRAY_FORGET_OK,
          spec_get (call_cmp s) k ps, s')" "same_env s s'" "represents s' (spec_del (call_cmp s) k ps) [] F"
      using forget_correct [OF r, of k] by blast
    have e: "call_cmp s' = call_cmp s" "value_kept s' = value_kept s"
      using s'(2) by (auto simp: same_env_def value_kept_def)
    have "erased s k = Some (spec_get (call_cmp s) k ps \<noteq> None, s')" using s'(1) by (simp add: erased_def)
    with s'(3) e show ?thesis by (auto simp: unlocked_def)
  qed
qed


section \<open>Any sequence of calls\<close>

text \<open>
  An active iterator at a pair, rather than past the last one: the assertion of
  \<^verbatim>\<open>skiparray_iter_get\<close>.
\<close>

definition readable :: "skiparray \<Rightarrow> addr \<Rightarrow> bool" where
  "readable sa i \<longleftrightarrow> (case iters sa i of None \<Rightarrow> False
     | Some it \<Rightarrow> (case heap sa (it_n it) of None \<Rightarrow> False | Some n \<Rightarrow> it_index it < count n))"

text \<open>
  One call of a client that keeps to the documentation: iterator operations are on active
  iterators only, and an iterator past the end is not stepped forward again.  A call that does
  not return is no step.
\<close>

inductive api_step :: "skiparray \<Rightarrow> skiparray \<Rightarrow> bool" where
  set_pair: "skiparray_set_with_pair sa key v rk = Some (sres, previous, sa') \<Longrightarrow> api_step sa sa'"
| forget: "skiparray_forget sa key = Some (fres, p, sa') \<Longrightarrow> api_step sa sa'"
| pop_first: "skiparray_pop_first sa = Some (pres, p', sa') \<Longrightarrow> api_step sa sa'"
| pop_last: "skiparray_pop_last sa = Some (pres, p', sa') \<Longrightarrow> api_step sa sa'"
| iter_new: "skiparray_iter_new sa = Some (nres, r, sa') \<Longrightarrow> api_step sa sa'"
| iter_free: "i \<in> dom (iters sa) \<Longrightarrow> skiparray_iter_free sa (Some i) = Some sa' \<Longrightarrow> api_step sa sa'"
| seek_endpoint: "i \<in> dom (iters sa) \<Longrightarrow> skiparray_iter_seek_endpoint sa i which = Some sa' \<Longrightarrow> api_step sa sa'"
| seek: "i \<in> dom (iters sa) \<Longrightarrow> skiparray_iter_seek sa i key = Some (kres, sa') \<Longrightarrow> api_step sa sa'"
| iter_next: "readable sa i \<Longrightarrow> skiparray_iter_next sa i = Some (tres, sa') \<Longrightarrow> api_step sa sa'"
| iter_prev: "i \<in> dom (iters sa) \<Longrightarrow> skiparray_iter_prev sa i = Some (tres, sa') \<Longrightarrow> api_step sa sa'"

inductive_cases api_stepE: "api_step sa sa'"

text \<open>The states after \<^verbatim>\<open>skiparray_new\<close> on \<open>c\<close> in memory \<open>m\<close> and any number of calls.\<close>

inductive reachable :: "skiparray_config \<Rightarrow> mstate \<Rightarrow> skiparray \<Rightarrow> bool" for c m where
  created: "skiparray_new True (Some c) m = Some (SKIPARRAY_NEW_OK, Some sa, m') \<Longrightarrow> reachable c m sa"
| called: "reachable c m sa \<Longrightarrow> api_step sa sa' \<Longrightarrow> reachable c m sa'"

definition in_view :: "addr set \<Rightarrow> skiparray \<Rightarrow> bool" where
  "in_view F sa \<longleftrightarrow> (\<exists>ps its pos. iter_view sa ps its F pos)"

lemma iter_view_doms: "iter_view sa ps its F pos \<Longrightarrow> dom (iters sa) = set its"
  by (auto simp: iter_view_def wf_def iters_ok_def)

lemma readable_position:
  assumes v: "iter_view sa ps its F pos"
  shows "i \<in> set its \<Longrightarrow> readable sa i \<longleftrightarrow> pos i < length ps" "readable sa i \<Longrightarrow> i \<in> set its"
    "i \<in> set its \<Longrightarrow> pos i \<le> length ps \<and> ps \<noteq> []"
proof -
  have "(readable sa i \<longleftrightarrow> pos i < length ps) \<and> pos i \<le> length ps \<and> ps \<noteq> []" if "i \<in> set its"
    using v that
  proof (rule iter_view_at)
    fix ns xs a ys it n
    assume a: "pairs_of (heap sa) ns = ps" "ns = xs @ a # ys" "iters sa i = Some it" "it_n it = a" "heap sa a = Some n"
      "length (pairs_at (heap sa) a) = count n" "it_index it < count n \<or> ys = [] \<and> it_index it = count n"
      "pos i = length (pairs_of (heap sa) xs) + it_index it" "its \<noteq> [] \<longrightarrow> ps \<noteq> []"
    have "length ps = length (pairs_of (heap sa) xs) + count n + length (pairs_of (heap sa) ys)"
      using a(2,6) by (simp flip: a(1))
    with a(3-5,7-9) that show ?thesis by (auto simp: readable_def)
  qed
  then show "i \<in> set its \<Longrightarrow> readable sa i \<longleftrightarrow> pos i < length ps" "i \<in> set its \<Longrightarrow> pos i \<le> length ps \<and> ps \<noteq> []"
    by simp_all
  show "i \<in> set its" if "readable sa i"
    using that iter_view_doms [OF v] by (auto simp: readable_def split: option.splits)
qed

lemma represents_in_view: "represents sa ps [] F \<Longrightarrow> in_view F sa"
  unfolding in_view_def using represents_iter_view by blast

text \<open>The modifications, on a locked or an unlocked skiparray.\<close>

lemma modification_in_view:
  assumes v: "iter_view sa ps its F pos"
    and locked: "its \<noteq> [] \<Longrightarrow> represents sa ps its F \<Longrightarrow> f = Some (r0, p0, sa)"
    and free: "represents sa ps [] F \<Longrightarrow> \<exists>r p sa' ps'. f = Some (r, p, sa') \<and> represents sa' ps' [] F"
    and f: "f = Some (r, p, sa')"
  shows "in_view F sa'"
proof (cases "its = []")
  case True
  with v have "represents sa ps [] F" using iter_view_represents by blast
  from free [OF this] f show ?thesis by (auto intro: represents_in_view)
next
  case False
  with locked [OF False iter_view_represents [OF v]] f v show ?thesis by (auto simp: in_view_def)
qed

lemma api_step_in_view:
  assumes v: "in_view F sa" and s: "api_step sa sa'"
  shows "in_view F sa'"
proof -
  obtain ps its pos where v: "iter_view sa ps its F pos" using v by (auto simp: in_view_def)
  note d = iter_view_doms [OF v]
  show ?thesis
    using s
  proof cases
    case (set_pair key val rk sres previous)
    show ?thesis
    proof (rule modification_in_view [OF v _ _ set_pair])
      show "its \<noteq> [] \<Longrightarrow> represents sa ps its F \<Longrightarrow>
          skiparray_set_with_pair sa key val rk = Some (SKIPARRAY_SET_ERROR_LOCKED, None, sa)" by (rule set_locked)
      show "represents sa ps [] F \<Longrightarrow>
          \<exists>r p sa' ps'. skiparray_set_with_pair sa key val rk = Some (r, p, sa') \<and> represents sa' ps' [] F"
        by (drule set_with_pair_correct [of sa ps F key val rk]) (auto simp: set_outcome_def Let_def split: option.splits)
    qed
  next
    case (forget key fres p)
    show ?thesis
    proof (rule modification_in_view [OF v _ _ forget])
      show "its \<noteq> [] \<Longrightarrow> represents sa ps its F \<Longrightarrow>
          skiparray_forget sa key = Some (SKIPARRAY_FORGET_ERROR_LOCKED, None, sa)" by (rule forget_locked)
      show "represents sa ps [] F \<Longrightarrow> \<exists>r p sa' ps'. skiparray_forget sa key = Some (r, p, sa') \<and> represents sa' ps' [] F"
        using forget_correct by blast
    qed
  next
    case (pop_first pres p)
    show ?thesis
    proof (rule modification_in_view [OF v _ _ pop_first])
      show "its \<noteq> [] \<Longrightarrow> represents sa ps its F \<Longrightarrow>
          skiparray_pop_first sa = Some (SKIPARRAY_POP_ERROR_LOCKED, None, sa)" by (rule pop_first_locked)
      show "represents sa ps [] F \<Longrightarrow> \<exists>r p sa' ps'. skiparray_pop_first sa = Some (r, p, sa') \<and> represents sa' ps' [] F"
        by (drule pop_first_correct) (cases ps; auto)
    qed
  next
    case (pop_last pres p)
    show ?thesis
    proof (rule modification_in_view [OF v _ _ pop_last])
      show "its \<noteq> [] \<Longrightarrow> represents sa ps its F \<Longrightarrow>
          skiparray_pop_last sa = Some (SKIPARRAY_POP_ERROR_LOCKED, None, sa)" by (rule pop_last_locked)
      show "represents sa ps [] F \<Longrightarrow> \<exists>r p sa' ps'. skiparray_pop_last sa = Some (r, p, sa') \<and> represents sa' ps' [] F"
        using pop_last_total [of sa ps F] pop_last_overflow [of sa ps F] pop_last
        by (cases "ps \<noteq> [] \<and> 128 < sa_height sa") (fastforce simp: not_less split: if_splits)+
    qed
  next
    case (iter_new nres r)
    with iter_new_correct [OF v] v show ?thesis by (auto simp: in_view_def split: if_splits)
  next
    case (iter_free i)
    with iter_free_correct [OF v, of i] d show ?thesis by (auto simp: in_view_def)
  next
    case (seek_endpoint i which)
    with iter_seek_endpoint_correct [OF v, of i which] d show ?thesis by (auto simp: in_view_def)
  next
    case (seek i key kres)
    with iter_seek_correct [OF v, of i "seek_pos (call_cmp sa) key ps" key] d v show ?thesis
      by (auto simp: in_view_def split: if_splits)
  next
    case (iter_next i tres)
    then have i: "i \<in> set its" and "pos i < length ps" using readable_position [OF v, of i] by auto
    with iter_next iter_next_correct [OF v i] show ?thesis by (auto simp: in_view_def)
  next
    case (iter_prev i tres)
    with iter_prev_correct [OF v, of i] d show ?thesis by (auto simp: in_view_def)
  qed
qed

lemma reachable_in_view:
  assumes c: "config_ok c" and r: "reachable c m sa"
  shows "in_view (set (live m)) sa"
  using r
proof induction
  case (created sa m')
  with new_correct [OF c, of m] show ?case by (auto intro: represents_in_view split: if_splits)
next
  case (called sa sa')
  then show ?case by (blast intro: api_step_in_view)
qed


text \<open>In such a state every call returns: no assertion fails, no pointer is NULL, no array is exceeded.\<close>

lemma in_view_reads:
  assumes "in_view F sa"
  shows "skiparray_get_pair sa key \<noteq> None" "skiparray_get sa key \<noteq> None" "skiparray_member sa key \<noteq> None"
    "skiparray_count sa \<noteq> None" "skiparray_first sa \<noteq> None" "skiparray_last sa \<noteq> None" "skiparray_free sa \<noteq> None"
proof -
  obtain ps its where r: "represents sa ps its F"
    using assms unfolding in_view_def by (blast dest: iter_view_represents)
  show "skiparray_get_pair sa key \<noteq> None" "skiparray_get sa key \<noteq> None" "skiparray_member sa key \<noteq> None"
    "skiparray_count sa \<noteq> None" "skiparray_first sa \<noteq> None" "skiparray_last sa \<noteq> None" "skiparray_free sa \<noteq> None"
    using get_pair_correct [OF r] get_correct [OF r] member_correct [OF r] count_correct [OF r] first_correct [OF r]
      last_correct [OF r] free_correct [OF r] by auto
qed

lemma in_view_writes:
  assumes "in_view F sa"
  shows "skiparray_set_with_pair sa key v rk \<noteq> None" "skiparray_forget sa key \<noteq> None" "skiparray_pop_first sa \<noteq> None"
    "sa_height sa \<le> 128 \<Longrightarrow> skiparray_pop_last sa \<noteq> None" "skiparray_iter_new sa \<noteq> None"
proof -
  obtain ps its pos where v: "iter_view sa ps its F pos" using assms by (auto simp: in_view_def)
  note r = iter_view_represents [OF v]
  show "skiparray_iter_new sa \<noteq> None" using iter_new_correct [OF v] by auto
  show "skiparray_set_with_pair sa key v rk \<noteq> None"
    using r set_with_pair_correct [of sa ps F key v rk] set_locked [of its sa ps F] by (cases "its = []") auto
  show "skiparray_forget sa key \<noteq> None"
    using r forget_correct [of sa ps F key] forget_locked [of its sa ps F] by (cases "its = []") auto
  show "skiparray_pop_first sa \<noteq> None"
    using r pop_first_correct [of sa ps F] pop_first_locked [of its sa ps F] by (cases "its = []"; cases ps) auto
  show "skiparray_pop_last sa \<noteq> None" if "sa_height sa \<le> 128"
    using r pop_last_correct [of sa ps F] pop_last_locked [of its sa ps F] that by (cases "its = []") auto
qed

lemma in_view_iters:
  assumes "in_view F sa" "i \<in> dom (iters sa)"
  shows "skiparray_iter_free sa (Some i) \<noteq> None" "skiparray_iter_seek_endpoint sa i which \<noteq> None"
    "skiparray_iter_seek sa i key \<noteq> None" "skiparray_iter_prev sa i \<noteq> None"
    "readable sa i \<Longrightarrow> skiparray_iter_get sa i \<noteq> None" "readable sa i \<Longrightarrow> skiparray_iter_next sa i \<noteq> None"
proof -
  obtain ps its pos where v: "iter_view sa ps its F pos" using assms(1) by (auto simp: in_view_def)
  have i: "i \<in> set its" using iter_view_doms [OF v] assms(2) by simp
  show "skiparray_iter_free sa (Some i) \<noteq> None" "skiparray_iter_seek_endpoint sa i which \<noteq> None"
    "skiparray_iter_seek sa i key \<noteq> None" "skiparray_iter_prev sa i \<noteq> None"
    using iter_free_correct [OF v i] iter_seek_endpoint_correct [OF v i] iter_seek_correct [OF v i refl, of key]
      iter_prev_correct [OF v i] by auto
  show "skiparray_iter_get sa i \<noteq> None" "skiparray_iter_next sa i \<noteq> None" if "readable sa i"
    using that readable_position(1) [OF v i] iter_get_correct [OF v i] iter_next_correct [OF v i] by auto
qed

text \<open>The result codes tell a client which iterators it may read and step forward.\<close>

lemma in_view_new_readable:
  assumes "in_view F sa" "skiparray_iter_new sa = Some (SKIPARRAY_ITER_NEW_OK, Some i, sa')"
  shows "readable sa' i"
proof -
  obtain ps its pos where v: "iter_view sa ps its F pos" using assms(1) by (auto simp: in_view_def)
  have "ps \<noteq> []" "iter_view sa' ps (i # its) F (pos(i := 0))"
    using iter_new_correct [OF v] assms(2) by (auto split: if_splits)
  then show ?thesis using readable_position(1) [of sa' ps "i # its" F _ i] by auto
qed

lemma in_view_readable:
  assumes "in_view F sa" "i \<in> dom (iters sa)"
  shows "skiparray_iter_seek_endpoint sa i which = Some sa1 \<Longrightarrow> readable sa1 i"
    "skiparray_iter_seek sa i key = Some (SKIPARRAY_ITER_SEEK_FOUND, sa1) \<Longrightarrow> readable sa1 i"
    "skiparray_iter_seek sa i key = Some (SKIPARRAY_ITER_SEEK_NOT_FOUND, sa1) \<Longrightarrow> readable sa1 i"
    "skiparray_iter_prev sa i = Some (tres, sa1) \<Longrightarrow> readable sa1 i"
    "readable sa i \<Longrightarrow> skiparray_iter_next sa i = Some (SKIPARRAY_ITER_STEP_OK, sa1) \<Longrightarrow> readable sa1 i"
proof -
  obtain ps its pos where v: "iter_view sa ps its F pos" using assms(1) by (auto simp: in_view_def)
  have i: "i \<in> set its" using iter_view_doms [OF v] assms(2) by simp
  note pos = readable_position(3) [OF v i]
  have at: "readable sb i" if "iter_view sb ps its F (pos(i := k))" "k < length ps" for sb k
    using readable_position(1) [OF that(1) i] that(2) by simp
  show "readable sa1 i" if "skiparray_iter_seek_endpoint sa i which = Some sa1"
    using iter_seek_endpoint_correct [OF v i, of which] that pos at by (auto split: skiparray_iter_seek_endpoint.splits)
  have k: "seek_pos (call_cmp sa) key ps \<le> length ps" by (simp add: seek_pos_def length_takeWhile_le)
  show "readable sa1 i" if "skiparray_iter_seek sa i key = Some (SKIPARRAY_ITER_SEEK_FOUND, sa1)"
    using iter_seek_correct [OF v i refl, of key] that at by (auto simp: seek_found_def split: if_splits)
  show "readable sa1 i" if "skiparray_iter_seek sa i key = Some (SKIPARRAY_ITER_SEEK_NOT_FOUND, sa1)"
    using iter_seek_correct [OF v i refl, of key] that at k by (auto simp: le_less split: if_splits)
  show "readable sa1 i" if "skiparray_iter_prev sa i = Some (tres, sa1)"
  proof -
    have "pos i - 1 < length ps" using pos by (cases "pos i") auto
    with iter_prev_correct [OF v i] that at show ?thesis by auto
  qed
  show "readable sa1 i" if "readable sa i" "skiparray_iter_next sa i = Some (SKIPARRAY_ITER_STEP_OK, sa1)"
  proof -
    have "pos i < length ps" using that(1) readable_position(1) [OF v i] by simp
    with iter_next_correct [OF v i] that(2) at show ?thesis by (auto split: if_splits)
  qed
qed


section \<open>A concrete configuration\<close>

definition sample_config :: skiparray_config where
  "sample_config = \<lparr>cfg_node_size = 4, cfg_max_level = 3, cfg_seed = 1, cfg_ignore_values = False,
     cfg_cmp = Some (9, cmp_intptr_t), cfg_memory = None, cfg_free = None, cfg_level = None\<rparr>"

lemma sample_config_ok: "config_ok sample_config"
  using intptr.comparator_axioms def_memory.allocator_axioms def_level.level_source_axioms
  by (simp add: config_ok_def sample_config_def cfg_mem_def cfg_lev_def def_memory_ptr_def def_level_ptr_def)

text \<open>With memory that is never refused: a new skiparray, with a pair, and with an iterator.\<close>

lemma sample_reachable_represents:
  "\<exists>sa. reachable sample_config \<lparr>live = [], clock = 0, oom = []\<rparr> sa \<and> represents sa [] [] {} \<and> \<not> may_refuse sa \<and>
    max_level sa = 3"
proof -
  let ?m = "\<lparr>live = [], clock = 0, oom = []\<rparr>"
  obtain res r m' where n: "skiparray_new True (Some sample_config) ?m = Some (res, r, m')"
    "res = SKIPARRAY_NEW_ERROR_MEMORY \<and> r = None \<or>
     res = SKIPARRAY_NEW_OK \<and> (\<exists>sa. r = Some sa \<and> mst sa = m' \<and> configured sample_config sa \<and> represents sa [] [] {})"
    using new_correct [OF sample_config_ok, of ?m] by (auto simp: sample_config_def)
  have f: "\<not> refusing (snd (cfg_mem sample_config)) m" if "oom m = []" for m
    using that by (simp add: sample_config_def cfg_mem_def def_memory_ptr_def malloc_refusing)
  have "res \<noteq> SKIPARRAY_NEW_ERROR_MEMORY" using new_error_memory n(1) f [of ?m] by auto
  with n(2) obtain sa where sa: "res = SKIPARRAY_NEW_OK" "r = Some sa" "mst sa = m'" "configured sample_config sa"
    "represents sa [] [] {}" by auto
  have "\<not> may_refuse sa" using f [of m'] new_oom [OF n(1)] sa(3,4) by (simp add: may_refuse_def configured_def)
  moreover have "max_level sa = 3" using sa(4) by (simp add: configured_def sample_config_def cfg_levels_def)
  ultimately show ?thesis using sa n(1) created by blast
qed

lemma iter_new_sa_height: "skiparray_iter_new sa = Some (res, r, sa') \<Longrightarrow> sa_height sa' = sa_height sa"
  by (auto simp: skiparray_iter_new_def set_prev_def bind_eq_Some_conv split: if_splits option.splits prod.splits)

lemma sample_reachable_iter:
  "\<exists>sa i. reachable sample_config \<lparr>live = [], clock = 0, oom = []\<rparr> sa \<and> i \<in> dom (iters sa) \<and> readable sa i \<and>
    sa_height sa \<le> 128"
proof -
  let ?m = "\<lparr>live = [], clock = 0, oom = []\<rparr>"
  obtain sa where sa: "reachable sample_config ?m sa" "represents sa [] [] {}" "\<not> may_refuse sa" "max_level sa = 3"
    using sample_reachable_represents by blast
  obtain res previous sb where sb: "skiparray_set_with_pair sa 3 30 True = Some (res, previous, sb)"
    "set_outcome sa [] [] {} True 3 30 res previous sb" using set_with_pair_correct [OF sa(2)] by blast
  have "res \<noteq> SKIPARRAY_SET_ERROR_MEMORY" using set_error_memory sb(1) sa(3) by blast
  with sb(2) obtain ps where ps: "represents sb ps [] {}" "ps \<noteq> []" "same_env sa sb"
    by (auto simp: set_outcome_def Let_def split: option.splits if_splits)
  have rb: "reachable sample_config ?m sb" by (rule called [OF sa(1) set_pair [OF sb(1)]])
  have v: "iter_view sb ps [] {} pos" for pos using ps(1) by (rule iffD1 [OF represents_iter_view])
  obtain nres r sc where sc: "skiparray_iter_new sb = Some (nres, r, sc)"
    "nres = SKIPARRAY_ITER_NEW_ERROR_MEMORY \<or> nres = SKIPARRAY_ITER_NEW_OK \<and> (\<exists>i. r = Some i)"
    using iter_new_correct [OF v [of "\<lambda>i. 0"]] ps(2) by auto
  have "nres \<noteq> SKIPARRAY_ITER_NEW_ERROR_MEMORY"
    using iter_new_refused sc(1) same_env_refuse [OF ps(3)] sa(3) by blast
  with sc obtain i where i: "skiparray_iter_new sb = Some (SKIPARRAY_ITER_NEW_OK, Some i, sc)" by auto
  have rc: "reachable sample_config ?m sc" by (rule called [OF rb iter_new [OF i]])
  have "readable sc i" using in_view_new_readable [OF reachable_in_view [OF sample_config_ok rb] i] .
  moreover have "i \<in> dom (iters sc)" using calculation by (auto simp: readable_def split: option.splits)
  moreover have "sa_height sb \<le> 3"
    using ps(1,3) sa(4) cfg_okD(6) wfD(1) by (fastforce simp: represents_def same_env_def)
  then have "sa_height sc \<le> 128" using iter_new_sa_height [OF i] by simp
  ultimately show ?thesis using rc by blast
qed

end
