(* ===== verification/Builder.thy ===== *)
theory Builder
  imports Contract
begin

text \<open>
  The builder (\<^verbatim>\<open>skiparray_builder_new\<close> to \<^verbatim>\<open>skiparray_builder_finish\<close>, \<open>src/skiparray.c\<close>): a
  skiparray under construction, to which pairs are appended in key order without a search, new
  nodes being linked through the trail of the last node of every level.
\<close>

section \<open>Definitions\<close>

text \<open>\<^verbatim>\<open>struct skiparray_builder\<close>; \<open>b_self\<close> is its block.\<close>

record skiparray_builder =
  b_self :: addr
  b_sa :: skiparray
  b_last :: addr
  check_ascending :: bool
  has_prev_key :: bool
  prev_key :: voidp
  trail :: "addr option list"

definition sizeof_builder :: nat where "sizeof_builder = 32"

text \<open>\<^verbatim>\<open>b->trail[i] = b->last\<close> on the levels of the first node.\<close>

definition trail_init_step :: "skiparray \<Rightarrow> addr \<Rightarrow> nat \<Rightarrow> nat \<times> addr option list \<Rightarrow>
    (nat \<times> addr option list + addr option list) option" where
  "trail_init_step sa a hgt = (\<lambda>(i, tr).
     (if i < hgt then do {
        tr' \<leftarrow> wr tr i (Some a);
        hd \<leftarrow> get_head sa i;
        assert_c (hd = Some a);
        Some (Inl (i + 1, tr'))
      } else Some (Inr tr)))"

definition skiparray_builder_new :: "bool \<Rightarrow> skiparray_config option \<Rightarrow> bool \<Rightarrow> mstate \<Rightarrow>
    (skiparray_builder_new_res \<times> skiparray_builder option \<times> mstate) option" where
  "skiparray_builder_new out cfg skip_ascending_key_check m =
     (if \<not> out then Some (SKIPARRAY_BUILDER_NEW_ERROR_MISUSE, None, m)
      else do {
        (nres, r, m1) \<leftarrow> skiparray_new True cfg m;
        (case nres of
           SKIPARRAY_NEW_ERROR_NULL \<Rightarrow> Some (SKIPARRAY_BUILDER_NEW_ERROR_MISUSE, None, m1)
         | SKIPARRAY_NEW_ERROR_CONFIG \<Rightarrow> Some (SKIPARRAY_BUILDER_NEW_ERROR_MISUSE, None, m1)
         | SKIPARRAY_NEW_ERROR_MEMORY \<Rightarrow> Some (SKIPARRAY_BUILDER_NEW_ERROR_MEMORY, None, m1)
         | SKIPARRAY_NEW_OK \<Rightarrow> do {
             sa \<leftarrow> r;
             (case mem_alloc (snd (mem sa)) (sizeof_builder + max_level sa * sizeof_ptr) (mst sa) of
                (None, m2) \<Rightarrow> do {
                  (freed, m3) \<leftarrow> skiparray_free (sa\<lparr>mst := m2\<rparr>);
                  Some (SKIPARRAY_BUILDER_NEW_ERROR_MEMORY, None, m3)
                }
              | (Some bl, m2) \<Rightarrow> do {
                  let sa1 = sa\<lparr>mst := m2\<rparr>;
                  h \<leftarrow> get_head sa1 0;
                  a \<leftarrow> h;
                  n \<leftarrow> heap sa1 a;
                  let sa2 = set_node sa1 a (n\<lparr>offset := 0\<rparr>);
                  tr \<leftarrow> loop_c (trail_init_step sa2 a (height n)) (0, replicate (max_level sa) None);
                  Some (SKIPARRAY_BUILDER_NEW_OK,
                    Some \<lparr>b_self = bl, b_sa = sa2, b_last = a, check_ascending = \<not> skip_ascending_key_check,
                      has_prev_key = False, prev_key = 0, trail = tr\<rparr>, m2)
                })
           })
      })"

text \<open>\<^verbatim>\<open>skiparray_builder_free\<close> returns what \<^verbatim>\<open>skiparray_free\<close> does.\<close>

definition skiparray_builder_free :: "skiparray_builder option \<Rightarrow> mstate \<Rightarrow> (bindings \<times> mstate) option" where
  "skiparray_builder_free b m =
     (case b of
        None \<Rightarrow> Some ([], m)
      | Some b \<Rightarrow> do {
          let sa = b_sa b;
          m1 \<leftarrow> mem_free (b_self b) (mst sa);
          skiparray_free (sa\<lparr>mst := m1\<rparr>)
        })"

text \<open>The loop that points the levels of the last node \<open>a\<close> at the new node \<open>x\<close>.\<close>

definition last_fwd_step :: "addr \<Rightarrow> addr \<Rightarrow> nat \<times> skiparray \<Rightarrow> (nat \<times> skiparray + skiparray) option" where
  "last_fwd_step a x = (\<lambda>(i, sa). do {
     n \<leftarrow> heap sa a;
     xn \<leftarrow> heap sa x;
     (if i < height n \<and> i < height xn
      then do { sa' \<leftarrow> set_fwd sa a i (Some x); Some (Inl (i + 1, sa')) }
      else Some (Inr sa))
   })"

text \<open>The loop over the trail.\<close>

definition trail_step :: "addr \<Rightarrow> nat \<times> addr option list \<times> skiparray \<Rightarrow>
    (nat \<times> addr option list \<times> skiparray + addr option list \<times> skiparray) option" where
  "trail_step x = (\<lambda>(i, tr, sa). do {
     xn \<leftarrow> heap sa x;
     (if i < height xn then do {
        t \<leftarrow> rd tr i;
        (case t of
           None \<Rightarrow> do { tr' \<leftarrow> wr tr i (Some x); Some (Inl (i + 1, tr', sa)) }
         | Some p \<Rightarrow> do {
             pn \<leftarrow> heap sa p;
             assert_c (i < height pn);
             sa' \<leftarrow> set_fwd sa p i (Some x);
             tr' \<leftarrow> wr tr i (Some x);
             Some (Inl (i + 1, tr', sa'))
           })
      } else Some (Inr (tr, sa)))
   })"

text \<open>A new last node: its address, or NULL when there is no memory, with the new state.\<close>

definition new_last :: "skiparray_builder \<Rightarrow> (addr option \<times> skiparray_builder) option" where
  "new_last b = do {
     let sa = b_sa b;
     let (lv, g) = draw_level sa;
     (r, m) \<leftarrow> node_alloc (u8 (lv + 1)) (node_size sa) (snd (mem sa)) (use_values sa) (mst sa);
     let sa1 = sa\<lparr>prng_state := g, mst := m\<rparr>;
     (case r of
        None \<Rightarrow> Some (None, b\<lparr>b_sa := sa1\<rparr>)
      | Some (x, xn) \<Rightarrow> do {
          sa2 \<leftarrow> loop_c (last_fwd_step (b_last b) x) (0, set_node sa1 x xn);
          (tr, sa3) \<leftarrow> loop_c (trail_step x) (0, trail b, sa2);
          sa4 \<leftarrow> loop_c (raise_step x) sa3;
          sa5 \<leftarrow> set_back sa4 x (Some (b_last b));
          f \<leftarrow> get_fwd sa5 (b_last b) 0;
          assert_c (f = Some x);
          n \<leftarrow> heap sa5 x;
          Some (Some x, b\<lparr>b_sa := set_node sa5 x (n\<lparr>offset := 0\<rparr>), b_last := x, trail := tr\<rparr>)
        })
   }"

definition store_last :: "node \<Rightarrow> voidp \<Rightarrow> voidp \<Rightarrow> node option" where
  "store_last n key value = do {
     ks \<leftarrow> wr (keys n) (count n) key;
     vs \<leftarrow> (case vals n of None \<Rightarrow> Some None | Some v \<Rightarrow> map_option Some (wr v (count n) value));
     Some (n\<lparr>keys := ks, vals := vs, count := u16 (count n + 1)\<rparr>)
   }"

definition skiparray_builder_append :: "skiparray_builder \<Rightarrow> voidp \<Rightarrow> voidp \<Rightarrow>
    (skiparray_builder_append_res \<times> skiparray_builder) option" where
  "skiparray_builder_append b key value = do {
     n \<leftarrow> heap (b_sa b) (b_last b);
     assert_c (offset n = 0);
     (if has_prev_key b \<and> call_cmp (b_sa b) key (prev_key b) \<le> 0
      then Some (SKIPARRAY_BUILDER_APPEND_ERROR_MISUSE, b)
      else do {
        (r, b1) \<leftarrow> (if count n = node_size (b_sa b) then new_last b else Some (Some (b_last b), b));
        (case r of
           None \<Rightarrow> Some (SKIPARRAY_BUILDER_APPEND_ERROR_MEMORY, b1)
         | Some a \<Rightarrow> do {
             an \<leftarrow> heap (b_sa b1) a;
             an' \<leftarrow> store_last an key value;
             let b2 = b1\<lparr>b_sa := set_node (b_sa b1) a an'\<rparr>;
             Some (SKIPARRAY_BUILDER_APPEND_OK,
               if check_ascending b2 then b2\<lparr>has_prev_key := True, prev_key := key\<rparr> else b2)
           })
      })
   }"

text \<open>\<^verbatim>\<open>skiparray_builder_finish\<close> hands over the skiparray and frees the builder.\<close>

definition skiparray_builder_finish :: "skiparray_builder \<Rightarrow> skiparray option" where
  "skiparray_builder_finish b = do {
     m \<leftarrow> mem_free (b_self b) (mst (b_sa b));
     Some ((b_sa b)\<lparr>mst := m\<rparr>)
   }"


section \<open>The invariant\<close>

text \<open>The trail: the last node of every level.\<close>

definition trail_ok :: "skiparray \<Rightarrow> addr list \<Rightarrow> addr option list \<Rightarrow> bool" where
  "trail_ok sa ns tr \<longleftrightarrow>
     length tr = max_level sa \<and> (\<forall>l < max_level sa. tr ! l = prv (heap sa) l ns)"

text \<open>All nodes but the last are full.\<close>

definition filled :: "skiparray \<Rightarrow> addr list \<Rightarrow> bool" where
  "filled sa ns \<longleftrightarrow> (\<forall>a \<in> set (butlast ns). length (pairs_at (heap sa) a) = node_size sa)"

text \<open>
  \<open>builder_ok b ps F\<close>: the builder holds a proper skiparray with the pairs \<open>ps\<close>, all nodes but the
  last full, the last one filled from the start of its arrays, and \<open>F\<close> are the live blocks that are neither the
  skiparray's nor the builder's.
\<close>

definition builder_ok :: "skiparray_builder \<Rightarrow> bindings \<Rightarrow> addr set \<Rightarrow> bool" where
  "builder_ok b ps F \<longleftrightarrow>
     (\<exists>ns n. wf (b_sa b) ns [] \<and> filled (b_sa b) ns \<and> pairs_of (heap (b_sa b)) ns = ps \<and> b_last b = last ns \<and>
        heap (b_sa b) (last ns) = Some n \<and> offset n = 0 \<and> trail_ok (b_sa b) ns (trail b) \<and>
        foreign (b_sa b) ns [] = insert (b_self b) F \<and> b_self b \<notin> F \<and>
        (has_prev_key b \<longleftrightarrow> check_ascending b \<and> ps \<noteq> []) \<and> (has_prev_key b \<longrightarrow> prev_key b = fst (last ps)))"

lemma builder_okE:
  assumes "builder_ok b ps F"
  obtains ns n where "wf (b_sa b) ns []" "pairs_of (heap (b_sa b)) ns = ps" "b_last b = last ns"
    "heap (b_sa b) (last ns) = Some n" "offset n = 0" "trail_ok (b_sa b) ns (trail b)"
    "foreign (b_sa b) ns [] = insert (b_self b) F" "b_self b \<notin> F"
    "has_prev_key b \<longleftrightarrow> check_ascending b \<and> ps \<noteq> []" "has_prev_key b \<Longrightarrow> prev_key b = fst (last ps)"
    "filled (b_sa b) ns"
  using assms unfolding builder_ok_def by blast

lemma builder_represents:
  "builder_ok b ps F \<Longrightarrow> represents (b_sa b) ps [] (insert (b_self b) F) \<and> b_self b \<notin> F"
  unfolding builder_ok_def represents_def by metis

section \<open>Linking a new last node\<close>

lemma last_fwd_loop:
  assumes c: "link_ctx sa us a x []"
  shows "\<exists>s. loop_c (last_fwd_step a x) (0, sa) = Some s \<and> relinked sa s \<and> nodes s = nodes sa \<and>
    sa_height s = sa_height sa \<and> back_at (heap s) = back_at (heap sa) \<and>
    (\<forall>c l. fwd_at (heap s) c l =
       (if c = a \<and> l < min (ht (heap sa) a) (ht (heap sa) x) then Some x else fwd_at (heap sa) c l))"
proof -
  let ?m = "min (ht (heap sa) a) (ht (heap sa) x)"
  let ?R = "\<lambda>i s. relinked sa s \<and> nodes s = nodes sa \<and> sa_height s = sa_height sa \<and>
      back_at (heap s) = back_at (heap sa) \<and>
      (\<forall>c l. fwd_at (heap s) c l = (if c = a \<and> l < i then Some x else fwd_at (heap sa) c l))"
  show ?thesis
  proof (rule loop_c_rule [where I = "\<lambda>(i, s). i \<le> ?m \<and> ?R i s" and V = "\<lambda>(i, s). ?m - i"])
    fix t assume "case t of (i, s) \<Rightarrow> i \<le> ?m \<and> ?R i s"
    then obtain i s where t: "t = (i, s)" "i \<le> ?m" "?R i s" by (cases t) auto
    have r: "relinked sa s" using t(3) by simp
    obtain n where n: "heap s a = Some n" "height n = ht (heap sa) a" "length (fwd n) = ht (heap sa) a"
      using link_ctx_node [OF c r, of a] by auto
    obtain xn where xn: "heap s x = Some xn" "height xn = ht (heap sa) x" using link_ctx_node [OF c r, of x] by auto
    show "(\<exists>s'. last_fwd_step a x t = Some (Inl s') \<and> (case s' of (i, s) \<Rightarrow> i \<le> ?m \<and> ?R i s) \<and>
        (case s' of (i, s) \<Rightarrow> ?m - i) < (case t of (i, s) \<Rightarrow> ?m - i)) \<or>
      (\<exists>s. last_fwd_step a x t = Some (Inr s) \<and> ?R ?m s)"
    proof (cases "i < ?m")
      case True
      obtain s' where s': "set_fwd s a i (Some x) = Some s'" using set_fwd_Some [OF n(1)] n(3) True by fastforce
      note e = set_fwdD [OF s']
      have "?R (Suc i) s'"
        using t(3) e relinked_trans [OF r e(1)] by (auto simp: less_Suc_eq)
      moreover have "last_fwd_step a x t = Some (Inl (Suc i, s'))"
        using t(1) n(1,2) xn True s' by (simp add: last_fwd_step_def)
      ultimately show ?thesis using True t(1) by auto
    next
      case False
      then have "i = ?m" using t(2) by linarith
      moreover from this have "last_fwd_step a x t = Some (Inr s)"
        using t(1) n(1,2) xn by (auto simp: last_fwd_step_def)
      ultimately show ?thesis using t(3) by blast
    qed
  qed simp
qed

lemma trail_loop:
  assumes c: "link_ctx sa us a x []" and tr: "length tr = max_level sa"
      "\<forall>l < max_level sa. tr ! l = prv (heap sa) l (us @ [a])"
    and s0: "relinked sa s0" "nodes s0 = nodes sa" "sa_height s0 = sa_height sa" "back_at (heap s0) = back_at (heap sa)"
    and f0: "\<forall>c l. fwd_at (heap s0) c l =
       (if c = a \<and> l < min (ht (heap sa) a) (ht (heap sa) x) then Some x else fwd_at (heap sa) c l)"
  shows "\<exists>tr' s. loop_c (trail_step x) (0, tr, s0) = Some (tr', s) \<and> relinked sa s \<and> nodes s = nodes sa \<and>
    sa_height s = sa_height sa \<and> back_at (heap s) = back_at (heap sa) \<and> length tr' = max_level sa \<and>
    (\<forall>l < max_level sa. tr' ! l = (if l < ht (heap sa) x then Some x else tr ! l)) \<and>
    (\<forall>c l. fwd_at (heap s) c l =
       (if l < ht (heap sa) x \<and> prv (heap sa) l (us @ [a]) = Some c then Some x else fwd_at (heap sa) c l))"
proof -
  let ?x = "ht (heap sa) x" and ?p = "\<lambda>l. prv (heap sa) l (us @ [a])"
  let ?R = "\<lambda>i tr' s. relinked sa s \<and> nodes s = nodes sa \<and> sa_height s = sa_height sa \<and>
      back_at (heap s) = back_at (heap sa) \<and> length tr' = max_level sa \<and>
      (\<forall>l < max_level sa. tr' ! l = (if l < i then Some x else tr ! l)) \<and>
      (\<forall>c l. fwd_at (heap s) c l =
         (if l < i \<and> ?p l = Some c \<or> c = a \<and> l < min (ht (heap sa) a) ?x then Some x else fwd_at (heap sa) c l))"
  have xm: "?x \<le> max_level sa" using link_ctx_heights [OF c] by simp
  have "\<exists>r. loop_c (trail_step x) (0, tr, s0) = Some r \<and> (case r of (tr', s) \<Rightarrow> ?R ?x tr' s)"
  proof (rule loop_c_rule [where I = "\<lambda>(i, tr', s). i \<le> ?x \<and> ?R i tr' s" and V = "\<lambda>(i, tr', s). ?x - i"])
    fix t assume "case t of (i, tr', s) \<Rightarrow> i \<le> ?x \<and> ?R i tr' s"
    then obtain i tr' s where t: "t = (i, tr', s)" "i \<le> ?x" "?R i tr' s" by (cases t) auto
    have r: "relinked sa s" using t(3) by blast
    obtain xn where xn: "heap s x = Some xn" "height xn = ?x" using link_ctx_node [OF c r, of x] by auto
    show "(\<exists>s'. trail_step x t = Some (Inl s') \<and> (case s' of (i, tr', s) \<Rightarrow> i \<le> ?x \<and> ?R i tr' s) \<and>
        (case s' of (i, tr', s) \<Rightarrow> ?x - i) < (case t of (i, tr', s) \<Rightarrow> ?x - i)) \<or>
      (\<exists>u. trail_step x t = Some (Inr u) \<and> (case u of (tr', s) \<Rightarrow> ?R ?x tr' s))"
    proof (cases "i < ?x")
      case False
      then have "i = ?x" using t(2) by simp
      moreover from this have "trail_step x t = Some (Inr (tr', s))" using t(1) xn by (simp add: trail_step_def)
      ultimately show ?thesis using t(3) by auto
    next
      case True
      then have i: "i < length tr'" "tr' ! i = ?p i" "i < max_level sa" using t(3) tr xm by auto
      show ?thesis
      proof (cases "?p i")
        case None
        have "?R (Suc i) (tr'[i := Some x]) s" using t(3) None i by (auto simp: nth_list_update less_Suc_eq)
        moreover have "trail_step x t = Some (Inl (Suc i, tr'[i := Some x], s))"
          using t(1) xn True i None by (simp add: trail_step_def)
        ultimately show ?thesis using True t(1) by auto
      next
        case (Some p)
        have p: "p \<in> set (us @ [a])" "i < ht (heap sa) p" using prv_SomeD [OF Some] by auto
        then have "p \<in> set (us @ a # x # [])" by auto
        then obtain pn where pn: "heap s p = Some pn" "height pn = ht (heap sa) p" "length (fwd pn) = ht (heap sa) p"
          by (rule link_ctx_node [OF c r])
        obtain s' where s': "set_fwd s p i (Some x) = Some s'" using set_fwd_Some [OF pn(1)] pn(3) p(2) by metis
        note e = set_fwdD [OF s']
        have "?R (Suc i) (tr'[i := Some x]) s'"
          using t(3) e relinked_trans [OF r e(1)] Some i by (auto simp: nth_list_update less_Suc_eq)
        moreover have "trail_step x t = Some (Inl (Suc i, tr'[i := Some x], s'))"
          using t(1) xn True i Some pn p s' by (simp add: trail_step_def)
        ultimately show ?thesis using True t(1) by auto
      qed
    qed
  qed (use s0 f0 tr in simp)
  then obtain tr' s where r: "loop_c (trail_step x) (0, tr, s0) = Some (tr', s)" "?R ?x tr' s" by auto
  have "l < ?x \<and> ?p l = Some c \<or> c = a \<and> l < min (ht (heap sa) a) ?x \<longleftrightarrow> l < ?x \<and> ?p l = Some c" for l c
    by (auto simp: prv_snoc)
  with r(2) have "\<forall>c l. fwd_at (heap s) c l = (if l < ?x \<and> ?p l = Some c then Some x else fwd_at (heap sa) c l)"
    by simp
  with r show ?thesis by blast
qed


text \<open>The chains with the new node on every level already in use.\<close>

lemma trail_inserting:
  assumes c: "link_ctx sa us a x []" and lk: "\<forall>l < max_level sa. linked (heap sa) (nodes sa) l (us @ [a])"
    and fx: "\<And>l. fwd_at (heap sa) x l = None"
    and s: "relinked sa s" "nodes s = nodes sa" "back_at (heap s) = back_at (heap sa)"
    and f: "\<forall>c l. fwd_at (heap s) c l =
       (if l < ht (heap sa) x \<and> prv (heap sa) l (us @ [a]) = Some c then Some x else fwd_at (heap sa) c l)"
  shows "inserting sa us a x [] {l. 0 \<le> l \<and> l < ht (heap sa) x \<and> l < sa_height sa} s"
proof -
  let ?D = "{l. 0 \<le> l \<and> l < ht (heap sa) x \<and> l < sa_height sa}"
  have d: "distinct ((us @ [a]) @ x # [])" using link_ctxD(2) [OF c] by simp
  have hts: "ht (heap s) = ht (heap sa)" using data_eq_at(1) [OF relinkedD(5) [OF s(1)]] .
  have px: "prv (heap sa) l (us @ [a]) \<noteq> Some x" for l using d prv_SomeD [of "heap sa" l "us @ [a]" x] by auto
  have lks: "linked (heap s) (nodes s) l (if l \<in> ?D then us @ a # x # [] else us @ a # [])" if l: "l < max_level sa" for l
  proof (cases "l \<in> ?D")
    case True
    then have "prv (heap sa) l (us @ [a]) \<noteq> None"
      using link_ctxD(3) [OF c l] by (auto simp: prv_None nxt_None)
    then have "linked (heap s) (nodes s) l ((us @ [a]) @ x # [])"
      by (intro linked_insert [of "heap sa" "nodes sa"]) (use lk l d True f fx px s(2) hts in auto)
    with True show ?thesis by simp
  next
    case False
    have N: "prv (heap sa) l (us @ [a]) = None" if "l < ht (heap sa) x"
      using False that link_ctxD(3) [OF c l] by (auto simp: prv_None nxt_None)
    have fl: "fwd_at (heap s) b l = fwd_at (heap sa) b l" for b
      using f [rule_format, of b l] N by (cases "l < ht (heap sa) x") simp_all
    have "linked (heap sa) (nodes sa) l (us @ [a])" using lk l by blast
    then have "linked (heap s) (nodes s) l (us @ [a])"
      by (rule linked_cong) (simp_all add: s(2) hts fl)
    then show ?thesis unfolding if_not_P [OF False] .
  qed
  have "fwd_at (heap s) x l = None" for l using f fx px by simp
  then show ?thesis unfolding inserting_def by (intro conjI allI impI lks s)
qed

text \<open>A skiparray with a new, empty last node.\<close>

definition appended :: "skiparray \<Rightarrow> addr list \<Rightarrow> addr \<Rightarrow> skiparray \<Rightarrow> addr option list \<Rightarrow> bool" where
  "appended sa ns x s tr \<longleftrightarrow>
     same_env sa s \<and> cfg_ok s \<and> shape s (ns @ [x]) \<and> owned s (ns @ [x]) [] \<and>
     foreign s (ns @ [x]) [] = foreign sa ns [] \<and>
     (\<forall>c \<in> set ns. pairs_at (heap s) c = pairs_at (heap sa) c) \<and>
     (\<exists>xn. heap s x = Some xn \<and> offset xn = 0 \<and> count xn = 0) \<and> trail_ok s (ns @ [x]) tr"

lemma link_ctx_fresh:
  assumes w: "wf sa ns []" and ns: "ns = us @ [a]" and x: "x \<notin> set ns"
    and xn: "node_ok (node_size sa) (use_values sa) xn" "height xn \<le> max_level sa"
    and e: "same_env sa sa1" "heap sa1 = heap sa" "nodes sa1 = nodes sa" "sa_height sa1 = sa_height sa"
  shows "link_ctx (set_node sa1 x xn) us a x []"
proof -
  let ?s = "set_node sa1 x xn"
  note sh = wfD(2) [OF w] and cfg = cfg_okD [OF wfD(1) [OF w]]
  have env: "node_size ?s = node_size sa" "use_values ?s = use_values sa" "max_level ?s = max_level sa"
    using e(1) by (simp_all add: same_env_def)
  have "cfg_ok ?s"
    by (rule cfg_ok_env [OF _ wfD(1) [OF w]]) (use e cfg in \<open>auto simp: same_env_def\<close>)
  moreover have "distinct (us @ a # x # [])" using sh x ns by (auto simp: shape_def)
  moreover have "\<exists>n. heap ?s c = Some n \<and> node_ok (node_size sa) (use_values sa) n \<and> height n \<le> max_level sa"
    if "c \<in> set (us @ a # x # [])" for c
  proof (cases "c = x")
    case True
    with xn show ?thesis by simp
  next
    case False
    then have "c \<in> set ns" using that ns by auto
    with False shape_node [OF sh this] e(2) show ?thesis by auto
  qed
  moreover have "l < sa_height ?s \<longleftrightarrow> nxt (heap ?s) l (us @ a # []) \<noteq> None" if l: "l < max_level sa" for l
  proof -
    have "nxt (heap ?s) l ns = nxt (heap sa) l ns" using x e(2) by (intro nxt_cong) (auto simp: chain)
    moreover have "nodes sa ! l = nxt (heap sa) l ns" using linked_headD [OF shape_linked [OF sh l]] .
    moreover have "l < sa_height sa \<longleftrightarrow> nodes sa ! l \<noteq> None" using sh l by (simp add: shape_def)
    ultimately show ?thesis using e(4) ns by simp
  qed
  ultimately show ?thesis unfolding link_ctx_def env by blast
qed

lemma new_last_links:
  assumes c: "link_ctx sa us a x []" and lk: "\<forall>l < max_level sa. linked (heap sa) (nodes sa) l (us @ [a])"
    and fx: "\<And>l. fwd_at (heap sa) x l = None" and tr: "trail_ok sa (us @ [a]) tr"
  obtains s1 tr' s2 s3 s4 where "loop_c (last_fwd_step a x) (0, sa) = Some s1"
    "loop_c (trail_step x) (0, tr, s1) = Some (tr', s2)" "loop_c (raise_step x) s2 = Some s3"
    "set_back s3 x (Some a) = Some s4" "get_fwd s4 a 0 = Some (Some x)" "relinked sa s4"
    "sa_height s4 = max (sa_height sa) (ht (heap sa) x)" "back_at (heap s4) = (back_at (heap sa))(x := Some a)"
    "\<forall>l < max_level sa. linked (heap s4) (nodes s4) l (us @ [a, x])" "trail_ok s4 (us @ [a, x]) tr'"
proof -
  note hs = link_ctx_heights [OF c] and d = link_ctxD(2) [OF c]
  obtain s1 where s1: "loop_c (last_fwd_step a x) (0, sa) = Some s1" "relinked sa s1" "nodes s1 = nodes sa"
    "sa_height s1 = sa_height sa" "back_at (heap s1) = back_at (heap sa)"
    "\<forall>c l. fwd_at (heap s1) c l =
       (if c = a \<and> l < min (ht (heap sa) a) (ht (heap sa) x) then Some x else fwd_at (heap sa) c l)"
    using last_fwd_loop [OF c] by blast
  have tr0: "length tr = max_level sa" "\<forall>l < max_level sa. tr ! l = prv (heap sa) l (us @ [a])"
    using tr by (simp_all add: trail_ok_def)
  obtain tr' s2 where s2: "loop_c (trail_step x) (0, tr, s1) = Some (tr', s2)" "relinked sa s2" "nodes s2 = nodes sa"
    "sa_height s2 = sa_height sa" "back_at (heap s2) = back_at (heap sa)" "length tr' = max_level sa"
    "\<forall>l < max_level sa. tr' ! l = (if l < ht (heap sa) x then Some x else tr ! l)"
    "\<forall>c l. fwd_at (heap s2) c l =
       (if l < ht (heap sa) x \<and> prv (heap sa) l (us @ [a]) = Some c then Some x else fwd_at (heap sa) c l)"
    using trail_loop [OF c tr0 s1(2-6)] by blast
  have i2: "inserting sa us a x [] {l. 0 \<le> l \<and> l < ht (heap sa) x \<and> l < sa_height sa} s2"
    by (rule trail_inserting [OF c lk fx s2(2,3,5,8)])
  obtain s3 where s3: "loop_c (raise_step x) s2 = Some s3" "sa_height s3 = max (sa_height sa) (ht (heap sa) x)"
    "inserting sa us a x [] {l. 0 \<le> l \<and> l < ht (heap sa) x} s3"
    using raise_loop [OF c i2 s2(4)] by auto
  note r3 = insertingD(1) [OF s3(3)]
  obtain xn where xn: "heap s3 x = Some xn" using link_ctx_node [OF c r3, of x] by auto
  obtain s4 where s4: "set_back s3 x (Some a) = Some s4" "relinked s3 s4" "nodes s4 = nodes s3"
    "sa_height s4 = sa_height s3" "fwd_at (heap s4) = fwd_at (heap s3)"
    "back_at (heap s4) = (back_at (heap s3))(x := Some a)" by (rule set_back_effect [OF xn])
  have r4: "relinked sa s4" using relinked_trans [OF r3 s4(2)] .
  note de4 = relinkedD(5) [OF r4] and de34 = relinkedD(5) [OF s4(2)]
  have lk4: "linked (heap s4) (nodes s4) l (us @ [a, x])" if l: "l < max_level sa" for l
  proof -
    have "linked (heap s3) (nodes s3) l (us @ [a, x])"
    proof (cases "l < ht (heap sa) x")
      case True
      with insertingD(4) [OF s3(3) l] show ?thesis by simp
    next
      case False
      then have "\<not> l < ht (heap s3) x" using data_eq_at(1) [OF relinkedD(5) [OF r3]] by simp
      moreover have "linked (heap s3) (nodes s3) l ((us @ [a]) @ [])" using insertingD(3) [OF s3(3) l] False by simp
      ultimately show ?thesis using linked_short [of "us @ [a]" x "[]" l "heap s3" "nodes s3"] d by simp
    qed
    then show ?thesis by (rule linked_cong) (use s4 data_eq_at(1) [OF de34] in simp_all)
  qed
  have "fwd_at (heap s4) a 0 = nxt (heap s4) 0 [x]"
    using linked_fwdD [OF lk4, of 0 a] d hs data_eq_at(1) [OF de4] by (simp add: chain)
  then have "fwd_at (heap s4) a 0 = Some x" using hs(2) data_eq_at(1) [OF de4] by simp
  moreover obtain an where "heap s4 a = Some an" "length (fwd an) = ht (heap sa) a"
    using link_ctx_node [OF c r4, of a] by auto
  ultimately have g: "get_fwd s4 a 0 = Some (Some x)" using get_fwd_at [of s4 a an 0] hs(1) by simp
  have "trail_ok s4 (us @ [a, x]) tr'"
  proof -
    have "prv (heap s4) l (us @ [a, x]) = (if l < ht (heap sa) x then Some x else prv (heap sa) l (us @ [a]))" for l
      using prv_snoc [of "heap sa" l "us @ [a]" x] by (simp add: data_eq_prv [OF de4])
    then show ?thesis using s2(6,7) tr0 relinkedD(7) [OF r4] by (simp add: trail_ok_def)
  qed
  with s1(1) s2(1) s3(1) s4 g r4 lk4 show ?thesis
    by (intro that [OF s1(1) s2(1) s3(1) s4(1) g r4]) (use s3(2) insertingD(2) [OF s3(3)] in auto)
qed


lemma last_node_in: "wf sa ns [] \<Longrightarrow> \<exists>us. ns = us @ [last ns]"
  by (metis append_butlast_last_id shape_def wfD(2))

lemma new_last_appended:
  assumes w: "wf sa ns []" and ns: "ns = us @ [a]" and e: "same_env sa sa1" "heap sa1 = heap sa" "nodes sa1 = nodes sa"
      "sa_height sa1 = sa_height sa"
    and xn: "fresh_node h (node_size sa) (use_values sa) xn" "h \<le> max_level sa"
    and bl: "distinct (node_blocks x xn)" "set (node_blocks x xn) \<inter> set (live (mst sa)) = {}"
      "set (live (mst sa1)) = set (node_blocks x xn) \<union> set (live (mst sa))"
    and x: "x \<notin> set ns"
    and s: "relinked (set_node sa1 x xn) s" "sa_height s = max (sa_height sa) h"
      "back_at (heap s) = (back_at (heap (set_node sa1 x xn)))(x := Some a)"
      "\<forall>l < max_level sa. linked (heap s) (nodes s) l (us @ [a, x])" "trail_ok s (us @ [a, x]) tr"
    and n: "heap s x = Some n"
  shows "appended sa ns x (set_node s x (n\<lparr>offset := 0\<rparr>)) tr"
proof -
  let ?t = "set_node s x (n\<lparr>offset := 0\<rparr>)" let ?s1 = "set_node sa1 x xn"
  note sh = wfD(2) [OF w] and cfg = cfg_okD [OF wfD(1) [OF w]]
  note r = relinkedD [OF s(1)] and de = data_eq_at [OF relinkedD(5) [OF s(1)]]
  have ok: "node_ok (node_size sa) (use_values sa) xn" "height xn = h" "count xn = 0"
    using xn(1) by (simp_all add: fresh_node_def)
  have env1: "same_env sa ?s1" using e(1) by (simp add: same_env_def)
  have env: "same_env sa ?t" using same_env_trans [OF env1 r(1)] by (simp add: same_env_def)
  have ee: "node_size s = node_size sa" "use_values s = use_values sa" "max_level s = max_level sa"
    using r(6-8) e(1) by (simp_all add: same_env_def)
  obtain f b where n': "n = xn\<lparr>fwd := f, back_p := b\<rparr>" "length f = length (fwd xn)"
    using data_eq_SomeD [OF r(5), of x xn] n by auto
  have okn: "node_ok (node_size sa) (use_values sa) (n\<lparr>offset := 0\<rparr>)" "height n = h" "count n = 0"
    using ok n' cfg(1) by (auto simp: node_ok_def)
  have links: "ht (heap ?t) = ht (heap s)" "fwd_at (heap ?t) = fwd_at (heap s)" "back_at (heap ?t) = back_at (heap s)"
    using n by (auto simp: fun_eq_iff chain at_Some fwd_at_def)
  have htx: "ht (heap s) x = h" using n okn(2) by (simp add: at_Some)
  have lk: "linked (heap ?t) (nodes ?t) l (ns @ [x])" if "l < max_level sa" for l
    by (rule linked_cong [where h = "heap s" and heads = "nodes s"]) (use s(4) that ns links in auto)
  have node: "\<exists>m. heap ?t c = Some m \<and> node_ok (node_size sa) (use_values sa) m \<and> height m \<le> max_level sa"
    if c: "c \<in> set (ns @ [x])" for c
  proof (cases "c = x")
    case True
    with okn xn(2) show ?thesis by simp
  next
    case False
    then have "c \<in> set ns" using c by simp
    then obtain m where m: "heap sa c = Some m" "node_ok (node_size sa) (use_values sa) m" "height m \<le> max_level sa"
      by (rule shape_node [OF sh])
    then have "heap ?s1 c = Some m" using False e(2) by simp
    then obtain m' where "heap s c = Some m'" "node_ok (node_size sa) (use_values sa) m' = node_ok (node_size sa) (use_values sa) m"
      "height m' = height m" by (rule data_eq_node [OF r(5)])
    with m False show ?thesis by simp
  qed
  have bk: "back_at (heap ?t) c = prev_of c (ns @ [x])" if c: "c \<in> set (ns @ [x])" for c
  proof (cases "c = x")
    case True
    have "prev_of x (ns @ x # []) = Some a" using x ns by (subst prev_of_split) auto
    with True s(3) links(3) show ?thesis by simp
  next
    case False
    then have "c \<in> set ns" using c by simp
    with False show ?thesis using s(3) links(3) e(2) sh by (simp add: chain shape_def)
  qed
  have hgt: "l < sa_height ?t \<longleftrightarrow> nodes ?t ! l \<noteq> None" if l: "l < max_level sa" for l
  proof -
    have "nodes ?t ! l = nxt (heap s) l (ns @ [x])" using linked_headD [OF s(4) [rule_format, OF l]] ns by simp
    moreover have "nxt (heap s) l ns = nxt (heap sa) l ns"
      using x e(2) by (intro nxt_cong) (auto simp: de chain)
    moreover have "l < sa_height sa \<longleftrightarrow> nxt (heap sa) l ns \<noteq> None"
      using linked_headD [OF shape_linked [OF sh l]] sh l by (simp add: shape_def)
    ultimately show ?thesis using s(2) htx by (auto simp: nxt_append split: option.splits)
  qed
  have dom: "dom (heap ?t) = set (ns @ [x])"
    using sh de(4) e(2) by (auto simp: shape_def)
  have shape: "shape ?t (ns @ [x])"
    using x sh dom node lk bk hgt ee unfolding shape_def by auto
  have "cfg_ok ?t"
    by (rule cfg_ok_env [OF env wfD(1) [OF w]]) (use s(2) cfg(5,6) xn(2) r(4) e(3) in auto)
  moreover have blk: "blocks_at (heap ?t) = (blocks_at (heap sa))(x := node_blocks x xn)"
    by (intro ext) (use n' e(2) in \<open>simp add: chain de node_blocks_def\<close>)
  have lv: "set (live (mst ?t)) = set (node_blocks x xn) \<union> set (live (mst sa))" using bl(3) r(2) by simp
  have own: "owned sa (ns @ []) []" using wfD(6) [OF w] by simp
  have "x \<notin> set (ns @ [])" using x by simp
  note ow = owned_insert [OF own env this blk bl(1,2) lv]
  moreover have "pairs_at (heap ?t) c = pairs_at (heap sa) c" if "c \<in> set ns" for c
    using that x e(2) by (auto simp: chain de)
  moreover have "trail_ok ?t (ns @ [x]) tr"
  proof -
    have "prv (heap ?t) l (ns @ [x]) = prv (heap s) l (ns @ [x])" for l by (rule prv_cong) (simp only: links)
    then show ?thesis using s(5) ns by (simp add: trail_ok_def)
  qed
  ultimately show ?thesis using env shape okn(3) unfolding appended_def by simp
qed

lemma new_last_correct:
  assumes w: "wf (b_sa b) ns []" and l: "b_last b = last ns" and tr: "trail_ok (b_sa b) ns (trail b)"
  shows "\<exists>r s a tr'. new_last b = Some (r, b\<lparr>b_sa := s, b_last := a, trail := tr'\<rparr>) \<and>
    (case r of
       None \<Rightarrow> a = b_last b \<and> tr' = trail b \<and> same_env (b_sa b) s \<and> heap s = heap (b_sa b) \<and> nodes s = nodes (b_sa b) \<and>
         sa_height s = sa_height (b_sa b) \<and> set (live (mst s)) = set (live (mst (b_sa b))) \<and> may_refuse (b_sa b)
     | Some x \<Rightarrow> a = x \<and> x \<notin> set ns \<and> appended (b_sa b) ns x s tr')"
proof -
  let ?sa = "b_sa b"
  note sh = wfD(2) [OF w] and cfg = cfg_okD [OF wfD(1) [OF w]]
  obtain us a where ns: "ns = us @ [a]" using last_node_in [OF w] by blast
  obtain lv g where lg: "draw_level ?sa = (lv, g)" by fastforce
  then have lv: "lv < max_level ?sa" "u8 (lv + 1) = lv + 1" using draw_level_bound [OF wfD(1) [OF w]] by auto
  obtain r m where alloc: "node_alloc (lv + 1) (node_size ?sa) (snd (mem ?sa)) (use_values ?sa) (mst ?sa) = Some (r, m)"
    "case r of None \<Rightarrow> set (live m) = set (live (mst ?sa))
     | Some (x, xn) \<Rightarrow> fresh_node (lv + 1) (node_size ?sa) (use_values ?sa) xn \<and> distinct (node_blocks x xn) \<and>
         set (node_blocks x xn) \<inter> set (live (mst ?sa)) = {} \<and>
         set (live m) = set (node_blocks x xn) \<union> set (live (mst ?sa))"
    using allocator.node_alloc_total [OF cfg(9), of "lv + 1" "node_size ?sa" "use_values ?sa" "mst ?sa"] cfg(1) by auto
  let ?s1 = "?sa\<lparr>prng_state := g, mst := m\<rparr>"
  show ?thesis
  proof (cases r)
    case None
    have "new_last b = Some (None, b\<lparr>b_sa := ?s1\<rparr>)" using lg lv alloc(1) None by (simp add: new_last_def)
    moreover have "b\<lparr>b_sa := ?s1\<rparr> = b\<lparr>b_sa := ?s1, b_last := b_last b, trail := trail b\<rparr>" by simp
    moreover have "may_refuse ?sa" using node_alloc_refused alloc(1) None unfolding may_refuse_def by blast
    ultimately show ?thesis using None alloc(2)
      by (intro exI [of _ None] exI [of _ ?s1] exI [of _ "b_last b"] exI [of _ "trail b"]) (simp add: same_env_def node_alloc_oom [OF alloc(1)])
  next
    case (Some p)
    then obtain x xn where x: "r = Some (x, xn)" by (cases p) auto
    then have fr: "fresh_node (lv + 1) (node_size ?sa) (use_values ?sa) xn" and bl: "distinct (node_blocks x xn)"
      "set (node_blocks x xn) \<inter> set (live (mst ?sa)) = {}" "set (live m) = set (node_blocks x xn) \<union> set (live (mst ?sa))"
      using alloc(2) by auto
    have ok: "node_ok (node_size ?sa) (use_values ?sa) xn" "height xn = lv + 1" "fwd xn = replicate (lv + 1) None"
      using fr by (simp_all add: fresh_node_def)
    have xns: "x \<notin> set ns"
    proof
      assume "x \<in> set ns"
      then have "x \<in> set (blocks ?sa ns [])" by (rule node_in_blocks [OF sh])
      with wfD(6) [OF w] bl(2) show False by (auto simp: owned_def node_blocks_def)
    qed
    let ?s2 = "set_node ?s1 x xn"
    have e: "same_env ?sa ?s1" "heap ?s1 = heap ?sa" "nodes ?s1 = nodes ?sa" "sa_height ?s1 = sa_height ?sa"
      by (simp_all add: same_env_def node_alloc_oom [OF alloc(1)])
    have c: "link_ctx ?s2 us a x []"
      by (rule link_ctx_fresh [OF w ns xns ok(1) _ e]) (use ok(2) lv(1) in simp)
    have lk: "\<forall>l < max_level ?s2. linked (heap ?s2) (nodes ?s2) l (us @ [a])"
    proof (intro allI impI)
      fix l assume "l < max_level ?s2"
      then have "linked (heap ?sa) (nodes ?sa) l ns" using shape_linked [OF sh] by simp
      then have "linked (heap ?s2) (nodes ?s2) l ns" by (rule linked_cong) (use xns in \<open>auto simp: chain\<close>)
      then show "linked (heap ?s2) (nodes ?s2) l (us @ [a])" using ns by simp
    qed
    have fx: "fwd_at (heap ?s2) x l = None" for l using ok(3) by (simp add: chain del: replicate_Suc)
    have tr2: "trail_ok ?s2 (us @ [a]) (trail b)"
    proof -
      have "prv (heap ?s2) l ns = prv (heap ?sa) l ns" for l using xns by (intro prv_cong) (auto simp: chain)
      with tr ns show ?thesis by (simp add: trail_ok_def)
    qed
    obtain s1 tr' s2 s3 s4 where s: "loop_c (last_fwd_step a x) (0, ?s2) = Some s1"
      "loop_c (trail_step x) (0, trail b, s1) = Some (tr', s2)" "loop_c (raise_step x) s2 = Some s3"
      "set_back s3 x (Some a) = Some s4" "get_fwd s4 a 0 = Some (Some x)" "relinked ?s2 s4"
      "sa_height s4 = max (sa_height ?s2) (ht (heap ?s2) x)" "back_at (heap s4) = (back_at (heap ?s2))(x := Some a)"
      "\<forall>l < max_level ?s2. linked (heap s4) (nodes s4) l (us @ [a, x])" "trail_ok s4 (us @ [a, x]) tr'"
      using new_last_links [OF c lk fx tr2] by metis
    obtain n where n: "heap s4 x = Some n" using data_eq_SomeD [OF relinkedD(5) [OF s(6)], of x xn] by auto
    let ?t = "set_node s4 x (n\<lparr>offset := 0\<rparr>)"
    have la: "b_last b = a" using l ns by simp
    have "new_last b = Some (Some x, b\<lparr>b_sa := ?t, b_last := x, trail := tr'\<rparr>)"
      using lg lv alloc(1) x s(1-5) n la by (simp add: new_last_def Let_def)
    moreover have "appended ?sa ns x ?t tr'"
      by (rule new_last_appended [OF w ns e fr _ bl(1,2) _ xns s(6) _ s(8) _ s(10) n])
        (use lv(1) bl(3) s(7,9) ok(2) in \<open>auto simp: chain\<close>)
    ultimately show ?thesis using xns by auto
  qed
qed


section \<open>Appending\<close>

lemma store_last_correct:
  assumes ok: "node_ok ns uv n" and ns: "ns < 65536" and c: "offset n = 0" "count n < ns"
  shows "\<exists>n'. store_last n key v = Some n' \<and> node_ok ns uv n' \<and> offset n' = 0 \<and> same_links n n' \<and>
    node_pairs n' = node_pairs n @ [(key, if uv then v else 0)]"
proof -
  define n' where "n' = n\<lparr>keys := (keys n)[count n := key], vals := map_option (\<lambda>w. w[count n := v]) (vals n),
    count := count n + 1\<rparr>"
  have len: "length (keys n) = ns" "\<And>w. vals n = Some w \<Longrightarrow> length w = ns" using node_okD [OF ok] by auto
  have tk: "take (Suc (count n)) (xs[count n := y]) = take (count n) xs @ [y]" if "length xs = ns" for xs :: "voidp list" and y
    using that c(2) by (simp add: take_Suc_conv_app_nth)
  have "store_last n key v = Some n'"
    using len c ns by (cases "vals n") (simp_all add: store_last_def n'_def)
  moreover have "node_ok ns uv n'" using ok c by (auto simp: node_ok_def n'_def split: if_splits)
  moreover have "same_links n n'" "offset n' = 0" using c by (simp_all add: same_links_def n'_def)
  moreover have "node_pairs n' = node_pairs n @ [(key, if uv then v else 0)]"
  proof -
    have k: "node_keys n' = node_keys n @ [key]" using len(1) c(1) tk by (simp add: node_keys_def n'_def)
    have v: "node_vals n' = node_vals n @ [if uv then v else 0]"
      using ok c(1) tk len(2) by (cases "vals n") (auto simp: node_vals_def n'_def node_ok_def replicate_append_same split: if_splits)
    show ?thesis using ok by (simp add: node_pairs_def k v)
  qed
  ultimately show ?thesis by blast
qed

lemma wf_store_last:
  assumes s: "cfg_ok s" "shape s (us @ [x])" "owned s (us @ [x]) []" "iters_ok s (us @ [x]) []"
    and half: "\<And>c. c \<in> set us \<Longrightarrow> node_size s div 2 \<le> length (pairs_at (heap s) c)"
    and n: "heap s x = Some n" "node_ok (node_size s) (use_values s) n'" "same_links n n'"
      "node_pairs n' = node_pairs n @ [p]"
    and asc: "ascending (call_cmp s) (map fst (pairs_of (heap s) (us @ [x]) @ [p]))"
  defines "t \<equiv> set_node s x n'"
  shows "wf t (us @ [x]) []" "pairs_of (heap t) (us @ [x]) = pairs_of (heap s) (us @ [x]) @ [p]"
    "foreign t (us @ [x]) [] = foreign s (us @ [x]) []" "trail_ok t (us @ [x]) tr = trail_ok s (us @ [x]) tr"
    "filled t (us @ [x]) = filled s (us @ [x])"
proof -
  have d: "distinct (us @ x # [])" using s(2) by (simp add: shape_def)
  show p: "pairs_of (heap t) (us @ [x]) = pairs_of (heap s) (us @ [x]) @ [p]"
    using pairs_of_upd [OF d, of "heap s" n'] n(1,4) by (simp add: t_def at_Some)
  have "shape t (us @ [x])" unfolding t_def by (rule shape_upd_pairs [OF s(2) n(1-3)])
  moreover have "cfg_ok t" using s(1) by (simp add: t_def cfg_ok_def)
  moreover have "ordered t (us @ [x])" using asc p by (simp add: ordered_def t_def)
  moreover have "occupied t (us @ [x])"
    using half d n(4) by (auto simp: occupied_def t_def chain)
  moreover have "owned t (us @ [x]) []" unfolding t_def using owned_upd_pairs [OF n(1,3)] s(3) by simp
  moreover have "iters_ok t (us @ [x]) []" using s(4) by (simp add: iters_ok_none t_def)
  ultimately show "wf t (us @ [x]) []" by (simp add: wf_def)
  show "foreign t (us @ [x]) [] = foreign s (us @ [x]) []"
    unfolding t_def using blocks_upd_pairs [OF n(1,3)] by simp
  have "ht (heap t) = ht (heap s)" using n(1,3) by (auto simp: fun_eq_iff t_def chain at_Some same_links_def)
  then have "prv (heap t) l (us @ [x]) = prv (heap s) l (us @ [x])" for l by (intro prv_cong) simp
  then show "trail_ok t (us @ [x]) tr = trail_ok s (us @ [x]) tr" by (simp add: trail_ok_def t_def)
  show "filled t (us @ [x]) = filled s (us @ [x])" using d by (auto simp: filled_def t_def chain)
qed

text \<open>The pairs stay in order when the new key comes after the last one.\<close>

lemma ascending_snoc:
  assumes c: "comparator c" and a: "ascending c (map fst ps)" and k: "ps = [] \<or> 0 < c key (fst (last ps))"
  shows "ascending c (map fst (ps @ [(key, v)]))"
proof (cases "ps = []")
  case False
  then have "ascending c (map fst (butlast ps) @ [fst (last ps)])"
    using a by (metis append_butlast_last_id list.simps(8) list.simps(9) map_append)
  moreover have "0 < c key (fst (last ps))" using False k by simp
  ultimately have "below c key (map fst (butlast ps) @ [fst (last ps)])"
    by (rule comparator.below_from_last [OF c])
  moreover have "map fst (butlast ps) @ [fst (last ps)] = map fst ps"
    using False by (metis append_butlast_last_id list.simps(8) list.simps(9) map_append)
  ultimately have "below c key (map fst ps)" by simp
  then show ?thesis using comparator.ascending_insert [OF c, of "map fst ps" "[]" key] a by simp
qed simp

lemma builder_store:
  assumes b: "b_sa b1 = set_node s x n'" "b_last b1 = x" "trail b1 = tr"
    and w: "wf (set_node s x n') (us @ [x]) []" "trail_ok (set_node s x n') (us @ [x]) tr"
      "pairs_of (heap (set_node s x n')) (us @ [x]) = ps'" "ps' \<noteq> []" "offset n' = 0"
      "foreign (set_node s x n') (us @ [x]) [] = insert (b_self b1) F" "b_self b1 \<notin> F"
      "fst (last ps') = key" "\<not> check_ascending b1 \<Longrightarrow> \<not> has_prev_key b1" "filled (set_node s x n') (us @ [x])"
  shows "builder_ok (if check_ascending b1 then b1\<lparr>has_prev_key := True, prev_key := key\<rparr> else b1) ps' F"
  unfolding builder_ok_def using assms by (intro exI [of _ "us @ [x]"] exI [of _ n']) (cases b1, auto)


lemma wf_new_state:
  assumes w: "wf sa ns []" and e: "same_env sa s" "heap s = heap sa" "nodes s = nodes sa" "sa_height s = sa_height sa"
    "set (live (mst s)) = set (live (mst sa))"
  shows "wf s ns []" "foreign s ns [] = foreign sa ns []" "trail_ok s ns tr = trail_ok sa ns tr" "filled s ns = filled sa ns"
proof -
  have b: "blocks s ns [] = blocks sa ns []" using e(1,2) by (simp add: blocks_def same_env_def)
  have "owned s ns []" using wfD(6) [OF w] e(5) b by (simp add: owned_def)
  moreover have "iters_ok s ns []" using wfD(5) [OF w] e(1) by (simp add: iters_ok_none same_env_def)
  ultimately show "wf s ns []" by (intro wf_parts [OF w]) (use e in \<open>simp_all add: same_env_def\<close>)
  show "foreign s ns [] = foreign sa ns []" using b e(5) by simp
  show "trail_ok s ns tr = trail_ok sa ns tr" "filled s ns = filled sa ns"
    using e(1,2) by (simp_all add: trail_ok_def filled_def same_env_def)
qed

lemma builder_lastE:
  assumes "builder_ok b ps F"
  obtains us a n where "wf (b_sa b) (us @ [a]) []" "pairs_of (heap (b_sa b)) (us @ [a]) = ps" "b_last b = a"
    "heap (b_sa b) a = Some n" "node_ok (node_size (b_sa b)) (use_values (b_sa b)) n" "offset n = 0"
    "trail_ok (b_sa b) (us @ [a]) (trail b)" "foreign (b_sa b) (us @ [a]) [] = insert (b_self b) F" "b_self b \<notin> F"
    "has_prev_key b \<longleftrightarrow> check_ascending b \<and> ps \<noteq> []" "has_prev_key b \<longrightarrow> prev_key b = fst (last ps)"
    "filled (b_sa b) (us @ [a])"
proof -
  obtain ns n where b: "wf (b_sa b) ns []" "pairs_of (heap (b_sa b)) ns = ps" "b_last b = last ns"
    "heap (b_sa b) (last ns) = Some n" "offset n = 0" "trail_ok (b_sa b) ns (trail b)"
    "foreign (b_sa b) ns [] = insert (b_self b) F" "b_self b \<notin> F"
    "has_prev_key b \<longleftrightarrow> check_ascending b \<and> ps \<noteq> []" "has_prev_key b \<longrightarrow> prev_key b = fst (last ps)"
    "filled (b_sa b) ns"
    using assms unfolding builder_ok_def by blast
  obtain us a where ns: "ns = us @ [a]" using last_node_in [OF b(1)] by blast
  have "node_ok (node_size (b_sa b)) (use_values (b_sa b)) n"
    using shape_node [OF wfD(2) [OF b(1)], of a] ns b(4) by auto
  with b show ?thesis by (intro that [of us a n]) (simp_all add: ns)
qed

text \<open>The last node has room.\<close>

lemma append_fits:
  assumes b: "builder_ok b ps F" and n: "heap (b_sa b) (b_last b) = Some n" "count n \<noteq> node_size (b_sa b)"
    and t: "\<not> (has_prev_key b \<and> call_cmp (b_sa b) key (prev_key b) \<le> 0)"
    and asc: "ascending (call_cmp (b_sa b)) (map fst (ps @ [(key, value_kept (b_sa b) v)]))"
  shows "\<exists>b'. skiparray_builder_append b key v = Some (SKIPARRAY_BUILDER_APPEND_OK, b') \<and> same_env (b_sa b) (b_sa b') \<and>
    check_ascending b' = check_ascending b \<and> builder_ok b' (ps @ [(key, value_kept (b_sa b) v)]) F"
proof -
  let ?sa = "b_sa b" and ?p = "(key, value_kept (b_sa b) v)"
  obtain us a where w: "wf ?sa (us @ [a]) []" and ps: "pairs_of (heap ?sa) (us @ [a]) = ps" and la: "b_last b = a"
    and na: "heap ?sa a = Some n" "node_ok (node_size ?sa) (use_values ?sa) n" "offset n = 0"
    and tr: "trail_ok ?sa (us @ [a]) (trail b)"
    and f: "foreign ?sa (us @ [a]) [] = insert (b_self b) F" "b_self b \<notin> F"
    and h: "has_prev_key b \<longleftrightarrow> check_ascending b \<and> ps \<noteq> []"
    and fl: "filled ?sa (us @ [a])"
    using builder_lastE [OF b] n(1) by (metis option.inject)
  have cn: "count n < node_size ?sa" using node_okD(4) [OF na(2)] n(2) by simp
  have "node_size ?sa < 65536" using cfg_okD(2) [OF wfD(1) [OF w]] .
  from store_last_correct [OF na(2) this na(3) cn, of key v]
  obtain n' where n': "store_last n key v = Some n'" "node_ok (node_size ?sa) (use_values ?sa) n'" "offset n' = 0"
    "same_links n n'" "node_pairs n' = node_pairs n @ [?p]" by (auto simp: value_kept_def)
  let ?b = "b\<lparr>b_sa := set_node (b_sa b) a n'\<rparr>"
  let ?b' = "if check_ascending ?b then ?b\<lparr>has_prev_key := True, prev_key := key\<rparr> else ?b"
  have half: "node_size ?sa div 2 \<le> length (pairs_at (heap ?sa) c)" if "c \<in> set us" for c
    using wfD(4) [OF w] that by (simp add: occupied_def)
  note st = wf_store_last [OF wfD(1,2,6,5) [OF w] half na(1) n'(2,4,5), unfolded ps, OF _ asc]
  have "skiparray_builder_append b key v = Some (SKIPARRAY_BUILDER_APPEND_OK, ?b')"
    using na la n(2) t n'(1) by (simp add: skiparray_builder_append_def)
  moreover have "builder_ok ?b' (ps @ [?p]) F"
    by (rule builder_store [of ?b ?sa a n' "trail b" us]) (use st tr la f h n'(3) fl in auto)
  ultimately show ?thesis by (auto simp: same_env_def)
qed

text \<open>The last node is full.\<close>

lemma append_grows:
  assumes b: "builder_ok b ps F" and n: "heap (b_sa b) (b_last b) = Some n" "count n = node_size (b_sa b)"
    and t: "\<not> (has_prev_key b \<and> call_cmp (b_sa b) key (prev_key b) \<le> 0)"
    and asc: "ascending (call_cmp (b_sa b)) (map fst (ps @ [(key, value_kept (b_sa b) v)]))"
  shows "\<exists>res b'. skiparray_builder_append b key v = Some (res, b') \<and> same_env (b_sa b) (b_sa b') \<and>
    check_ascending b' = check_ascending b \<and>
    (res = SKIPARRAY_BUILDER_APPEND_OK \<and> builder_ok b' (ps @ [(key, value_kept (b_sa b) v)]) F \<or>
     res = SKIPARRAY_BUILDER_APPEND_ERROR_MEMORY \<and> builder_ok b' ps F \<and> may_refuse (b_sa b))"
proof -
  let ?sa = "b_sa b" and ?p = "(key, value_kept (b_sa b) v)"
  obtain us a where w: "wf ?sa (us @ [a]) []" and ps: "pairs_of (heap ?sa) (us @ [a]) = ps" and la: "b_last b = a"
    and na: "heap ?sa a = Some n" "node_ok (node_size ?sa) (use_values ?sa) n" "offset n = 0"
    and tr: "trail_ok ?sa (us @ [a]) (trail b)"
    and f: "foreign ?sa (us @ [a]) [] = insert (b_self b) F" "b_self b \<notin> F"
    and h: "has_prev_key b \<longleftrightarrow> check_ascending b \<and> ps \<noteq> []" "has_prev_key b \<longrightarrow> prev_key b = fst (last ps)"
    and fl: "filled ?sa (us @ [a])"
    using builder_lastE [OF b] n(1) by (metis option.inject)
  note cfg = cfg_okD [OF wfD(1) [OF w]]
  let ?ns = "us @ [a]"
  have l: "b_last b = last ?ns" using la by simp
  obtain r s a' tr' where nl: "new_last b = Some (r, b\<lparr>b_sa := s, b_last := a', trail := tr'\<rparr>)"
    and r: "case r of
       None \<Rightarrow> a' = b_last b \<and> tr' = trail b \<and> same_env ?sa s \<and> heap s = heap ?sa \<and> nodes s = nodes ?sa \<and>
         sa_height s = sa_height ?sa \<and> set (live (mst s)) = set (live (mst ?sa)) \<and> may_refuse ?sa
     | Some x \<Rightarrow> a' = x \<and> x \<notin> set ?ns \<and> appended ?sa ?ns x s tr'"
    using new_last_correct [OF w l tr] by blast
  let ?b1 = "b\<lparr>b_sa := s, b_last := a', trail := tr'\<rparr>"
  show ?thesis
  proof (cases r)
    case None
    with r have e: "a' = b_last b" "tr' = trail b" "same_env ?sa s" "heap s = heap ?sa" "nodes s = nodes ?sa"
      "sa_height s = sa_height ?sa" "set (live (mst s)) = set (live (mst ?sa))" "may_refuse ?sa" by auto
    note w' = wf_new_state [OF w e(3-7)]
    have "builder_ok ?b1 ps F" unfolding builder_ok_def
      by (intro exI [of _ ?ns] exI [of _ n]) (use w' ps l na tr f h e fl in simp)
    moreover have "skiparray_builder_append b key v = Some (SKIPARRAY_BUILDER_APPEND_ERROR_MEMORY, ?b1)"
      using na la n(2) t nl None by (simp add: skiparray_builder_append_def)
    ultimately show ?thesis using e(3,8) by auto
  next
    case (Some x)
    with r have a': "a' = x" "x \<notin> set ?ns" and ap: "appended ?sa ?ns x s tr'" by auto
    obtain xn where e: "same_env ?sa s" "cfg_ok s" "shape s (?ns @ [x])" "owned s (?ns @ [x]) []"
      "foreign s (?ns @ [x]) [] = foreign ?sa ?ns []" "\<forall>c \<in> set ?ns. pairs_at (heap s) c = pairs_at (heap ?sa) c"
      "heap s x = Some xn" "offset xn = 0" "count xn = 0" "trail_ok s (?ns @ [x]) tr'"
      using ap unfolding appended_def by blast
    have ee: "node_size s = node_size ?sa" "use_values s = use_values ?sa" "call_cmp s = call_cmp ?sa"
      using e(1) by (simp_all add: same_env_def)
    have okx: "node_ok (node_size s) (use_values s) xn" using shape_node [OF e(3), of x] e(7) by auto
    have cx: "count xn < node_size s" using e(9) cfg(1) ee(1) by simp
    obtain n' where n': "store_last xn key v = Some n'" "node_ok (node_size s) (use_values s) n'" "offset n' = 0"
      "same_links xn n'" "node_pairs n' = node_pairs xn @ [?p]"
      using store_last_correct [OF okx _ e(8) cx, of key v] cfg(2) ee by (auto simp: value_kept_def)
    have "node_pairs xn = []" using okx e(9) by (metis length_node_pairs length_0_conv)
    moreover have "pairs_of (heap s) ?ns = pairs_of (heap ?sa) ?ns" by (rule pairs_of_cong) (use e(6) in blast)
    ultimately have px: "pairs_of (heap s) (?ns @ [x]) = ps" using e(7) ps by (simp add: at_Some)
    have it: "iters_ok s (?ns @ [x]) []" using wfD(5) [OF w] e(1) by (simp add: iters_ok_none same_env_def)
    have half: "node_size s div 2 \<le> length (pairs_at (heap s) c)" if c: "c \<in> set ?ns" for c
      using c e(6) n(2) pairs_at_ok(1) [OF na(1,2)] ee(1) wfD(4) [OF w] by (cases "c = a") (auto simp: occupied_def)
    have "filled s (?ns @ [x])"
      using fl e(6) n(2) pairs_at_ok(1) [OF na(1,2)] ee(1) unfolding filled_def by (auto simp: butlast_append)
    note st = wf_store_last [OF e(2-4) it half e(7) n'(2,4,5), unfolded px ee(3), OF _ asc]
    let ?b2 = "?b1\<lparr>b_sa := set_node s x n'\<rparr>"
    let ?b' = "if check_ascending ?b2 then ?b2\<lparr>has_prev_key := True, prev_key := key\<rparr> else ?b2"
    have "skiparray_builder_append b key v = Some (SKIPARRAY_BUILDER_APPEND_OK, ?b')"
      using na la n(2) t nl Some a' e(7) n'(1) by (simp add: skiparray_builder_append_def)
    moreover have "builder_ok ?b' (ps @ [?p]) F"
      by (rule builder_store [of ?b2 s x n' tr' ?ns]) (use st e(5,10) a' f h(1) n'(3) \<open>filled s (?ns @ [x])\<close> in auto)
    ultimately show ?thesis using e(1) by (auto simp: same_env_def)
  qed
qed

lemma builder_append_correct:
  assumes b: "builder_ok b ps F"
    and k: "check_ascending b \<or> ps = [] \<or> 0 < call_cmp (b_sa b) key (fst (last ps))"
  shows "\<exists>res b'. skiparray_builder_append b key v = Some (res, b') \<and> same_env (b_sa b) (b_sa b') \<and>
    check_ascending b' = check_ascending b \<and>
    (if ps \<noteq> [] \<and> call_cmp (b_sa b) key (fst (last ps)) \<le> 0 then res = SKIPARRAY_BUILDER_APPEND_ERROR_MISUSE \<and> b' = b
     else res = SKIPARRAY_BUILDER_APPEND_OK \<and> builder_ok b' (ps @ [(key, value_kept (b_sa b) v)]) F \<or>
       res = SKIPARRAY_BUILDER_APPEND_ERROR_MEMORY \<and> builder_ok b' ps F \<and> may_refuse (b_sa b))"
proof -
  let ?sa = "b_sa b"
  obtain us a n where w: "wf ?sa (us @ [a]) []" "pairs_of (heap ?sa) (us @ [a]) = ps"
    and n: "heap ?sa (b_last b) = Some n" "offset n = 0"
    and h: "has_prev_key b \<longleftrightarrow> check_ascending b \<and> ps \<noteq> []" "has_prev_key b \<longrightarrow> prev_key b = fst (last ps)"
    using builder_lastE [OF b] by metis
  have test: "has_prev_key b \<and> call_cmp ?sa key (prev_key b) \<le> 0 \<longleftrightarrow> ps \<noteq> [] \<and> call_cmp ?sa key (fst (last ps)) \<le> 0"
    using h k by force
  show ?thesis
  proof (cases "ps \<noteq> [] \<and> call_cmp ?sa key (fst (last ps)) \<le> 0")
    case True
    with test n have "skiparray_builder_append b key v = Some (SKIPARRAY_BUILDER_APPEND_ERROR_MISUSE, b)"
      by (simp add: skiparray_builder_append_def)
    with True show ?thesis by simp
  next
    case False
    then have "ascending (call_cmp ?sa) (map fst (ps @ [(key, value_kept ?sa v)]))"
      using ascending_snoc [OF cfg_okD(8) [OF wfD(1) [OF w(1)]], of ps key "value_kept ?sa v"] wfD(3) [OF w(1)] w(2)
      by (auto simp: ordered_def)
    moreover have "\<not> (has_prev_key b \<and> call_cmp ?sa key (prev_key b) \<le> 0)" using False test by simp
    ultimately show ?thesis unfolding if_not_P [OF False]
      using append_fits [OF b n(1), of key v] append_grows [OF b n(1), of key v] by blast
  qed
qed


section \<open>Creation, completion and release\<close>

text \<open>A block more or less, outside the skiparray's own.\<close>

lemma wf_mst:
  assumes w: "wf sa ns its" and l: "set (blocks sa ns its) \<subseteq> set (live m)"
  shows "wf (sa\<lparr>mst := m\<rparr>) ns its"
proof -
  have "owned (sa\<lparr>mst := m\<rparr>) ns its" using wfD(6) [OF w] l by (simp add: owned_def blocks_def)
  moreover have "iters_ok (sa\<lparr>mst := m\<rparr>) ns its" using wfD(5) [OF w] by (simp add: iters_ok_def)
  ultimately show ?thesis by (intro wf_parts [OF w]) simp_all
qed

lemma blocks_mst [simp]: "blocks (sa\<lparr>mst := m\<rparr>) ns its = blocks sa ns its"
  by (simp add: blocks_def)

lemma iter_view_mst:
  assumes v: "iter_view sa ps its F pos"
    and l: "set (live m) = (set (live (mst sa)) - F) \<union> G" "G \<inter> (set (live (mst sa)) - F) = {}"
  shows "iter_view (sa\<lparr>mst := m\<rparr>) ps its G pos"
proof -
  obtain ns where w: "wf sa ns its" and ps: "pairs_of (heap sa) ns = ps" "F = foreign sa ns its" "its \<noteq> [] \<longrightarrow> ps \<noteq> []"
    "\<forall>i \<in> set its. located sa ns i (pos i)"
    using v unfolding iter_view_def by blast
  have b: "set (live (mst sa)) - F = set (blocks sa ns its)" using wfD(6) [OF w] ps(2) by (auto simp: owned_def)
  have "wf (sa\<lparr>mst := m\<rparr>) ns its" by (rule wf_mst [OF w]) (use l b in auto)
  moreover have "G = foreign (sa\<lparr>mst := m\<rparr>) ns its" using l b by auto
  moreover have "\<forall>i \<in> set its. located (sa\<lparr>mst := m\<rparr>) ns i (pos i)" using ps(4) by (simp add: located_def)
  ultimately show ?thesis unfolding iter_view_def using ps(1,3) by (intro exI [of _ ns]) simp
qed

lemma iter_view_foreign: "iter_view sa ps its F pos \<Longrightarrow> F \<subseteq> set (live (mst sa)) \<and> allocator (snd (mem sa))"
  unfolding iter_view_def wf_def cfg_ok_def by auto

lemma iter_view_alloc:
  assumes v: "iter_view sa ps its F pos" and a: "mem_alloc (snd (mem sa)) n (mst sa) = (Some bl, m)"
  shows "iter_view (sa\<lparr>mst := m\<rparr>) ps its (insert bl F) pos" "bl \<notin> F"
proof -
  have m: "bl \<notin> set (live (mst sa))" "live m = bl # live (mst sa)"
    using allocator.mem_alloc_SomeD iter_view_foreign [OF v] a by blast+
  show "iter_view (sa\<lparr>mst := m\<rparr>) ps its (insert bl F) pos"
    by (rule iter_view_mst [OF v]) (use m iter_view_foreign [OF v] in auto)
  show "bl \<notin> F" using m(1) iter_view_foreign [OF v] by auto
qed

lemma iter_view_refused:
  assumes v: "iter_view sa ps its F pos" and a: "mem_alloc (snd (mem sa)) n (mst sa) = (None, m)"
  shows "iter_view (sa\<lparr>mst := m\<rparr>) ps its F pos" "may_refuse sa"
proof -
  have "live m = live (mst sa)" using allocator.mem_alloc_NoneD iter_view_foreign [OF v] a by blast
  then show "iter_view (sa\<lparr>mst := m\<rparr>) ps its F pos"
    by (intro iter_view_mst [OF v]) (use iter_view_foreign [OF v] in auto)
  show "may_refuse sa" using mem_alloc_refused [OF a] by (simp add: may_refuse_def)
qed

lemma iter_view_dealloc:
  assumes v: "iter_view sa ps its (insert bl F) pos" and b: "bl \<notin> F"
  shows "\<exists>m. mem_free bl (mst sa) = Some m \<and> iter_view (sa\<lparr>mst := m\<rparr>) ps its F pos"
proof -
  have "bl \<in> set (live (mst sa))" using iter_view_foreign [OF v] by auto
  then obtain m where m: "mem_free bl (mst sa) = Some m" "live m = removeAll bl (live (mst sa))"
    using mem_free_Some by blast
  have "iter_view (sa\<lparr>mst := m\<rparr>) ps its F pos"
    by (rule iter_view_mst [OF v]) (use m(2) b iter_view_foreign [OF v] in auto)
  with m(1) show ?thesis by blast
qed

lemmas represents_alloc = iter_view_alloc [where its = "[]", folded represents_iter_view]
lemmas represents_refused = iter_view_refused [where its = "[]", folded represents_iter_view]
lemmas represents_dealloc = iter_view_dealloc [where its = "[]", folded represents_iter_view]

text \<open>A skiparray with no pairs is a lone node.\<close>

lemma wf_empty_lone:
  assumes w: "wf sa ns its" and p: "pairs_of (heap sa) ns = []"
  shows "\<exists>a. ns = [a]"
proof -
  have "tl ns = []"
  proof (rule ccontr)
    assume "tl ns \<noteq> []"
    then have "pairs_at (heap sa) (last ns) \<noteq> []" "last ns \<in> set ns"
      using wfD(4) [OF w] by (auto simp: occupied_def intro: last_in_set)
    with p show False by (auto simp: pairs_of_def)
  qed
  moreover have "ns \<noteq> []" using wfD(2) [OF w] by (simp add: shape_def)
  ultimately show ?thesis by (cases ns) auto
qed

lemma trail_init_loop:
  assumes h: "\<forall>l < k. get_head sa l = Some (Some a)" and k: "k \<le> M"
  shows "loop_c (trail_init_step sa a k) (0, replicate M None) = Some (replicate k (Some a) @ replicate (M - k) None)"
proof -
  have "\<exists>r. loop_c (trail_init_step sa a k) (0, replicate M None) = Some r \<and>
      r = replicate k (Some a) @ replicate (M - k) None"
  proof (rule loop_c_rule [where I = "\<lambda>(i, tr). i \<le> k \<and> tr = replicate i (Some a) @ replicate (M - i) None"
        and V = "\<lambda>(i, tr). k - i"])
    fix t assume "case t of (i, tr) \<Rightarrow> i \<le> k \<and> tr = replicate i (Some a) @ replicate (M - i) None"
    then obtain i tr where t: "t = (i, tr)" "i \<le> k" "tr = replicate i (Some a) @ replicate (M - i) None"
      by (cases t) auto
    show "(\<exists>t'. trail_init_step sa a k t = Some (Inl t') \<and>
        (case t' of (i, tr) \<Rightarrow> i \<le> k \<and> tr = replicate i (Some a) @ replicate (M - i) None) \<and>
        (case t' of (i, tr) \<Rightarrow> k - i) < (case t of (i, tr) \<Rightarrow> k - i)) \<or>
      (\<exists>r. trail_init_step sa a k t = Some (Inr r) \<and> r = replicate k (Some a) @ replicate (M - k) None)"
    proof (cases "i < k")
      case True
      then obtain d where d: "M - i = Suc d" "M - Suc i = d" using k by (cases "M - i") auto
      have "tr[i := Some a] = replicate (Suc i) (Some a) @ replicate (M - Suc i) None"
        using d by (simp add: t(3) list_update_append replicate_app_Cons_same)
      then show ?thesis using t True h k by (simp add: trail_init_step_def)
    next
      case False
      with t show ?thesis by (simp add: trail_init_step_def)
    qed
  qed simp
  then show ?thesis by simp
qed

lemma builder_start:
  assumes r: "represents sa [] [] (insert bl F)" and b: "bl \<notin> F"
  shows "\<exists>a n tr. get_head sa 0 = Some (Some a) \<and> heap sa a = Some n \<and>
    loop_c (trail_init_step (set_node sa a (n\<lparr>offset := 0\<rparr>)) a (height n)) (0, replicate (max_level sa) None) = Some tr \<and>
    builder_ok \<lparr>b_self = bl, b_sa = set_node sa a (n\<lparr>offset := 0\<rparr>), b_last = a, check_ascending = asc,
      has_prev_key = False, prev_key = 0, trail = tr\<rparr> [] F"
proof -
  obtain ns where w: "wf sa ns []" and ps: "pairs_of (heap sa) ns = []" "insert bl F = foreign sa ns []"
    using r by (rule representsE)
  obtain a where ns: "ns = [a]" using wf_empty_lone [OF w ps(1)] by blast
  note sh = wfD(2) [OF w, unfolded ns] and cfg = cfg_okD [OF wfD(1) [OF w]]
  obtain n where n: "heap sa a = Some n" "node_ok (node_size sa) (use_values sa) n" "height n \<le> max_level sa"
    using sh by (auto simp: shape_def)
  let ?n = "n\<lparr>offset := 0\<rparr>"
  let ?t = "set_node sa a ?n"
  have np: "node_pairs n = []" using ps(1) n(1) by (simp add: ns at_Some)
  then have c: "count n = 0" using n(2) by (metis length_node_pairs length_0_conv)
  have ok: "node_ok (node_size sa) (use_values sa) ?n" "same_links n ?n"
    using n(2) c cfg(1) by (auto simp: node_ok_def same_links_def)
  have np': "node_pairs ?n = []" using length_node_pairs [OF ok(1)] c by simp
  have hd: "get_head sa l = Some (Some a)" if "l < height n" for l
    using get_head_shape [OF sh cfg(7), of l] that n by (simp add: at_Some)
  have "wf ?t [a] []"
  proof -
    have "shape ?t [a]" by (rule shape_upd_pairs [OF sh n(1) ok])
    moreover have "cfg_ok ?t" using wfD(1) [OF w] by (simp add: cfg_ok_def)
    moreover have "ordered ?t [a]" "occupied ?t [a]" using np' by (simp_all add: ordered_def occupied_def chain)
    moreover have "owned ?t [a] []" using wfD(6) [OF w] owned_upd_pairs [OF n(1) ok(2)] ns by simp
    moreover have "iters_ok ?t [a] []" using wfD(5) [OF w] by (simp add: iters_ok_none)
    ultimately show ?thesis by (simp add: wf_def)
  qed
  moreover have "trail_ok ?t [a] (replicate (height n) (Some a) @ replicate (max_level sa - height n) None)"
    using n(3) by (auto simp: trail_ok_def prv_def chain nth_append)
  moreover have "foreign ?t [a] [] = insert bl F" using blocks_upd_pairs [OF n(1) ok(2)] ps(2) ns by simp
  moreover have "loop_c (trail_init_step ?t a (height n)) (0, replicate (max_level sa) None) =
      Some (replicate (height n) (Some a) @ replicate (max_level sa - height n) None)"
    by (rule trail_init_loop) (use hd n(3) in \<open>simp_all add: get_head_def\<close>)
  ultimately show ?thesis using hd [of 0] node_okD(5) [OF n(2)] n(1) b np' unfolding builder_ok_def
    by (intro exI [of _ a] exI [of _ n]
        exI [of _ "replicate (height n) (Some a) @ replicate (max_level sa - height n) None"] conjI exI [of _ "[a]"] exI [of _ ?n])
      (simp_all add: chain filled_def)
qed

lemma builder_new_correct:
  assumes c: "config_ok c"
  shows "\<exists>res r m'. skiparray_builder_new True (Some c) skip m = Some (res, r, m') \<and>
    (if cfg_cmp c = None \<or> cfg_node_size c = 1 then res = SKIPARRAY_BUILDER_NEW_ERROR_MISUSE \<and> r = None \<and> m' = m
     else res = SKIPARRAY_BUILDER_NEW_ERROR_MEMORY \<and> r = None \<and> set (live m') = set (live m) \<and>
            refusing (snd (cfg_mem c)) m \<or>
          res = SKIPARRAY_BUILDER_NEW_OK \<and> (\<exists>b. r = Some b \<and> mst (b_sa b) = m' \<and> oom m' = oom m \<and> configured c (b_sa b) \<and>
            check_ascending b = (\<not> skip) \<and> builder_ok b [] (set (live m))))"
proof -
  obtain nres r m1 where n: "skiparray_new True (Some c) m = Some (nres, r, m1)"
    "if cfg_cmp c = None \<or> cfg_node_size c = 1 then nres = SKIPARRAY_NEW_ERROR_CONFIG \<and> r = None \<and> m1 = m
     else nres = SKIPARRAY_NEW_ERROR_MEMORY \<and> r = None \<and> set (live m1) = set (live m) \<or>
          nres = SKIPARRAY_NEW_OK \<and> (\<exists>sa. r = Some sa \<and> mst sa = m1 \<and> configured c sa \<and> represents sa [] [] (set (live m)))"
    using new_correct [OF c, of m] by blast
  consider (config) "cfg_cmp c = None \<or> cfg_node_size c = 1" "nres = SKIPARRAY_NEW_ERROR_CONFIG" "r = None" "m1 = m"
    | (memory) "\<not> (cfg_cmp c = None \<or> cfg_node_size c = 1)" "nres = SKIPARRAY_NEW_ERROR_MEMORY" "set (live m1) = set (live m)"
    | (ok) sa where "\<not> (cfg_cmp c = None \<or> cfg_node_size c = 1)" "nres = SKIPARRAY_NEW_OK" "r = Some sa" "mst sa = m1"
        "configured c sa" "represents sa [] [] (set (live m))"
    using n(2) by (auto split: if_splits)
  then show ?thesis
  proof cases
    case config
    then show ?thesis using n(1) by (simp add: skiparray_builder_new_def)
  next
    case memory
    then show ?thesis using n(1) new_error_memory [of True c m r m1] by (simp add: skiparray_builder_new_def)
  next
    case ok
    obtain q m2 where q: "mem_alloc (snd (mem sa)) (sizeof_builder + max_level sa * sizeof_ptr) (mst sa) = (q, m2)"
      by fastforce
    show ?thesis
    proof (cases q)
      case None
      with q have a: "mem_alloc (snd (mem sa)) (sizeof_builder + max_level sa * sizeof_ptr) (mst sa) = (None, m2)" by simp
      from free_correct [OF represents_refused(1) [OF ok(6) a]]
      obtain fr m3 where m3: "skiparray_free (sa\<lparr>mst := m2\<rparr>) = Some (fr, m3)" "set (live m3) = set (live m)" by auto
      have "skiparray_builder_new True (Some c) skip m = Some (SKIPARRAY_BUILDER_NEW_ERROR_MEMORY, None, m3)"
        using n(1) ok(2,3) a m3(1) by (simp add: skiparray_builder_new_def)
      then show ?thesis
        using ok(1,5) m3(2) represents_refused(2) [OF ok(6) a] refusing_cong [OF new_oom [OF n(1)]] ok(4)
        by (auto simp: may_refuse_def configured_def)
    next
      case (Some bl)
      with q have a: "mem_alloc (snd (mem sa)) (sizeof_builder + max_level sa * sizeof_ptr) (mst sa) = (Some bl, m2)" by simp
      let ?sa = "sa\<lparr>mst := m2\<rparr>"
      let ?b = "\<lambda>a n tr. \<lparr>b_self = bl, b_sa = set_node ?sa a (n\<lparr>offset := 0\<rparr>), b_last = a, check_ascending = \<not> skip,
        has_prev_key = False, prev_key = 0, trail = tr\<rparr>"
      obtain x nd tr where b: "get_head ?sa 0 = Some (Some x)" "heap ?sa x = Some nd"
        "loop_c (trail_init_step (set_node ?sa x (nd\<lparr>offset := 0\<rparr>)) x (height nd)) (0, replicate (max_level ?sa) None) = Some tr"
        "builder_ok (?b x nd tr) [] (set (live m))"
        using builder_start [OF represents_alloc [OF ok(6) a]] by blast
      have "skiparray_builder_new True (Some c) skip m = Some (SKIPARRAY_BUILDER_NEW_OK, Some (?b x nd tr), m2)"
        using n(1) ok(2,3) a b(1-3) by (simp add: skiparray_builder_new_def Let_def)
      then show ?thesis using ok(1,4,5) b(4) mem_alloc_oom [OF a] new_oom [OF n(1)] by (simp add: configured_def set_node_def)
    qed
  qed
qed

lemma builder_finish_correct:
  assumes "builder_ok b ps F"
  shows "\<exists>sa. skiparray_builder_finish b = Some sa \<and> same_env (b_sa b) sa \<and> represents sa ps [] F"
proof -
  obtain m where m: "mem_free (b_self b) (mst (b_sa b)) = Some m" "represents (b_sa b\<lparr>mst := m\<rparr>) ps [] F"
    using represents_dealloc builder_represents [OF assms] by blast
  then show ?thesis by (simp add: skiparray_builder_finish_def mem_free_oom [OF m(1)])
qed

lemma builder_free_correct:
  assumes "builder_ok b ps F"
  shows "\<exists>m. skiparray_builder_free (Some b) m0 = Some (if free_cb (b_sa b) = None then [] else ps, m) \<and> set (live m) = F"
proof -
  obtain m1 where m1: "mem_free (b_self b) (mst (b_sa b)) = Some m1" "represents (b_sa b\<lparr>mst := m1\<rparr>) ps [] F"
    using represents_dealloc builder_represents [OF assms] by blast
  from free_correct [OF m1(2)] m1(1) show ?thesis by (auto simp: skiparray_builder_free_def)
qed

text \<open>A sequence of appends, each of which must succeed.\<close>

fun append_all :: "skiparray_builder \<Rightarrow> bindings \<Rightarrow> skiparray_builder option" where
  "append_all b [] = Some b"
| "append_all b ((k, v) # kvs) =
     (case skiparray_builder_append b k v of
        Some (SKIPARRAY_BUILDER_APPEND_OK, b') \<Rightarrow> append_all b' kvs
      | _ \<Rightarrow> None)"

definition kept_pairs :: "skiparray \<Rightarrow> bindings \<Rightarrow> bindings" where
  "kept_pairs sa kvs = map (\<lambda>(k, v). (k, value_kept sa v)) kvs"

lemma kept_pairs_simps [simp]:
  "kept_pairs sa [] = []" "kept_pairs sa ((k, v) # kvs) = (k, value_kept sa v) # kept_pairs sa kvs"
  "map fst (kept_pairs sa kvs) = map fst kvs"
  by (auto simp: kept_pairs_def)

lemma same_env_kept: "same_env sa sb \<Longrightarrow> kept_pairs sb kvs = kept_pairs sa kvs"
  by (simp add: kept_pairs_def value_kept_def same_env_def)

lemma append_all_correct:
  assumes "builder_ok b ps F" "\<not> may_refuse (b_sa b)" "ascending (call_cmp (b_sa b)) (map fst ps @ map fst kvs)"
  shows "\<exists>b'. append_all b kvs = Some b' \<and> same_env (b_sa b) (b_sa b') \<and> builder_ok b' (ps @ kept_pairs (b_sa b) kvs) F"
  using assms
proof (induction kvs arbitrary: b ps)
  case Nil
  then show ?case by auto
next
  case (Cons p kvs)
  obtain k v where p: "p = (k, v)" by (cases p)
  have gt: "0 < call_cmp (b_sa b) k (fst (last ps))" if "ps \<noteq> []"
  proof -
    have c: "comparator (call_cmp (b_sa b))"
      using builder_represents [OF Cons.prems(1)] by (auto dest: represents_ascending)
    have "last ps \<in> set ps" using that by simp
    then have "call_cmp (b_sa b) (fst (last ps)) k < 0"
      using Cons.prems(3) p by (auto simp: ascending_append above_def)
    then show ?thesis using comparator.cmp_swap [OF c] by simp
  qed
  have np: "\<not> (ps \<noteq> [] \<and> call_cmp (b_sa b) k (fst (last ps)) \<le> 0)" using gt by auto
  obtain b1 where b1: "skiparray_builder_append b k v = Some (SKIPARRAY_BUILDER_APPEND_OK, b1)" "same_env (b_sa b) (b_sa b1)"
    "builder_ok b1 (ps @ [(k, value_kept (b_sa b) v)]) F"
    using builder_append_correct [OF Cons.prems(1), of k v] gt Cons.prems(2) unfolding if_not_P [OF np] by blast
  have "\<not> may_refuse (b_sa b1)" using Cons.prems(2) same_env_refuse [OF b1(2)] by simp
  moreover have "ascending (call_cmp (b_sa b1)) (map fst (ps @ [(k, value_kept (b_sa b) v)]) @ map fst kvs)"
    using Cons.prems(3) b1(2) p by (simp add: same_env_def)
  ultimately obtain b' where "append_all b1 kvs = Some b'" "same_env (b_sa b1) (b_sa b')"
    "builder_ok b' ((ps @ [(k, value_kept (b_sa b) v)]) @ kept_pairs (b_sa b1) kvs) F"
    using Cons.IH [OF b1(3)] by blast
  with b1 p show ?case using same_env_trans same_env_kept [OF b1(2)] by auto
qed

text \<open>A builder whose last node is full, so that the next pair needs a new one.\<close>

definition sample_builder :: skiparray_builder where
  "sample_builder = \<lparr>b_self = 99, b_sa = sample_full\<lparr>mst := \<lparr>live = [1, 2, 3, 99], clock = 4, oom = []\<rparr>\<rparr>, b_last = 2,
     check_ascending = True, has_prev_key = True, prev_key = 4, trail = [Some 2, None]\<rparr>"

lemma sample_builder_ok: "builder_ok sample_builder [(1, 0), (4, 0)] {}" "\<not> may_refuse (b_sa sample_builder)"
proof -
  let ?s = "b_sa sample_builder"
  note d = sample_builder_def sample_full_def full_node_def
  have b: "blocks ?s [2] [] = [1, 2, 3]" "blocks sample_full [2] [] = [1, 2, 3]"
    by (simp_all add: blocks_def blocks_at_def d node_blocks_def)
  have "wf ?s [2] []"
    using wf_mst [OF sample_full_wf, of "mst ?s"] b(2) by (simp add: sample_builder_def)
  moreover have "trail_ok ?s [2] [Some 2, None]"
    by (auto simp: trail_ok_def prv_def ht_def d less_2_cases_iff)
  moreover have "foreign ?s [2] [] = {99}" unfolding b by (auto simp: d)
  moreover have "pairs_of (heap ?s) [2] = [(1, 0), (4, 0)]"
    by (simp add: pairs_at_def d node_pairs_def node_keys_def node_vals_def numeral_2_eq_2)
  ultimately show "builder_ok sample_builder [(1, 0), (4, 0)] {}" unfolding builder_ok_def
    by (intro exI [of _ "[2]"] exI [of _ full_node]) (simp add: filled_def, simp add: d)
  show "\<not> may_refuse ?s" by (simp add: may_refuse_def d malloc_refusing)
qed

section \<open>Properties\<close>

text \<open>
  C10. Appending to a builder always returns. A key not after the last one is refused as
  misuse, and nothing changes; otherwise the builder holds the old pairs followed by the new
  one, and is again a proper skiparray under construction (its nodes linked on every level,
  every one but the last full, the trail naming the last node of each level), or, only when
  the memory callback can refuse a request, it holds the old pairs. This is for builders that
  check the order, or a client that keeps it. At any point finishing hands over a proper
  skiparray with exactly the pairs appended, owning nothing of the builder, whose block is
  given back; abandoning it instead gives back the builder and the skiparray, after calling
  the free callback, when there is one, on every pair.
\<close>

theorem builder_append_spec:
  assumes "builder_ok b ps F"
    and "check_ascending b \<or> ps = [] \<or> 0 < call_cmp (b_sa b) key (fst (last ps))"
  shows "(\<exists>res b'. skiparray_builder_append b key v = Some (res, b') \<and> same_env (b_sa b) (b_sa b') \<and>
      check_ascending b' = check_ascending b \<and>
      (if ps \<noteq> [] \<and> call_cmp (b_sa b) key (fst (last ps)) \<le> 0 then res = SKIPARRAY_BUILDER_APPEND_ERROR_MISUSE \<and> b' = b
       else res = SKIPARRAY_BUILDER_APPEND_OK \<and> builder_ok b' (ps @ [(key, value_kept (b_sa b) v)]) F \<or>
         res = SKIPARRAY_BUILDER_APPEND_ERROR_MEMORY \<and> builder_ok b' ps F \<and> may_refuse (b_sa b))) \<and>
    (\<exists>sa. skiparray_builder_finish b = Some sa \<and> same_env (b_sa b) sa \<and> represents sa ps [] F) \<and>
    (\<exists>m. skiparray_builder_free (Some b) m0 = Some (if free_cb (b_sa b) = None then [] else ps, m) \<and> set (live m) = F)"
  using builder_append_correct [OF assms] builder_finish_correct [OF assms(1)] builder_free_correct [OF assms(1)]
  by (intro conjI) blast+

theorem builder_append_spec_witness:
  "(\<exists>b'. skiparray_builder_append sample_builder 6 60 = Some (SKIPARRAY_BUILDER_APPEND_OK, b') \<and>
      check_ascending b' \<and> builder_ok b' [(1, 0), (4, 0), (6, 0)] {}) \<and>
    (\<exists>sa. skiparray_builder_finish sample_builder = Some sa \<and> represents sa [(1, 0), (4, 0)] [] {}) \<and>
    (\<exists>m. skiparray_builder_free (Some sample_builder) \<lparr>live = [], clock = 0, oom = []\<rparr> = Some ([], m) \<and> set (live m) = {})"
proof -
  note d = sample_builder_def sample_full_def value_kept_def cmp_intptr_t_def
  have "check_ascending sample_builder" "\<not> call_cmp (b_sa sample_builder) 6 4 \<le> 0" "free_cb (b_sa sample_builder) = None"
    "value_kept (b_sa sample_builder) 60 = 0" by (simp_all add: d)
  with builder_append_spec [OF sample_builder_ok(1), of 6 60 "\<lparr>live = [], clock = 0, oom = []\<rparr>"] sample_builder_ok(2)
  show ?thesis by auto
qed

text \<open>
  C20. Creating a builder from a configuration within the widths of its fields: what
  skiparray_new refuses as a configuration error is misuse; otherwise the result is a builder
  with no pairs, which checks the order unless told not to, or, only when the memory callback
  may refuse a request, an error with everything allocated (the skiparray included) given
  back.
\<close>

theorem builder_new_spec:
  assumes "config_ok c"
  shows "\<exists>res r m'. skiparray_builder_new True (Some c) skip m = Some (res, r, m') \<and>
    (if cfg_cmp c = None \<or> cfg_node_size c = 1 then res = SKIPARRAY_BUILDER_NEW_ERROR_MISUSE \<and> r = None \<and> m' = m
     else res = SKIPARRAY_BUILDER_NEW_ERROR_MEMORY \<and> r = None \<and> set (live m') = set (live m) \<and>
            refusing (snd (cfg_mem c)) m \<or>
          res = SKIPARRAY_BUILDER_NEW_OK \<and> (\<exists>b. r = Some b \<and> mst (b_sa b) = m' \<and> oom m' = oom m \<and> configured c (b_sa b) \<and>
            check_ascending b = (\<not> skip) \<and> builder_ok b [] (set (live m))))"
  by (rule builder_new_correct [OF assms])

theorem builder_new_spec_witness:
  "\<exists>res r m'. skiparray_builder_new True (Some sample_config) True \<lparr>live = [5], clock = 0, oom = [2]\<rparr> = Some (res, r, m') \<and>
    (if cfg_cmp sample_config = None \<or> cfg_node_size sample_config = 1
     then res = SKIPARRAY_BUILDER_NEW_ERROR_MISUSE \<and> r = None \<and> m' = \<lparr>live = [5], clock = 0, oom = [2]\<rparr>
     else res = SKIPARRAY_BUILDER_NEW_ERROR_MEMORY \<and> r = None \<and> set (live m') = set (live \<lparr>live = [5], clock = 0, oom = [2]\<rparr>) \<and>
            refusing (snd (cfg_mem sample_config)) \<lparr>live = [5], clock = 0, oom = [2]\<rparr> \<or>
          res = SKIPARRAY_BUILDER_NEW_OK \<and> (\<exists>b. r = Some b \<and> mst (b_sa b) = m' \<and> oom m' = oom \<lparr>live = [5], clock = 0, oom = [2]\<rparr> \<and> configured sample_config (b_sa b) \<and>
            check_ascending b = (\<not> True) \<and> builder_ok b [] (set (live \<lparr>live = [5], clock = 0, oom = [2]\<rparr>))))"
  by (rule builder_new_spec [OF sample_config_ok])

text \<open>
  C21. With memory that is never refused, building from any list of pairs with ascending keys
  succeeds, and the skiparray finally handed over holds exactly that list (values as NULL when
  values are ignored): every key of the list is found with the value appended for it, and no
  other key is.
\<close>

theorem build_roundtrip:
  assumes "config_ok c" "cfg_cmp c = Some cp" "cfg_node_size c \<noteq> 1" "\<not> refusing (snd (cfg_mem c)) m"
    and "ascending (snd cp) (map fst kvs)"
  shows "\<exists>b m' b' sa. skiparray_builder_new True (Some c) skip m = Some (SKIPARRAY_BUILDER_NEW_OK, Some b, m') \<and>
    append_all b kvs = Some b' \<and> skiparray_builder_finish b' = Some sa \<and>
    represents sa (kept_pairs sa kvs) [] (set (live m)) \<and>
    (\<forall>k. skiparray_get sa k = Some (map_option snd (find (\<lambda>p. snd cp k (fst p) = 0) (kept_pairs sa kvs))))"
proof -
  obtain b m' where b: "skiparray_builder_new True (Some c) skip m = Some (SKIPARRAY_BUILDER_NEW_OK, Some b, m')"
    "configured c (b_sa b)" "builder_ok b [] (set (live m))" "mst (b_sa b) = m'" "oom m' = oom m"
    using builder_new_correct [OF assms(1), of skip m] assms(2-4) by auto
  have cp: "call_cmp (b_sa b) = snd cp" "\<not> may_refuse (b_sa b)"
    using b(2,4) assms(2,4) refusing_cong [OF b(5)] by (auto simp: configured_def may_refuse_def)
  obtain b' where b': "append_all b kvs = Some b'" "same_env (b_sa b) (b_sa b')"
    "builder_ok b' (kept_pairs (b_sa b) kvs) (set (live m))"
    using append_all_correct [OF b(3) cp(2), of kvs] assms(5) cp(1) by auto
  obtain sa where sa: "skiparray_builder_finish b' = Some sa" "same_env (b_sa b') sa"
    "represents sa (kept_pairs (b_sa b) kvs) [] (set (live m))"
    using builder_finish_correct [OF b'(3)] by blast
  have e: "same_env (b_sa b) sa" using same_env_trans b'(2) sa(2) by blast
  have "call_cmp sa = snd cp" using e cp(1) by (simp add: same_env_def)
  then show ?thesis using b(1) b'(1) sa same_env_kept [OF e, of kvs] get_correct [OF sa(3)] by (auto simp: spec_get_def)
qed

theorem build_roundtrip_witness:
  "let kvs = [(2, 20), (3, 30), (5, 50), (7, 70), (11, 110), (13, 130)]
   in \<exists>b m' b' sa. skiparray_builder_new True (Some sample_config) False \<lparr>live = [5], clock = 0, oom = []\<rparr> =
        Some (SKIPARRAY_BUILDER_NEW_OK, Some b, m') \<and>
      append_all b kvs = Some b' \<and> skiparray_builder_finish b' = Some sa \<and>
      represents sa (kept_pairs sa kvs) [] (set (live \<lparr>live = [5], clock = 0, oom = []\<rparr>)) \<and>
      (\<forall>k. skiparray_get sa k = Some (map_option snd (find (\<lambda>p. snd (9::nat, cmp_intptr_t) k (fst p) = 0) (kept_pairs sa kvs))))"
  unfolding Let_def
  by (rule build_roundtrip [OF sample_config_ok])
     (simp_all add: sample_config_def cfg_mem_def def_memory_ptr_def malloc_refusing cmp_intptr_t_def)

end
