(* ===== verification/Cursor.thy ===== *)
theory Cursor
  imports Builder
begin

text \<open>
  An iterator as a cursor over the pairs that are left to read, in either direction: the
  interface that the folds (\<open>src/skiparray_fold.c\<close>) rely on, with the iterators of
  \<open>src/skiparray.c\<close> as its model.
\<close>

section \<open>What the iterator operations leave alone\<close>

definition same_but_iters :: "skiparray \<Rightarrow> skiparray \<Rightarrow> bool" where
  "same_but_iters sa sa' \<longleftrightarrow>
     sa' = sa\<lparr>iter := iter sa', iters := iters sa', mst := mst sa'\<rparr> \<and> oom (mst sa') = oom (mst sa)"

lemma same_but_itersI: "sa' = sa\<lparr>iter := a, iters := b, mst := m\<rparr> \<Longrightarrow> oom m = oom (mst sa) \<Longrightarrow> same_but_iters sa sa'"
  by (simp add: same_but_iters_def)

lemma same_but_iters_refl [simp]: "same_but_iters sa sa"
  by (simp add: same_but_iters_def)

lemma same_but_itersE:
  assumes "same_but_iters sa sa'"
  obtains a b m where "sa' = sa\<lparr>iter := a, iters := b, mst := m\<rparr>" "oom m = oom (mst sa)"
  using assms unfolding same_but_iters_def by blast

lemma same_but_itersD:
  assumes "same_but_iters sa sa'"
  shows "self sa' = self sa" "node_size sa' = node_size sa" "max_level sa' = max_level sa" "sa_height sa' = sa_height sa"
    "use_values sa' = use_values sa" "prng_state sa' = prng_state sa" "mem sa' = mem sa" "cmp sa' = cmp sa"
    "free_cb sa' = free_cb sa" "level sa' = level sa" "nodes sa' = nodes sa" "heap sa' = heap sa"
    "oom (mst sa') = oom (mst sa)" "may_refuse sa' = may_refuse sa"
proof -
  obtain a b m where "sa' = sa\<lparr>iter := a, iters := b, mst := m\<rparr>" "oom m = oom (mst sa)"
    using assms by (rule same_but_itersE)
  then show "self sa' = self sa" "node_size sa' = node_size sa" "max_level sa' = max_level sa" "sa_height sa' = sa_height sa"
    "use_values sa' = use_values sa" "prng_state sa' = prng_state sa" "mem sa' = mem sa" "cmp sa' = cmp sa"
    "free_cb sa' = free_cb sa" "level sa' = level sa" "nodes sa' = nodes sa" "heap sa' = heap sa"
    "oom (mst sa') = oom (mst sa)" "may_refuse sa' = may_refuse sa" by (simp_all add: may_refuse_def refusing_def)
qed

lemma same_but_iters_trans:
  assumes "same_but_iters sa sb" "same_but_iters sb sc"
  shows "same_but_iters sa sc"
proof -
  obtain a b m where 1: "sb = sa\<lparr>iter := a, iters := b, mst := m\<rparr>" "oom m = oom (mst sa)"
    using assms(1) by (rule same_but_itersE)
  obtain a' b' m' where 2: "sc = sb\<lparr>iter := a', iters := b', mst := m'\<rparr>" "oom m' = oom (mst sb)"
    using assms(2) by (rule same_but_itersE)
  show ?thesis by (rule same_but_itersI [where a = a' and b = b' and m = m']) (use 1 2 in simp_all)
qed

lemma same_but_iters_upd [intro]:
  assumes "same_but_iters sa sb"
  shows "same_but_iters sa (set_iter sb i it)" "same_but_iters sa (sb\<lparr>iter := a\<rparr>)"
    "same_but_iters sa (sb\<lparr>iters := b\<rparr>)" "oom m = oom (mst sa) \<Longrightarrow> same_but_iters sa (sb\<lparr>mst := m\<rparr>)"
proof -
  obtain a' b' m' where 1: "sb = sa\<lparr>iter := a', iters := b', mst := m'\<rparr>" "oom m' = oom (mst sa)"
    using assms by (rule same_but_itersE)
  show "same_but_iters sa (sb\<lparr>iter := a\<rparr>)" by (rule same_but_itersI [where a = a and b = b' and m = m']) (simp_all add: 1)
  show "same_but_iters sa (sb\<lparr>iters := b\<rparr>)" by (rule same_but_itersI [where a = a' and b = b and m = m']) (simp_all add: 1)
  show "same_but_iters sa (sb\<lparr>mst := m\<rparr>)" if "oom m = oom (mst sa)"
    by (rule same_but_itersI [where a = a' and b = b' and m = m]) (simp_all add: 1 that)
  show "same_but_iters sa (set_iter sb i it)"
    by (rule same_but_itersI [where a = a' and b = "b'(i \<mapsto> it)" and m = m']) (simp_all add: 1 set_iter_def)
qed

lemma set_prev_same: "set_prev sa nx p = Some sa' \<Longrightarrow> same_but_iters sa sa'"
  by (auto simp: set_prev_def bind_eq_Some_conv split: option.splits)

lemma set_prev_same':
  "set_prev (sa\<lparr>iter := a\<rparr>) nx p = Some sa' \<Longrightarrow> same_but_iters sa sa'"
  "set_prev (set_iter sa k it) nx p = Some sa' \<Longrightarrow> same_but_iters sa sa'"
  using same_but_iters_trans [OF same_but_iters_upd(2) [OF same_but_iters_refl] set_prev_same]
    same_but_iters_trans [OF same_but_iters_upd(1) [OF same_but_iters_refl] set_prev_same] by blast+

lemma bind_SomeE:
  assumes "Option.bind m f = Some x"
  obtains y where "m = Some y" "f y = Some x"
  using assms by (auto simp: bind_eq_Some_conv)

lemma iter_new_same:
  assumes "skiparray_iter_new sa = Some (res, r, sa')"
  shows "same_but_iters sa sa'"
  using assms
  by (auto simp: skiparray_iter_new_def bind_eq_Some_conv split: if_splits option.splits prod.splits
      dest!: set_prev_same mem_alloc_oom)

lemma mem_free_same:
  assumes "same_but_iters sa sb" "mem_free i (mst sb) = Some m"
  shows "same_but_iters sa (sb\<lparr>iters := b, mst := m\<rparr>)"
  using same_but_iters_upd(4) [OF same_but_iters_upd(3) [OF assms(1)]] mem_free_oom [OF assms(2)] same_but_itersD(13) [OF assms(1)]
  by simp

lemma iter_free_same:
  assumes "skiparray_iter_free sa j = Some sa'"
  shows "same_but_iters sa sa'"
proof (cases j)
  case None
  with assms show ?thesis by (simp add: skiparray_iter_free_def)
next
  case (Some i)
  obtain it where it: "iters sa i = Some it"
    using assms unfolding Some skiparray_iter_free_def option.case by (rule bind_SomeE)
  show ?thesis
    using assms it Some
    by (cases "it_prev it") (auto simp: skiparray_iter_free_def bind_eq_Some_conv intro: mem_free_same dest!: set_prev_same')
qed

lemma iter_moves_same:
  "skiparray_iter_seek_endpoint sa i w = Some sa' \<Longrightarrow> same_but_iters sa sa'"
  "skiparray_iter_next sa i = Some (res, sa') \<Longrightarrow> same_but_iters sa sa'"
  "skiparray_iter_prev sa i = Some (res, sa') \<Longrightarrow> same_but_iters sa sa'"
proof -
  have st: "same_but_iters sa (set_iter sa i it)" for it
    using same_but_iters_upd(1) [OF same_but_iters_refl] .
  show "skiparray_iter_seek_endpoint sa i w = Some sa' \<Longrightarrow> same_but_iters sa sa'"
    by (cases w) (auto simp: skiparray_iter_seek_endpoint_def bind_eq_Some_conv st)
  show "same_but_iters sa sa'" if a: "skiparray_iter_next sa i = Some (res, sa')"
  proof -
    obtain it where it: "iters sa i = Some it" using a unfolding skiparray_iter_next_def by (rule bind_SomeE)
    show ?thesis using a unfolding skiparray_iter_next_def it Let_def Option.bind.simps
      by (elim bind_SomeE) (auto split: if_splits option.splits elim!: bind_SomeE intro: st)
  qed
  show "same_but_iters sa sa'" if a: "skiparray_iter_prev sa i = Some (res, sa')"
  proof -
    obtain it where it: "iters sa i = Some it" using a unfolding skiparray_iter_prev_def by (rule bind_SomeE)
    show ?thesis using a unfolding skiparray_iter_prev_def it Option.bind.simps
      by (auto split: if_splits option.splits elim!: bind_SomeE intro: st)
  qed
qed

text \<open>Positions matter for the active iterators only.\<close>

lemma iter_view_cong:
  assumes "iter_view sa ps its F pos" "\<And>i. i \<in> set its \<Longrightarrow> pos' i = pos i"
  shows "iter_view sa ps its F pos'"
  using assms unfolding iter_view_def by (metis (no_types, lifting))

text \<open>One iteration: the pair at the position is read, and the iterator moves on.\<close>

lemma iterate:
  assumes v: "iter_view sa ps its M pos" and i: "i \<in> set its" and k: "pos i < length ps"
  obtains sa' where "skiparray_iter_get sa i = Some (out_of sa (ps ! pos i))"
    "skiparray_iter_next sa i = Some (if Suc (pos i) = length ps then SKIPARRAY_ITER_STEP_END else SKIPARRAY_ITER_STEP_OK, sa')"
    "iter_view sa' ps its M (pos(i := Suc (pos i)))" "same_but_iters sa sa'"
proof -
  obtain sa' where n: "skiparray_iter_next sa i =
      Some (if Suc (pos i) = length ps then SKIPARRAY_ITER_STEP_END else SKIPARRAY_ITER_STEP_OK, sa')"
    "iter_view sa' ps its M (pos(i := Suc (pos i)))" using iter_next_correct [OF v i k] by blast
  have "skiparray_iter_get sa i = Some (out_of sa (ps ! pos i))" using iter_get_correct [OF v i] k by simp
  from this n iter_moves_same(2) [OF n(1)] show ?thesis by (rule that)
qed

section \<open>Reading in one direction\<close>

definition directed :: "skiparray_fold_type \<Rightarrow> 'a list \<Rightarrow> 'a list" where
  "directed ty xs = (case ty of SKIPARRAY_FOLD_LEFT \<Rightarrow> xs | SKIPARRAY_FOLD_RIGHT \<Rightarrow> rev xs)"

text \<open>What an iterator at position \<open>k\<close> has left to read, its own position included.\<close>

definition reads :: "skiparray_fold_type \<Rightarrow> 'a list \<Rightarrow> nat \<Rightarrow> 'a list" where
  "reads ty xs k = (case ty of SKIPARRAY_FOLD_LEFT \<Rightarrow> drop k xs | SKIPARRAY_FOLD_RIGHT \<Rightarrow> rev (take (Suc k) xs))"

definition iter_step :: "skiparray_fold_type \<Rightarrow> skiparray \<Rightarrow> addr \<Rightarrow> (skiparray_iter_step_res \<times> skiparray) option" where
  "iter_step ty sa i = (case ty of SKIPARRAY_FOLD_RIGHT \<Rightarrow> skiparray_iter_prev sa i
     | SKIPARRAY_FOLD_LEFT \<Rightarrow> skiparray_iter_next sa i)"

lemma reads_first:
  "xs \<noteq> [] \<Longrightarrow> reads SKIPARRAY_FOLD_LEFT xs 0 = directed SKIPARRAY_FOLD_LEFT xs"
  "xs \<noteq> [] \<Longrightarrow> reads SKIPARRAY_FOLD_RIGHT xs (length xs - 1) = directed SKIPARRAY_FOLD_RIGHT xs"
  by (simp_all add: reads_def directed_def)

lemma reads_Cons:
  assumes "k < length xs"
  shows "\<exists>ys. reads ty xs k = xs ! k # ys \<and>
    (ys = [] \<longleftrightarrow> (case ty of SKIPARRAY_FOLD_LEFT \<Rightarrow> Suc k = length xs | SKIPARRAY_FOLD_RIGHT \<Rightarrow> k = 0)) \<and>
    (ys \<noteq> [] \<longrightarrow> reads ty xs (case ty of SKIPARRAY_FOLD_LEFT \<Rightarrow> Suc k | SKIPARRAY_FOLD_RIGHT \<Rightarrow> k - 1) = ys)"
proof (cases ty)
  case SKIPARRAY_FOLD_LEFT
  then show ?thesis using assms by (auto simp: reads_def Cons_nth_drop_Suc [symmetric])
next
  case SKIPARRAY_FOLD_RIGHT
  then show ?thesis using assms by (cases k) (auto simp: reads_def take_Suc_conv_app_nth)
qed

lemma iter_step_same: "iter_step ty sa i = Some (res, sa') \<Longrightarrow> same_but_iters sa sa'"
  by (auto simp: iter_step_def dest: iter_moves_same split: skiparray_fold_type.splits)

lemma iter_step_correct:
  assumes v: "iter_view sa ps its F pos" and i: "i \<in> set its" and k: "pos i < length ps"
    and r: "reads ty ps (pos i) = p # xs"
  shows "skiparray_iter_get sa i = Some (out_of sa p)"
    "\<exists>sa' k'. iter_step ty sa i = Some (if xs = [] then SKIPARRAY_ITER_STEP_END else SKIPARRAY_ITER_STEP_OK, sa') \<and>
      iter_view sa' ps its F (pos(i := k')) \<and> (xs \<noteq> [] \<longrightarrow> k' < length ps \<and> reads ty ps k' = xs) \<and> same_but_iters sa sa'"
proof -
  obtain ys where y: "reads ty ps (pos i) = ps ! pos i # ys"
    "ys = [] \<longleftrightarrow> (case ty of SKIPARRAY_FOLD_LEFT \<Rightarrow> Suc (pos i) = length ps | SKIPARRAY_FOLD_RIGHT \<Rightarrow> pos i = 0)"
    "ys \<noteq> [] \<Longrightarrow> reads ty ps (case ty of SKIPARRAY_FOLD_LEFT \<Rightarrow> Suc (pos i) | SKIPARRAY_FOLD_RIGHT \<Rightarrow> pos i - 1) = ys"
    using reads_Cons [OF k] by blast
  have p: "p = ps ! pos i" "xs = ys" using r y(1) by auto
  show "skiparray_iter_get sa i = Some (out_of sa p)" using iter_get_correct [OF v i] k p(1) by simp
  show "\<exists>sa' k'. iter_step ty sa i = Some (if xs = [] then SKIPARRAY_ITER_STEP_END else SKIPARRAY_ITER_STEP_OK, sa') \<and>
      iter_view sa' ps its F (pos(i := k')) \<and> (xs \<noteq> [] \<longrightarrow> k' < length ps \<and> reads ty ps k' = xs) \<and> same_but_iters sa sa'"
  proof (cases ty)
    case SKIPARRAY_FOLD_LEFT
    obtain sa' where s: "skiparray_iter_next sa i =
        Some (if Suc (pos i) = length ps then SKIPARRAY_ITER_STEP_END else SKIPARRAY_ITER_STEP_OK, sa')"
      "iter_view sa' ps its F (pos(i := Suc (pos i)))" using iter_next_correct [OF v i k] by blast
    with SKIPARRAY_FOLD_LEFT y p k show ?thesis
      by (intro exI [of _ sa'] exI [of _ "Suc (pos i)"]) (auto simp: iter_step_def dest: iter_moves_same)
  next
    case SKIPARRAY_FOLD_RIGHT
    obtain sa' where s: "skiparray_iter_prev sa i =
        Some (if pos i = 0 then SKIPARRAY_ITER_STEP_END else SKIPARRAY_ITER_STEP_OK, sa')"
      "iter_view sa' ps its F (pos(i := pos i - 1))" using iter_prev_correct [OF v i] by blast
    with SKIPARRAY_FOLD_RIGHT y p k show ?thesis
      by (intro exI [of _ sa'] exI [of _ "pos i - 1"]) (auto simp: iter_step_def dest: iter_moves_same)
  qed
qed

section \<open>The cursor interface\<close>

text \<open>
  What a client that reads a cursor to its end relies on: \<open>get\<close> gives the first of the
  elements left, \<open>step\<close> moves on and tells whether there is one more.
\<close>

locale cursor =
  fixes left :: "'s \<Rightarrow> 'x list \<Rightarrow> bool"
    and get :: "'s \<Rightarrow> 'x option"
    and step :: "'s \<Rightarrow> (bool \<times> 's) option"
  assumes get_ok: "left s (x # xs) \<Longrightarrow> get s = Some x"
    and step_ok: "left s (x # xs) \<Longrightarrow> \<exists>s'. step s = Some (xs \<noteq> [], s') \<and> (xs \<noteq> [] \<longrightarrow> left s' xs)"
begin

text \<open>A client's loop that reads to the end.\<close>

definition read_step :: "'s \<times> 'x list \<Rightarrow> ('s \<times> 'x list + 'x list) option" where
  "read_step = (\<lambda>(s, acc). do {
     x \<leftarrow> get s;
     (more, s') \<leftarrow> step s;
     Some (if more then Inl (s', acc @ [x]) else Inr (acc @ [x]))
   })"

lemma read_step_Cons:
  assumes "left s (x # xs)"
  shows "\<exists>s'. read_step (s, acc) = Some (if xs \<noteq> [] then Inl (s', acc @ [x]) else Inr (acc @ [x])) \<and>
    (xs \<noteq> [] \<longrightarrow> left s' xs)"
  using get_ok [OF assms] step_ok [OF assms] by (auto simp: read_step_def)

lemma read_all: "left s xs \<Longrightarrow> xs \<noteq> [] \<Longrightarrow> loop_c read_step (s, acc) = Some (acc @ xs)"
proof (induction xs arbitrary: s acc)
  case (Cons x xs)
  obtain s' where s': "read_step (s, acc) = Some (if xs \<noteq> [] then Inl (s', acc @ [x]) else Inr (acc @ [x]))"
    "xs \<noteq> [] \<Longrightarrow> left s' xs" using read_step_Cons [OF Cons.prems(1)] by blast
  show ?case
  proof (cases "xs = []")
    case True
    with s'(1) show ?thesis by (simp add: loop_c_Inr)
  next
    case False
    with s'(1) loop_c_Inl [of read_step "(s, acc)"] Cons.IH [OF s'(2)] show ?thesis by simp
  qed
qed simp

end

text \<open>The iterators are cursors, in either direction.\<close>

definition iter_left :: "skiparray_fold_type \<Rightarrow> skiparray \<times> addr \<Rightarrow> (voidp \<times> voidp option) list \<Rightarrow> bool" where
  "iter_left ty = (\<lambda>(sa, i) xs. \<exists>ps its F pos. iter_view sa ps its F pos \<and> i \<in> set its \<and> pos i < length ps \<and>
     xs = map (out_of sa) (reads ty ps (pos i)))"

definition iter_more :: "skiparray_fold_type \<Rightarrow> skiparray \<times> addr \<Rightarrow> (bool \<times> skiparray \<times> addr) option" where
  "iter_more ty = (\<lambda>(sa, i). do {
     (res, sa') \<leftarrow> iter_step ty sa i;
     Some (res = SKIPARRAY_ITER_STEP_OK, sa', i)
   })"

lemma out_of_same: "same_but_iters sa sa' \<Longrightarrow> out_of sa' = out_of sa"
  by (rule ext) (simp add: out_of_def same_but_itersD)

lemma iter_cursor: "cursor (iter_left ty) (\<lambda>(sa, i). skiparray_iter_get sa i) (iter_more ty)"
proof
  fix s x xs assume "iter_left ty s (x # xs)"
  then obtain sa i ps its F pos where s: "s = (sa, i)" and v: "iter_view sa ps its F pos" "i \<in> set its" "pos i < length ps"
    and "x # xs = map (out_of sa) (reads ty ps (pos i))" by (auto simp: iter_left_def)
  then obtain p ys where r: "reads ty ps (pos i) = p # ys" "x = out_of sa p" "xs = map (out_of sa) ys"
    by (cases "reads ty ps (pos i)") auto
  note step = iter_step_correct [OF v r(1)]
  show "(\<lambda>(sa, i). skiparray_iter_get sa i) s = Some x" using step(1) s r(2) by simp
  obtain sa' k' where sa': "iter_step ty sa i = Some (if ys = [] then SKIPARRAY_ITER_STEP_END else SKIPARRAY_ITER_STEP_OK, sa')"
    "iter_view sa' ps its F (pos(i := k'))" "ys \<noteq> [] \<Longrightarrow> k' < length ps \<and> reads ty ps k' = ys" "same_but_iters sa sa'"
    using step(2) by blast
  have "iter_more ty s = Some (xs \<noteq> [], sa', i)" using sa'(1) s r(3) by (simp add: iter_more_def)
  moreover have "iter_left ty (sa', i) xs" if "xs \<noteq> []"
  proof -
    have "ys \<noteq> []" using that r(3) by simp
    with sa'(3) r(3) have "k' < length ps" "xs = map (out_of sa') (reads ty ps ((pos(i := k')) i))"
      using out_of_same [OF sa'(4)] by auto
    with sa'(2) v(2) show ?thesis unfolding iter_left_def prod.case by (metis fun_upd_same)
  qed
  ultimately show "\<exists>s'. iter_more ty s = Some (xs \<noteq> [], s') \<and> (xs \<noteq> [] \<longrightarrow> iter_left ty s' xs)" by blast
qed

interpretation ascend: cursor "iter_left SKIPARRAY_FOLD_LEFT" "\<lambda>(sa, i). skiparray_iter_get sa i" "iter_more SKIPARRAY_FOLD_LEFT"
  by (rule iter_cursor)

interpretation descent: cursor "iter_left SKIPARRAY_FOLD_RIGHT" "\<lambda>(sa, i). skiparray_iter_get sa i" "iter_more SKIPARRAY_FOLD_RIGHT"
  by (rule iter_cursor)

section \<open>Properties\<close>

text \<open>
  C26. A loop that reads an iterator and steps it, forward or backward, until it reports END
  ends, and has read exactly the pairs from the iterator's position on, in that direction,
  each once.
\<close>

theorem enumerate_spec:
  assumes "iter_view sa ps its F pos" "i \<in> set its" "pos i < length ps"
  shows "loop_c (cursor.read_step (\<lambda>(sa, i). skiparray_iter_get sa i) (iter_more ty)) ((sa, i), []) =
    Some (map (out_of sa) (reads ty ps (pos i)))"
proof -
  have l: "iter_left ty (sa, i) (map (out_of sa) (reads ty ps (pos i)))" using assms unfolding iter_left_def by blast
  have n: "map (out_of sa) (reads ty ps (pos i)) \<noteq> []" using reads_Cons [OF assms(3), of ty] by auto
  show ?thesis
    using ascend.read_all [OF _ n, of "(sa, i)" "[]"] descent.read_all [OF _ n, of "(sa, i)" "[]"] l by (cases ty) simp_all
qed

theorem enumerate_spec_witness:
  "loop_c (cursor.read_step (\<lambda>(sa, i). skiparray_iter_get sa i) (iter_more SKIPARRAY_FOLD_LEFT)) ((sample_locked, 8), []) =
    Some (map (out_of sample_locked) [(1, 10), (2, 20), (3, 30), (5, 50)])"
  using enumerate_spec [OF sample_locked_view, of 8 SKIPARRAY_FOLD_LEFT] by (simp add: reads_def sample_pairs_def)

end
