(* ===== verification/Fold.thy ===== *)
theory Fold
  imports Cursor
begin

text \<open>
  The folds over one or several skiparrays (\<open>src/skiparray_fold.c\<close>).  A pointer to a
  skiparray is an index into the list of all skiparrays the caller holds (the \<open>world\<close>), so
  the same skiparray may be passed more than once.  The user state \<^verbatim>\<open>udata\<close> points to is
  passed to the callbacks and returned by them, \<open>None\<close> when a callback does not return.
\<close>

section \<open>The fold state\<close>

type_synonym world = "skiparray list"
type_synonym 'u fold_fun = "voidp \<Rightarrow> voidp \<Rightarrow> 'u \<Rightarrow> 'u option"

text \<open>
  The merge callback gets the arrays of keys and of values (\<^verbatim>\<open>count\<close> is their length) and
  returns its choice of a key and the merged value, which is NULL unless it sets it.
\<close>

type_synonym 'u merge_fun = "voidp list \<Rightarrow> voidp list \<Rightarrow> 'u \<Rightarrow> (nat \<times> voidp \<times> 'u) option"

datatype pair_state = PS_NONE | PS_AVAILABLE_LT | PS_AVAILABLE_EQ

text \<open>\<^verbatim>\<open>struct iter_state\<close>; an iterator is its skiparray and its address there.\<close>

record iter_state =
  is_state :: pair_state
  is_pair :: "voidp \<times> voidp"
  is_iter :: "(nat \<times> addr) option"

text \<open>
  \<^verbatim>\<open>struct skiparray_fold_state\<close>; \<open>fs_self\<close> and \<open>ids_block\<close> are the blocks of the struct
  and of the array \<^verbatim>\<open>ids.current\<close>, and \<open>fs_sa0\<close> is the skiparray whose \<^verbatim>\<open>mem\<close> and
  \<^verbatim>\<open>udata\<close> the struct keeps.
\<close>

record 'u skiparray_fold_state =
  fs_self :: addr
  fs_type :: skiparray_fold_type
  fs_use_values :: bool
  cb_fold :: "'u fold_fun"
  cb_cmp :: "cmp_fun fnptr"
  cb_free :: "nat option"
  cb_merge :: "'u merge_fun option"
  fs_sa0 :: nat
  ids_available :: nat
  ids_offset :: nat
  ids_block :: addr
  ids_current :: "nat list"
  iter_count :: nat
  iter_live :: nat
  iter_states :: "iter_state list"

definition sizeof_fold_state :: nat where "sizeof_fold_state = 88"
definition sizeof_iter_state :: nat where "sizeof_iter_state = 32"

section \<open>Starting and halting\<close>

text \<open>\<^verbatim>\<open>mem(NULL, n, sa_udata)\<close> and \<^verbatim>\<open>mem(p, 0, sa_udata)\<close> with the data of skiparray \<open>k\<close>.\<close>

definition world_alloc :: "nat \<Rightarrow> nat \<Rightarrow> world \<Rightarrow> (addr option \<times> world) option" where
  "world_alloc k n W = do {
     sa \<leftarrow> rd W k;
     let (r, m) = mem_alloc (snd (mem sa)) n (mst sa);
     W' \<leftarrow> wr W k (sa\<lparr>mst := m\<rparr>);
     Some (r, W')
   }"

definition world_free :: "nat \<Rightarrow> addr \<Rightarrow> world \<Rightarrow> world option" where
  "world_free k a W = do { sa \<leftarrow> rd W k; m \<leftarrow> mem_free a (mst sa); wr W k (sa\<lparr>mst := m\<rparr>) }"

text \<open>The check that all skiparrays have the callbacks of the first.\<close>

fun check_callbacks :: "world \<Rightarrow> nat option \<Rightarrow> nat option list \<Rightarrow> bool option" where
  "check_callbacks W first [] = Some True"
| "check_callbacks W first (None # sas) = Some False"
| "check_callbacks W first (Some k # sas) = do {
     k0 \<leftarrow> first;
     s0 \<leftarrow> rd W k0;
     sa \<leftarrow> rd W k;
     (if fst (cmp sa) \<noteq> fst (cmp s0) \<or> fst (mem sa) \<noteq> fst (mem s0) \<or> free_cb sa \<noteq> free_cb s0 \<or>
         use_values sa \<noteq> use_values s0
      then Some False else check_callbacks W first sas)
   }"

text \<open>
  The loop that opens an iterator on every skiparray: whether all could be opened, the
  entries so far, how many iterators are live, and the world.
\<close>

fun open_iters :: "skiparray_fold_type \<Rightarrow> nat list \<Rightarrow> iter_state list \<Rightarrow> nat \<Rightarrow> world \<Rightarrow>
    (bool \<times> iter_state list \<times> nat \<times> world) option" where
  "open_iters ty [] its n W = Some (True, its, n, W)"
| "open_iters ty (k # ks) its n W = do {
     sa \<leftarrow> rd W k;
     (ires, r, sa1) \<leftarrow> skiparray_iter_new sa;
     (case ires of
        SKIPARRAY_ITER_NEW_ERROR_MEMORY \<Rightarrow> Some (False, its, n, W[k := sa1])
      | _ \<Rightarrow> do {
          let n1 = (if ires = SKIPARRAY_ITER_NEW_OK then u8 (n + 1) else n);
          sa2 \<leftarrow> (case r of
                    Some i \<Rightarrow> if ty = SKIPARRAY_FOLD_RIGHT
                      then skiparray_iter_seek_endpoint sa1 i SKIPARRAY_ITER_SEEK_LAST else Some sa1
                  | None \<Rightarrow> Some sa1);
          open_iters ty ks
            (its @ [\<lparr>is_state = PS_NONE, is_pair = (0, 0), is_iter = map_option (Pair k) r\<rparr>]) n1 (W[k := sa2])
        })
   }"

text \<open>The loop that frees the iterators that are not NULL.\<close>

definition close_iter :: "iter_state \<Rightarrow> world \<Rightarrow> world option" where
  "close_iter s W =
     (case is_iter s of
        None \<Rightarrow> Some W
      | Some (k, i) \<Rightarrow> do { sa \<leftarrow> rd W k; sa' \<leftarrow> skiparray_iter_free sa (Some i); wr W k sa' })"

text \<open>
  \<open>sas\<close> is the array of pointers, \<open>None\<close> for NULL, and \<open>out\<close> tells whether the output
  parameter \<^verbatim>\<open>fs\<close> is not NULL; \<^verbatim>\<open>skiparray_count\<close> is the length of the array.
\<close>

definition skiparray_fold_multi_init :: "skiparray_fold_type \<Rightarrow> nat option list option \<Rightarrow> 'u fold_fun option \<Rightarrow>
    'u merge_fun option \<Rightarrow> bool \<Rightarrow> world \<Rightarrow> (skiparray_fold_res \<times> 'u skiparray_fold_state option \<times> world) option" where
  "skiparray_fold_multi_init ty skiparrays cb merge out W =
     (case (skiparrays, cb) of
        (Some sas, Some f) \<Rightarrow>
          (if length sas < 1 \<or> \<not> out \<or> 1 < length sas \<and> Option.is_none merge
           then Some (SKIPARRAY_FOLD_ERROR_MISUSE, None, W)
           else do {
             ok \<leftarrow> check_callbacks W (hd sas) sas;
             (if \<not> ok then Some (SKIPARRAY_FOLD_ERROR_MISUSE, None, W)
              else do {
                k0 \<leftarrow> hd sas;
                s0 \<leftarrow> rd W k0;
                ks \<leftarrow> those sas;
                (r, W1) \<leftarrow> world_alloc k0 (sizeof_fold_state + length sas * sizeof_iter_state) W;
                (case r of
                   None \<Rightarrow> Some (SKIPARRAY_FOLD_ERROR_MEMORY, None, W1)
                 | Some res \<Rightarrow> do {
                     (r2, W2) \<leftarrow> world_alloc k0 (length sas) W1;
                     (case r2 of
                        None \<Rightarrow> do { W3 \<leftarrow> world_free k0 res W2; Some (SKIPARRAY_FOLD_ERROR_MEMORY, None, W3) }
                      | Some ids \<Rightarrow> do {
                          (opened, its, n, W3) \<leftarrow> open_iters ty ks [] 0 W2;
                          (if opened then
                             Some (SKIPARRAY_FOLD_OK,
                               Some \<lparr>fs_self = res, fs_type = ty, fs_use_values = use_values s0, cb_fold = f,
                                 cb_cmp = cmp s0, cb_free = free_cb s0, cb_merge = merge, fs_sa0 = k0,
                                 ids_available = 0, ids_offset = 0, ids_block = ids,
                                 ids_current = replicate (length sas) 0, iter_count = length sas, iter_live = n,
                                 iter_states = its\<rparr>, W3)
                           else do {
                             W4 \<leftarrow> world_free k0 ids W3;
                             W5 \<leftarrow> for_c close_iter its W4;
                             W6 \<leftarrow> world_free k0 res W5;
                             Some (SKIPARRAY_FOLD_ERROR_MEMORY, None, W6)
                           })
                        })
                   })
              })
           })
      | _ \<Rightarrow> Some (SKIPARRAY_FOLD_ERROR_MISUSE, None, W))"

definition skiparray_fold_init :: "skiparray_fold_type \<Rightarrow> nat option \<Rightarrow> 'u fold_fun option \<Rightarrow> bool \<Rightarrow> world \<Rightarrow>
    (skiparray_fold_res \<times> 'u skiparray_fold_state option \<times> world) option" where
  "skiparray_fold_init ty sa cb out W = skiparray_fold_multi_init ty (Some [sa]) cb None out W"

definition skiparray_fold_halt :: "'u skiparray_fold_state option \<Rightarrow> world \<Rightarrow> world option" where
  "skiparray_fold_halt fs W =
     (case fs of
        None \<Rightarrow> Some W
      | Some fs \<Rightarrow> do {
          assert_c (0 < iter_count fs);
          W1 \<leftarrow> for_c close_iter (take (iter_count fs) (iter_states fs)) W;
          W2 \<leftarrow> world_free (fs_sa0 fs) (ids_block fs) W1;
          world_free (fs_sa0 fs) (fs_self fs) W2
        })"

section \<open>One step\<close>

definition set_entry :: "'u skiparray_fold_state \<Rightarrow> nat \<Rightarrow> iter_state \<Rightarrow> 'u skiparray_fold_state" where
  "set_entry fs i s = fs\<lparr>iter_states := (iter_states fs)[i := s]\<rparr>"

text \<open>The search for the first available key that is not below \<open>key\<close>, and how it compares.\<close>

definition insert_step :: "'u skiparray_fold_state \<Rightarrow> voidp \<Rightarrow> nat \<Rightarrow> (nat + (nat \<times> int) option) option" where
  "insert_step fs key ci =
     (if ci < ids_available fs then do {
        id \<leftarrow> rd (ids_current fs) ci;
        other \<leftarrow> rd (iter_states fs) id;
        let c = snd (cb_cmp fs) key (fst (is_pair other));
        Some (if c \<le> 0 then Inr (Some (ci, c)) else Inl (ci + 1))
      } else Some (Inr None))"

definition insert_pair :: "'u skiparray_fold_state \<Rightarrow> nat \<Rightarrow> 'u skiparray_fold_state option" where
  "insert_pair fs i = do {
     fs1 \<leftarrow> (if 0 < ids_offset fs then do {
               ids \<leftarrow> memmove_c (ids_current fs) 0 (ids_offset fs) (ids_available fs);
               Some (fs\<lparr>ids_current := ids, ids_offset := 0\<rparr>)
             } else Some fs);
     is \<leftarrow> rd (iter_states fs1) i;
     found \<leftarrow> loop_c (insert_step fs1 (fst (is_pair is))) 0;
     (case found of
        Some (ci, c) \<Rightarrow> do {
          ids \<leftarrow> memmove_c (ids_current fs1) (ci + 1) ci (ids_available fs1 - ci);
          ids' \<leftarrow> wr ids ci (u8 i);
          Some (set_entry (fs1\<lparr>ids_current := ids', ids_available := u8 (ids_available fs1 + 1)\<rparr>) i
            (is\<lparr>is_state := if c = 0 then PS_AVAILABLE_EQ else PS_AVAILABLE_LT\<rparr>))
        }
      | None \<Rightarrow> do {
          assert_c (i \<le> 255);
          ids' \<leftarrow> wr (ids_current fs1) (ids_available fs1) (u8 i);
          Some (set_entry (fs1\<lparr>ids_current := ids', ids_available := u8 (ids_available fs1 + 1)\<rparr>) i
            (is\<lparr>is_state := PS_AVAILABLE_LT\<rparr>))
        })
   }"

text \<open>One iteration of \<^verbatim>\<open>step_active_iterators\<close>, for entry \<open>i\<close>.\<close>

definition step_entry :: "nat \<Rightarrow> 'u skiparray_fold_state \<times> world \<Rightarrow> ('u skiparray_fold_state \<times> world) option" where
  "step_entry i = (\<lambda>(fs, W). do {
     is \<leftarrow> rd (iter_states fs) i;
     (case is_iter is of
        None \<Rightarrow> Some (fs, W)
      | Some (k, a) \<Rightarrow>
          (if is_state is \<noteq> PS_NONE then Some (fs, W)
           else do {
             sa \<leftarrow> rd W k;
             (key, v) \<leftarrow> skiparray_iter_get sa a;
             let p = (key, case v of None \<Rightarrow> snd (is_pair is) | Some value \<Rightarrow> value);
             fs1 \<leftarrow> insert_pair (set_entry fs i (is\<lparr>is_pair := p\<rparr>)) i;
             is1 \<leftarrow> rd (iter_states fs1) i;
             assert_c (is_state is1 \<noteq> PS_NONE);
             (sres, sa1) \<leftarrow> iter_step (fs_type fs1) sa a;
             (case sres of
                SKIPARRAY_ITER_STEP_END \<Rightarrow> do {
                  sa2 \<leftarrow> skiparray_iter_free sa1 (Some a);
                  assert_c (0 < iter_live fs1);
                  Some ((set_entry fs1 i (is1\<lparr>is_iter := None\<rparr>))\<lparr>iter_live := iter_live fs1 - 1\<rparr>, W[k := sa2])
                }
              | SKIPARRAY_ITER_STEP_OK \<Rightarrow> Some (fs1, W[k := sa1]))
           }))
   })"

definition step_active_iterators :: "'u skiparray_fold_state \<Rightarrow> world \<Rightarrow> ('u skiparray_fold_state \<times> world) option" where
  "step_active_iterators fs W = do {
     assert_c (0 < iter_live fs);
     for_c step_entry [0..<iter_count fs] (fs, W)
   }"

text \<open>The loop that collects equal pairs, from \<open>base\<close> on, into arrays of \<open>cnt\<close> elements.\<close>

definition collect_step :: "'u skiparray_fold_state \<Rightarrow> nat \<Rightarrow> nat \<Rightarrow> nat \<times> voidp list \<times> voidp list \<Rightarrow>
    (nat \<times> voidp list \<times> voidp list + voidp list \<times> voidp list) option" where
  "collect_step fs base cnt = (\<lambda>(j, ks, vs).
     (if j < ids_available fs then do {
        id \<leftarrow> rd (ids_current fs) (j + base);
        is \<leftarrow> rd (iter_states fs) id;
        (if is_state is \<noteq> PS_AVAILABLE_EQ then Some (Inr (ks, vs))
         else do {
           assert_c (length ks < cnt);
           Some (Inl (j + 1, ks @ [fst (is_pair is)], vs @ [if fs_use_values fs then snd (is_pair is) else 0]))
         })
      } else Some (Inr (ks, vs))))"

text \<open>One iteration of the last loop: entry number \<open>j\<close> from \<open>base\<close> on is used up.\<close>

definition used_step :: "'u skiparray_fold_state \<Rightarrow> nat \<Rightarrow> nat \<Rightarrow> iter_state list \<Rightarrow> iter_state list option" where
  "used_step fs base j its = do {
     id \<leftarrow> rd (ids_current fs) (j + base);
     is \<leftarrow> rd its id;
     wr its id (is\<lparr>is_state := PS_NONE\<rparr>)
   }"

definition call_with_next :: "'u skiparray_fold_state \<Rightarrow> nat \<Rightarrow> 'u \<Rightarrow> ('u skiparray_fold_state \<times> 'u) option" where
  "call_with_next fs cnt u = do {
     assert_c (0 < ids_available fs);
     let base = ids_offset fs;
     id \<leftarrow> rd (ids_current fs) base;
     is \<leftarrow> rd (iter_states fs) id;
     (if is_state is = PS_AVAILABLE_LT then do {
        u' \<leftarrow> cb_fold fs (fst (is_pair is)) (snd (is_pair is)) u;
        Some (set_entry (fs\<lparr>ids_available := ids_available fs - 1, ids_offset := u8 (base + 1)\<rparr>) id
          (is\<lparr>is_state := PS_NONE\<rparr>), u')
      } else do {
        assert_c (is_state is = PS_AVAILABLE_EQ);
        merge \<leftarrow> cb_merge fs;
        (ks, vs) \<leftarrow> loop_c (collect_step fs base cnt) (0, [], []);
        let used = length ks;
        assert_c (0 < used);
        (choice, merged_value, u1) \<leftarrow> merge ks vs u;
        assert_c (choice < used);
        u2 \<leftarrow> cb_fold fs (ks ! choice) merged_value u1;
        its \<leftarrow> for_c (used_step fs base) [0..<used] (iter_states fs);
        Some (fs\<lparr>ids_available := ids_available fs - used, ids_offset := u8 (base + used), iter_states := its\<rparr>, u2)
      })
   }"

text \<open>\<^verbatim>\<open>skiparray_fold_next\<close>; after \<^verbatim>\<open>DONE\<close> the fold state is freed.\<close>

definition skiparray_fold_next :: "'u skiparray_fold_state \<Rightarrow> world \<Rightarrow> 'u \<Rightarrow>
    (skiparray_fold_next_res \<times> 'u skiparray_fold_state option \<times> world \<times> 'u) option" where
  "skiparray_fold_next fs W u = do {
     assert_c (ids_available fs \<le> iter_count fs);
     assert_c (iter_live fs \<le> iter_count fs);
     (if iter_live fs = 0 \<and> ids_available fs = 0 then do {
        W' \<leftarrow> skiparray_fold_halt (Some fs) W;
        Some (SKIPARRAY_FOLD_NEXT_DONE, None, W', u)
      } else do {
        (fs1, W1) \<leftarrow> (if 0 < iter_live fs then step_active_iterators fs W else Some (fs, W));
        (fs2, u') \<leftarrow> call_with_next fs1 (iter_count fs1) u;
        Some (SKIPARRAY_FOLD_NEXT_OK, Some fs2, W1, u')
      })
   }"

section \<open>A whole fold\<close>

text \<open>The loop of \<^verbatim>\<open>skiparray_fold\<close>, which clients of \<^verbatim>\<open>skiparray_fold_multi_init\<close> write themselves.\<close>

definition fold_loop :: "'u skiparray_fold_state \<times> world \<times> 'u \<Rightarrow>
    ('u skiparray_fold_state \<times> world \<times> 'u + world \<times> 'u) option" where
  "fold_loop = (\<lambda>(fs, W, u). do {
     (res, fs', W', u') \<leftarrow> skiparray_fold_next fs W u;
     (case res of
        SKIPARRAY_FOLD_NEXT_DONE \<Rightarrow> Some (Inr (W', u'))
      | SKIPARRAY_FOLD_NEXT_OK \<Rightarrow> do { fs2 \<leftarrow> fs'; Some (Inl (fs2, W', u')) })
   })"

definition run_fold :: "(skiparray_fold_res \<times> 'u skiparray_fold_state option \<times> world) option \<Rightarrow> 'u \<Rightarrow>
    (skiparray_fold_res \<times> world \<times> 'u) option" where
  "run_fold init u = do {
     (fres, fs, W) \<leftarrow> init;
     (if fres \<noteq> SKIPARRAY_FOLD_OK then Some (fres, W, u)
      else do {
        fs1 \<leftarrow> fs;
        (W', u') \<leftarrow> loop_c fold_loop (fs1, W, u);
        Some (SKIPARRAY_FOLD_OK, W', u')
      })
   }"

definition skiparray_fold :: "skiparray_fold_type \<Rightarrow> nat option \<Rightarrow> 'u fold_fun option \<Rightarrow> world \<Rightarrow> 'u \<Rightarrow>
    (skiparray_fold_res \<times> world \<times> 'u) option" where
  "skiparray_fold ty sa cb W u = run_fold (skiparray_fold_init ty sa cb True W) u"

end
