(* ===== verification/Merge.thy ===== *)
theory Merge
  imports Fold "HOL-Library.Multiset"
begin

text \<open>
  The folds on lists: which pairs are handed to the callbacks, in which batches and in which
  order, as a function of the lists of pairs that the iterators read.
\<close>

section \<open>Definitions\<close>

text \<open>
  The available pairs, in the order of \<^verbatim>\<open>ids.current\<close>: the number of the iterator, its pair, and
  whether its state is \<^verbatim>\<open>PS_AVAILABLE_EQ\<close>.
\<close>

type_synonym pending = "(nat \<times> (voidp \<times> voidp) \<times> bool) list"

abbreviation pkey :: "nat \<times> (voidp \<times> voidp) \<times> bool \<Rightarrow> voidp" where
  "pkey x \<equiv> fst (fst (snd x))"

abbreviation pflag :: "nat \<times> (voidp \<times> voidp) \<times> bool \<Rightarrow> bool" where
  "pflag x \<equiv> snd (snd x)"

abbreviation ppair :: "nat \<times> (voidp \<times> voidp) \<times> bool \<Rightarrow> voidp \<times> voidp" where
  "ppair x \<equiv> fst (snd x)"

fun ins :: "cmp_fun \<Rightarrow> nat \<Rightarrow> voidp \<times> voidp \<Rightarrow> pending \<Rightarrow> pending" where
  "ins c i p [] = [(i, p, False)]"
| "ins c i p (x # xs) =
     (if c (fst p) (pkey x) \<le> 0 then (i, p, c (fst p) (pkey x) = 0) # x # xs else x # ins c i p xs)"

text \<open>Every iterator that is not done and has no pair available reads its next one.\<close>

definition pull_one :: "cmp_fun \<Rightarrow> nat \<Rightarrow> pending \<times> bindings list \<Rightarrow> pending \<times> bindings list" where
  "pull_one c i = (\<lambda>(pend, rems).
     if rems ! i = [] \<or> i \<in> fst ` set pend then (pend, rems)
     else (ins c i (hd (rems ! i)) pend, rems[i := tl (rems ! i)]))"

definition pull :: "cmp_fun \<Rightarrow> pending \<times> bindings list \<Rightarrow> pending \<times> bindings list" where
  "pull c st = fold (pull_one c) [0..<length (snd st)] st"

text \<open>One call of the callbacks: on one pair, or on pairs to merge.\<close>

datatype batch = Alone "voidp \<times> voidp" | Equal bindings

fun batch_pairs :: "batch \<Rightarrow> bindings" where
  "batch_pairs (Alone p) = [p]"
| "batch_pairs (Equal ps) = ps"

fun take_batch :: "pending \<Rightarrow> batch \<times> pending" where
  "take_batch [] = (Equal [], [])"
| "take_batch (x # xs) =
     (if pflag x then (Equal (map ppair (takeWhile pflag (x # xs))), dropWhile pflag (x # xs)) else (Alone (ppair x), xs))"

definition pairs_left :: "pending \<times> bindings list \<Rightarrow> (voidp \<times> voidp) multiset" where
  "pairs_left st = mset (map ppair (fst st)) + mset (concat (snd st))"

lemma mset_concat_tl:
  assumes "i < length xs" "xs ! i \<noteq> []"
  shows "mset (concat xs) = {#hd (xs ! i)#} + mset (concat (xs[i := tl (xs ! i)]))"
proof -
  have "xs = take i xs @ (hd (xs ! i) # tl (xs ! i)) # drop (Suc i) xs"
    using assms by (simp add: id_take_nth_drop [symmetric])
  then have "mset (concat xs) = mset (concat (take i xs @ (hd (xs ! i) # tl (xs ! i)) # drop (Suc i) xs))" by simp
  also have "\<dots> = {#hd (xs ! i)#} + mset (concat (xs[i := tl (xs ! i)]))"
    using assms(1) by (simp add: upd_conv_take_nth_drop)
  finally show ?thesis .
qed

lemma mset_ins [simp]: "image_mset ppair (mset (ins c i p xs)) = add_mset p (image_mset ppair (mset xs))"
  by (induction xs) auto

lemma ids_ins [simp]: "fst ` set (ins c i p xs) = insert i (fst ` set xs)"
  by (induction xs) auto

lemma set_ins: "ppair ` set (ins c i p xs) = insert p (ppair ` set xs)"
  by (induction xs) auto

lemma pull_one_length [simp]: "length (snd (pull_one c i st)) = length (snd st)"
  by (auto simp: pull_one_def split: prod.splits)

lemma pairs_left_pull_one: "i < length (snd st) \<Longrightarrow> pairs_left (pull_one c i st) = pairs_left st"
  by (auto simp: pull_one_def pairs_left_def mset_concat_tl split: prod.splits)

lemma pairs_left_fold:
  "\<forall>i \<in> set js. i < length (snd st) \<Longrightarrow>
   pairs_left (fold (pull_one c) js st) = pairs_left st \<and> length (snd (fold (pull_one c) js st)) = length (snd st)"
  by (induction js arbitrary: st) (simp_all add: pairs_left_pull_one)

lemma pull_left [simp]: "pairs_left (pull c st) = pairs_left st" "length (snd (pull c st)) = length (snd st)"
  unfolding pull_def using pairs_left_fold [of "[0..<length (snd st)]" st c] by auto

lemma take_batch_left:
  assumes "xs \<noteq> []"
  shows "map ppair xs = batch_pairs (fst (take_batch xs)) @ map ppair (snd (take_batch xs))"
    "batch_pairs (fst (take_batch xs)) \<noteq> []"
  using assms by (cases xs; simp add: map_append [symmetric] del: map_append)+

text \<open>After a pull, every iterator that is not done has a pair available.\<close>

lemma pull_one_ids:
  "fst ` set (fst st) \<subseteq> fst ` set (fst (pull_one c i st))"
  "i < length (snd st) \<Longrightarrow> snd (pull_one c i st) ! i \<noteq> [] \<Longrightarrow> i \<in> fst ` set (fst (pull_one c i st))"
  "j \<noteq> i \<Longrightarrow> snd (pull_one c i st) ! j = snd st ! j"
  by (auto simp: pull_one_def split: prod.splits if_splits)

lemma fold_pull_ids:
  assumes "distinct js" "\<forall>j \<in> set js. j < length (snd st)"
  shows "fst ` set (fst st) \<subseteq> fst ` set (fst (fold (pull_one c) js st)) \<and>
    (\<forall>j \<in> set js. snd (fold (pull_one c) js st) ! j \<noteq> [] \<longrightarrow> j \<in> fst ` set (fst (fold (pull_one c) js st))) \<and>
    (\<forall>j. j \<notin> set js \<longrightarrow> snd (fold (pull_one c) js st) ! j = snd st ! j)"
  using assms
proof (induction js arbitrary: st)
  case (Cons k js)
  let ?st = "pull_one c k st" and ?r = "fold (pull_one c) (k # js) st"
  have r: "?r = fold (pull_one c) js ?st" by simp
  have IH: "fst ` set (fst ?st) \<subseteq> fst ` set (fst ?r)"
    "\<forall>j \<in> set js. snd ?r ! j \<noteq> [] \<longrightarrow> j \<in> fst ` set (fst ?r)" "\<forall>j. j \<notin> set js \<longrightarrow> snd ?r ! j = snd ?st ! j"
    unfolding r using Cons.IH [of ?st] Cons.prems by simp_all
  have k: "snd ?r ! k \<noteq> [] \<longrightarrow> k \<in> fst ` set (fst ?r)"
    using IH(1,3) pull_one_ids(2) [of k st c] Cons.prems by auto
  have o: "snd ?r ! j = snd st ! j" if "j \<notin> set (k # js)" for j
    using IH(3) that pull_one_ids(3) [of j k c st] by simp
  show ?case using IH(1,2) pull_one_ids(1) [of st c k] k o by auto
qed simp

lemma pull_ids: "i < length (snd st) \<Longrightarrow> snd (pull c st) ! i \<noteq> [] \<Longrightarrow> i \<in> fst ` set (fst (pull c st))"
  unfolding pull_def using fold_pull_ids [of "[0..<length (snd st)]" st c] by auto

lemma pull_done: "fst (pull c st) = [] \<Longrightarrow> pairs_left st = {#}"
proof -
  assume n: "fst (pull c st) = []"
  have "r = []" if "r \<in> set (snd (pull c st))" for r
    using that pull_ids [of _ st c] n by (auto simp: in_set_conv_nth)
  then have "concat (snd (pull c st)) = []" by simp
  with n pull_left(1) [of c st] show ?thesis by (simp add: pairs_left_def)
qed

function batches :: "cmp_fun \<Rightarrow> pending \<times> bindings list \<Rightarrow> batch list" where
  "batches c st =
     (let st' = pull c st
      in if fst st' = [] then []
         else fst (take_batch (fst st')) # batches c (snd (take_batch (fst st')), snd st'))"
  by pat_completeness auto

lemma batch_smaller:
  assumes "fst st \<noteq> []"
  shows "size (pairs_left (snd (take_batch (fst st)), snd st)) < size (pairs_left st)"
  using arg_cong [OF take_batch_left(1) [OF assms], of length] take_batch_left(2) [OF assms]
  by (simp add: pairs_left_def)

termination batches
  by (relation "measure (\<lambda>(c, st). size (pairs_left st))") (use batch_smaller pull_left in \<open>auto, metis pull_left(1)\<close>)

declare batches.simps [simp del]

text \<open>What one batch does to the user state.\<close>

definition deliver :: "'u fold_fun \<Rightarrow> 'u merge_fun option \<Rightarrow> bool \<Rightarrow> batch \<Rightarrow> 'u \<Rightarrow> 'u option" where
  "deliver f merge uv b u =
     (case b of
        Alone p \<Rightarrow> f (fst p) (snd p) u
      | Equal ps \<Rightarrow> do {
          m \<leftarrow> merge;
          (choice, v, u1) \<leftarrow> m (map fst ps) (map (\<lambda>p. if uv then snd p else 0) ps) u;
          assert_c (choice < length ps);
          f (fst (ps ! choice)) v u1
        })"

section \<open>Every pair once\<close>

lemma batches_all: "mset (concat (map batch_pairs (batches c st))) = pairs_left st"
proof (induction c st rule: batches.induct)
  case (1 c st)
  let ?t = "pull c st"
  show ?case
  proof (cases "fst ?t = []")
    case True
    with pull_done [OF True] show ?thesis by (simp add: batches.simps [of c st] Let_def)
  next
    case False
    have "mset (map ppair (fst ?t)) =
        mset (batch_pairs (fst (take_batch (fst ?t)))) + mset (map ppair (snd (take_batch (fst ?t))))"
      by (subst take_batch_left(1) [OF False]) simp
    then have "mset (batch_pairs (fst (take_batch (fst ?t)))) + pairs_left (snd (take_batch (fst ?t)), snd ?t) = pairs_left ?t"
      by (simp add: pairs_left_def)
    with 1 [OF refl False] False show ?thesis by (simp add: batches.simps [of c st] Let_def)
  qed
qed

section \<open>One skiparray\<close>

lemma batches_one: "batches c ([], [ps]) = map Alone ps"
proof (induction ps)
  case Nil
  then show ?case by (simp add: batches.simps pull_def pull_one_def)
next
  case (Cons p ps)
  have "pull c ([], [p # ps]) = ([(0, p, False)], [ps])" by (simp add: pull_def pull_one_def)
  with Cons show ?case by (simp add: batches.simps [of c "([], [p # ps])"])
qed

section \<open>Order\<close>

text \<open>
  The available pairs are in order, the flags tell which keys are equal to the next one, and
  every key available comes before those its iterator has left to read.
\<close>

definition le_key :: "cmp_fun \<Rightarrow> voidp \<times> voidp \<Rightarrow> voidp \<times> voidp \<Rightarrow> bool" where
  "le_key c p q \<longleftrightarrow> c (fst p) (fst q) \<le> 0"

fun flags_ok :: "cmp_fun \<Rightarrow> pending \<Rightarrow> bool" where
  "flags_ok c [] = True"
| "flags_ok c [x] = (\<not> pflag x)"
| "flags_ok c (x # y # zs) = ((pflag x \<longleftrightarrow> c (pkey x) (pkey y) = 0) \<and> flags_ok c (y # zs))"

definition merging :: "cmp_fun \<Rightarrow> pending \<times> bindings list \<Rightarrow> bool" where
  "merging c st \<longleftrightarrow>
     sorted_wrt (le_key c) (map ppair (fst st)) \<and> flags_ok c (fst st) \<and>
     (\<forall>x \<in> set (fst st). fst x < length (snd st) \<and> above c (pkey x) (map fst (snd st ! fst x))) \<and>
     (\<forall>r \<in> set (snd st). ascending c (map fst r))"

lemma ins_sorted:
  assumes c: "comparator c" and s: "sorted_wrt (le_key c) (map ppair xs)"
  shows "sorted_wrt (le_key c) (map ppair (ins c i p xs))"
  using s
proof (induction xs)
  case (Cons x xs)
  show ?case
  proof (cases "c (fst p) (pkey x) \<le> 0")
    case True
    with Cons.prems show ?thesis by (auto simp: le_key_def intro: comparator.cmp_trans [OF c])
  next
    case False
    then have "le_key c (ppair x) p" using comparator.cmp_swap [OF c, of "pkey x" "fst p"] by (simp add: le_key_def)
    with False Cons show ?thesis by (auto simp: set_ins)
  qed
qed simp

lemma ins_flags:
  assumes c: "comparator c" and f: "flags_ok c xs"
  shows "flags_ok c (ins c i p xs)"
proof -
  have ne: "c a b \<noteq> 0" if "\<not> c b a \<le> 0" for a b using that comparator.cmp_eq_sym [OF c, of a b] by auto
  have no: "c a b \<noteq> 0" if "\<not> c k a \<le> 0" "c k b \<le> 0" for a b k
    using that comparator.cmp_trans [OF c, of k b a] comparator.cmp_eq_sym [OF c, of a b] by auto
  show ?thesis using f
  proof (induction xs)
    case (Cons x xs)
    then show ?case using ne no by (cases xs) auto
  qed simp
qed

lemma merging_pull_one:
  assumes c: "comparator c" and m: "merging c st" and i: "i < length (snd st)"
  shows "merging c (pull_one c i st)"
proof (cases "snd st ! i = [] \<or> i \<in> fst ` set (fst st)")
  case True
  with m show ?thesis by (cases st) (auto simp: pull_one_def)
next
  case False
  obtain pend rems where st: "st = (pend, rems)" by (cases st)
  obtain p r where r: "rems ! i = p # r" using False st by (cases "rems ! i") auto
  have e: "pull_one c i st = (ins c i p pend, rems[i := r])" using False st r by (simp add: pull_one_def)
  have asc: "ascending c (map fst (p # r))" using m st r i unfolding merging_def by (metis nth_mem snd_conv)
  have "fst x < length rems \<and> above c (pkey x) (map fst (rems[i := r] ! fst x))" if x: "x \<in> set (ins c i p pend)" for x
  proof -
    from x have "x = (i, p, pflag x) \<or> x \<in> set pend \<or> (\<exists>f. x = (i, p, f))"
      by (induction pend) (auto split: if_splits)
    then consider "fst x = i" "ppair x = p" | "x \<in> set pend" by (metis fst_conv snd_conv)
    then show ?thesis
    proof cases
      case 1
      then show ?thesis using asc i st by simp
    next
      case 2
      then have "fst x \<noteq> i" using False st by auto
      with 2 m st show ?thesis by (auto simp: merging_def)
    qed
  qed
  moreover have "ascending c (map fst q)" if "q \<in> set (rems[i := r])" for q
    using that asc m st set_update_subset_insert [of rems i r] by (auto simp: merging_def)
  ultimately show ?thesis
    using m st ins_sorted [OF c] ins_flags [OF c] unfolding e merging_def by simp
qed

lemma merging_pull: "comparator c \<Longrightarrow> merging c st \<Longrightarrow> merging c (pull c st)"
proof -
  assume c: "comparator c" and m: "merging c st"
  have "merging c (fold (pull_one c) js st)" if "\<forall>j \<in> set js. j < length (snd st)" for js
    using m that by (induction js arbitrary: st) (simp_all add: merging_pull_one [OF c])
  then show ?thesis by (simp add: pull_def)
qed

text \<open>Taking a batch: what is left is in order, and comes after the batch.\<close>

lemma flags_run:
  assumes c: "comparator c" and f: "flags_ok c xs" and y: "dropWhile pflag xs = y # ys"
  shows "\<forall>x \<in> set (takeWhile pflag xs). c (pkey x) (pkey y) = 0"
  using f y
proof (induction xs)
  case (Cons x xs)
  show ?case
  proof (cases "pflag x")
    case True
    with Cons.prems obtain z zs where xs: "xs = z # zs" by (cases xs) auto
    with Cons.prems True have z: "c (pkey x) (pkey z) = 0" "flags_ok c xs" "dropWhile pflag xs = y # ys" by auto
    note IH = Cons.IH [OF z(2,3)]
    have "c (pkey z) (pkey y) = 0"
      using IH xs z(3) comparator.cmp_refl [OF c] by (cases "pflag z") auto
    then have "c (pkey x) (pkey y) = 0" using comparator.eq_trans [OF c z(1)] by simp
    with IH True show ?thesis by simp
  next
    case False
    then show ?thesis by simp
  qed
qed simp

lemma flags_last: "flags_ok c xs \<Longrightarrow> xs \<noteq> [] \<Longrightarrow> dropWhile pflag xs \<noteq> []"
  by (induction c xs rule: flags_ok.induct) auto

lemma flags_drop: "flags_ok c (xs @ ys) \<Longrightarrow> flags_ok c ys"
proof (induction xs)
  case (Cons x xs)
  then show ?case by (cases "xs @ ys") auto
qed simp

lemma take_batch_pending:
  assumes "xs \<noteq> []"
  shows "\<exists>us. xs = us @ snd (take_batch xs) \<and> map ppair us = batch_pairs (fst (take_batch xs)) \<and> us \<noteq> []"
  using assms by (cases xs) (auto intro: exI [of _ "takeWhile pflag xs"] exI [of _ "[hd xs]"] simp: takeWhile_dropWhile_id)

lemma merging_take:
  assumes m: "merging c (pend, rems)" and n: "pend \<noteq> []"
  shows "merging c (snd (take_batch pend), rems)"
proof -
  obtain us where us: "pend = us @ snd (take_batch pend)" using take_batch_pending [OF n] by blast
  then have "sorted_wrt (le_key c) (map ppair us @ map ppair (snd (take_batch pend)))" "flags_ok c (us @ snd (take_batch pend))"
    "\<forall>x \<in> set (us @ snd (take_batch pend)). fst x < length rems \<and> above c (pkey x) (map fst (rems ! fst x))"
    using m unfolding merging_def by (metis fst_conv map_append snd_conv)+
  then show ?thesis using m flags_drop by (auto simp: merging_def sorted_wrt_append)
qed

text \<open>After a pull, what a batch takes comes before everything that is left.\<close>

lemma batch_equal:
  assumes c: "comparator c" and f: "flags_ok c xs" and x: "xs \<noteq> []"
    and p: "p \<in> set (batch_pairs (fst (take_batch xs)))" "q \<in> set (batch_pairs (fst (take_batch xs)))"
  shows "c (fst p) (fst q) = 0"
proof (cases "pflag (hd xs)")
  case True
  obtain y ys where y: "dropWhile pflag xs = y # ys" using flags_last [OF f x] by (cases "dropWhile pflag xs") auto
  have "c (fst r) (pkey y) = 0" if "r \<in> set (batch_pairs (fst (take_batch xs)))" for r
  proof -
    have "batch_pairs (fst (take_batch xs)) = map ppair (takeWhile pflag xs)" using True x by (cases xs) auto
    with that obtain z where "z \<in> set (takeWhile pflag xs)" "r = ppair z" by auto
    with flags_run [OF c f y] show ?thesis by blast
  qed
  then have "c (fst p) (pkey y) = 0" "c (pkey y) (fst q) = 0" using p comparator.cmp_eq_sym [OF c] by blast+
  then show ?thesis by (rule comparator.eq_trans [OF c])
next
  case False
  with p x show ?thesis using comparator.cmp_refl [OF c] by (cases xs) auto
qed

lemma batch_first:
  assumes c: "comparator c" and m: "merging c (pend, rems)" and n: "pend \<noteq> []"
    and av: "\<forall>i < length rems. rems ! i \<noteq> [] \<longrightarrow> i \<in> fst ` set pend"
  shows "sorted_wrt (le_key c) (batch_pairs (fst (take_batch pend)))"
    "p \<in> set (batch_pairs (fst (take_batch pend))) \<Longrightarrow> q \<in># pairs_left (snd (take_batch pend), rems) \<Longrightarrow> le_key c p q"
proof -
  obtain us where us: "pend = us @ snd (take_batch pend)" "map ppair us = batch_pairs (fst (take_batch pend))"
    using take_batch_pending [OF n] by blast
  have "sorted_wrt (le_key c) (map ppair (us @ snd (take_batch pend)))" using m us(1) by (simp add: merging_def)
  then have s: "sorted_wrt (le_key c) (map ppair us)"
    "\<forall>x \<in> set us. \<forall>y \<in> set (snd (take_batch pend)). le_key c (ppair x) (ppair y)" by (auto simp: sorted_wrt_append)
  show "sorted_wrt (le_key c) (batch_pairs (fst (take_batch pend)))" using s(1) us(2) by simp
  assume p: "p \<in> set (batch_pairs (fst (take_batch pend)))" and q: "q \<in># pairs_left (snd (take_batch pend), rems)"
  obtain x where x: "x \<in> set us" "p = ppair x" using p us(2) [symmetric] by auto
  consider "q \<in> set (map ppair (snd (take_batch pend)))" | r where "r \<in> set rems" "q \<in> set r"
    using q by (auto simp: pairs_left_def)
  then show "le_key c p q"
  proof cases
    case 1
    then show ?thesis using s(2) x by auto
  next
    case 2
    then obtain j where j: "j < length rems" "q \<in> set (rems ! j)" by (auto simp: in_set_conv_nth)
    then obtain y where y: "y \<in> set pend" "fst y = j" using av by fastforce
    have lt: "c (pkey y) (fst q) < 0" using m y j(2) by (auto simp: merging_def above_def)
    have "c (fst p) (pkey y) \<le> 0"
    proof (cases "y \<in> set us")
      case True
      then have "ppair y \<in> set (batch_pairs (fst (take_batch pend)))" using us(2) [symmetric] by simp
      then show ?thesis using batch_equal [OF c _ n p] m by (simp add: merging_def)
    next
      case False
      then have "y \<in> set (snd (take_batch pend))" using y(1) us(1) by (metis Un_iff set_append)
      then show ?thesis using s(2) x by (auto simp: le_key_def)
    qed
    from comparator.le_lt_trans [OF c this lt] show ?thesis by (simp add: le_key_def)
  qed
qed

lemma batches_sorted:
  assumes c: "comparator c" and m: "merging c st"
  shows "sorted_wrt (le_key c) (concat (map batch_pairs (batches c st)))"
  using m
proof (induction "size (pairs_left st)" arbitrary: st rule: less_induct)
  case less
  obtain pend rems where t: "pull c st = (pend, rems)" by (cases "pull c st")
  show ?case
  proof (cases "pend = []")
    case True
    with t show ?thesis by (simp add: batches.simps [of c st])
  next
    case False
    let ?b = "fst (take_batch pend)" and ?st = "(snd (take_batch pend), rems)"
    have mt: "merging c (pend, rems)" using merging_pull [OF c less.prems] t by simp
    have av: "\<forall>i < length rems. rems ! i \<noteq> [] \<longrightarrow> i \<in> fst ` set pend"
      using pull_ids [of _ st c] t by (metis fst_conv pull_left(2) snd_conv)
    have "size (pairs_left ?st) < size (pairs_left st)"
      using batch_smaller [of "(pend, rems)"] False pull_left(1) [of c st] t by simp
    then have IH: "sorted_wrt (le_key c) (concat (map batch_pairs (batches c ?st)))"
      using less.hyps merging_take [OF mt False] by blast
    have "set (concat (map batch_pairs (batches c ?st))) = set_mset (pairs_left ?st)"
      using batches_all [of c ?st] by (metis set_mset_mset)
    then have "\<forall>p \<in> set (batch_pairs ?b). \<forall>q \<in> set (concat (map batch_pairs (batches c ?st))). le_key c p q"
      using batch_first(2) [OF c mt False av] by blast
    moreover have "batches c st = ?b # batches c ?st" using t False by (simp add: batches.simps [of c st])
    ultimately show ?thesis using IH batch_first(1) [OF c mt False av] by (simp add: sorted_wrt_append)
  qed
qed

text \<open>The fold starts with nothing available.\<close>

lemma merging_start: "\<forall>r \<in> set rems. ascending c (map fst r) \<Longrightarrow> merging c ([], rems)"
  by (simp add: merging_def)

section \<open>Equal keys\<close>

lemma pull_keeps_first:
  assumes c: "comparator c" and st: "st = (y # ys, rems)"
    and gt: "\<forall>i < length rems. i \<notin> fst ` set (y # ys) \<and> rems ! i \<noteq> [] \<longrightarrow> 0 < c (fst (hd (rems ! i))) (pkey y)"
  shows "\<exists>zs rems'. pull c st = (y # zs, rems')"
proof -
  let ?I = "\<lambda>st. \<exists>zs. fst st = y # zs \<and>
    (\<forall>i < length (snd st). i \<notin> fst ` set (fst st) \<and> snd st ! i \<noteq> [] \<longrightarrow> 0 < c (fst (hd (snd st ! i))) (pkey y))"
  have one: "?I (pull_one c k s)" if I: "?I s" and k: "k < length (snd s)" for k s
  proof -
    obtain zs r where s: "s = (y # zs, r)" using I by (cases s) auto
    show ?thesis
    proof (cases "r ! k = [] \<or> k \<in> fst ` set (y # zs)")
      case True
      then have "pull_one c k s = s" using s by (simp add: pull_one_def)
      with I show ?thesis by simp
    next
      case False
      then have g: "0 < c (fst (hd (r ! k))) (pkey y)" using I k s by auto
      have "pull_one c k s = (y # ins c k (hd (r ! k)) zs, r[k := tl (r ! k)])"
        using False g s by (auto simp: pull_one_def)
      then show ?thesis using I s by (auto simp: nth_list_update)
    qed
  qed
  have "?I (fold (pull_one c) js s)" if "?I s" "\<forall>j \<in> set js. j < length (snd s)" for js s
    using that
  proof (induction js arbitrary: s)
    case (Cons k js)
    have "?I (pull_one c k s)" using one Cons.prems by simp
    with Cons.IH [of "pull_one c k s"] Cons.prems(2) show ?case by simp
  qed simp
  from this [of st "[0..<length (snd st)]"] have "?I (pull c st)" using gt st by (simp add: pull_def)
  then show ?thesis by (cases "pull c st") auto
qed

text \<open>Pairs that are merged are followed by one more pair with the same key, on its own.\<close>

lemma equal_then_alone:
  assumes c: "comparator c" and m: "merging c st" and b: "batches c st = bs @ Equal ps # cs"
  shows "\<exists>p ds. cs = Alone p # ds \<and> (\<forall>q \<in> set ps. c (fst q) (fst p) = 0)"
  using m b
proof (induction bs arbitrary: st)
  case Nil
  obtain pend rems where t: "pull c st = (pend, rems)" by (cases "pull c st")
  have n: "pend \<noteq> []" using Nil(2) t by (auto simp: batches.simps [of c st])
  have e: "fst (take_batch pend) = Equal ps" "cs = batches c (snd (take_batch pend), rems)"
    using Nil(2) t n by (simp_all add: batches.simps [of c st])
  then obtain x xs where x: "pend = x # xs" "pflag x" using n by (cases pend) (auto split: if_splits)
  have mt: "merging c (pend, rems)" using merging_pull [OF c Nil(1)] t by simp
  then have f: "flags_ok c pend" by (simp add: merging_def)
  obtain y ys where y: "dropWhile pflag pend = y # ys" using flags_last [OF f n] by (cases "dropWhile pflag pend") auto
  have tb: "snd (take_batch pend) = y # ys" "ps = map ppair (takeWhile pflag pend)" using x y e(1) by auto
  have av: "\<forall>i < length rems. rems ! i \<noteq> [] \<longrightarrow> i \<in> fst ` set pend"
    using pull_ids [of _ st c] t by (metis fst_conv pull_left(2) snd_conv)
  have gt: "0 < c (fst (hd (rems ! i))) (pkey y)" if i: "i < length rems" "i \<notin> fst ` set (y # ys)" "rems ! i \<noteq> []" for i
  proof -
    obtain z where z: "z \<in> set pend" "fst z = i" using av i by fastforce
    moreover have "set pend = set (takeWhile pflag pend) \<union> set (y # ys)"
      using arg_cong [OF takeWhile_dropWhile_id [of pflag pend], of set] y by simp
    ultimately have "z \<in> set (takeWhile pflag pend)" using i(2) by (auto simp del: set_simps)
    then have "c (pkey z) (pkey y) = 0" using flags_run [OF c f y] by blast
    moreover have "c (pkey z) (fst (hd (rems ! i))) < 0" using mt z i(3) by (auto simp: merging_def above_def)
    moreover have "c (pkey y) (pkey z) = 0" using comparator.cmp_eq_sym [OF c] calculation(1) by blast
    ultimately have "c (pkey y) (fst (hd (rems ! i))) < 0" using comparator.eq_lt [OF c] by blast
    then show ?thesis using comparator.cmp_swap [OF c] by blast
  qed
  obtain zs rems' where p: "pull c (y # ys, rems) = (y # zs, rems')" using pull_keeps_first [OF c refl] gt by blast
  have "\<not> pflag y" using y hd_dropWhile [of pflag pend] by simp
  then have "cs = Alone (ppair y) # batches c (zs, rems')" using e(2) tb(1) p by (simp add: batches.simps [of c "(y # ys, rems)"])
  with tb(2) flags_run [OF c f y] show ?case by auto
next
  case (Cons b bs)
  obtain pend rems where t: "pull c st = (pend, rems)" by (cases "pull c st")
  have n: "pend \<noteq> []" using Cons.prems(2) t by (auto simp: batches.simps [of c st])
  have e: "batches c (snd (take_batch pend), rems) = bs @ Equal ps # cs"
    using Cons.prems(2) t n by (simp add: batches.simps [of c st])
  have "merging c (pend, rems)" using merging_pull [OF c Cons.prems(1)] t by simp
  from Cons.IH [OF merging_take [OF this n] e] show ?case .
qed

text \<open>The pairs of a batch have equal keys, in whatever order the iterators read.\<close>

lemma flags_pull: "comparator c \<Longrightarrow> flags_ok c (fst st) \<Longrightarrow> flags_ok c (fst (pull c st))"
proof -
  assume c: "comparator c" and f: "flags_ok c (fst st)"
  have "flags_ok c (fst (fold (pull_one c) js st))" for js
    using f
  proof (induction js arbitrary: st)
    case (Cons k js)
    have "flags_ok c (fst (pull_one c k st))" using Cons.prems by (auto simp: pull_one_def intro: ins_flags [OF c] split: prod.splits)
    with Cons.IH show ?case by simp
  qed simp
  then show ?thesis by (simp add: pull_def)
qed

lemma batches_keys:
  assumes "comparator c" "flags_ok c (fst st)" "b \<in> set (batches c st)" "p \<in> set (batch_pairs b)" "q \<in> set (batch_pairs b)"
  shows "c (fst p) (fst q) = 0"
  using assms
proof (induction c st rule: batches.induct)
  case (1 c st)
  let ?t = "pull c st"
  have n: "fst ?t \<noteq> []" using 1(4) by (auto simp: batches.simps [of c st])
  have f: "flags_ok c (fst ?t)" by (rule flags_pull [OF 1(2,3)])
  consider "b = fst (take_batch (fst ?t))" | "b \<in> set (batches c (snd (take_batch (fst ?t)), snd ?t))"
    using 1(4) n by (auto simp: batches.simps [of c st] Let_def)
  then show ?case
  proof cases
    case 1
    with batch_equal [OF \<open>comparator c\<close> f n] \<open>p \<in> _\<close> \<open>q \<in> _\<close> show ?thesis by blast
  next
    case 2
    obtain us where "fst ?t = us @ snd (take_batch (fst ?t))" using take_batch_pending [OF n] by blast
    with f have "flags_ok c (snd (take_batch (fst ?t)))" by (metis flags_drop)
    with 1(1) [OF refl n 1(2) _ 2 1(5,6)] show ?thesis by simp
  qed
qed

text \<open>All that comes after a pair on its own has a greater key.\<close>

lemma alone_then_greater:
  assumes c: "comparator c" and m: "merging c st" and b: "batches c st = bs @ Alone p # cs"
    and q: "q \<in> set (concat (map batch_pairs cs))"
  shows "c (fst p) (fst q) < 0"
  using m b
proof (induction bs arbitrary: st)
  case Nil
  obtain pend rems where t: "pull c st = (pend, rems)" by (cases "pull c st")
  have n: "pend \<noteq> []" using Nil(2) t by (auto simp: batches.simps [of c st])
  have e: "fst (take_batch pend) = Alone p" "cs = batches c (snd (take_batch pend), rems)"
    using Nil(2) t n by (simp_all add: batches.simps [of c st])
  then obtain x xs where x: "pend = x # xs" "\<not> pflag x" "p = ppair x" "snd (take_batch pend) = xs"
    using n by (cases pend) (auto split: if_splits)
  have mt: "merging c (x # xs, rems)" using merging_pull [OF c Nil(1)] t x(1) by simp
  then have s: "\<forall>y \<in> set xs. c (pkey x) (pkey y) \<le> 0" "sorted_wrt (le_key c) (map ppair xs)" "flags_ok c (x # xs)"
    by (auto simp: merging_def le_key_def)
  have lt: "c (pkey x) (pkey y) < 0" if y: "y \<in> set xs" for y
  proof -
    obtain z zs where z: "xs = z # zs" using y by (cases xs) auto
    have "c (pkey x) (pkey z) < 0" using s(1,3) x(2) z by (simp add: less_le)
    moreover have "c (pkey z) (pkey y) \<le> 0" using y z s(2) comparator.cmp_refl [OF c] by (auto simp: le_key_def)
    ultimately show ?thesis by (rule comparator.lt_le_trans [OF c])
  qed
  have "q \<in># pairs_left (xs, rems)" using q e(2) x(4) batches_all [of c "(xs, rems)"] by (metis set_mset_mset)
  then consider y where "y \<in> set xs" "q = ppair y" | r where "r \<in> set rems" "q \<in> set r" by (auto simp: pairs_left_def)
  then show ?case
  proof cases
    case 1
    with lt x(3) show ?thesis by simp
  next
    case 2
    then obtain j where j: "j < length rems" "q \<in> set (rems ! j)" by (auto simp: in_set_conv_nth)
    have "rems ! j \<noteq> []" using j(2) by auto
    moreover have "j < length (snd st)" using j(1) t pull_left(2) [of c st] by simp
    ultimately have "j \<in> fst ` set pend" using pull_ids [of j st c] t by simp
    then obtain y where y: "y \<in> set (x # xs)" "fst y = j" unfolding x(1) by blast
    then have "c (pkey y) (fst q) < 0" using mt j(2) by (auto simp: merging_def above_def)
    moreover have "y = x \<or> c (pkey x) (pkey y) < 0" using y(1) lt [of y] by (cases "y = x") simp_all
    ultimately show ?thesis using comparator.lt_trans [OF c] x(3) by blast
  qed
next
  case (Cons b bs)
  obtain pend rems where t: "pull c st = (pend, rems)" by (cases "pull c st")
  have n: "pend \<noteq> []" using Cons.prems(2) t by (auto simp: batches.simps [of c st])
  have e: "batches c (snd (take_batch pend), rems) = bs @ Alone p # cs"
    using Cons.prems(2) t n by (simp add: batches.simps [of c st])
  have "merging c (pend, rems)" using merging_pull [OF c Cons.prems(1)] t by simp
  from Cons.IH [OF merging_take [OF this n] e] show ?case .
qed

text \<open>
  A key that several pairs have is in two batches: all of its pairs but one to merge, then
  that one on its own.
\<close>

lemma shared_key_batches:
  assumes c: "comparator c" and m: "merging c st" and k: "2 \<le> size {#q \<in># pairs_left st. c key (fst q) = 0#}"
  shows "\<exists>xs ps r ys. batches c st = xs @ Equal ps # Alone r # ys \<and> ps \<noteq> [] \<and>
    mset (ps @ [r]) = {#q \<in># pairs_left st. c key (fst q) = 0#} \<and>
    (\<forall>b \<in> set (xs @ ys). \<forall>q \<in> set (batch_pairs b). c key (fst q) \<noteq> 0)"
proof -
  let ?P = "\<lambda>q. c key (fst q) = 0" and ?L = "\<lambda>bs. concat (map batch_pairs bs)"
  have all: "mset (filter ?P (?L (batches c st))) = {#q \<in># pairs_left st. ?P q#}" by (simp add: batches_all mset_filter)
  then have len: "2 \<le> length (filter ?P (?L (batches c st)))" using k by (metis size_mset)
  then have "filter ?P (?L (batches c st)) \<noteq> []" by auto
  then have "\<exists>b \<in> set (batches c st). \<exists>q \<in> set (batch_pairs b). ?P q" unfolding filter_empty_conv by auto
  then obtain xs b cs where b: "batches c st = xs @ b # cs" "\<exists>q \<in> set (batch_pairs b). ?P q"
    "\<forall>x \<in> set xs. \<not> (\<exists>q \<in> set (batch_pairs x). ?P q)" by (rule split_list_first_propE)
  obtain q0 where q0: "q0 \<in> set (batch_pairs b)" "?P q0" using b(2) by blast
  have "flags_ok c (fst st)" using m by (simp add: merging_def)
  then have bk: "?P q" if "q \<in> set (batch_pairs b)" for q
    using batches_keys [OF c, of st b q0 q] q0 that b(1) comparator.eq_trans [OF c] by auto
  have fx: "filter ?P (?L xs) = []" using b(3) by (auto simp: filter_empty_conv)
  have above: "\<forall>q \<in> set (?L ds). \<not> ?P q" if "?P p" "batches c st = us @ Alone p # ds" for us p ds
    using alone_then_greater [OF c m that(2)] comparator.eq_lt [OF c that(1)] by fastforce
  show ?thesis
  proof (cases b)
    case (Alone p)
    have "filter ?P (?L cs) = []" using above [of p xs cs] bk b(1) Alone by (simp add: filter_empty_conv)
    with len fx b(1) Alone have False by (simp split: if_splits)
    then show ?thesis ..
  next
    case (Equal ps)
    obtain r ys where r: "cs = Alone r # ys" "\<forall>q \<in> set ps. c (fst q) (fst r) = 0"
      using equal_then_alone [OF c m] b(1) Equal by blast
    have pr: "?P r" using r(2) q0 Equal comparator.eq_trans [OF c] by auto
    have no: "\<forall>q \<in> set (?L ys). \<not> ?P q" by (rule above [OF pr, of "xs @ [b]"]) (simp add: b(1) r(1))
    then have "filter ?P (?L ys) = []" by (simp add: filter_empty_conv)
    moreover have "filter ?P ps = ps" using bk Equal by (simp add: filter_id_conv)
    ultimately have "filter ?P (?L (batches c st)) = ps @ [r]" using fx b(1) Equal r(1) pr by simp
    then have "mset (ps @ [r]) = {#q \<in># pairs_left st. ?P q#}" using all by simp
    moreover have "ps \<noteq> []" using q0 Equal by auto
    moreover have "\<forall>b \<in> set (xs @ ys). \<forall>q \<in> set (batch_pairs b). \<not> ?P q" using b(3) no by auto
    ultimately show ?thesis using b(1) Equal r(1) by blast
  qed
qed

text \<open>With no equal keys the order is that of the keys, and nothing is merged.\<close>

lemma sorted_unique:
  assumes c: "comparator c"
  shows "sorted_wrt (le_key c) xs \<Longrightarrow> ascending c (map fst ys) \<Longrightarrow> mset xs = mset ys \<Longrightarrow> xs = ys"
proof (induction ys arbitrary: xs)
  case (Cons y ys)
  obtain x zs where xs: "xs = x # zs" using Cons.prems(3) by (cases xs) auto
  have "x \<in> set (y # ys)" "y \<in> set (x # zs)" using Cons.prems(3) xs by (metis list.set_intros(1) set_mset_mset)+
  then have "x = y"
    using Cons.prems(1,2) xs comparator.cmp_swap [OF c, of "fst x" "fst y"] comparator.cmp_swap [OF c, of "fst y" "fst x"]
    by (force simp: le_key_def above_def)
  with Cons xs show ?case by auto
qed simp

lemma batches_nonempty: "b \<in> set (batches c st) \<Longrightarrow> batch_pairs b \<noteq> []"
proof (induction c st rule: batches.induct)
  case (1 c st)
  show ?case
  proof (cases "fst (pull c st) = []")
    case True
    with 1(2) show ?thesis by (simp add: batches.simps [of c st])
  next
    case False
    with 1 take_batch_left(2) [OF False] show ?thesis by (auto simp: batches.simps [of c st] Let_def)
  qed
qed

lemma batches_distinct:
  assumes c: "comparator c" and m: "merging c st" and q: "ascending c (map fst qs)" "mset qs = pairs_left st"
  shows "batches c st = map Alone qs"
proof -
  have flat: "concat (map batch_pairs (batches c st)) = qs"
    by (rule sorted_unique [OF c batches_sorted [OF c m] q(1)]) (simp add: batches_all q(2))
  have ne: "b \<noteq> Equal ps" if b: "b \<in> set (batches c st)" for b ps
  proof
    assume "b = Equal ps"
    then obtain bs cs where e: "batches c st = bs @ Equal ps # cs" using b by (metis split_list)
    obtain p ds where d: "cs = Alone p # ds" "\<forall>r \<in> set ps. c (fst r) (fst p) = 0"
      using equal_then_alone [OF c m e] by blast
    have "ps \<noteq> []" using batches_nonempty [OF b] \<open>b = Equal ps\<close> by simp
    then have "qs = concat (map batch_pairs bs) @ ps @ p # concat (map batch_pairs ds)" using flat e d(1) by simp
    with q(1) d(2) \<open>ps \<noteq> []\<close> show False by (cases ps) (auto simp: ascending_append above_def)
  qed
  have al: "\<exists>p. b = Alone p" if "b \<in> set (batches c st)" for b using ne [OF that] by (cases b) auto
  have "\<forall>b \<in> set bs. \<exists>p. b = Alone p \<Longrightarrow> map Alone (concat (map batch_pairs bs)) = bs" for bs
    by (induction bs) auto
  from this [of "batches c st"] al flat show ?thesis by simp
qed

text \<open>The first pair of all is the least of those the iterators start at, in either direction.\<close>

lemma pull_all:
  assumes "distinct js" "\<forall>j \<in> set js. j < length (snd st) \<and> j \<notin> fst ` set (fst st) \<and> snd st ! j \<noteq> []"
  shows "ppair ` set (fst (fold (pull_one c) js st)) = ppair ` set (fst st) \<union> (\<lambda>j. hd (snd st ! j)) ` set js"
  using assms
proof (induction js arbitrary: st)
  case (Cons k js)
  obtain pend rems where st: "st = (pend, rems)" by (cases st)
  let ?st = "(ins c k (hd (rems ! k)) pend, rems[k := tl (rems ! k)])"
  have e: "pull_one c k st = ?st" using Cons.prems(2) st by (simp add: pull_one_def)
  have "ppair ` set (fst (fold (pull_one c) js ?st)) = ppair ` set (fst ?st) \<union> (\<lambda>j. hd (snd ?st ! j)) ` set js"
    by (rule Cons.IH) (use Cons.prems st in \<open>auto simp: nth_list_update\<close>)
  moreover have "(\<lambda>j. hd (snd ?st ! j)) ` set js = (\<lambda>j. hd (rems ! j)) ` set js"
    by (rule image_cong) (use Cons.prems(1) in \<open>auto, metis nth_list_update_neq\<close>)
  ultimately show ?case using e st by (simp add: set_ins Un_left_commute)
qed simp

lemma first_least:
  assumes c: "comparator c" and n: "\<forall>r \<in> set rems. r \<noteq> []" "rems \<noteq> []"
  shows "\<exists>b bs p. batches c ([], rems) = b # bs \<and> p \<in> hd ` set rems \<and> (\<forall>q \<in> hd ` set rems. le_key c p q) \<and>
    hd (batch_pairs b) = p"
proof -
  let ?f = "fold (pull_one c) [0..<length rems] ([], rems)"
  have h: "ppair ` set (fst ?f) = hd ` set rems"
  proof -
    have "set rems = (\<lambda>j. rems ! j) ` set [0..<length rems]" by (metis list.set_map map_nth)
    then have "hd ` set rems = (\<lambda>j. hd (rems ! j)) ` set [0..<length rems]" by (simp only: image_image)
    then show ?thesis using pull_all [of "[0..<length rems]" "([], rems)" c] n(1) by simp
  qed
  have s: "sorted_wrt (le_key c) (map ppair (fst (fold (pull_one c) js st)))"
    if "sorted_wrt (le_key c) (map ppair (fst st))" for js st
  proof -
    have "sorted_wrt (le_key c) (map ppair (fst (pull_one c k t)))" if "sorted_wrt (le_key c) (map ppair (fst t))" for k t
      using that ins_sorted [OF c] by (cases t) (simp add: pull_one_def)
    with that show ?thesis by (induction js arbitrary: st) simp_all
  qed
  have f: "pull c ([], rems) = ?f" by (simp add: pull_def)
  obtain x xs where x: "fst ?f = x # xs" using h n(2) by (cases "fst ?f") auto
  have "sorted_wrt (le_key c) (map ppair (x # xs))" using s [of "([], rems)" "[0..<length rems]"] x by simp
  then have "\<forall>q \<in> ppair ` set (x # xs). le_key c (ppair x) q"
    using comparator.cmp_refl [OF c] by (auto simp: le_key_def)
  moreover have "hd (batch_pairs (fst (take_batch (x # xs)))) = ppair x" by simp
  moreover have "batches c ([], rems) = fst (take_batch (x # xs)) # batches c (snd (take_batch (x # xs)), snd ?f)"
    using f x batches.simps [of c "([], rems)"] by (simp del: take_batch.simps)
  moreover have "ppair ` set (x # xs) = hd ` set rems" using h x by simp
  ultimately show ?thesis by (metis imageI list.set_intros(1))
qed

lemma first_batch_least:
  assumes c: "comparator c" and n: "\<forall>r \<in> set rems. r \<noteq> []" "rems \<noteq> []"
  shows "\<exists>b bs. batches c ([], rems) = b # bs \<and> batch_pairs b \<noteq> [] \<and>
    (\<forall>p \<in> set (batch_pairs b). \<forall>q \<in> hd ` set rems. le_key c p q)"
proof -
  obtain b bs p where b: "batches c ([], rems) = b # bs" "\<forall>q \<in> hd ` set rems. le_key c p q" "hd (batch_pairs b) = p"
    using first_least [OF c n] by blast
  have ne: "batch_pairs b \<noteq> []" using batches_nonempty [of b c "([], rems)"] b(1) by simp
  then have "p \<in> set (batch_pairs b)" using b(3) by auto
  then have eq: "c (fst r) (fst p) = 0" if "r \<in> set (batch_pairs b)" for r
    using batches_keys [OF c, of "([], rems)" b r p] that b(1) by simp
  have "le_key c r q" if r: "r \<in> set (batch_pairs b)" and q: "q \<in> hd ` set rems" for r q
  proof -
    have "c (fst p) (fst q) \<le> 0" using b(2) q unfolding le_key_def by blast
    with eq [OF r] comparator.cmp_trans [OF c, of "fst r" "fst p" "fst q"] show ?thesis by (simp add: le_key_def)
  qed
  with b(1) ne show ?thesis by blast
qed

text \<open>A pair with a key greater than those of the first call is in a later one.\<close>

lemma greater_batch_later:
  assumes c: "comparator c" and b: "batches c ([], rems) = b # bs" and q: "q \<in># pairs_left ([], rems)"
    and lt: "\<forall>p \<in> set (batch_pairs b). c (fst p) (fst q) < 0"
  shows "\<exists>xs b' ys. bs = xs @ b' # ys \<and> batch_pairs b' \<noteq> [] \<and>
    (\<forall>p \<in> set (batch_pairs b). \<forall>r \<in> set (batch_pairs b'). c (fst p) (fst r) < 0)"
proof -
  have "q \<in> set (concat (map batch_pairs (b # bs)))" using q batches_all [of c "([], rems)"] b by (metis set_mset_mset)
  moreover have "q \<notin> set (batch_pairs b)" using lt comparator.cmp_refl [OF c] by fastforce
  ultimately obtain b' where b': "b' \<in> set bs" "q \<in> set (batch_pairs b')" by auto
  then obtain xs ys where "bs = xs @ b' # ys" by (meson split_list)
  moreover have "c (fst p) (fst r) < 0" if "p \<in> set (batch_pairs b)" "r \<in> set (batch_pairs b')" for p r
  proof -
    have "c (fst q) (fst r) = 0" using batches_keys [OF c, of "([], rems)" b' q r] b b' that(2) by simp
    moreover have "c (fst p) (fst q) < 0" using lt that(1) by blast
    ultimately show ?thesis using comparator.lt_le_trans [OF c] by (metis order_refl)
  qed
  ultimately show ?thesis using b'(2) by (metis empty_iff empty_set)
qed

end
