(* ===== verification/Fold_Ids.thy ===== *)
theory Fold_Ids
  imports Merge
begin

text \<open>
  The array of available ids of a fold (\<^verbatim>\<open>insert_pair\<close>, \<^verbatim>\<open>call_with_next\<close>): it implements the
  list of pending pairs of the merge, within its bounds.
\<close>

section \<open>The array implements the pending pairs\<close>

definition available_as :: "iter_state \<Rightarrow> nat \<times> (voidp \<times> voidp) \<times> bool \<Rightarrow> bool" where
  "available_as s x \<longleftrightarrow> is_pair s = ppair x \<and> is_state s = (if pflag x then PS_AVAILABLE_EQ else PS_AVAILABLE_LT)"

definition queue :: "'u skiparray_fold_state \<Rightarrow> pending \<Rightarrow> bool" where
  "queue fs pend \<longleftrightarrow>
     ids_available fs = length pend \<and> ids_offset fs + length pend \<le> iter_count fs \<and>
     length (ids_current fs) = iter_count fs \<and> length (iter_states fs) = iter_count fs \<and> iter_count fs < 256 \<and>
     take (length pend) (drop (ids_offset fs) (ids_current fs)) = map fst pend \<and> distinct (map fst pend) \<and>
     (\<forall>x \<in> set pend. fst x < iter_count fs \<and> available_as (iter_states fs ! fst x) x) \<and>
     (\<forall>i < iter_count fs. i \<notin> fst ` set pend \<longrightarrow> is_state (iter_states fs ! i) = PS_NONE)"

lemma queueD:
  assumes "queue fs pend"
  shows "ids_available fs = length pend" "ids_offset fs + length pend \<le> iter_count fs"
    "length (ids_current fs) = iter_count fs" "length (iter_states fs) = iter_count fs" "iter_count fs < 256"
    "take (length pend) (drop (ids_offset fs) (ids_current fs)) = map fst pend" "distinct (map fst pend)"
    "\<And>x. x \<in> set pend \<Longrightarrow> fst x < iter_count fs \<and> available_as (iter_states fs ! fst x) x"
    "\<And>i. i < iter_count fs \<Longrightarrow> i \<notin> fst ` set pend \<Longrightarrow> is_state (iter_states fs ! i) = PS_NONE"
  using assms unfolding queue_def by blast+

lemma queue_id:
  assumes q: "queue fs pend" and j: "j < length pend"
  shows "ids_current fs ! (ids_offset fs + j) = fst (pend ! j)" "ids_offset fs + j < length (ids_current fs)"
proof -
  have "take (length pend) (drop (ids_offset fs) (ids_current fs)) ! j = fst (pend ! j)" using queueD(6) [OF q] j by simp
  then show "ids_current fs ! (ids_offset fs + j) = fst (pend ! j)" using j queueD(2,3) [OF q] by simp
  show "ids_offset fs + j < length (ids_current fs)" using j queueD(2,3) [OF q] by simp
qed

lemma queue_entry:
  assumes q: "queue fs pend" and j: "j < length pend"
  shows "rd (ids_current fs) (ids_offset fs + j) = Some (fst (pend ! j))" "fst (pend ! j) < length (iter_states fs)"
    "rd (iter_states fs) (fst (pend ! j)) = Some (iter_states fs ! fst (pend ! j))"
    "is_pair (iter_states fs ! fst (pend ! j)) = ppair (pend ! j)"
    "is_state (iter_states fs ! fst (pend ! j)) = (if pflag (pend ! j) then PS_AVAILABLE_EQ else PS_AVAILABLE_LT)"
  using queue_id [OF q j] queueD(4) [OF q] queueD(8) [OF q, of "pend ! j"] j by (simp_all add: available_as_def)

text \<open>What the operations on the array leave alone.\<close>

definition same_fold :: "'u skiparray_fold_state \<Rightarrow> 'u skiparray_fold_state \<Rightarrow> bool" where
  "same_fold fs fs' \<longleftrightarrow>
     fs_self fs' = fs_self fs \<and> fs_type fs' = fs_type fs \<and> fs_use_values fs' = fs_use_values fs \<and>
     cb_fold fs' = cb_fold fs \<and> cb_cmp fs' = cb_cmp fs \<and> cb_free fs' = cb_free fs \<and> cb_merge fs' = cb_merge fs \<and>
     fs_sa0 fs' = fs_sa0 fs \<and> ids_block fs' = ids_block fs \<and> iter_count fs' = iter_count fs"

lemma same_fold_refl [simp]: "same_fold fs fs"
  by (simp add: same_fold_def)

lemma same_fold_trans: "same_fold fs fs' \<Longrightarrow> same_fold fs' fs'' \<Longrightarrow> same_fold fs fs''"
  by (simp add: same_fold_def)

definition same_hands :: "'u skiparray_fold_state \<Rightarrow> 'u skiparray_fold_state \<Rightarrow> bool" where
  "same_hands fs fs' \<longleftrightarrow> same_fold fs fs' \<and> iter_live fs' = iter_live fs \<and>
     map is_iter (iter_states fs') = map is_iter (iter_states fs) \<and>
     map is_pair (iter_states fs') = map is_pair (iter_states fs)"

lemma map_state_upd:
  "i < length its \<Longrightarrow> map is_iter (its[i := (its ! i)\<lparr>is_state := s\<rparr>]) = map is_iter its"
  "i < length its \<Longrightarrow> map is_pair (its[i := (its ! i)\<lparr>is_state := s\<rparr>]) = map is_pair its"
  by (simp_all add: map_update list_update_same_conv)

section \<open>Inserting\<close>

abbreviation rank :: "cmp_fun \<Rightarrow> voidp \<Rightarrow> pending \<Rightarrow> nat" where
  "rank c key pend \<equiv> length (takeWhile (\<lambda>x. \<not> c key (pkey x) \<le> 0) pend)"

lemma ins_at:
  "ins c i p xs = take (rank c (fst p) xs) xs @
     (i, p, rank c (fst p) xs < length xs \<and> c (fst p) (pkey (xs ! rank c (fst p) xs)) = 0) # drop (rank c (fst p) xs) xs"
  by (induction xs) auto

lemma insert_scan:
  assumes q: "queue fs pend" and o: "ids_offset fs = 0"
  shows "loop_c (insert_step fs key) 0 =
    Some (let k = rank (snd (cb_cmp fs)) key pend
          in if k < length pend then Some (k, snd (cb_cmp fs) key (pkey (pend ! k))) else None)"
proof -
  let ?c = "snd (cb_cmp fs)" let ?k = "rank ?c key pend"
  have before: "\<not> ?c key (pkey (pend ! j)) \<le> 0" if "j < ?k" for j
    using that by (metis nth_mem set_takeWhileD takeWhile_nth)
  have "\<exists>r. loop_c (insert_step fs key) 0 = Some r \<and>
      r = (if ?k < length pend then Some (?k, ?c key (pkey (pend ! ?k))) else None)"
  proof (rule loop_c_rule [where I = "\<lambda>j. j \<le> ?k" and V = "\<lambda>j. ?k - j"])
    fix j assume j: "j \<le> ?k"
    have kl: "?k \<le> length pend" by (rule length_takeWhile_le)
    show "(\<exists>j'. insert_step fs key j = Some (Inl j') \<and> j' \<le> ?k \<and> ?k - j' < ?k - j) \<or>
      (\<exists>r. insert_step fs key j = Some (Inr r) \<and>
        r = (if ?k < length pend then Some (?k, ?c key (pkey (pend ! ?k))) else None))"
    proof (cases "j < ?k")
      case True
      then show ?thesis
        using before [OF True] queue_entry [OF q, of j] kl o queueD(1) [OF q] by (simp add: insert_step_def)
    next
      case False
      with j have e: "j = ?k" by simp
      show ?thesis
      proof (cases "?k < length pend")
        case True
        then have "?c key (pkey (pend ! ?k)) \<le> 0" by (metis (no_types, lifting) nth_length_takeWhile)
        then show ?thesis using True e queue_entry [OF q, of j] o queueD(1) [OF q] by (simp add: insert_step_def)
      next
        case False
        then show ?thesis using e kl queueD(1) [OF q] by (simp add: insert_step_def)
      qed
    qed
  qed simp
  then show ?thesis by (simp add: Let_def)
qed

text \<open>Moving the ids to the front of the array.\<close>

lemma queue_front:
  assumes q: "queue fs pend"
  shows "\<exists>ids. (if 0 < ids_offset fs then Option.bind (memmove_c (ids_current fs) 0 (ids_offset fs) (ids_available fs))
        (\<lambda>ids. Some (fs\<lparr>ids_current := ids, ids_offset := 0\<rparr>)) else Some fs) =
      Some (fs\<lparr>ids_current := ids, ids_offset := 0\<rparr>) \<and> queue (fs\<lparr>ids_current := ids, ids_offset := 0\<rparr>) pend"
proof (cases "0 < ids_offset fs")
  case True
  let ?ids = "moved (ids_current fs) 0 (ids_offset fs) (length pend)"
  have m: "memmove_c (ids_current fs) 0 (ids_offset fs) (ids_available fs) = Some ?ids"
    using queueD(1-3) [OF q] by simp
  have "take (length pend) ?ids = map fst pend" using queueD(2,3,6) [OF q] by (simp add: moved_def)
  then have "queue (fs\<lparr>ids_current := ?ids, ids_offset := 0\<rparr>) pend"
    using q queueD(2,3) [OF q] unfolding queue_def by simp
  with True m show ?thesis by (intro exI [of _ ?ids]) simp
next
  case False
  then have "fs\<lparr>ids_current := ids_current fs, ids_offset := 0\<rparr> = fs" by (cases fs) simp
  with False q show ?thesis by (intro exI [of _ "ids_current fs"]) (simp only: if_False simp_thms)
qed

text \<open>Opening a gap in an array and filling it.\<close>

lemma moved_gap:
  assumes "k \<le> n" "n < length xs"
  shows "take (Suc n) ((moved xs (k + 1) k (n - k))[k := x]) = take k xs @ x # take (n - k) (drop k xs)"
proof -
  have "(moved xs (k + 1) k (n - k))[k := x] =
      (take k xs @ [x]) @ take (n - k) (drop k xs) @ drop (k + 1 + (n - k)) xs"
    using assms by (simp add: moved_def list_update_append take_Suc_conv_app_nth)
  moreover have "length (take k xs @ [x]) = k + 1" "length (take (n - k) (drop k xs)) = n - k" using assms by simp_all
  moreover have "Suc n - k = Suc (n - k)" using assms(1) by (rule Suc_diff_le)
  ultimately show ?thesis using assms by (simp add: take_append)
qed

lemma insert_pair_correct:
  assumes q: "queue fs pend" and i: "i < iter_count fs" "i \<notin> fst ` set pend"
  shows "\<exists>fs'. insert_pair fs i = Some fs' \<and> same_hands fs fs' \<and>
    queue fs' (ins (snd (cb_cmp fs)) i (is_pair (iter_states fs ! i)) pend) \<and>
    is_state (iter_states fs' ! i) \<noteq> PS_NONE"
proof -
  let ?c = "snd (cb_cmp fs)" let ?s = "iter_states fs ! i" let ?p = "is_pair ?s"
  let ?k = "rank ?c (fst ?p) pend" let ?n = "length pend"
  obtain ids where f: "(if 0 < ids_offset fs then Option.bind (memmove_c (ids_current fs) 0 (ids_offset fs) (ids_available fs))
        (\<lambda>ids. Some (fs\<lparr>ids_current := ids, ids_offset := 0\<rparr>)) else Some fs) = Some (fs\<lparr>ids_current := ids, ids_offset := 0\<rparr>)"
    and q1: "queue (fs\<lparr>ids_current := ids, ids_offset := 0\<rparr>) pend" using queue_front [OF q] by blast
  have kl: "?k \<le> ?n" by (rule length_takeWhile_le)
  have len: "length ids = iter_count fs" "length (iter_states fs) = iter_count fs" "iter_count fs < 256"
    and ids: "take ?n ids = map fst pend" using queueD(3-6) [OF q1] by simp_all
  have room: "?n < iter_count fs"
  proof -
    have "insert i (fst ` set pend) \<subseteq> {..< iter_count fs}" using queueD(8) [OF q] i(1) by auto
    then have "card (insert i (fst ` set pend)) \<le> iter_count fs" by (metis card_lessThan card_mono finite_lessThan)
    moreover have "card (fst ` set pend) = ?n" using queueD(7) [OF q] by (metis distinct_card length_map set_map)
    ultimately show ?thesis using i(2) by simp
  qed
  define eq where "eq \<longleftrightarrow> ?k < ?n \<and> ?c (fst ?p) (pkey (pend ! ?k)) = 0"
  define ids' where "ids' = (moved ids (?k + 1) ?k (?n - ?k))[?k := i]"
  define fs' where "fs' = fs\<lparr>ids_current := ids', ids_offset := 0, ids_available := Suc ?n,
    iter_states := (iter_states fs)[i := ?s\<lparr>is_state := if eq then PS_AVAILABLE_EQ else PS_AVAILABLE_LT\<rparr>]\<rparr>"
  have last: "moved ids (?n + 1) ?n 0 = ids" by (simp add: moved_def)
  have "insert_pair fs i = Some fs'"
  proof (cases "?k < ?n")
    case True
    then show ?thesis
      using f insert_scan [OF q1, of "fst ?p"] i len room kl queueD(1) [OF q1]
      by (simp add: insert_pair_def set_entry_def fs'_def ids'_def eq_def Let_def)
  next
    case False
    then have "?k = ?n" using kl by simp
    then show ?thesis
      using f insert_scan [OF q1, of "fst ?p"] i len room queueD(1) [OF q1] last
      by (simp add: insert_pair_def set_entry_def fs'_def ids'_def eq_def Let_def)
  qed
  moreover have "same_hands fs fs'"
    using i(1) len(2) by (simp add: same_hands_def same_fold_def fs'_def map_state_upd)
  moreover have "queue fs' (ins ?c i ?p pend)"
  proof -
    have "take (Suc ?n) ids' = take ?k ids @ i # take (?n - ?k) (drop ?k ids)"
      unfolding ids'_def using moved_gap [OF kl, of ids i] room len(1) by simp
    also have "\<dots> = map fst (take ?k pend) @ i # map fst (drop ?k pend)"
    proof -
      have "take ?k ids = take ?k (take ?n ids)" "take (?n - ?k) (drop ?k ids) = drop ?k (take ?n ids)"
        using kl by (simp_all add: drop_take)
      then show ?thesis by (simp add: ids take_map drop_map)
    qed
    finally have t: "take (Suc ?n) ids' = map fst (ins ?c i ?p pend)" by (subst ins_at) simp
    have set: "set (ins ?c i ?p pend) = insert (i, ?p, eq) (set pend)"
      by (subst ins_at) (simp add: eq_def, metis append_take_drop_id set_append Un_insert_right)
    have "distinct (map fst (ins ?c i ?p pend))"
    proof -
      have "mset (map fst (ins ?c i ?p pend)) = mset (i # map fst pend)" by (induction pend) auto
      then have "distinct (map fst (ins ?c i ?p pend)) = distinct (i # map fst pend)" by (rule mset_eq_imp_distinct_iff)
      then show ?thesis using i(2) queueD(7) [OF q] by simp
    qed
    moreover have "fst x < iter_count fs \<and> available_as (iter_states fs' ! fst x) x" if "x \<in> set (ins ?c i ?p pend)" for x
      using that queueD(8) [OF q, of x] i len(2) unfolding set by (auto simp: fs'_def available_as_def nth_list_update)
    moreover have "is_state (iter_states fs' ! j) = PS_NONE" if "j < iter_count fs" "j \<notin> fst ` set (ins ?c i ?p pend)" for j
      using that queueD(9) [OF q, of j] unfolding set by (simp add: fs'_def)
    moreover have "length (ins ?c i ?p pend) = Suc ?n" by (subst ins_at) (use kl in simp)
    ultimately show ?thesis using t room len unfolding queue_def
      by (simp add: fs'_def ids'_def kl)
  qed
  ultimately show ?thesis using i(1) len(2) by (intro exI [of _ fs']) (simp add: fs'_def)
qed

section \<open>Using pairs up\<close>

definition release :: "nat list \<Rightarrow> iter_state list \<Rightarrow> iter_state list" where
  "release ids its = fold (\<lambda>i its. its[i := (its ! i)\<lparr>is_state := PS_NONE\<rparr>]) ids its"

lemma release_Nil [simp]: "release [] its = its"
  by (simp add: release_def)

lemma release_snoc: "release (ids @ [i]) its = (release ids its)[i := (release ids its ! i)\<lparr>is_state := PS_NONE\<rparr>]"
  by (simp add: release_def)

lemma release_props:
  assumes "\<forall>i \<in> set ids. i < length its"
  shows "length (release ids its) = length its \<and> map is_iter (release ids its) = map is_iter its \<and>
    map is_pair (release ids its) = map is_pair its \<and>
    (\<forall>j < length its. is_state (release ids its ! j) = (if j \<in> set ids then PS_NONE else is_state (its ! j)))"
  using assms
proof (induction ids rule: rev_induct)
  case (snoc i ids)
  then show ?case by (auto simp: release_snoc map_state_upd nth_list_update)
qed simp

lemma queue_release:
  assumes q: "queue fs (us @ vs)"
  defines "fs' \<equiv> fs\<lparr>ids_available := ids_available fs - length us, ids_offset := u8 (ids_offset fs + length us),
    iter_states := release (map fst us) (iter_states fs)\<rparr>"
  shows "queue fs' vs" "same_hands fs fs'"
proof -
  have ids: "\<forall>i \<in> set (map fst us). i < length (iter_states fs)" using queueD(4,8) [OF q] by auto
  note r = release_props [OF ids]
  have o: "u8 (ids_offset fs + length us) = ids_offset fs + length us" using queueD(2,5) [OF q] by simp
  have d: "distinct (map fst us @ map fst vs)" using queueD(7) [OF q] by simp
  have "drop (length us) (take (length (us @ vs)) (drop (ids_offset fs) (ids_current fs))) = map fst vs"
    using queueD(6) [OF q] by simp
  then have t: "take (length vs) (drop (ids_offset fs + length us) (ids_current fs)) = map fst vs"
    by (simp add: drop_take add.commute)
  have "is_pair (release (map fst us) (iter_states fs) ! i) = is_pair (iter_states fs ! i)" if "i < length (iter_states fs)" for i
    using r that by (metis nth_map)
  moreover have "fst x \<notin> fst ` set us" if "x \<in> set vs" for x using d that by auto
  ultimately have "fst x < iter_count fs \<and> available_as (release (map fst us) (iter_states fs) ! fst x) x" if "x \<in> set vs" for x
    using queueD(8) [OF q, of x] r that queueD(4) [OF q] by (simp add: available_as_def)
  moreover have "is_state (release (map fst us) (iter_states fs) ! i) = PS_NONE" if "i < iter_count fs" "i \<notin> fst ` set vs" for i
    using queueD(9) [OF q, of i] r that queueD(4) [OF q] by (auto simp: image_Un)
  ultimately show "queue fs' vs" using queueD(1-5) [OF q] d t o r unfolding queue_def fs'_def by auto
  show "same_hands fs fs'" using r by (simp add: same_hands_def same_fold_def fs'_def)
qed

lemma used_loop:
  assumes q: "queue fs (us @ vs)"
  shows "for_c (used_step fs (ids_offset fs)) [0..<length us] (iter_states fs) = Some (release (map fst us) (iter_states fs))"
proof -
  have ids: "\<forall>i \<in> set (map fst (take j us)). i < length (iter_states fs)" for j
  proof -
    have "\<forall>x \<in> set us. fst x < length (iter_states fs)" using queueD(4,8) [OF q] by auto
    then show ?thesis by (auto dest!: in_set_takeD)
  qed
  have "\<exists>its. for_c (used_step fs (ids_offset fs)) [0..<length us] (iter_states fs) = Some its \<and>
      its = release (map fst (take (length us) us)) (iter_states fs)"
  proof (rule for_c_upt [where I = "\<lambda>j its. its = release (map fst (take j us)) (iter_states fs)"])
    fix j its assume its: "its = release (map fst (take j us)) (iter_states fs)" and j: "j < length us"
    then have j': "j < length (us @ vs)" "(us @ vs) ! j = us ! j" by (simp_all add: nth_append)
    have "length its = length (iter_states fs)" using release_props [OF ids] its by simp
    then have "used_step fs (ids_offset fs) j its = Some (its[fst (us ! j) := (its ! fst (us ! j))\<lparr>is_state := PS_NONE\<rparr>])"
      using queue_entry(1,2) [OF q j'(1)] j'(2) by (simp add: used_step_def add.commute)
    then show "\<exists>s'. used_step fs (ids_offset fs) j its = Some s' \<and> s' = release (map fst (take (Suc j) us)) (iter_states fs)"
      using its j by (simp add: take_Suc_conv_app_nth release_snoc)
  qed simp_all
  then show ?thesis by simp
qed

lemma collect_loop:
  assumes q: "queue fs pend"
  defines "us \<equiv> takeWhile pflag pend"
  shows "loop_c (collect_step fs (ids_offset fs) (iter_count fs)) (0, [], []) =
    Some (map pkey us, map (\<lambda>x. if fs_use_values fs then snd (ppair x) else 0) us)"
proof -
  let ?R = "\<lambda>j ks vs. ks = map pkey (take j us) \<and> vs = map (\<lambda>x. if fs_use_values fs then snd (ppair x) else 0) (take j us)"
  have ul: "length us \<le> length pend" by (simp add: us_def length_takeWhile_le)
  have "\<exists>r. loop_c (collect_step fs (ids_offset fs) (iter_count fs)) (0, [], []) = Some r \<and> ?R (length us) (fst r) (snd r)"
  proof (rule loop_c_rule [where I = "\<lambda>(j, ks, vs). j \<le> length us \<and> ?R j ks vs" and V = "\<lambda>(j, ks, vs). length us - j"])
    fix t assume "case t of (j, ks, vs) \<Rightarrow> j \<le> length us \<and> ?R j ks vs"
    then obtain j ks vs where t: "t = (j, ks, vs)" "j \<le> length us" "?R j ks vs" by (cases t) auto
    show "(\<exists>t'. collect_step fs (ids_offset fs) (iter_count fs) t = Some (Inl t') \<and>
        (case t' of (j, ks, vs) \<Rightarrow> j \<le> length us \<and> ?R j ks vs) \<and>
        (case t' of (j, ks, vs) \<Rightarrow> length us - j) < (case t of (j, ks, vs) \<Rightarrow> length us - j)) \<or>
      (\<exists>r. collect_step fs (ids_offset fs) (iter_count fs) t = Some (Inr r) \<and> ?R (length us) (fst r) (snd r))"
    proof (cases "j < length us")
      case True
      then have j: "j < length pend" "pend ! j = us ! j" "pflag (us ! j)"
        using ul nth_mem [OF True] by (auto simp: us_def takeWhile_nth dest: set_takeWhileD)
      have "length ks < iter_count fs" using t True ul queueD(2) [OF q] by simp
      then show ?thesis
        using t True j queue_entry [OF q j(1)] queueD(1) [OF q]
        by (simp add: collect_step_def add.commute take_Suc_conv_app_nth)
    next
      case False
      with t(2) have e: "j = length us" by simp
      show ?thesis
      proof (cases "j < length pend")
        case True
        then have "\<not> pflag (pend ! j)" unfolding e us_def by (rule nth_length_takeWhile)
        then show ?thesis using t e True queue_entry [OF q True] queueD(1) [OF q]
          by (simp add: collect_step_def add.commute)
      next
        case False
        then show ?thesis using t e queueD(1) [OF q] by (simp add: collect_step_def)
      qed
    qed
  qed simp
  then show ?thesis by auto
qed

lemma call_with_next_correct:
  assumes q: "queue fs pend" and n: "pend \<noteq> []"
  shows "\<exists>fs'. call_with_next fs (iter_count fs) u =
      map_option (Pair fs') (deliver (cb_fold fs) (cb_merge fs) (fs_use_values fs) (fst (take_batch pend)) u) \<and>
    same_hands fs fs' \<and> queue fs' (snd (take_batch pend))"
proof -
  obtain x xs where p: "pend = x # xs" using n by (cases pend) auto
  have e: "rd (ids_current fs) (ids_offset fs) = Some (fst x)" "rd (iter_states fs) (fst x) = Some (iter_states fs ! fst x)"
    "is_pair (iter_states fs ! fst x) = ppair x" "fst x < length (iter_states fs)"
    "is_state (iter_states fs ! fst x) = (if pflag x then PS_AVAILABLE_EQ else PS_AVAILABLE_LT)"
    "0 < ids_available fs" using queue_entry [OF q, of 0] p queueD(1) [OF q] by simp_all
  show ?thesis
  proof (cases "pflag x")
    case False
    have q': "queue fs ([x] @ xs)" using q p by simp
    let ?fs = "fs\<lparr>ids_available := ids_available fs - 1, ids_offset := u8 (ids_offset fs + 1),
      iter_states := release [fst x] (iter_states fs)\<rparr>"
    have "call_with_next fs (iter_count fs) u = map_option (Pair ?fs) (cb_fold fs (pkey x) (snd (ppair x)) u)"
      using e False by (cases "cb_fold fs (pkey x) (snd (ppair x)) u") (simp_all add: call_with_next_def set_entry_def release_def)
    with queue_release [OF q'] False p show ?thesis by (intro exI [of _ ?fs]) (simp add: deliver_def)
  next
    case True
    let ?us = "takeWhile pflag pend"
    have q': "queue fs (?us @ dropWhile pflag pend)" using q by simp
    have ne: "0 < length ?us" using p True by simp
    let ?fs = "fs\<lparr>ids_available := ids_available fs - length ?us, ids_offset := u8 (ids_offset fs + length ?us),
      iter_states := release (map fst ?us) (iter_states fs)\<rparr>"
    have c: "loop_c (collect_step fs (ids_offset fs) (iter_count fs)) (0, [], []) =
        Some (map pkey ?us, map (\<lambda>x. if fs_use_values fs then snd (ppair x) else 0) ?us)" by (rule collect_loop [OF q])
    have tb: "take_batch pend = (Equal (map ppair ?us), dropWhile pflag pend)" using p True by simp
    have "call_with_next fs (iter_count fs) u =
        map_option (Pair ?fs) (deliver (cb_fold fs) (cb_merge fs) (fs_use_values fs) (fst (take_batch pend)) u)"
      using e True c used_loop [OF q'] ne unfolding tb
      by (auto simp: call_with_next_def deliver_def comp_def bind_eq_Some_conv c_eval Let_def map_conv_bind_option split: Option.bind_splits option.splits)
    with queue_release [OF q'] tb show ?thesis by (intro exI [of _ ?fs]) simp
  qed
qed
end
