(* ===== verification/Fold_Hands.thy ===== *)
theory Fold_Hands
  imports Fold_Ids
begin

text \<open>
  The iterators a fold holds on its skiparrays: opening them, moving one, closing them; and
  that the skiparrays, with whatever other iterators they have, are otherwise left alone.
\<close>

section \<open>Views of a world\<close>

record view =
  vw_pairs :: bindings
  vw_iters :: "addr list"
  vw_foreign :: "addr set"
  vw_pos :: "addr \<Rightarrow> nat"

abbreviation view_of :: "skiparray \<Rightarrow> view \<Rightarrow> bool" where
  "view_of sa v \<equiv> iter_view sa (vw_pairs v) (vw_iters v) (vw_foreign v) (vw_pos v)"

definition viewed :: "world \<Rightarrow> view list \<Rightarrow> bool" where
  "viewed W V \<longleftrightarrow> list_all2 view_of W V"

lemma viewedD:
  assumes "viewed W V"
  shows "length W = length V" "\<And>k. k < length V \<Longrightarrow> view_of (W ! k) (V ! k)"
    "\<And>k. k < length V \<Longrightarrow> rd W k = Some (W ! k)"
  using assms by (auto simp: viewed_def list_all2_conv_all_nth)

lemma viewed_upd: "viewed W V \<Longrightarrow> view_of sa v \<Longrightarrow> viewed (W[k := sa]) (V[k := v])"
  unfolding viewed_def by (rule list_all2_update_cong)

lemma list_all2_upd_left:
  assumes "list_all2 P xs ys" "k < length ys" "P (xs ! k) y"
  shows "list_all2 P xs (ys[k := y])"
  using list_all2_update_cong [OF assms(1), of "xs ! k" y k] assms(3) by simp

abbreviation same_world :: "world \<Rightarrow> world \<Rightarrow> bool" where
  "same_world \<equiv> list_all2 same_but_iters"

lemma same_world_refl [simp]: "same_world W W"
  by (simp add: list_all2_refl)

lemma same_world_trans: "same_world W W' \<Longrightarrow> same_world W' W'' \<Longrightarrow> same_world W W''"
  by (rule list_all2_trans [OF same_but_iters_trans])

lemma same_world_upd: "k < length W \<Longrightarrow> same_but_iters (W ! k) sa \<Longrightarrow> same_world W (W[k := sa])"
  by (rule list_all2_upd_left) simp_all

text \<open>Values that are ignored read as NULL.\<close>

lemma node_pairs_null:
  assumes "node_ok ns False n" "p \<in> set (node_pairs n)"
  shows "snd p = 0"
proof -
  have "snd p \<in> set (node_vals n)" using assms(2) unfolding node_pairs_def by (metis prod.collapse set_zip_rightD)
  then show ?thesis using assms(1) by (simp add: node_vals_def node_ok_def)
qed

lemma represents_null:
  assumes r: "represents sa ps its F" and u: "\<not> use_values sa" and p: "p \<in> set ps"
  shows "snd p = 0"
proof -
  obtain ns where w: "wf sa ns its" and ps: "pairs_of (heap sa) ns = ps" using r by (rule representsE)
  obtain a where a: "a \<in> set ns" "p \<in> set (pairs_at (heap sa) a)" using p ps by (auto simp: pairs_of_def)
  obtain n where "heap sa a = Some n" "node_ok (node_size sa) False n"
    using shape_node [OF wfD(2) [OF w] a(1)] u by auto
  with a(2) node_pairs_null show ?thesis by (simp add: at_Some)
qed

section \<open>The iterators of a fold\<close>

text \<open>
  \<open>hand ty V k o r\<close>: \<open>o\<close> is an open iterator on skiparray \<open>k\<close> that has \<open>r\<close> left to
  read, or NULL with nothing left.
\<close>

definition hand :: "skiparray_fold_type \<Rightarrow> view list \<Rightarrow> nat \<Rightarrow> (nat \<times> addr) option \<Rightarrow> bindings \<Rightarrow> bool" where
  "hand ty V k h r \<longleftrightarrow>
     k < length V \<and>
     (case h of
        None \<Rightarrow> r = []
      | Some (j, a) \<Rightarrow> j = k \<and> a \<in> set (vw_iters (V ! k)) \<and> vw_pos (V ! k) a < length (vw_pairs (V ! k)) \<and>
          r = reads ty (vw_pairs (V ! k)) (vw_pos (V ! k) a))"

text \<open>The views \<open>V\<close> are the views \<open>V0\<close> with the iterators \<open>op\<close> more.\<close>

definition with_iters :: "view list \<Rightarrow> (nat \<times> addr) option list \<Rightarrow> view list \<Rightarrow> bool" where
  "with_iters V0 op V \<longleftrightarrow>
     length V = length V0 \<and>
     (\<forall>k < length V0. vw_pairs (V ! k) = vw_pairs (V0 ! k) \<and> vw_foreign (V ! k) = vw_foreign (V0 ! k) \<and>
        filter (\<lambda>a. Some (k, a) \<notin> set op) (vw_iters (V ! k)) = vw_iters (V0 ! k) \<and>
        (\<forall>a \<in> set (vw_iters (V0 ! k)). vw_pos (V ! k) a = vw_pos (V0 ! k) a))"

definition hands :: "skiparray_fold_type \<Rightarrow> nat list \<Rightarrow> (nat \<times> addr) option list \<Rightarrow> bindings list \<Rightarrow> view list \<Rightarrow> view list \<Rightarrow> bool" where
  "hands ty ks op rems V0 V \<longleftrightarrow>
     length op = length ks \<and> length rems = length ks \<and> with_iters V0 op V \<and> distinct (filter (\<lambda>h. h \<noteq> None) op) \<and>
     (\<forall>i < length ks. hand ty V (ks ! i) (op ! i) (rems ! i))"

lemma handsD:
  assumes "hands ty ks op rems V0 V"
  shows "length op = length ks" "length rems = length ks" "with_iters V0 op V" "distinct (filter (\<lambda>h. h \<noteq> None) op)"
    "\<And>i. i < length ks \<Longrightarrow> hand ty V (ks ! i) (op ! i) (rems ! i)"
  using assms unfolding hands_def by blast+

lemma with_itersD:
  assumes "with_iters V0 op V"
  shows "length V = length V0"
    "k < length V0 \<Longrightarrow> vw_pairs (V ! k) = vw_pairs (V0 ! k)" "k < length V0 \<Longrightarrow> vw_foreign (V ! k) = vw_foreign (V0 ! k)"
    "k < length V0 \<Longrightarrow> filter (\<lambda>a. Some (k, a) \<notin> set op) (vw_iters (V ! k)) = vw_iters (V0 ! k)"
    "k < length V0 \<Longrightarrow> a \<in> set (vw_iters (V0 ! k)) \<Longrightarrow> vw_pos (V ! k) a = vw_pos (V0 ! k) a"
  using assms unfolding with_iters_def by blast+

lemma with_iters_none: "with_iters V [] V"
  by (simp add: with_iters_def)

text \<open>With no iterator of the fold open, the views are those before the fold.\<close>

lemma with_iters_closed:
  assumes w: "with_iters V0 op V" "\<forall>h \<in> set op. h = None" and v: "viewed W V"
  shows "viewed W V0"
proof -
  have "view_of (W ! k) (V0 ! k)" if k: "k < length V0" for k
  proof -
    have "filter (\<lambda>a. Some (k, a) \<notin> set op) (vw_iters (V ! k)) = vw_iters (V ! k)" using w(2) by (intro filter_True) auto
    then have e: "vw_iters (V ! k) = vw_iters (V0 ! k)" using with_itersD(4) [OF w(1) k] by simp
    have "iter_view (W ! k) (vw_pairs (V0 ! k)) (vw_iters (V0 ! k)) (vw_foreign (V0 ! k)) (vw_pos (V ! k))"
      using viewedD(2) [OF v, of k] with_itersD(1-3) [OF w(1)] k e by simp
    then show ?thesis by (rule iter_view_cong) (use with_itersD(5) [OF w(1) k] in simp)
  qed
  then show ?thesis
    using viewedD(1) [OF v] with_itersD(1) [OF w(1)] by (simp add: viewed_def list_all2_conv_all_nth)
qed

lemma view_iters_distinct: "view_of sa v \<Longrightarrow> distinct (vw_iters v)"
  by (auto simp: iter_view_def wf_def iters_ok_def)

section \<open>Moving and closing one iterator\<close>

lemma hand_other:
  assumes h: "hand ty V k h r" and j: "j < length V" and ne: "h \<noteq> Some (j, a)"
    and v: "vw_pairs v = vw_pairs (V ! j)" "\<And>b. b \<noteq> a \<Longrightarrow> b \<in> set (vw_iters (V ! j)) \<Longrightarrow> b \<in> set (vw_iters v)"
      "\<And>b. b \<noteq> a \<Longrightarrow> vw_pos v b = vw_pos (V ! j) b"
  shows "hand ty (V[j := v]) k h r"
  using assms by (cases "k = j") (auto simp: hand_def split: option.splits)

lemma with_iters_move:
  assumes w: "with_iters V0 op V" and k: "k < length V" and a: "Some (k, a) \<in> set op"
    and v: "vw_pairs v = vw_pairs (V ! k)" "vw_foreign v = vw_foreign (V ! k)" "vw_iters v = vw_iters (V ! k)"
      "\<And>b. b \<noteq> a \<Longrightarrow> vw_pos v b = vw_pos (V ! k) b"
  shows "with_iters V0 op (V[k := v])"
  unfolding with_iters_def
proof (intro conjI allI impI ballI)
  show "length (V[k := v]) = length V0" using with_itersD(1) [OF w] by simp
  fix j assume j: "j < length V0"
  show "vw_pairs (V[k := v] ! j) = vw_pairs (V0 ! j)" "vw_foreign (V[k := v] ! j) = vw_foreign (V0 ! j)"
    "filter (\<lambda>a. Some (j, a) \<notin> set op) (vw_iters (V[k := v] ! j)) = vw_iters (V0 ! j)"
    using with_itersD(2-4) [OF w j] v(1-3) k by (cases "j = k"; simp)+
  fix b assume b: "b \<in> set (vw_iters (V0 ! j))"
  then have "Some (j, b) \<notin> set op" unfolding with_itersD(4) [OF w j, symmetric] by simp
  then have "b \<noteq> a" if "j = k" using a that by auto
  then show "vw_pos (V[k := v] ! j) b = vw_pos (V0 ! j) b"
    using with_itersD(5) [OF w j b] v(4) k by (cases "j = k") auto
qed

lemma with_iters_close:
  assumes w: "with_iters V0 op V" and k: "k < length V"
    and op: "\<And>x. Some x \<in> set op \<longleftrightarrow> x = (k, a) \<or> Some x \<in> set op'" "Some (k, a) \<notin> set op'"
    and d: "distinct (vw_iters (V ! k))"
    and v: "vw_pairs v = vw_pairs (V ! k)" "vw_foreign v = vw_foreign (V ! k)" "vw_iters v = remove1 a (vw_iters (V ! k))"
      "\<And>b. b \<noteq> a \<Longrightarrow> vw_pos v b = vw_pos (V ! k) b"
  shows "with_iters V0 op' (V[k := v])"
  unfolding with_iters_def
proof (intro conjI allI impI ballI)
  show "length (V[k := v]) = length V0" using with_itersD(1) [OF w] by simp
  fix j assume j: "j < length V0"
  show "vw_pairs (V[k := v] ! j) = vw_pairs (V0 ! j)" "vw_foreign (V[k := v] ! j) = vw_foreign (V0 ! j)"
    using with_itersD(2,3) [OF w j] v(1,2) k by (cases "j = k"; simp)+
  have f: "filter (\<lambda>b. Some (j, b) \<notin> set op) (vw_iters (V ! j)) = vw_iters (V0 ! j)" by (rule with_itersD(4) [OF w j])
  show "filter (\<lambda>b. Some (j, b) \<notin> set op') (vw_iters (V[k := v] ! j)) = vw_iters (V0 ! j)"
  proof (cases "j = k")
    case True
    have "remove1 a (vw_iters (V ! k)) = filter (\<lambda>b. b \<noteq> a) (vw_iters (V ! k))" using d by (auto simp: distinct_remove1_removeAll removeAll_filter_not_eq intro!: filter_cong)
    then have "filter (\<lambda>b. Some (k, b) \<notin> set op') (vw_iters v) = filter (\<lambda>b. Some (k, b) \<notin> set op) (vw_iters (V ! k))"
      unfolding v(3) op(1) by (auto intro!: filter_cong)
    with True f k show ?thesis by simp
  next
    case False
    then have "Some (j, b) \<notin> set op' \<longleftrightarrow> Some (j, b) \<notin> set op" for b using op(1) by auto
    with False f show ?thesis by simp
  qed
  fix b assume b: "b \<in> set (vw_iters (V0 ! j))"
  then have "Some (j, b) \<notin> set op" unfolding f [symmetric] by simp
  then have "b \<noteq> a" if "j = k" using op(1) that by blast
  then show "vw_pos (V[k := v] ! j) b = vw_pos (V0 ! j) b"
    using with_itersD(5) [OF w j b] v(4) k by (cases "j = k") auto
qed

text \<open>An iterator of the fold reads its next pair and moves on, and is freed at the end.\<close>

lemma opened_once:
  assumes d: "distinct (filter (\<lambda>h. h \<noteq> None) op)" and i: "i < length op" "op ! i = Some x"
  shows "Some y \<in> set op \<longleftrightarrow> y = x \<or> Some y \<in> set (op[i := None])"
    "Some x \<notin> set (op[i := None])" "j < length op \<Longrightarrow> j \<noteq> i \<Longrightarrow> op ! j \<noteq> Some x"
    "distinct (filter (\<lambda>h. h \<noteq> None) (op[i := None]))"
proof -
  have op: "op = take i op @ Some x # drop (Suc i) op" using i by (metis id_take_nth_drop)
  have u: "op[i := None] = take i op @ None # drop (Suc i) op" using i(1) by (rule upd_conv_take_nth_drop)
  have d': "distinct (filter (\<lambda>h. h \<noteq> None) (take i op) @ Some x # filter (\<lambda>h. h \<noteq> None) (drop (Suc i) op))"
    using d by (subst (asm) op) simp
  show n: "Some x \<notin> set (op[i := None])" unfolding u using d' by auto
  show "distinct (filter (\<lambda>h. h \<noteq> None) (op[i := None]))" unfolding u using d' by auto
  show "op ! j \<noteq> Some x" if "j < length op" "j \<noteq> i"
    using n that by (metis length_list_update nth_list_update_neq nth_mem)
  show "Some y \<in> set op \<longleftrightarrow> y = x \<or> Some y \<in> set (op[i := None])" unfolding u by (subst op) auto
qed

lemma hands_step:
  assumes h: "hands ty ks op rems V0 V" and v: "viewed W V" and i: "i < length ks" "op ! i = Some (k, a)"
  shows "\<exists>p xs sa1. rems ! i = p # xs \<and> k < length W \<and> skiparray_iter_get (W ! k) a = Some (out_of (W ! k) p) \<and>
    p \<in> set (vw_pairs (V ! k)) \<and>
    iter_step ty (W ! k) a = Some (if xs = [] then SKIPARRAY_ITER_STEP_END else SKIPARRAY_ITER_STEP_OK, sa1) \<and>
    (if xs = [] then \<exists>sa2 V'. skiparray_iter_free sa1 (Some a) = Some sa2 \<and> same_world W (W[k := sa2]) \<and>
       viewed (W[k := sa2]) V' \<and> hands ty ks (op[i := None]) (rems[i := []]) V0 V'
     else same_world W (W[k := sa1]) \<and>
       (\<exists>V'. viewed (W[k := sa1]) V' \<and> hands ty ks op (rems[i := xs]) V0 V'))"
proof -
  note hd = handsD [OF h]
  let ?v = "V ! k" and ?sa = "W ! k"
  have hi: "hand ty V (ks ! i) (Some (k, a)) (rems ! i)" using hd(5) [OF i(1)] i(2) by simp
  then have k: "k < length V" "ks ! i = k" and a: "a \<in> set (vw_iters ?v)" "vw_pos ?v a < length (vw_pairs ?v)"
    and r: "rems ! i = reads ty (vw_pairs ?v) (vw_pos ?v a)" by (auto simp: hand_def)
  obtain p xs where px: "rems ! i = p # xs" "reads ty (vw_pairs ?v) (vw_pos ?v a) = p # xs"
    using reads_Cons [OF a(2), of ty] unfolding r by blast
  have "p \<in> set (reads ty (vw_pairs ?v) (vw_pos ?v a))" using px(2) by simp
  then have pin: "p \<in> set (vw_pairs ?v)"
    by (cases ty) (auto simp: reads_def dest: in_set_dropD in_set_takeD)
  have vk: "view_of ?sa ?v" and kw: "k < length W" using viewedD(1,2) [OF v] k(1) by simp_all
  note st = iter_step_correct [OF vk a px(2)]
  obtain sa1 k' where s1: "iter_step ty ?sa a = Some (if xs = [] then SKIPARRAY_ITER_STEP_END else SKIPARRAY_ITER_STEP_OK, sa1)"
    "iter_view sa1 (vw_pairs ?v) (vw_iters ?v) (vw_foreign ?v) ((vw_pos ?v)(a := k'))"
    "xs \<noteq> [] \<Longrightarrow> k' < length (vw_pairs ?v) \<and> reads ty (vw_pairs ?v) k' = xs" "same_but_iters ?sa sa1"
    using st(2) by blast
  have opi: "Some (k, a) \<in> set op" using i hd(1) by (metis nth_mem)
  have once: "op ! j \<noteq> Some (k, a)" if "j < length ks" "j \<noteq> i" for j
    using opened_once(3) [OF hd(4) _ i(2)] i(1) that hd(1) by simp
  show ?thesis
  proof (cases "xs = []")
    case False
    let ?v1 = "?v\<lparr>vw_pos := (vw_pos ?v)(a := k')\<rparr>"
    have "viewed (W[k := sa1]) (V[k := ?v1])" by (rule viewed_upd [OF v]) (use s1(2) in simp)
    moreover have "with_iters V0 op (V[k := ?v1])" by (rule with_iters_move [OF hd(3) k(1) opi]) simp_all
    moreover have "hand ty (V[k := ?v1]) (ks ! j) (op ! j) (rems[i := xs] ! j)" if j: "j < length ks" for j
    proof (cases "j = i")
      case True
      then show ?thesis using i hd(2) k a(1) s1(3) [OF False] by (simp add: hand_def)
    next
      case False
      from hand_other [OF hd(5) [OF j] k(1) once [OF j False], of ?v1] False show ?thesis by simp
    qed
    ultimately have "viewed (W[k := sa1]) (V[k := ?v1]) \<and> hands ty ks op (rems[i := xs]) V0 (V[k := ?v1])"
      using hd by (simp add: hands_def)
    then show ?thesis using px(1) kw st(1) pin s1(1) False same_world_upd [OF kw s1(4)] by auto
  next
    case True
    obtain sa2 where s2: "skiparray_iter_free sa1 (Some a) = Some sa2"
      "iter_view sa2 (vw_pairs ?v) (remove1 a (vw_iters ?v)) (vw_foreign ?v) ((vw_pos ?v)(a := k'))"
      using iter_free_correct [OF s1(2) a(1)] by blast
    let ?v2 = "?v\<lparr>vw_pos := (vw_pos ?v)(a := k'), vw_iters := remove1 a (vw_iters ?v)\<rparr>"
    have "viewed (W[k := sa2]) (V[k := ?v2])" by (rule viewed_upd [OF v]) (use s2(2) in simp)
    moreover have "with_iters V0 (op[i := None]) (V[k := ?v2])"
      by (rule with_iters_close [OF hd(3) k(1) opened_once(1,2) [OF hd(4) _ i(2)]])
        (use i(1) hd(1) view_iters_distinct [OF vk] in simp_all)
    moreover have "hand ty (V[k := ?v2]) (ks ! j) (op[i := None] ! j) (rems[i := []] ! j)" if j: "j < length ks" for j
    proof (cases "j = i")
      case True
      then show ?thesis using i hd(1,2) k by (simp add: hand_def)
    next
      case False
      from hand_other [OF hd(5) [OF j] k(1) once [OF j False], of ?v2] False show ?thesis by simp
    qed
    ultimately have "viewed (W[k := sa2]) (V[k := ?v2]) \<and> hands ty ks (op[i := None]) (rems[i := []]) V0 (V[k := ?v2])"
      using hd opened_once(4) [OF hd(4) _ i(2)] i(1) by (simp add: hands_def)
    moreover have "same_world W (W[k := sa2])"
      by (rule same_world_upd [OF kw same_but_iters_trans [OF s1(4) iter_free_same [OF s2(1)]]])
    ultimately show ?thesis using px(1) kw st(1) pin s1(1) True s2(1) by auto
  qed
qed

section \<open>Closing and opening all of them\<close>

lemma close_all:
  assumes "with_iters V0 (map is_iter its) V" "viewed W V" "distinct (filter (\<lambda>h. h \<noteq> None) (map is_iter its))"
    "\<And>s k a. s \<in> set its \<Longrightarrow> is_iter s = Some (k, a) \<Longrightarrow> k < length V \<and> a \<in> set (vw_iters (V ! k))"
  shows "\<exists>W'. for_c close_iter its W = Some W' \<and> viewed W' V0 \<and> same_world W W'"
  using assms
proof (induction its arbitrary: W V)
  case Nil
  then show ?case using with_iters_closed [OF Nil(1) _ Nil(2)] by simp
next
  case (Cons s its)
  show ?case
  proof (cases "is_iter s")
    case None
    have "with_iters V0 (map is_iter its) V" using Cons.prems(1) None by (simp add: with_iters_def)
    then have "\<exists>W'. for_c close_iter its W = Some W' \<and> viewed W' V0 \<and> same_world W W'"
      by (rule Cons.IH [OF _ Cons.prems(2)]) (use Cons.prems(3,4) None in auto)
    moreover have "close_iter s W = Some W" using None by (simp add: close_iter_def)
    ultimately show ?thesis by simp
  next
    case (Some x)
    obtain k a where x: "x = (k, a)" by (cases x)
    have k: "k < length V" "a \<in> set (vw_iters (V ! k))" using Cons.prems(4) [of s k a] Some x by auto
    let ?v = "V ! k"
    have vk: "view_of (W ! k) ?v" and kw: "k < length W" using viewedD(1,2) [OF Cons.prems(2)] k(1) by simp_all
    obtain sa where sa: "skiparray_iter_free (W ! k) (Some a) = Some sa"
      "iter_view sa (vw_pairs ?v) (remove1 a (vw_iters ?v)) (vw_foreign ?v) (vw_pos ?v)"
      using iter_free_correct [OF vk k(2)] by blast
    let ?v2 = "?v\<lparr>vw_iters := remove1 a (vw_iters ?v)\<rparr>"
    have n: "Some (k, a) \<notin> set (map is_iter its)" using Cons.prems(3) Some x by auto
    have "with_iters V0 (map is_iter its) (V[k := ?v2])"
      by (rule with_iters_close [OF Cons.prems(1) k(1) _ n]) (use Some x view_iters_distinct [OF vk] in auto)
    moreover have "viewed (W[k := sa]) (V[k := ?v2])" by (rule viewed_upd [OF Cons.prems(2)]) (use sa(2) in simp)
    moreover have "distinct (filter (\<lambda>h. h \<noteq> None) (map is_iter its))" using Cons.prems(3) by (simp split: if_splits)
    moreover have "j < length (V[k := ?v2]) \<and> b \<in> set (vw_iters (V[k := ?v2] ! j))"
      if t: "t \<in> set its" "is_iter t = Some (j, b)" for t j b
    proof -
      have j: "j < length V" "b \<in> set (vw_iters (V ! j))" using Cons.prems(4) [of t j b] t by auto
      have "j = k \<Longrightarrow> b \<noteq> a" using n t by force
      with j k show ?thesis by (cases "j = k") auto
    qed
    ultimately obtain W' where "for_c close_iter its (W[k := sa]) = Some W'" "viewed W' V0" "same_world (W[k := sa]) W'"
      using Cons.IH by blast
    moreover have "same_world W (W[k := sa])" by (rule same_world_upd [OF kw iter_free_same [OF sa(1)]])
    moreover have "close_iter s W = Some (W[k := sa])" using Some x kw sa(1) by (simp add: close_iter_def)
    ultimately show ?thesis using same_world_trans by (metis bind.bind_lunit for_c.simps(2))
  qed
qed

lemma hands_close:
  assumes h: "hands ty ks (map is_iter its) rems V0 V" and v: "viewed W V"
  shows "\<exists>W'. for_c close_iter its W = Some W' \<and> viewed W' V0 \<and> same_world W W'"
proof (rule close_all [OF handsD(3) [OF h] v handsD(4) [OF h]])
  fix s k a assume "s \<in> set its" "is_iter s = Some (k, a)"
  then obtain i where i: "i < length its" "map is_iter its ! i = Some (k, a)" by (auto simp: in_set_conv_nth)
  then have "hand ty V (ks ! i) (Some (k, a)) (rems ! i)" using handsD(1,5) [OF h] by (metis length_map)
  then show "k < length V \<and> a \<in> set (vw_iters (V ! k))" by (auto simp: hand_def)
qed

text \<open>What is read from skiparray \<open>k\<close> in all.\<close>

abbreviation all_of :: "skiparray_fold_type \<Rightarrow> view list \<Rightarrow> nat \<Rightarrow> bindings" where
  "all_of ty V k \<equiv> directed ty (vw_pairs (V ! k))"

lemma hands_snoc:
  assumes h: "hands ty ds op rems V0 V" and w: "with_iters V0 (op @ [h']) V'" and k: "k < length V"
    and same: "length V' = length V" "\<And>j. j < length V \<Longrightarrow> vw_pairs (V' ! j) = vw_pairs (V ! j) \<and>
      (\<forall>b \<in> set (vw_iters (V ! j)). b \<in> set (vw_iters (V' ! j)) \<and> vw_pos (V' ! j) b = vw_pos (V ! j) b)"
    and new: "hand ty V' k h' r" "h' \<noteq> None \<Longrightarrow> h' \<notin> set op"
  shows "hands ty (ds @ [k]) (op @ [h']) (rems @ [r]) V0 V'"
proof -
  have "hand ty V' (ds ! i) (op ! i) (rems ! i)" if "i < length ds" for i
    using handsD(5) [OF h that] same by (auto simp: hand_def split: option.splits)
  then show ?thesis using handsD(1,2,4) [OF h] w new by (auto simp: hands_def nth_append less_Suc_eq)
qed

lemma with_iters_open:
  assumes w: "with_iters V0 op V" and k: "k < length V" and a: "a \<notin> set (vw_iters (V ! k))"
    and op: "\<And>b. Some (k, b) \<in> set op \<Longrightarrow> b \<in> set (vw_iters (V ! k))"
    and v: "vw_pairs v = vw_pairs (V ! k)" "vw_foreign v = vw_foreign (V ! k)" "vw_iters v = a # vw_iters (V ! k)"
      "\<And>b. b \<noteq> a \<Longrightarrow> vw_pos v b = vw_pos (V ! k) b"
  shows "with_iters V0 (op @ [Some (k, a)]) (V[k := v])"
  unfolding with_iters_def
proof (intro conjI allI impI ballI)
  show "length (V[k := v]) = length V0" using with_itersD(1) [OF w] by simp
  fix j assume j: "j < length V0"
  show "vw_pairs (V[k := v] ! j) = vw_pairs (V0 ! j)" "vw_foreign (V[k := v] ! j) = vw_foreign (V0 ! j)"
    using with_itersD(2,3) [OF w j] v(1,2) k by (cases "j = k"; simp)+
  have f: "filter (\<lambda>b. Some (j, b) \<notin> set op) (vw_iters (V ! j)) = vw_iters (V0 ! j)" by (rule with_itersD(4) [OF w j])
  have "filter (\<lambda>b. Some (j, b) \<notin> set (op @ [Some (k, a)])) (vw_iters (V ! j)) = filter (\<lambda>b. Some (j, b) \<notin> set op) (vw_iters (V ! j))"
    using a by (intro filter_cong) auto
  with f show "filter (\<lambda>b. Some (j, b) \<notin> set (op @ [Some (k, a)])) (vw_iters (V[k := v] ! j)) = vw_iters (V0 ! j)"
    using v(3) k by (cases "j = k") auto
  fix b assume b: "b \<in> set (vw_iters (V0 ! j))"
  then have "b \<in> set (vw_iters (V ! j))" unfolding f [symmetric] by simp
  then have "b \<noteq> a" if "j = k" using a that by auto
  then show "vw_pos (V[k := v] ! j) b = vw_pos (V0 ! j) b"
    using with_itersD(5) [OF w j b] v(4) k by (cases "j = k") auto
qed

lemma hands_start: "hands ty [] [] [] V V"
  by (simp add: hands_def with_iters_none)

text \<open>Opening one iterator.\<close>

lemma open_one:
  assumes h: "hands ty ds op rems V0 V" and v: "viewed W V" and k: "k < length V"
  shows "\<exists>res r sa1. skiparray_iter_new (W ! k) = Some (res, r, sa1) \<and>
    (res = SKIPARRAY_ITER_NEW_ERROR_MEMORY \<and> same_world W (W[k := sa1]) \<and> viewed (W[k := sa1]) V \<and> may_refuse (W ! k) \<or>
     (\<exists>sa2 V'. res \<noteq> SKIPARRAY_ITER_NEW_ERROR_MEMORY \<and> (res = SKIPARRAY_ITER_NEW_OK \<longleftrightarrow> vw_pairs (V0 ! k) \<noteq> []) \<and>
        (case r of Some i \<Rightarrow> if ty = SKIPARRAY_FOLD_RIGHT
           then skiparray_iter_seek_endpoint sa1 i SKIPARRAY_ITER_SEEK_LAST else Some sa1
         | None \<Rightarrow> Some sa1) = Some sa2 \<and>
        same_world W (W[k := sa2]) \<and> viewed (W[k := sa2]) V' \<and>
        hands ty (ds @ [k]) (op @ [map_option (Pair k) r]) (rems @ [all_of ty V0 k]) V0 V'))"
proof -
  let ?v = "V ! k"
  have vk: "view_of (W ! k) ?v" and kw: "k < length W" using viewedD(1,2) [OF v] k by simp_all
  have wi: "with_iters V0 op V" by (rule handsD(3) [OF h])
  have k0: "k < length V0" using k with_itersD(1) [OF wi] by simp
  have vp: "vw_pairs ?v = vw_pairs (V0 ! k)" by (rule with_itersD(2) [OF wi k0])
  obtain res r sa1 where n: "skiparray_iter_new (W ! k) = Some (res, r, sa1)"
    "if vw_pairs ?v = [] then res = SKIPARRAY_ITER_NEW_EMPTY \<and> r = None \<and> sa1 = W ! k
     else res = SKIPARRAY_ITER_NEW_ERROR_MEMORY \<and> r = None \<and> view_of sa1 ?v \<or>
       (\<exists>i. res = SKIPARRAY_ITER_NEW_OK \<and> r = Some i \<and> i \<notin> set (vw_iters ?v) \<and>
          iter_view sa1 (vw_pairs ?v) (i # vw_iters ?v) (vw_foreign ?v) ((vw_pos ?v)(i := 0)))"
    using iter_new_correct [OF vk] by blast
  note same = iter_new_same [OF n(1)]
  have sw: "same_world W (W[k := sa1])" by (rule same_world_upd [OF kw same])
  consider (empty) "vw_pairs ?v = []" "res = SKIPARRAY_ITER_NEW_EMPTY" "r = None" "sa1 = W ! k"
    | (memory) "res = SKIPARRAY_ITER_NEW_ERROR_MEMORY" "view_of sa1 ?v"
    | (ok) i where "vw_pairs ?v \<noteq> []" "res = SKIPARRAY_ITER_NEW_OK" "r = Some i" "i \<notin> set (vw_iters ?v)"
        "iter_view sa1 (vw_pairs ?v) (i # vw_iters ?v) (vw_foreign ?v) ((vw_pos ?v)(i := 0))"
    using n(2) by (auto split: if_splits)
  then show ?thesis
  proof cases
    case empty
    have "with_iters V0 (op @ [None]) V" using wi by (simp add: with_iters_def)
    moreover have "hand ty V k None (all_of ty V0 k)"
      using k empty(1) vp by (simp add: hand_def directed_def split: skiparray_fold_type.splits)
    ultimately have "hands ty (ds @ [k]) (op @ [None]) (rems @ [all_of ty V0 k]) V0 V"
      by (intro hands_snoc [OF h _ k]) auto
    then show ?thesis using n(1) empty vp v by (auto intro!: exI [of _ V])
  next
    case memory
    then show ?thesis using n(1) sw viewed_upd [OF v memory(2), of k] iter_new_refused [of "W ! k" r sa1]
      by (auto simp: may_refuse_def)
  next
    case ok
    define k' where "k' = (if ty = SKIPARRAY_FOLD_RIGHT then length (vw_pairs ?v) - 1 else 0)"
    obtain sa2 where s2: "(if ty = SKIPARRAY_FOLD_RIGHT then skiparray_iter_seek_endpoint sa1 i SKIPARRAY_ITER_SEEK_LAST else Some sa1) =
        Some sa2" "same_but_iters sa1 sa2"
      "iter_view sa2 (vw_pairs ?v) (i # vw_iters ?v) (vw_foreign ?v) ((vw_pos ?v)(i := k'))"
    proof (cases "ty = SKIPARRAY_FOLD_RIGHT")
      case True
      obtain sa2 where "skiparray_iter_seek_endpoint sa1 i SKIPARRAY_ITER_SEEK_LAST = Some sa2"
        "iter_view sa2 (vw_pairs ?v) (i # vw_iters ?v) (vw_foreign ?v) ((vw_pos ?v)(i := 0, i := length (vw_pairs ?v) - 1))"
        using iter_seek_endpoint_correct [OF ok(5), of i SKIPARRAY_ITER_SEEK_LAST] by auto
      then show ?thesis using that iter_moves_same(1) True by (simp add: k'_def)
    qed (use that ok(5) in \<open>simp add: k'_def\<close>)
    let ?v2 = "?v\<lparr>vw_iters := i # vw_iters ?v, vw_pos := (vw_pos ?v)(i := k')\<rparr>"
    have opk: "b \<in> set (vw_iters ?v)" if b: "Some (k, b) \<in> set op" for b
    proof -
      obtain j where "j < length op" and j': "op ! j = Some (k, b)" using b by (auto simp: in_set_conv_nth)
      then have j: "j < length ds" "op ! j = Some (k, b)" using handsD(1) [OF h] by simp_all
      then show ?thesis using handsD(5) [OF h j(1)] by (auto simp: hand_def)
    qed
    have w2: "with_iters V0 (op @ [Some (k, i)]) (V[k := ?v2])"
      by (rule with_iters_open [OF wi k ok(4) opk]) simp_all
    have "all_of ty V0 k = reads ty (vw_pairs ?v) k'" "k' < length (vw_pairs ?v)"
      using vp ok(1) reads_first [of "vw_pairs ?v"] by (cases ty; simp add: k'_def)+
    then have new: "hand ty (V[k := ?v2]) k (Some (k, i)) (all_of ty V0 k)" using k by (simp add: hand_def)
    have "hands ty (ds @ [k]) (op @ [Some (k, i)]) (rems @ [all_of ty V0 k]) V0 (V[k := ?v2])"
    proof (rule hands_snoc [OF h w2 k _ _ new])
      show "Some (k, i) \<notin> set op" using opk ok(4) by blast
      fix j assume "j < length V"
      show "vw_pairs (V[k := ?v2] ! j) = vw_pairs (V ! j) \<and> (\<forall>b \<in> set (vw_iters (V ! j)).
          b \<in> set (vw_iters (V[k := ?v2] ! j)) \<and> vw_pos (V[k := ?v2] ! j) b = vw_pos (V ! j) b)"
        using k ok(4) by (cases "j = k") auto
    qed simp
    moreover have "viewed (W[k := sa2]) (V[k := ?v2])" by (rule viewed_upd [OF v]) (use s2(3) in simp)
    moreover have "same_world W (W[k := sa2])" by (rule same_world_upd [OF kw same_but_iters_trans [OF same s2(2)]])
    ultimately show ?thesis using n(1) ok(1-3) s2(1) vp by (intro exI conjI disjI2) auto
  qed
qed

lemma open_iters_correct:
  assumes "hands ty ds (map is_iter its) (map (all_of ty V0) ds) V0 V" "viewed W V" "\<forall>k \<in> set ks. k < length V"
    "\<forall>s \<in> set its. is_state s = PS_NONE \<and> is_pair s = (0, 0)"
    "n = length (filter (\<lambda>k. vw_pairs (V0 ! k) \<noteq> []) ds)" "length ds + length ks < 256"
  shows "\<exists>ok its' n' W' V'. open_iters ty ks its n W = Some (ok, its', n', W') \<and> viewed W' V' \<and> same_world W W' \<and>
    (if ok then hands ty (ds @ ks) (map is_iter its') (map (all_of ty V0) (ds @ ks)) V0 V' \<and>
       (\<forall>s \<in> set its'. is_state s = PS_NONE \<and> is_pair s = (0, 0)) \<and>
       n' = length (filter (\<lambda>k. vw_pairs (V0 ! k) \<noteq> []) (ds @ ks))
     else (\<exists>k \<in> set ks. may_refuse (W ! k)) \<and> (\<exists>ds' rems'. hands ty ds' (map is_iter its') rems' V0 V'))"
  using assms
proof (induction ks arbitrary: ds its n W V)
  case Nil
  then show ?case by (intro exI [of _ True] exI [of _ its] exI [of _ n] exI [of _ W] exI [of _ V]) simp
next
  case (Cons k ks)
  have k: "k < length V" "k < length W" using Cons.prems(3) viewedD(1) [OF Cons.prems(2)] by simp_all
  obtain res r sa1 where o: "skiparray_iter_new (W ! k) = Some (res, r, sa1)"
    "res = SKIPARRAY_ITER_NEW_ERROR_MEMORY \<and> same_world W (W[k := sa1]) \<and> viewed (W[k := sa1]) V \<and> may_refuse (W ! k) \<or>
     (\<exists>sa2 V'. res \<noteq> SKIPARRAY_ITER_NEW_ERROR_MEMORY \<and> (res = SKIPARRAY_ITER_NEW_OK \<longleftrightarrow> vw_pairs (V0 ! k) \<noteq> []) \<and>
        (case r of Some i \<Rightarrow> if ty = SKIPARRAY_FOLD_RIGHT
           then skiparray_iter_seek_endpoint sa1 i SKIPARRAY_ITER_SEEK_LAST else Some sa1
         | None \<Rightarrow> Some sa1) = Some sa2 \<and>
        same_world W (W[k := sa2]) \<and> viewed (W[k := sa2]) V' \<and>
        hands ty (ds @ [k]) (map is_iter its @ [map_option (Pair k) r]) (map (all_of ty V0) ds @ [all_of ty V0 k]) V0 V')"
    using open_one [OF Cons.prems(1,2) k(1)] by blast
  show ?case
  proof (cases "res = SKIPARRAY_ITER_NEW_ERROR_MEMORY")
    case True
    with o k(2) have "open_iters ty (k # ks) its n W = Some (False, its, n, W[k := sa1])" by simp
    with True o(2) Cons.prems(1) show ?thesis by (intro exI [of _ False] exI [of _ its] exI [of _ n] exI) auto
  next
    case False
    then obtain sa2 V' where s2: "res = SKIPARRAY_ITER_NEW_OK \<longleftrightarrow> vw_pairs (V0 ! k) \<noteq> []"
      "(case r of Some i \<Rightarrow> if ty = SKIPARRAY_FOLD_RIGHT
           then skiparray_iter_seek_endpoint sa1 i SKIPARRAY_ITER_SEEK_LAST else Some sa1
         | None \<Rightarrow> Some sa1) = Some sa2"
      "same_world W (W[k := sa2])" "viewed (W[k := sa2]) V'"
      "hands ty (ds @ [k]) (map is_iter its @ [map_option (Pair k) r]) (map (all_of ty V0) ds @ [all_of ty V0 k]) V0 V'"
      using o(2) by blast
    let ?its = "its @ [\<lparr>is_state = PS_NONE, is_pair = (0, 0), is_iter = map_option (Pair k) r\<rparr>]"
    let ?n = "length (filter (\<lambda>k. vw_pairs (V0 ! k) \<noteq> []) (ds @ [k]))"
    have "n \<le> length ds" unfolding Cons.prems(5) by (rule length_filter_le)
    then have "u8 (n + 1) = n + 1" using Cons.prems(6) by simp
    then have n1: "(if res = SKIPARRAY_ITER_NEW_OK then u8 (n + 1) else n) = ?n" using s2(1) Cons.prems(5) by simp
    have step: "open_iters ty (k # ks) its n W = open_iters ty ks ?its ?n (W[k := sa2])"
      using o(1) k(2) False s2(2) n1 by (cases res) simp_all
    have h': "hands ty (ds @ [k]) (map is_iter ?its) (map (all_of ty V0) (ds @ [k])) V0 V'" using s2(5) by simp
    have l: "length V' = length V" 
      using with_itersD(1) [OF handsD(3) [OF Cons.prems(1)]] with_itersD(1) [OF handsD(3) [OF h']] by simp
    have refuse: "may_refuse (W[k := sa2] ! j) \<longleftrightarrow> may_refuse (W ! j)" if "j \<in> set ks" for j
    proof -
      have "same_but_iters (W ! j) (W[k := sa2] ! j)"
        using s2(3) that Cons.prems(3) viewedD(1) [OF Cons.prems(2)] by (auto simp: list_all2_conv_all_nth)
      then show ?thesis by (simp add: same_but_itersD(14))
    qed
    obtain ok its' n' W' V'' where R: "open_iters ty ks ?its ?n (W[k := sa2]) = Some (ok, its', n', W')"
      "viewed W' V''" "same_world (W[k := sa2]) W'"
      "if ok then hands ty ((ds @ [k]) @ ks) (map is_iter its') (map (all_of ty V0) ((ds @ [k]) @ ks)) V0 V'' \<and>
         (\<forall>s \<in> set its'. is_state s = PS_NONE \<and> is_pair s = (0, 0)) \<and>
         n' = length (filter (\<lambda>k. vw_pairs (V0 ! k) \<noteq> []) ((ds @ [k]) @ ks))
       else (\<exists>k' \<in> set ks. may_refuse (W[k := sa2] ! k')) \<and> (\<exists>ds' rems'. hands ty ds' (map is_iter its') rems' V0 V'')"
      using Cons.IH [OF h' s2(4), of ?n] Cons.prems(3,4,6) l by auto
    have "same_world W W'" using same_world_trans s2(3) R(3) by blast
    then show ?thesis unfolding step using R refuse
      by (intro exI [of _ ok] exI [of _ its'] exI [of _ n'] exI [of _ W'] exI [of _ V'']) (auto split: if_splits)
  qed
qed
end
