(* ===== verification/Fold_Run.thy ===== *)
theory Fold_Run
  imports Fold_Hands
begin

text \<open>
  A whole fold implements the merge of \<open>Merge\<close>: every step delivers the next batch, the loop
  ends, and the skiparrays are left as they were.
\<close>

section \<open>The invariant of a fold in progress\<close>

definition folding :: "nat list \<Rightarrow> view list \<Rightarrow> 'u skiparray_fold_state \<Rightarrow> world \<Rightarrow> pending \<times> bindings list \<Rightarrow> bool" where
  "folding ks V0 fs W st \<longleftrightarrow>
     queue fs (fst st) \<and>
     (\<exists>V. viewed W V \<and> hands (fs_type fs) ks (map is_iter (iter_states fs)) (snd st) V0 V) \<and>
     iter_count fs = length ks \<and> iter_live fs = length (filter (\<lambda>r. r \<noteq> []) (snd st)) \<and>
     (\<forall>k \<in> set ks. use_values (W ! k) = fs_use_values fs) \<and>
     (\<not> fs_use_values fs \<longrightarrow> (\<forall>s \<in> set (iter_states fs). snd (is_pair s) = 0))"

lemma foldingE:
  assumes "folding ks V0 fs W st"
  obtains V where "queue fs (fst st)" "viewed W V" "hands (fs_type fs) ks (map is_iter (iter_states fs)) (snd st) V0 V"
    "iter_count fs = length ks" "iter_live fs = length (filter (\<lambda>r. r \<noteq> []) (snd st))"
    "\<forall>k \<in> set ks. use_values (W ! k) = fs_use_values fs"
    "\<not> fs_use_values fs \<longrightarrow> (\<forall>s \<in> set (iter_states fs). snd (is_pair s) = 0)"
  using assms unfolding folding_def by blast

lemma filter_upd_count:
  assumes "i < length xs" "P (xs ! i)"
  shows "P y \<Longrightarrow> length (filter P (xs[i := y])) = length (filter P xs)"
    "\<not> P y \<Longrightarrow> length (filter P xs) = Suc (length (filter P (xs[i := y])))"
proof -
  have x: "xs = take i xs @ xs ! i # drop (Suc i) xs" using assms(1) by (rule id_take_nth_drop)
  have f: "length (filter P xs) = length (filter P (take i xs)) + Suc (length (filter P (drop (Suc i) xs)))"
    by (subst x) (use assms(2) in simp)
  show "P y \<Longrightarrow> length (filter P (xs[i := y])) = length (filter P xs)"
    "\<not> P y \<Longrightarrow> length (filter P xs) = Suc (length (filter P (xs[i := y])))"
    using f assms(1) by (simp_all add: upd_conv_take_nth_drop)
qed

lemma hand_some: "hand ty V k (Some (j, a)) r \<Longrightarrow> r \<noteq> []"
proof -
  assume "hand ty V k (Some (j, a)) r"
  then have r: "r = reads ty (vw_pairs (V ! k)) (vw_pos (V ! k) a)" "vw_pos (V ! k) a < length (vw_pairs (V ! k))"
    by (auto simp: hand_def)
  then show ?thesis using reads_Cons [OF r(2), of ty] by auto
qed

text \<open>The pair of an entry that is not available may be set.\<close>

lemma queue_set_pair:
  assumes q: "queue fs pend" and i: "i < iter_count fs" "i \<notin> fst ` set pend"
  shows "queue (set_entry fs i ((iter_states fs ! i)\<lparr>is_pair := p\<rparr>)) pend"
proof -
  have "available_as ((iter_states fs)[i := (iter_states fs ! i)\<lparr>is_pair := p\<rparr>] ! fst x) x" if "x \<in> set pend" for x
  proof -
    have "fst x \<noteq> i" using i(2) that by auto
    then show ?thesis using queueD(8) [OF q that] by simp
  qed
  moreover have "is_state ((iter_states fs)[i := (iter_states fs ! i)\<lparr>is_pair := p\<rparr>] ! j) = PS_NONE"
    if "j < iter_count fs" "j \<notin> fst ` set pend" for j
    using queueD(9) [OF q that] i queueD(4) [OF q] by (simp add: nth_list_update)
  ultimately show ?thesis using q unfolding queue_def by (simp add: set_entry_def)
qed

lemma queue_close:
  assumes q: "queue fs pend" and i: "i < iter_count fs"
  shows "queue ((set_entry fs i ((iter_states fs ! i)\<lparr>is_iter := None\<rparr>))\<lparr>iter_live := n\<rparr>) pend"
proof -
  have il: "i < length (iter_states fs)" using i queueD(4) [OF q] by simp
  have "available_as ((iter_states fs)[i := (iter_states fs ! i)\<lparr>is_iter := None\<rparr>] ! j) x = available_as (iter_states fs ! j) x" for j x
    using il by (cases "j = i") (simp_all add: available_as_def)
  moreover have "is_state ((iter_states fs)[i := (iter_states fs ! i)\<lparr>is_iter := None\<rparr>] ! j) = is_state (iter_states fs ! j)" for j
    using il by (cases "j = i") simp_all
  ultimately show ?thesis using q unfolding queue_def by (simp add: set_entry_def)
qed

section \<open>Stepping the iterators\<close>

lemma step_entry_correct:
  assumes f: "folding ks V0 fs W st" and i: "i < length ks"
  shows "\<exists>fs' W'. step_entry i (fs, W) = Some (fs', W') \<and> folding ks V0 fs' W' (pull_one (snd (cb_cmp fs)) i st) \<and>
    same_fold fs fs' \<and> same_world W W'"
proof -
  obtain pend rems where st: "st = (pend, rems)" by (cases st)
  obtain V where q: "queue fs pend" and v: "viewed W V" and h: "hands (fs_type fs) ks (map is_iter (iter_states fs)) rems V0 V"
    and n: "iter_count fs = length ks" "iter_live fs = length (filter (\<lambda>r. r \<noteq> []) rems)"
    and uv: "\<forall>k \<in> set ks. use_values (W ! k) = fs_use_values fs"
      "\<not> fs_use_values fs \<longrightarrow> (\<forall>s \<in> set (iter_states fs). snd (is_pair s) = 0)"
    using f unfolding st by (rule foldingE) simp
  let ?s = "iter_states fs ! i" and ?c = "snd (cb_cmp fs)"
  have il: "i < length (iter_states fs)" "i < length rems" using i n(1) queueD(4) [OF q] handsD(2) [OF h] by simp_all
  have hi: "hand (fs_type fs) V (ks ! i) (is_iter ?s) (rems ! i)" using handsD(5) [OF h i] il by simp
  show ?thesis
  proof (cases "rems ! i = [] \<or> i \<in> fst ` set pend")
    case True
    have "is_iter ?s = None \<or> is_state ?s \<noteq> PS_NONE"
    proof (cases "is_iter ?s")
      case (Some x)
      then have "rems ! i \<noteq> []" using hand_some hi by (metis prod.collapse)
      with True have "i \<in> fst ` set pend" by simp
      then show ?thesis using queueD(8) [OF q] by (auto simp: available_as_def split: if_splits)
    qed simp
    then have "step_entry i (fs, W) = Some (fs, W)" using il by (auto simp: step_entry_def split: option.splits)
    moreover have "pull_one ?c i st = st" using True st by (simp add: pull_one_def)
    ultimately show ?thesis using f by simp
  next
    case False
    then obtain k a where ka: "is_iter ?s = Some (k, a)" using hi by (cases "is_iter ?s") (auto simp: hand_def)
    have si: "is_state ?s = PS_NONE" using queueD(9) [OF q] i n(1) False by simp
    have opi: "map is_iter (iter_states fs) ! i = Some (k, a)" using ka il by simp
    obtain p xs sa1 where s: "rems ! i = p # xs" "k < length W" "skiparray_iter_get (W ! k) a = Some (out_of (W ! k) p)"
      "p \<in> set (vw_pairs (V ! k))"
      "iter_step (fs_type fs) (W ! k) a = Some (if xs = [] then SKIPARRAY_ITER_STEP_END else SKIPARRAY_ITER_STEP_OK, sa1)"
      "if xs = [] then \<exists>sa2 V'. skiparray_iter_free sa1 (Some a) = Some sa2 \<and> same_world W (W[k := sa2]) \<and>
         viewed (W[k := sa2]) V' \<and> hands (fs_type fs) ks ((map is_iter (iter_states fs))[i := None]) (rems[i := []]) V0 V'
       else same_world W (W[k := sa1]) \<and>
         (\<exists>V'. viewed (W[k := sa1]) V' \<and> hands (fs_type fs) ks (map is_iter (iter_states fs)) (rems[i := xs]) V0 V')"
      using hands_step [OF h v i opi] by blast
    have kks: "k \<in> set ks" using hi ka i by (auto simp: hand_def)
    have val_eq: "(case snd (out_of (W ! k) p) of None \<Rightarrow> snd (is_pair ?s) | Some w \<Rightarrow> w) = snd p"
    proof (cases "fs_use_values fs")
      case False
      then have u: "\<not> use_values (W ! k)" using uv(1) kks by simp
      have "represents (W ! k) (vw_pairs (V ! k)) (vw_iters (V ! k)) (vw_foreign (V ! k))"
        using viewedD(1,2) [OF v] s(2) by (intro iter_view_represents) simp
      from represents_null [OF this u s(4)] False uv(2) il u show ?thesis by (simp add: out_of_def)
    qed (use uv(1) kks in \<open>simp add: out_of_def\<close>)
    let ?fa = "set_entry fs i (?s\<lparr>is_pair := p\<rparr>)"
    have qa: "queue ?fa pend" by (rule queue_set_pair [OF q]) (use i n(1) False in auto)
    obtain fs1 where f1: "insert_pair ?fa i = Some fs1" "same_hands ?fa fs1" "is_state (iter_states fs1 ! i) \<noteq> PS_NONE"
      "queue fs1 (ins ?c i (is_pair (iter_states ?fa ! i)) pend)"
      using insert_pair_correct [OF qa, of i] i n(1) False by (auto simp: set_entry_def)
    have e: "same_fold fs fs1" "iter_live fs1 = iter_live fs" "map is_iter (iter_states fs1) = map is_iter (iter_states fs)"
      "map is_pair (iter_states fs1) = (map is_pair (iter_states fs))[i := p]" "fs_type fs1 = fs_type fs"
      "iter_count fs1 = length ks"
      using f1(2) il n(1) by (auto simp: same_hands_def same_fold_def set_entry_def map_update list_update_same_conv)
    have l1: "length (iter_states fs1) = length (iter_states fs)" using e(3) by (metis length_map)
    have q1: "queue fs1 (ins ?c i p pend)" using f1(4) il by (simp add: set_entry_def)
    have null: "snd (is_pair t) = 0" if t: "\<not> fs_use_values fs" "t \<in> set (iter_states fs1)" for t
    proof -
      have "is_pair t \<in> set ((map is_pair (iter_states fs))[i := p])" using t(2) e(4) by (metis image_eqI set_map)
      then have "is_pair t = p \<or> (\<exists>u \<in> set (iter_states fs). is_pair t = is_pair u)"
        using set_update_subset_insert [of "map is_pair (iter_states fs)" i p] by auto
      moreover have "snd p = 0" using val_eq uv t(1) kks il by (simp add: out_of_def)
      ultimately show ?thesis using uv(2) t(1) by auto
    qed
    have po: "pull_one ?c i st = (ins ?c i p pend, rems[i := xs])" using False st s(1) by (simp add: pull_one_def)
    obtain w where w: "out_of (W ! k) p = (fst p, w)" "(case w of None \<Rightarrow> snd (is_pair ?s) | Some w \<Rightarrow> w) = snd p"
      using val_eq by (simp add: out_of_def)
    have head: "step_entry i (fs, W) = Option.bind (iter_step (fs_type fs1) (W ! k) a) (\<lambda>(sres, sa1). case sres of
          SKIPARRAY_ITER_STEP_END \<Rightarrow> Option.bind (skiparray_iter_free sa1 (Some a)) (\<lambda>sa2.
            Option.bind (assert_c (0 < iter_live fs1)) (\<lambda>_.
              Some ((set_entry fs1 i ((iter_states fs1 ! i)\<lparr>is_iter := None\<rparr>))\<lparr>iter_live := iter_live fs1 - 1\<rparr>, W[k := sa2])))
        | SKIPARRAY_ITER_STEP_OK \<Rightarrow> Some (fs1, W[k := sa1]))"
      using il ka si s(2,3) w f1(1,3) l1 by (simp add: step_entry_def Let_def)
    have same_uv: "use_values (W' ! j) = fs_use_values fs1" if "same_world W W'" "j \<in> set ks" for W' j
    proof -
      have "j < length W" using that(2) handsD(5) [OF h] viewedD(1) [OF v] by (auto simp: in_set_conv_nth hand_def)
      with that(1) have "same_but_iters (W ! j) (W' ! j)" by (auto simp: list_all2_conv_all_nth)
      then show ?thesis using uv(1) that(2) e(1) by (simp add: same_but_itersD same_fold_def)
    qed
    have uv1: "fs_use_values fs1 = fs_use_values fs" using e(1) by (simp add: same_fold_def)
    show ?thesis
    proof (cases "xs = []")
      case False
      with s(6) obtain V' where V': "same_world W (W[k := sa1])" "viewed (W[k := sa1]) V'"
        "hands (fs_type fs) ks (map is_iter (iter_states fs)) (rems[i := xs]) V0 V'" by auto
      have "folding ks V0 fs1 (W[k := sa1]) (pull_one ?c i st)"
        unfolding folding_def po fst_conv snd_conv
      proof (intro conjI exI [of _ V'] ballI impI)
        show "iter_live fs1 = length (filter (\<lambda>r. r \<noteq> []) (rems[i := xs]))"
          using filter_upd_count(1) [OF il(2), of "\<lambda>r. r \<noteq> []" xs] s(1) False e(2) n(2) by simp
      qed (use q1 V' e(3,5,6) same_uv null uv1 in simp_all)
      then show ?thesis using head s(5) e(1,5) False V'(1) by simp
    next
      case True
      with s(6) obtain sa2 V' where V': "skiparray_iter_free sa1 (Some a) = Some sa2" "same_world W (W[k := sa2])"
        "viewed (W[k := sa2]) V'"
        "hands (fs_type fs) ks ((map is_iter (iter_states fs))[i := None]) (rems[i := []]) V0 V'" by auto
      let ?f2 = "(set_entry fs1 i ((iter_states fs1 ! i)\<lparr>is_iter := None\<rparr>))\<lparr>iter_live := iter_live fs1 - 1\<rparr>"
      have cnt: "iter_live fs1 = Suc (length (filter (\<lambda>r. r \<noteq> []) (rems[i := []])))"
        using filter_upd_count(2) [OF il(2), of "\<lambda>r. r \<noteq> []" "[]"] s(1) e(2) n(2) by simp
      have it2: "map is_iter (iter_states ?f2) = (map is_iter (iter_states fs))[i := None]"
        using e(3) by (simp add: set_entry_def map_update)
      have null2: "snd (is_pair t) = 0" if t: "\<not> fs_use_values fs" "t \<in> set (iter_states ?f2)" for t
      proof -
        have "map is_pair (iter_states ?f2) = map is_pair (iter_states fs1)"
          using l1 il by (simp add: set_entry_def map_update list_update_same_conv)
        then have "is_pair ` set (iter_states ?f2) = is_pair ` set (iter_states fs1)" by (simp only: set_map [symmetric])
        then have "is_pair t \<in> is_pair ` set (iter_states fs1)" using t(2) by blast
        then show ?thesis using null [OF t(1)] by auto
      qed
      have "folding ks V0 ?f2 (W[k := sa2]) (pull_one ?c i st)"
        unfolding folding_def po fst_conv snd_conv
      proof (intro conjI exI [of _ V'] ballI impI)
        show "queue ?f2 (ins ?c i p pend)" by (rule queue_close [OF q1]) (use e(6) i in simp)
        show "hands (fs_type ?f2) ks (map is_iter (iter_states ?f2)) (rems[i := xs]) V0 V'"
          using V'(4) it2 True e(5) by (simp add: set_entry_def)
      qed (use V' cnt e(6) same_uv null2 uv1 True in \<open>simp_all add: set_entry_def\<close>)
      moreover have "same_fold fs ?f2" using e(1) by (simp add: same_fold_def set_entry_def)
      ultimately show ?thesis using head s(5) e(5) True V'(1,2) cnt by (simp add: c_eval)
    qed
  qed
qed

lemma steps_correct:
  assumes "folding ks V0 fs W st" "\<forall>j \<in> set js. j < length ks"
  shows "\<exists>fs' W'. for_c step_entry js (fs, W) = Some (fs', W') \<and>
    folding ks V0 fs' W' (fold (pull_one (snd (cb_cmp fs))) js st) \<and> same_fold fs fs' \<and> same_world W W'"
  using assms
proof (induction js arbitrary: fs W st)
  case (Cons j js)
  obtain fs1 W1 where 1: "step_entry j (fs, W) = Some (fs1, W1)" "folding ks V0 fs1 W1 (pull_one (snd (cb_cmp fs)) j st)"
    "same_fold fs fs1" "same_world W W1" using step_entry_correct [OF Cons.prems(1), of j] Cons.prems(2) by auto
  have c: "cb_cmp fs1 = cb_cmp fs" using 1(3) by (simp add: same_fold_def)
  obtain fs2 W2 where "for_c step_entry js (fs1, W1) = Some (fs2, W2)"
    "folding ks V0 fs2 W2 (fold (pull_one (snd (cb_cmp fs))) js (pull_one (snd (cb_cmp fs)) j st))"
    "same_fold fs1 fs2" "same_world W1 W2" using Cons.IH [OF 1(2)] Cons.prems(2) unfolding c by auto
  with 1 same_fold_trans [OF 1(3)] same_world_trans [OF 1(4)] show ?case by (intro exI [of _ fs2] exI [of _ W2]) simp
qed auto

lemma folding_lengths:
  assumes "folding ks V0 fs W (pend, rems)"
  shows "length rems = length ks" "ids_available fs = length pend" "ids_available fs \<le> iter_count fs"
    "iter_live fs = length (filter (\<lambda>r. r \<noteq> []) rems)" "iter_live fs \<le> iter_count fs" "iter_count fs = length ks"
    "iter_live fs = 0 \<longleftrightarrow> (\<forall>r \<in> set rems. r = [])"
proof -
  obtain V where q: "queue fs pend" "viewed W V" "hands (fs_type fs) ks (map is_iter (iter_states fs)) rems V0 V"
    "iter_count fs = length ks" "iter_live fs = length (filter (\<lambda>r. r \<noteq> []) rems)"
    using assms by (rule foldingE) simp
  show "length rems = length ks" by (rule handsD(2) [OF q(3)])
  with q(5) show "iter_live fs \<le> iter_count fs" using length_filter_le [of "\<lambda>r. r \<noteq> []" rems] q(4) by simp
  show "iter_live fs = 0 \<longleftrightarrow> (\<forall>r \<in> set rems. r = [])" unfolding q(5) by (auto simp: filter_empty_conv)
  show "ids_available fs = length pend" "ids_available fs \<le> iter_count fs" using queueD(1,2) [OF q(1)] by simp_all
  show "iter_count fs = length ks" "iter_live fs = length (filter (\<lambda>r. r \<noteq> []) rems)" by (rule q(4), rule q(5))
qed

text \<open>Filling: all iterators that are not done and have no pair available read one.\<close>

lemma fill_correct:
  assumes f: "folding ks V0 fs W st"
  shows "\<exists>fs' W'. (if 0 < iter_live fs then step_active_iterators fs W else Some (fs, W)) = Some (fs', W') \<and>
    folding ks V0 fs' W' (pull (snd (cb_cmp fs)) st) \<and> same_fold fs fs' \<and> same_world W W'"
proof -
  obtain pend rems where st: "st = (pend, rems)" by (cases st)
  note l = folding_lengths [OF f [unfolded st]]
  show ?thesis
  proof (cases "0 < iter_live fs")
    case True
    have "\<exists>fs' W'. for_c step_entry [0..<iter_count fs] (fs, W) = Some (fs', W') \<and>
        folding ks V0 fs' W' (fold (pull_one (snd (cb_cmp fs))) [0..<iter_count fs] st) \<and> same_fold fs fs' \<and> same_world W W'"
      by (rule steps_correct [OF f]) (use l in simp)
    then show ?thesis using True l st by (simp add: step_active_iterators_def pull_def)
  next
    case False
    have "pull_one c i st = st" if "i < length rems" for c i using that False l(7) st by (simp add: pull_one_def)
    then have "fold (pull_one c) js st = st" if "\<forall>j \<in> set js. j < length rems" for c js using that by (induction js) simp_all
    then have "pull (snd (cb_cmp fs)) st = st" using st by (simp add: pull_def)
    with False f show ?thesis by simp
  qed
qed

section \<open>Memory of the fold state\<close>

lemma world_alloc_correct:
  assumes v: "viewed W V" and k: "k < length V"
  shows "\<exists>r W'. world_alloc k n W = Some (r, W') \<and> same_world W W' \<and>
    (case r of None \<Rightarrow> viewed W' V \<and> may_refuse (W ! k)
     | Some a \<Rightarrow> a \<notin> vw_foreign (V ! k) \<and> viewed W' (V[k := (V ! k)\<lparr>vw_foreign := insert a (vw_foreign (V ! k))\<rparr>]))"
proof -
  have kw: "k < length W" and vk: "view_of (W ! k) (V ! k)" using viewedD [OF v] k by simp_all
  obtain r m where a: "mem_alloc (snd (mem (W ! k))) n (mst (W ! k)) = (r, m)" by fastforce
  have e: "world_alloc k n W = Some (r, W[k := (W ! k)\<lparr>mst := m\<rparr>])" using kw a by (simp add: world_alloc_def)
  have s: "same_world W (W[k := (W ! k)\<lparr>mst := m\<rparr>])" by (rule same_world_upd [OF kw]) (auto simp: mem_alloc_oom [OF a])
  show ?thesis
  proof (cases r)
    case None
    have "viewed (W[k := (W ! k)\<lparr>mst := m\<rparr>]) V"
      using viewed_upd [OF v iter_view_refused(1) [OF vk a [unfolded None]], of k] by simp
    with e s None iter_view_refused(2) [OF vk a [unfolded None]] show ?thesis by simp
  next
    case (Some x)
    have "viewed (W[k := (W ! k)\<lparr>mst := m\<rparr>]) (V[k := (V ! k)\<lparr>vw_foreign := insert x (vw_foreign (V ! k))\<rparr>])"
      by (rule viewed_upd [OF v]) (use iter_view_alloc(1) [OF vk a [unfolded Some]] in simp)
    with e s Some iter_view_alloc(2) [OF vk a [unfolded Some]] show ?thesis by simp
  qed
qed

lemma world_free_correct:
  assumes v: "viewed W V" and k: "k < length V" and f: "vw_foreign (V ! k) = insert a F" "a \<notin> F"
  shows "\<exists>W'. world_free k a W = Some W' \<and> same_world W W' \<and> viewed W' (V[k := (V ! k)\<lparr>vw_foreign := F\<rparr>])"
proof -
  have kw: "k < length W" and vk: "view_of (W ! k) (V ! k)" using viewedD [OF v] k by simp_all
  obtain m where m: "mem_free a (mst (W ! k)) = Some m"
    "iter_view ((W ! k)\<lparr>mst := m\<rparr>) (vw_pairs (V ! k)) (vw_iters (V ! k)) F (vw_pos (V ! k))"
    using iter_view_dealloc [OF vk [unfolded f(1)] f(2)] by blast
  have "viewed (W[k := (W ! k)\<lparr>mst := m\<rparr>]) (V[k := (V ! k)\<lparr>vw_foreign := F\<rparr>])" by (rule viewed_upd [OF v]) (use m(2) in simp)
  moreover have "same_world W (W[k := (W ! k)\<lparr>mst := m\<rparr>])" by (rule same_world_upd [OF kw]) (auto simp: mem_free_oom [OF m(1)])
  ultimately show ?thesis using kw m(1) by (simp add: world_free_def)
qed

text \<open>The views during the fold: those before it, with its two blocks.\<close>

definition with_blocks :: "nat \<Rightarrow> addr \<Rightarrow> addr \<Rightarrow> view list \<Rightarrow> view list" where
  "with_blocks k a b V = V[k := (V ! k)\<lparr>vw_foreign := insert b (insert a (vw_foreign (V ! k)))\<rparr>]"

definition fresh_blocks :: "nat \<Rightarrow> addr \<Rightarrow> addr \<Rightarrow> view list \<Rightarrow> bool" where
  "fresh_blocks k a b V \<longleftrightarrow> k < length V \<and> a \<notin> vw_foreign (V ! k) \<and> b \<notin> insert a (vw_foreign (V ! k))"

lemma with_blocks_simps [simp]:
  "length (with_blocks k a b V) = length V" "vw_pairs (with_blocks k a b V ! j) = vw_pairs (V ! j)"
proof -
  show "length (with_blocks k a b V) = length V" by (simp add: with_blocks_def)
  show "vw_pairs (with_blocks k a b V ! j) = vw_pairs (V ! j)"
    unfolding with_blocks_def by (cases "k < length V") (auto simp: nth_list_update list_update_beyond)
qed

lemma free_blocks:
  assumes v: "viewed W (with_blocks k a b V)" and f: "fresh_blocks k a b V"
  shows "\<exists>W1 W2. world_free k b W = Some W1 \<and> world_free k a W1 = Some W2 \<and> same_world W W2 \<and> viewed W2 V"
proof -
  let ?F = "vw_foreign (V ! k)" and ?V = "with_blocks k a b V"
  have k: "k < length V" "a \<notin> ?F" "b \<notin> insert a ?F" using f by (simp_all add: fresh_blocks_def)
  obtain W1 where 1: "world_free k b W = Some W1" "same_world W W1" "viewed W1 (?V[k := (?V ! k)\<lparr>vw_foreign := insert a ?F\<rparr>])"
    using world_free_correct [OF v, of k b "insert a ?F"] k by (auto simp: with_blocks_def)
  have e1: "?V[k := (?V ! k)\<lparr>vw_foreign := insert a ?F\<rparr>] = V[k := (V ! k)\<lparr>vw_foreign := insert a ?F\<rparr>]"
    using k(1) by (simp add: with_blocks_def)
  obtain W2 where 2: "world_free k a W1 = Some W2" "same_world W1 W2"
    "viewed W2 (V[k := (V ! k)\<lparr>vw_foreign := insert a ?F\<rparr>, k := (V ! k)\<lparr>vw_foreign := ?F\<rparr>])"
    using world_free_correct [OF 1(3) [unfolded e1], of k a ?F] k by auto
  have e2: "V[k := (V ! k)\<lparr>vw_foreign := insert a ?F\<rparr>, k := (V ! k)\<lparr>vw_foreign := ?F\<rparr>] = V" using k(1) by simp
  show ?thesis using 1(1) 2(1) same_world_trans [OF 1(2) 2(2)] 2(3) [unfolded e2] by blast
qed

section \<open>One call of fold-next\<close>

lemma halt_correct:
  assumes v: "viewed W V1" and h: "hands ty ks (map is_iter (iter_states fs)) rems (with_blocks k a b V) V1"
    and b: "fresh_blocks k a b V" and fs: "fs_sa0 fs = k" "fs_self fs = a" "ids_block fs = b" "iter_count fs = length (iter_states fs)"
      "0 < iter_count fs"
  shows "\<exists>W'. skiparray_fold_halt (Some fs) W = Some W' \<and> viewed W' V \<and> same_world W W'"
proof -
  obtain W1 where 1: "for_c close_iter (iter_states fs) W = Some W1" "viewed W1 (with_blocks k a b V)" "same_world W W1"
    using hands_close [OF h v] by blast
  obtain W2 W3 where "world_free k b W1 = Some W2" "world_free k a W2 = Some W3" "same_world W1 W3" "viewed W3 V"
    using free_blocks [OF 1(2) b] by blast
  then show ?thesis using 1 fs same_world_trans by (auto simp: skiparray_fold_halt_def)
qed

text \<open>Giving a block back while iterators are open.\<close>

lemma hands_foreign:
  assumes h: "hands ty ks op rems V0 V" and k: "k < length V"
  shows "hands ty ks op rems (V0[k := (V0 ! k)\<lparr>vw_foreign := F\<rparr>]) (V[k := (V ! k)\<lparr>vw_foreign := F\<rparr>])"
proof -
  note w = handsD(3) [OF h]
  have k0: "k < length V0" using k with_itersD(1) [OF w] by simp
  have e: "vw_pairs (X[k := (X ! k)\<lparr>vw_foreign := F\<rparr>] ! j) = vw_pairs (X ! j)"
    "vw_iters (X[k := (X ! k)\<lparr>vw_foreign := F\<rparr>] ! j) = vw_iters (X ! j)"
    "vw_pos (X[k := (X ! k)\<lparr>vw_foreign := F\<rparr>] ! j) = vw_pos (X ! j)" if "k < length X" for X :: "view list" and j
    using that by (cases "j = k"; simp)+
  have "with_iters (V0[k := (V0 ! k)\<lparr>vw_foreign := F\<rparr>]) op (V[k := (V ! k)\<lparr>vw_foreign := F\<rparr>])"
    unfolding with_iters_def e [OF k] e [OF k0] length_list_update
  proof (intro conjI allI impI)
    fix j assume j: "j < length V0"
    show "vw_foreign (V[k := (V ! k)\<lparr>vw_foreign := F\<rparr>] ! j) = vw_foreign (V0[k := (V0 ! k)\<lparr>vw_foreign := F\<rparr>] ! j)"
      using with_itersD(3) [OF w j] k k0 by (cases "j = k") simp_all
  qed (use w in \<open>auto simp: with_iters_def\<close>)
  moreover have "hand ty (V[k := (V ! k)\<lparr>vw_foreign := F\<rparr>]) i x r = hand ty V i x r" for i x r
    unfolding hand_def e [OF k] by simp
  ultimately show ?thesis using h by (simp add: hands_def)
qed

lemma abandon_correct:
  assumes v: "viewed W V1" and h: "hands ty ks (map is_iter its) rems (with_blocks k a b V) V1" and f: "fresh_blocks k a b V"
  shows "\<exists>W4 W5 W6. world_free k b W = Some W4 \<and> for_c close_iter its W4 = Some W5 \<and> world_free k a W5 = Some W6 \<and>
    same_world W W6 \<and> viewed W6 V"
proof -
  let ?F = "vw_foreign (V ! k)"
  have k: "k < length V" "a \<notin> ?F" "b \<notin> insert a ?F" using f by (simp_all add: fresh_blocks_def)
  note w = handsD(3) [OF h]
  have k1: "k < length V1" "vw_foreign (V1 ! k) = insert b (insert a ?F)"
    using with_itersD(1) [OF w] with_itersD(3) [OF w, of k] k(1) by (simp_all add: with_blocks_def)
  obtain W4 where 4: "world_free k b W = Some W4" "same_world W W4" "viewed W4 (V1[k := (V1 ! k)\<lparr>vw_foreign := insert a ?F\<rparr>])"
    using world_free_correct [OF v k1 k(3)] by blast
  let ?V = "V[k := (V ! k)\<lparr>vw_foreign := insert a ?F\<rparr>]"
  have eV: "(with_blocks k a b V)[k := (with_blocks k a b V ! k)\<lparr>vw_foreign := insert a ?F\<rparr>] = ?V"
    using k(1) by (simp add: with_blocks_def)
  obtain W5 where 5: "for_c close_iter its W4 = Some W5" "viewed W5 ?V" "same_world W4 W5"
    using hands_close [OF hands_foreign [OF h k1(1), where F = "insert a ?F", unfolded eV] 4(3)] by blast
  obtain W6 where 6: "world_free k a W5 = Some W6" "same_world W5 W6" "viewed W6 (?V[k := (?V ! k)\<lparr>vw_foreign := ?F\<rparr>])"
    using world_free_correct [OF 5(2), of k a ?F] k by auto
  have "?V[k := (?V ! k)\<lparr>vw_foreign := ?F\<rparr>] = V" using k(1) by simp
  with 6(3) have "viewed W6 V" by (simp only:)
  with 4(1) 5(1) 6(1) same_world_trans [OF 4(2) same_world_trans [OF 5(3) 6(2)]] show ?thesis by blast
qed

text \<open>A fold state together with its own blocks.\<close>

definition fold_in :: "nat list \<Rightarrow> view list \<Rightarrow> 'u skiparray_fold_state \<Rightarrow> world \<Rightarrow> pending \<times> bindings list \<Rightarrow> bool" where
  "fold_in ks V fs W st \<longleftrightarrow> ks \<noteq> [] \<and> fresh_blocks (fs_sa0 fs) (fs_self fs) (ids_block fs) V \<and>
     folding ks (with_blocks (fs_sa0 fs) (fs_self fs) (ids_block fs) V) fs W st"

abbreviation fold_deliver :: "'u skiparray_fold_state \<Rightarrow> batch \<Rightarrow> 'u \<Rightarrow> 'u option" where
  "fold_deliver fs \<equiv> deliver (cb_fold fs) (cb_merge fs) (fs_use_values fs)"

lemma fold_next_done:
  assumes f: "fold_in ks V fs W st" and p: "fst (pull (snd (cb_cmp fs)) st) = []"
  shows "\<exists>W'. skiparray_fold_next fs W u = Some (SKIPARRAY_FOLD_NEXT_DONE, None, W', u) \<and> viewed W' V \<and> same_world W W'"
proof -
  obtain pend rems where st: "st = (pend, rems)" by (cases st)
  let ?V = "with_blocks (fs_sa0 fs) (fs_self fs) (ids_block fs) V"
  have g: "folding ks ?V fs W (pend, rems)" "ks \<noteq> []" "fresh_blocks (fs_sa0 fs) (fs_self fs) (ids_block fs) V"
    using f st by (simp_all add: fold_in_def)
  note l = folding_lengths [OF g(1)]
  have "pairs_left st = {#}" by (rule pull_done [OF p])
  then have e: "pend = []" "concat rems = []" using st by (simp_all add: pairs_left_def)
  then have z: "ids_available fs = 0" "iter_live fs = 0" using l(2,7) by simp_all
  obtain V1 where h: "viewed W V1" "hands (fs_type fs) ks (map is_iter (iter_states fs)) rems ?V V1" "queue fs pend"
    using g(1) by (rule foldingE) simp
  have "\<exists>W'. skiparray_fold_halt (Some fs) W = Some W' \<and> viewed W' V \<and> same_world W W'"
    by (rule halt_correct [OF h(1,2) g(3)]) (use queueD(4) [OF h(3)] l(6) g(2) in simp_all)
  then show ?thesis using z l(3,5) by (auto simp: skiparray_fold_next_def)
qed

lemma fold_next_more:
  assumes f: "fold_in ks V fs W st" and p: "pull (snd (cb_cmp fs)) st = (pend, rems)" "pend \<noteq> []"
  shows "\<exists>fs' W'. skiparray_fold_next fs W u =
      map_option (\<lambda>u'. (SKIPARRAY_FOLD_NEXT_OK, Some fs', W', u')) (fold_deliver fs (fst (take_batch pend)) u) \<and>
    fold_in ks V fs' W' (snd (take_batch pend), rems) \<and> same_fold fs fs' \<and> same_world W W'"
proof -
  let ?V = "with_blocks (fs_sa0 fs) (fs_self fs) (ids_block fs) V"
  have g: "folding ks ?V fs W st" "ks \<noteq> []" "fresh_blocks (fs_sa0 fs) (fs_self fs) (ids_block fs) V"
    using f by (simp_all add: fold_in_def)
  obtain fs1 W1 where 1: "(if 0 < iter_live fs then step_active_iterators fs W else Some (fs, W)) = Some (fs1, W1)"
    "folding ks ?V fs1 W1 (pend, rems)" "same_fold fs fs1" "same_world W W1"
    using fill_correct [OF g(1)] p(1) by auto
  obtain V1 where h: "queue fs1 pend" "viewed W1 V1" "hands (fs_type fs1) ks (map is_iter (iter_states fs1)) rems ?V V1"
    "iter_count fs1 = length ks" "iter_live fs1 = length (filter (\<lambda>r. r \<noteq> []) rems)"
    "\<forall>k \<in> set ks. use_values (W1 ! k) = fs_use_values fs1"
    "\<not> fs_use_values fs1 \<longrightarrow> (\<forall>s \<in> set (iter_states fs1). snd (is_pair s) = 0)" using 1(2) by (rule foldingE) simp
  obtain fs2 where 2: "call_with_next fs1 (iter_count fs1) u = map_option (Pair fs2) (fold_deliver fs1 (fst (take_batch pend)) u)"
    "same_hands fs1 fs2" "queue fs2 (snd (take_batch pend))" using call_with_next_correct [OF h(1) p(2)] by blast
  have e: "same_fold fs1 fs2" "iter_live fs2 = iter_live fs1" "map is_iter (iter_states fs2) = map is_iter (iter_states fs1)"
    "map is_pair (iter_states fs2) = map is_pair (iter_states fs1)" using 2(2) by (simp_all add: same_hands_def)
  have null: "is_pair ` set (iter_states fs2) = is_pair ` set (iter_states fs1)" using e(4) by (simp only: set_map [symmetric])
  have "folding ks ?V fs2 W1 (snd (take_batch pend), rems)"
    unfolding folding_def fst_conv snd_conv
  proof (intro conjI exI [of _ V1])
    show "\<not> fs_use_values fs2 \<longrightarrow> (\<forall>s \<in> set (iter_states fs2). snd (is_pair s) = 0)"
    proof (intro impI ballI)
      fix s assume "\<not> fs_use_values fs2" and s: "s \<in> set (iter_states fs2)"
      then have "\<not> fs_use_values fs1" using e(1) by (simp add: same_fold_def)
      moreover have "is_pair s \<in> is_pair ` set (iter_states fs1)" using s null by blast
      ultimately show "snd (is_pair s) = 0" using h(7) by auto
    qed
  qed (use 2(3) h e(1-3) in \<open>simp_all add: same_fold_def\<close>)
  then have "fold_in ks V fs2 W1 (snd (take_batch pend), rems)"
    using g(2,3) 1(3) e(1) by (simp add: fold_in_def same_fold_def)
  moreover have "skiparray_fold_next fs W u =
      map_option (\<lambda>u'. (SKIPARRAY_FOLD_NEXT_OK, Some fs2, W1, u')) (fold_deliver fs (fst (take_batch pend)) u)"
  proof -
    obtain pend0 rems0 where st: "st = (pend0, rems0)" by (cases st)
    note l = folding_lengths [OF g(1) [unfolded st]]
    have "\<not> (iter_live fs = 0 \<and> ids_available fs = 0)"
    proof
      assume "iter_live fs = 0 \<and> ids_available fs = 0"
      then have "pend0 = []" "concat rems0 = []" using l(2,7) by simp_all
      then have "pairs_left (pend, rems) = {#}"
        using pull_left(1) [of "snd (cb_cmp fs)" st] unfolding p(1) by (simp add: st pairs_left_def del: concat_eq_Nil_conv)
      with p(2) show False by (simp add: pairs_left_def)
    qed
    then show ?thesis using l(3,5) 1(1,3) 2(1)
      by (cases "fold_deliver fs (fst (take_batch pend)) u") (auto simp: skiparray_fold_next_def same_fold_def)
  qed
  ultimately show ?thesis using 1(3,4) e(1) same_fold_trans by blast
qed

section \<open>The whole fold\<close>

lemma fold_loop_correct:
  assumes "fold_in ks V fs W st"
  shows "case for_c (fold_deliver fs) (batches (snd (cb_cmp fs)) st) u of
      None \<Rightarrow> loop_c fold_loop (fs, W, u) = None
    | Some u' \<Rightarrow> \<exists>W'. loop_c fold_loop (fs, W, u) = Some (W', u') \<and> viewed W' V \<and> same_world W W'"
  using assms
proof (induction "batches (snd (cb_cmp fs)) st" arbitrary: fs W st u)
  case Nil
  have p: "fst (pull (snd (cb_cmp fs)) st) = []"
    using Nil.hyps by (simp add: batches.simps [of _ st] Let_def split: if_splits)
  obtain W' where "skiparray_fold_next fs W u = Some (SKIPARRAY_FOLD_NEXT_DONE, None, W', u)" "viewed W' V" "same_world W W'"
    using fold_next_done [OF Nil.prems p] by blast
  moreover from this have "loop_c fold_loop (fs, W, u) = Some (W', u)" by (intro loop_c_Inr) (simp add: fold_loop_def)
  ultimately show ?case by (simp add: Nil.hyps [symmetric])
next
  case (Cons b bs)
  let ?c = "snd (cb_cmp fs)"
  obtain pend rems where p: "pull ?c st = (pend, rems)" by (cases "pull ?c st")
  have n: "pend \<noteq> []" using Cons.hyps(2) p by (auto simp: batches.simps [of _ st])
  have b: "b = fst (take_batch pend)" "bs = batches ?c (snd (take_batch pend), rems)"
    using Cons.hyps(2) p n by (simp_all add: batches.simps [of _ st])
  obtain fs' W' where 1: "skiparray_fold_next fs W u =
      map_option (\<lambda>u'. (SKIPARRAY_FOLD_NEXT_OK, Some fs', W', u')) (fold_deliver fs b u)"
    "fold_in ks V fs' W' (snd (take_batch pend), rems)" "same_fold fs fs'" "same_world W W'"
    using fold_next_more [OF Cons.prems p n] unfolding b(1) by blast
  have e: "fold_deliver fs' = fold_deliver fs" "cb_cmp fs' = cb_cmp fs" using 1(3) by (simp_all add: same_fold_def)
  have eq: "batches ?c st = b # bs" using Cons.hyps(2) by simp
  show ?case
  proof (cases "fold_deliver fs b u")
    case None
    have "fold_loop (fs, W, u) = None" using 1(1) None by (simp add: fold_loop_def)
    then have "loop_c fold_loop (fs, W, u) = None" by (subst loop_c.simps) simp
    with None eq show ?thesis by simp
  next
    case (Some u1)
    have "fold_loop (fs, W, u) = Some (Inl (fs', W', u1))" using 1(1) Some by (simp add: fold_loop_def)
    then have l: "loop_c fold_loop (fs, W, u) = loop_c fold_loop (fs', W', u1)" by (rule loop_c_Inl)
    have IH: "case for_c (fold_deliver fs) bs u1 of
        None \<Rightarrow> loop_c fold_loop (fs', W', u1) = None
      | Some u' \<Rightarrow> \<exists>W2. loop_c fold_loop (fs', W', u1) = Some (W2, u') \<and> viewed W2 V \<and> same_world W' W2"
      using Cons.hyps(1) [of fs' "(snd (take_batch pend), rems)" W' u1] b(2) 1(2) e by simp
    have f: "for_c (fold_deliver fs) (batches ?c st) u = for_c (fold_deliver fs) bs u1" using Some eq by simp
    show ?thesis unfolding f l using IH same_world_trans [OF 1(4)] by (cases "for_c (fold_deliver fs) bs u1") auto
  qed
qed

text \<open>The callbacks of all skiparrays are those of the first.\<close>

definition callbacks_agree :: "world \<Rightarrow> nat list \<Rightarrow> bool" where
  "callbacks_agree W ks \<longleftrightarrow> (\<forall>k \<in> set ks. fst (cmp (W ! k)) = fst (cmp (W ! hd ks)) \<and> fst (mem (W ! k)) = fst (mem (W ! hd ks)) \<and>
     free_cb (W ! k) = free_cb (W ! hd ks) \<and> use_values (W ! k) = use_values (W ! hd ks))"

text \<open>
  They are compared by address; that equal addresses give the same order takes, besides, that
  the skiparrays pass data to the comparison callback that make no difference to it.
\<close>

definition same_order :: "world \<Rightarrow> nat list \<Rightarrow> bool" where
  "same_order W ks \<longleftrightarrow> (\<forall>k \<in> set ks. call_cmp (W ! k) = call_cmp (W ! hd ks))"

lemma check_callbacks_ok:
  assumes "k0 < length W" "\<forall>k \<in> set ks. k < length W"
  shows "check_callbacks W (Some k0) (map Some ks) = Some (\<forall>k \<in> set ks. fst (cmp (W ! k)) = fst (cmp (W ! k0)) \<and>
    fst (mem (W ! k)) = fst (mem (W ! k0)) \<and> free_cb (W ! k) = free_cb (W ! k0) \<and> use_values (W ! k) = use_values (W ! k0))"
  using assms(2) by (induction ks) (use assms(1) in auto)

lemma those_map_all_Some: "those (map Some ks) = Some ks"
  by (induction ks) simp_all

lemma multi_init_correct:
  assumes v: "viewed W V" and ks: "ks \<noteq> []" "length ks < 256" "\<forall>k \<in> set ks. k < length W" "callbacks_agree W ks"
    and m: "length ks = 1 \<or> merge \<noteq> None"
  shows "\<exists>res r W'. skiparray_fold_multi_init ty (Some (map Some ks)) (Some f) merge True W = Some (res, r, W') \<and> same_world W W' \<and>
    (res = SKIPARRAY_FOLD_ERROR_MEMORY \<and> r = None \<and> viewed W' V \<and> (\<exists>k \<in> set ks. may_refuse (W ! k)) \<or>
     res = SKIPARRAY_FOLD_OK \<and> (\<exists>fs. r = Some fs \<and> fold_in ks V fs W' ([], map (all_of ty V) ks) \<and>
       cb_cmp fs = cmp (W ! hd ks) \<and> fold_deliver fs = deliver f merge (use_values (W ! hd ks))))"
proof -
  let ?k = "hd ks"
  have k: "?k \<in> set ks" "?k < length W" "?k < length V" using ks viewedD(1) [OF v] by auto
  have n: "\<not> (length ks < 1 \<or> \<not> True \<or> 1 < length ks \<and> Option.is_none merge)" using ks(1) m by (cases ks; cases merge) auto
  have hs: "hd (map Some ks) = Some ?k" using ks(1) by (rule list.map_sel)
  have chk: "check_callbacks W (Some ?k) (map Some ks) = Some True"
    using check_callbacks_ok [OF k(2) ks(3)] ks(4) by (simp add: callbacks_agree_def)
  obtain r1 W1 where 1: "world_alloc ?k (sizeof_fold_state + length ks * sizeof_iter_state) W = Some (r1, W1)" "same_world W W1"
    "case r1 of None \<Rightarrow> viewed W1 V \<and> may_refuse (W ! ?k)
     | Some a \<Rightarrow> a \<notin> vw_foreign (V ! ?k) \<and> viewed W1 (V[?k := (V ! ?k)\<lparr>vw_foreign := insert a (vw_foreign (V ! ?k))\<rparr>])"
    using world_alloc_correct [OF v k(3)] by blast
  note init = skiparray_fold_multi_init_def [of ty "Some (map Some ks)" "Some f" merge True W]
  have refuse: "may_refuse (W ! j)" if "same_world W W'" "may_refuse (W' ! j)" "j \<in> set ks" for W' j
  proof -
    have "same_but_iters (W ! j) (W' ! j)" using that(1,3) ks(3) by (auto simp: list_all2_conv_all_nth)
    then show ?thesis using that(2) by (simp add: same_but_itersD(14))
  qed
  show ?thesis
  proof (cases r1)
    case None
    then have "skiparray_fold_multi_init ty (Some (map Some ks)) (Some f) merge True W = Some (SKIPARRAY_FOLD_ERROR_MEMORY, None, W1)"
      using n hs chk k(2) 1(1) those_map_all_Some [of ks] by (simp add: init)
    then show ?thesis using 1(2,3) None k(1) by auto
  next
    case r1: (Some a)
    let ?V1 = "V[?k := (V ! ?k)\<lparr>vw_foreign := insert a (vw_foreign (V ! ?k))\<rparr>]"
    have v1: "viewed W1 ?V1" "a \<notin> vw_foreign (V ! ?k)" using 1(3) r1 by simp_all
    obtain r2 W2 where 2: "world_alloc ?k (length ks) W1 = Some (r2, W2)" "same_world W1 W2"
      "case r2 of None \<Rightarrow> viewed W2 ?V1 \<and> may_refuse (W1 ! ?k)
       | Some b \<Rightarrow> b \<notin> vw_foreign (?V1 ! ?k) \<and> viewed W2 (?V1[?k := (?V1 ! ?k)\<lparr>vw_foreign := insert b (vw_foreign (?V1 ! ?k))\<rparr>])"
      using world_alloc_correct [OF v1(1), of ?k "length ks"] k(3) by auto
    have s2: "same_world W W2" by (rule same_world_trans [OF 1(2) 2(2)])
    show ?thesis
    proof (cases r2)
      case None
      then have v2: "viewed W2 ?V1" "may_refuse (W1 ! ?k)" using 2(3) by simp_all
      obtain W3 where 3: "world_free ?k a W2 = Some W3" "same_world W2 W3" "viewed W3 (?V1[?k := (?V1 ! ?k)\<lparr>vw_foreign := vw_foreign (V ! ?k)\<rparr>])"
        using world_free_correct [OF v2(1), of ?k a "vw_foreign (V ! ?k)"] k(3) v1(2) by auto
      have "?V1[?k := (?V1 ! ?k)\<lparr>vw_foreign := vw_foreign (V ! ?k)\<rparr>] = V" using k(3) by simp
      with 3(3) have "viewed W3 V" by (simp only:)
      moreover have "skiparray_fold_multi_init ty (Some (map Some ks)) (Some f) merge True W = Some (SKIPARRAY_FOLD_ERROR_MEMORY, None, W3)"
        using n hs chk k(2) 1(1) r1 2(1) None 3(1) those_map_all_Some [of ks] by (simp add: init)
      ultimately show ?thesis using same_world_trans [OF s2 3(2)] refuse [OF 1(2) v2(2) k(1)] k(1) by auto
    next
      case (Some b)
      let ?V = "with_blocks ?k a b V"
      have fb: "fresh_blocks ?k a b V" using 2(3) Some v1(2) k(3) by (simp add: fresh_blocks_def)
      have v2: "viewed W2 ?V" using 2(3) Some k(3) by (simp add: with_blocks_def)
      have c0: "\<forall>j \<in> set ks. j < length ?V" using ks(3) viewedD(1) [OF v] by simp
      have h0: "hands ty [] (map is_iter []) (map (all_of ty ?V) []) ?V ?V" using hands_start by simp
      obtain ok its n' W3 V3 where 3: "open_iters ty ks [] 0 W2 = Some (ok, its, n', W3)" "viewed W3 V3" "same_world W2 W3"
        "if ok then hands ty ([] @ ks) (map is_iter its) (map (all_of ty ?V) ([] @ ks)) ?V V3 \<and>
           (\<forall>s \<in> set its. is_state s = PS_NONE \<and> is_pair s = (0, 0)) \<and>
           n' = length (filter (\<lambda>k. vw_pairs (?V ! k) \<noteq> []) ([] @ ks))
         else (\<exists>k \<in> set ks. may_refuse (W2 ! k)) \<and> (\<exists>ds' rems'. hands ty ds' (map is_iter its) rems' ?V V3)"
        using open_iters_correct [OF h0 v2 c0, of 0] ks(2) by auto
      have s3: "same_world W W3" by (rule same_world_trans [OF s2 3(3)])
      show ?thesis
      proof (cases ok)
        case False
        then obtain ds' rems' j where f: "hands ty ds' (map is_iter its) rems' ?V V3" "j \<in> set ks" "may_refuse (W2 ! j)"
          using 3(4) by auto
        obtain W4 W5 W6 where 4: "world_free ?k b W3 = Some W4" "for_c close_iter its W4 = Some W5" "world_free ?k a W5 = Some W6"
          "same_world W3 W6" "viewed W6 V" using abandon_correct [OF 3(2) f(1) fb] by blast
        have "skiparray_fold_multi_init ty (Some (map Some ks)) (Some f) merge True W = Some (SKIPARRAY_FOLD_ERROR_MEMORY, None, W6)"
          using n hs chk k(2) 1(1) r1 2(1) Some 3(1) False 4(1-3) those_map_all_Some [of ks] by (simp add: init)
        then show ?thesis using 4(5) same_world_trans [OF s3 4(4)] refuse [OF s2 f(3,2)] f(2) by auto
      next
        case True
        let ?fs = "\<lparr>fs_self = a, fs_type = ty, fs_use_values = use_values (W ! ?k), cb_fold = f,
          cb_cmp = cmp (W ! ?k), cb_free = free_cb (W ! ?k), cb_merge = merge, fs_sa0 = ?k,
          ids_available = 0, ids_offset = 0, ids_block = b,
          ids_current = replicate (length ks) 0, iter_count = length ks, iter_live = n', iter_states = its\<rparr>"
        have h: "hands ty ks (map is_iter its) (map (all_of ty V) ks) ?V V3"
          "\<forall>s \<in> set its. is_state s = PS_NONE \<and> is_pair s = (0, 0)"
          "n' = length (filter (\<lambda>k. vw_pairs (V ! k) \<noteq> []) ks)" using 3(4) True by simp_all
        have "skiparray_fold_multi_init ty (Some (map Some ks)) (Some f) merge True W = Some (SKIPARRAY_FOLD_OK, Some ?fs, W3)"
          using n hs chk k(2) 1(1) r1 2(1) Some 3(1) True those_map_all_Some [of ks] by (simp add: init)
        moreover have "fold_in ks V ?fs W3 ([], map (all_of ty V) ks)"
        proof -
          have l: "length its = length ks" using handsD(1) [OF h(1)] by simp
          have "queue ?fs []" using l h(2) ks(2) by (simp add: queue_def)
          moreover have "n' = length (filter (\<lambda>r. r \<noteq> []) (map (all_of ty V) ks))"
            unfolding h(3) by (cases ty) (simp_all add: filter_map comp_def directed_def)
          moreover have "use_values (W3 ! j) = use_values (W ! ?k)" if j: "j \<in> set ks" for j
          proof -
            have "same_but_iters (W ! j) (W3 ! j)" using s3 j ks(3) by (auto simp: list_all2_conv_all_nth)
            then show ?thesis using ks(4) j by (simp add: callbacks_agree_def same_but_itersD)
          qed
          ultimately have "folding ks ?V ?fs W3 ([], map (all_of ty V) ks)"
            unfolding folding_def using 3(2) h(1,2) by auto
          then show ?thesis using fb ks(1) by (simp add: fold_in_def)
        qed
        ultimately show ?thesis using s3 by auto
      qed
    qed
  qed
qed

text \<open>A client's whole fold over the skiparrays \<open>ks\<close>.\<close>

abbreviation fold_over :: "skiparray_fold_type \<Rightarrow> nat list \<Rightarrow> 'u fold_fun \<Rightarrow> 'u merge_fun option \<Rightarrow> world \<Rightarrow> 'u \<Rightarrow>
    (skiparray_fold_res \<times> world \<times> 'u) option" where
  "fold_over ty ks f merge W u \<equiv>
     run_fold (skiparray_fold_multi_init ty (Some (map Some ks)) (Some f) merge True W) u"

lemma run_fold_correct:
  assumes v: "viewed W V" and ks: "ks \<noteq> []" "length ks < 256" "\<forall>k \<in> set ks. k < length W" "callbacks_agree W ks"
    and m: "length ks = 1 \<or> merge \<noteq> None"
  shows "(\<exists>W'. fold_over ty ks f merge W u = Some (SKIPARRAY_FOLD_ERROR_MEMORY, W', u) \<and> viewed W' V \<and> same_world W W' \<and> (\<exists>k \<in> set ks. may_refuse (W ! k))) \<or>
    (case for_c (deliver f merge (use_values (W ! hd ks))) (batches (call_cmp (W ! hd ks)) ([], map (all_of ty V) ks)) u of
       None \<Rightarrow> fold_over ty ks f merge W u = None
     | Some u' \<Rightarrow> \<exists>W'. fold_over ty ks f merge W u = Some (SKIPARRAY_FOLD_OK, W', u') \<and> viewed W' V \<and> same_world W W')"
proof -
  obtain res r W1 where 1: "skiparray_fold_multi_init ty (Some (map Some ks)) (Some f) merge True W = Some (res, r, W1)" "same_world W W1"
    "res = SKIPARRAY_FOLD_ERROR_MEMORY \<and> r = None \<and> viewed W1 V \<and> (\<exists>k \<in> set ks. may_refuse (W ! k)) \<or>
     res = SKIPARRAY_FOLD_OK \<and> (\<exists>fs. r = Some fs \<and> fold_in ks V fs W1 ([], map (all_of ty V) ks) \<and>
       cb_cmp fs = cmp (W ! hd ks) \<and> fold_deliver fs = deliver f merge (use_values (W ! hd ks)))"
    using multi_init_correct [OF v ks m, of ty f] by (elim exE conjE) (rule that)
  from 1(3) show ?thesis
  proof
    assume "res = SKIPARRAY_FOLD_ERROR_MEMORY \<and> r = None \<and> viewed W1 V \<and> (\<exists>k \<in> set ks. may_refuse (W ! k))"
    then show ?thesis using 1(1,2) by (intro disjI1) (simp add: run_fold_def)
  next
    assume "res = SKIPARRAY_FOLD_OK \<and> (\<exists>fs. r = Some fs \<and> fold_in ks V fs W1 ([], map (all_of ty V) ks) \<and>
       cb_cmp fs = cmp (W ! hd ks) \<and> fold_deliver fs = deliver f merge (use_values (W ! hd ks)))"
    then obtain fs where fs: "res = SKIPARRAY_FOLD_OK" "r = Some fs" "fold_in ks V fs W1 ([], map (all_of ty V) ks)"
      "cb_cmp fs = cmp (W ! hd ks)" "fold_deliver fs = deliver f merge (use_values (W ! hd ks))" by blast
    have "fold_over ty ks f merge W u = Option.bind (loop_c fold_loop (fs, W1, u)) (\<lambda>(W', u'). Some (SKIPARRAY_FOLD_OK, W', u'))"
      using 1(1) fs(1,2) by (simp add: run_fold_def)
    with fold_loop_correct [OF fs(3), of u] same_world_trans [OF 1(2)] show ?thesis
      unfolding fs(4,5) by (intro disjI2) (auto split: option.splits)
  qed
qed

text \<open>The lists of pairs that a fold starts with.\<close>

lemma mset_all_of: "mset (concat (map (all_of ty V) ks)) = mset (concat (map (\<lambda>k. vw_pairs (V ! k)) ks))"
  by (induction ks) (simp_all add: directed_def split: skiparray_fold_type.splits)

lemma views_comparator:
  assumes "viewed W V" "k < length W"
  shows "comparator (call_cmp (W ! k))" "ascending (call_cmp (W ! k)) (map fst (vw_pairs (V ! k)))"
  using represents_ascending [OF iter_view_represents [OF viewedD(2) [OF assms(1)]]] viewedD(1) [OF assms(1)] assms(2) by auto

lemma merging_views:
  assumes v: "viewed W V" and ks: "\<forall>k \<in> set ks. k < length W" "same_order W ks"
  shows "merging (call_cmp (W ! hd ks)) ([], map (all_of SKIPARRAY_FOLD_LEFT V) ks)"
proof (rule merging_start, rule ballI)
  fix r assume "r \<in> set (map (all_of SKIPARRAY_FOLD_LEFT V) ks)"
  then obtain k where k: "k \<in> set ks" "r = vw_pairs (V ! k)" by (auto simp: directed_def)
  have "call_cmp (W ! k) = call_cmp (W ! hd ks)" using ks(2) k(1) by (simp add: same_order_def)
  with views_comparator(2) [OF v, of k] k ks(1) show "ascending (call_cmp (W ! hd ks)) (map fst r)" by simp
qed

text \<open>A fold over one skiparray hands over its pairs one by one, in the direction asked for.\<close>

lemma deliver_alone: "for_c (deliver f merge uv) (map Alone ps) u = for_c (\<lambda>p. f (fst p) (snd p)) ps u"
  by (induction ps arbitrary: u) (auto simp: deliver_def split: Option.bind_splits)

lemma viewed_one: "viewed [sa] [v] \<longleftrightarrow> view_of sa v" "viewed W [v] \<longleftrightarrow> (\<exists>sa. W = [sa] \<and> view_of sa v)"
  by (auto simp: viewed_def list_all2_Cons2)

lemma fold_correct:
  assumes v: "iter_view sa ps its F pos"
  shows "(\<exists>sa'. skiparray_fold ty (Some 0) (Some f) [sa] u = Some (SKIPARRAY_FOLD_ERROR_MEMORY, [sa'], u) \<and>
      iter_view sa' ps its F pos \<and> same_but_iters sa sa' \<and> may_refuse sa) \<or>
    (case for_c (\<lambda>p. f (fst p) (snd p)) (directed ty ps) u of
       None \<Rightarrow> skiparray_fold ty (Some 0) (Some f) [sa] u = None
     | Some u' \<Rightarrow> \<exists>sa'. skiparray_fold ty (Some 0) (Some f) [sa] u = Some (SKIPARRAY_FOLD_OK, [sa'], u') \<and>
         iter_view sa' ps its F pos \<and> same_but_iters sa sa')"
proof -
  let ?v = "\<lparr>vw_pairs = ps, vw_iters = its, vw_foreign = F, vw_pos = pos\<rparr>"
  have w: "viewed [sa] [?v]" using v by (simp add: viewed_one)
  have e: "skiparray_fold ty (Some 0) (Some f) [sa] u = fold_over ty [0] f None [sa] u"
    by (simp add: skiparray_fold_def skiparray_fold_init_def)
  have agree: "callbacks_agree [sa] [0]" by (simp add: callbacks_agree_def)
  have one: "viewed W' [?v] \<and> same_world [sa] W' \<longleftrightarrow>
      (\<exists>sa'. W' = [sa'] \<and> iter_view sa' ps its F pos \<and> same_but_iters sa sa')" for W'
    by (auto simp: viewed_one list_all2_Cons1)
  have "(\<exists>W'. fold_over ty [0] f None [sa] u = Some (SKIPARRAY_FOLD_ERROR_MEMORY, W', u) \<and> (viewed W' [?v] \<and> same_world [sa] W') \<and>
      may_refuse sa) \<or>
    (case for_c (\<lambda>p. f (fst p) (snd p)) (directed ty ps) u of
       None \<Rightarrow> fold_over ty [0] f None [sa] u = None
     | Some u' \<Rightarrow> \<exists>W'. fold_over ty [0] f None [sa] u = Some (SKIPARRAY_FOLD_OK, W', u') \<and> (viewed W' [?v] \<and> same_world [sa] W'))"
    using run_fold_correct [OF w _ _ _ agree, of None ty f u] by (simp add: batches_one deliver_alone)
  then show ?thesis unfolding e one by (fastforce split: option.splits)
qed

section \<open>Halting\<close>

text \<open>The states of a fold after any number of calls.\<close>

inductive fold_progress :: "'u skiparray_fold_state \<Rightarrow> world \<Rightarrow> 'u skiparray_fold_state \<Rightarrow> world \<Rightarrow> bool" for fs0 W0 where
  fold_started: "fold_progress fs0 W0 fs0 W0"
| fold_stepped: "fold_progress fs0 W0 fs W \<Longrightarrow>
    skiparray_fold_next fs W u = Some (SKIPARRAY_FOLD_NEXT_OK, Some fs', W', u') \<Longrightarrow> fold_progress fs0 W0 fs' W'"

lemma fold_progress_in:
  assumes "fold_progress fs0 W0 fs W" "fold_in ks V fs0 W0 st0"
  shows "\<exists>st. fold_in ks V fs W st \<and> same_world W0 W"
  using assms
proof (induction rule: fold_progress.induct)
  case fold_started
  then show ?case by (intro exI [of _ st0]) simp
next
  case (fold_stepped fs W u fs' W' u')
  then obtain st where st: "fold_in ks V fs W st" "same_world W0 W" by blast
  obtain pend rems where p: "pull (snd (cb_cmp fs)) st = (pend, rems)" by (cases "pull (snd (cb_cmp fs)) st")
  show ?case
  proof (cases "pend = []")
    case True
    with p fold_next_done [OF st(1), of u] fold_stepped.hyps(2) show ?thesis by auto
  next
    case False
    obtain fs1 W1 where 1: "skiparray_fold_next fs W u = map_option (\<lambda>u'. (SKIPARRAY_FOLD_NEXT_OK, Some fs1, W1, u'))
        (fold_deliver fs (fst (take_batch pend)) u)" "fold_in ks V fs1 W1 (snd (take_batch pend), rems)" "same_world W W1"
      using fold_next_more [OF st(1) p False, of u] by blast
    then have "fs' = fs1 \<and> W' = W1" using fold_stepped.hyps(2) by (cases "fold_deliver fs (fst (take_batch pend)) u") simp_all
    with 1(2,3) same_world_trans [OF st(2)] show ?thesis by blast
  qed
qed

lemma fold_in_halt:
  assumes f: "fold_in ks V fs W st"
  shows "\<exists>W'. skiparray_fold_halt (Some fs) W = Some W' \<and> viewed W' V \<and> same_world W W'"
proof -
  obtain pend rems where st: "st = (pend, rems)" by (cases st)
  let ?V = "with_blocks (fs_sa0 fs) (fs_self fs) (ids_block fs) V"
  have g: "folding ks ?V fs W (pend, rems)" "ks \<noteq> []" "fresh_blocks (fs_sa0 fs) (fs_self fs) (ids_block fs) V"
    using f st by (simp_all add: fold_in_def)
  obtain V1 where h: "viewed W V1" "hands (fs_type fs) ks (map is_iter (iter_states fs)) rems ?V V1" "queue fs pend"
    using g(1) by (rule foldingE) simp
  show ?thesis
    by (rule halt_correct [OF h(1,2) g(3)]) (use queueD(4) [OF h(3)] folding_lengths(6) [OF g(1)] g(2) in simp_all)
qed

section \<open>Misuse\<close>

lemma check_callbacks_null:
  assumes "\<forall>k \<in> set ks. k < length W"
  shows "check_callbacks W (hd (map Some ks @ None # sas)) (map Some ks @ None # sas) = Some False"
proof -
  have "check_callbacks W (Some k0) (map Some ks @ None # sas) = Some False" if "k0 < length W" for k0
    using assms that by (induction ks) auto
  then show ?thesis using assms by (cases ks) (simp, simp del: check_callbacks.simps)
qed

lemma multi_init_misuse:
  assumes "length sas < 1 \<or> \<not> out \<or> 1 < length sas \<and> merge = None \<or> check_callbacks W (hd sas) sas = Some False"
  shows "skiparray_fold_multi_init ty (Some sas) cb merge out W = Some (SKIPARRAY_FOLD_ERROR_MISUSE, None, W)"
  using assms by (cases cb; cases merge) (auto simp: skiparray_fold_multi_init_def)

lemma callbacks_agree_check:
  assumes "\<forall>k \<in> set ks. k < length W" "ks \<noteq> []"
  shows "check_callbacks W (hd (map Some ks)) (map Some ks) = Some (callbacks_agree W ks)"
proof -
  have "hd (map Some ks) = Some (hd ks)" "hd ks < length W" using assms by (simp_all add: list.map_sel)
  then show ?thesis using check_callbacks_ok [of "hd ks" W ks] assms(1) by (simp add: callbacks_agree_def)
qed

section \<open>Concrete skiparrays\<close>

lemma sample_has_view: "iter_view sample sample_pairs [] {99} pos" "\<not> may_refuse sample"
  using sample_represents iffD1 [OF represents_iter_view] by (blast, simp add: may_refuse_def sample_def malloc_refusing)

definition sample_view :: view where
  "sample_view = \<lparr>vw_pairs = sample_pairs, vw_iters = [], vw_foreign = {99}, vw_pos = (\<lambda>i. 0)\<rparr>"

lemma sample_callbacks: "callbacks_agree [sample] [0, 0]" "callbacks_agree [sample] [0]" "\<not> callbacks_agree [sample, sample_full] [0, 1]"
  by (simp_all add: callbacks_agree_def sample_full_def sample_def)

lemma sample_order: "same_order [sample] [0, 0]" "same_order [sample] [0]"
  by (simp_all add: same_order_def)

lemma sample_worlds: "viewed [sample] [sample_view]"
  using sample_has_view(1) by (simp add: viewed_def sample_view_def)

lemma sample_cmp: "comparator (call_cmp sample)" "call_cmp sample = cmp_intptr_t"
  "ascending (call_cmp sample) (map fst sample_pairs)" "use_values sample"
  using represents_ascending [OF sample_represents] by (auto simp: sample_env)

text \<open>Two skiparrays with no key in common.\<close>

definition odd_view :: view where
  "odd_view = \<lparr>vw_pairs = odd_pairs, vw_iters = [], vw_foreign = {77}, vw_pos = (\<lambda>i. 0)\<rparr>"

lemma two_worlds:
  "viewed [sample, sample_odd] [sample_view, odd_view]" "callbacks_agree [sample, sample_odd] [0, 1]"
  "same_order [sample, sample_odd] [0, 1]" "\<not> may_refuse sample_odd"
proof -
  have "iter_view sample_odd odd_pairs [] {77} (\<lambda>i. 0)" using sample_odd_represents by (rule iffD1 [OF represents_iter_view])
  then show "viewed [sample, sample_odd] [sample_view, odd_view]"
    using sample_has_view(1) by (simp add: viewed_def sample_view_def odd_view_def)
qed (simp_all add: callbacks_agree_def same_order_def sample_odd_def sample_def may_refuse_def malloc_refusing)

text \<open>The batches of the sample folded with itself.\<close>

lemma sample_batches: "batches cmp_intptr_t ([], [sample_pairs, sample_pairs]) =
  [Equal [(1, 10)], Alone (1, 10), Equal [(2, 20)], Alone (2, 20), Equal [(3, 30)], Alone (3, 30), Equal [(5, 50)], Alone (5, 50)]"
  by code_simp

text \<open>A callback that keeps a log of its calls, and a merge that takes the first of the values.\<close>

definition log_pair :: "bindings fold_fun" where
  "log_pair k v u = Some (u @ [(k, v)])"

definition take_first :: "bindings merge_fun" where
  "take_first ks vs u = Some (0, hd vs, u)"

lemma sample_run:
  "\<exists>W'. fold_over SKIPARRAY_FOLD_LEFT [0, 0] log_pair (Some take_first) [sample] [] = Some (SKIPARRAY_FOLD_OK, W',
     [(1, 10), (1, 10), (2, 20), (2, 20), (3, 30), (3, 30), (5, 50), (5, 50)])"
proof -
  have d: "for_c (deliver log_pair (Some take_first) True)
      (batches (call_cmp sample) ([], map (all_of SKIPARRAY_FOLD_LEFT [sample_view]) [0, 0])) [] =
    Some [(1, 10), (1, 10), (2, 20), (2, 20), (3, 30), (3, 30), (5, 50), (5, 50)]"
    by (simp add: sample_cmp(2) directed_def sample_view_def sample_batches deliver_def log_pair_def take_first_def)
  show ?thesis
    using run_fold_correct [OF sample_worlds _ _ _ sample_callbacks(1), of "Some take_first" SKIPARRAY_FOLD_LEFT log_pair "[]"]
      sample_has_view(2) sample_cmp(4) d by auto
qed



text \<open>A fold started and taken one step.\<close>

lemma sample_started:
  obtains fs W1 fs' W2 u where
    "skiparray_fold_multi_init SKIPARRAY_FOLD_LEFT (Some (map Some [0, 0])) (Some log_pair) (Some take_first) True [sample] =
      Some (SKIPARRAY_FOLD_OK, Some fs, W1)" "skiparray_fold_next fs W1 [] = Some (SKIPARRAY_FOLD_NEXT_OK, Some fs', W2, u)"
proof -
  obtain fs W1 where 1: "skiparray_fold_multi_init SKIPARRAY_FOLD_LEFT (Some (map Some [0, 0])) (Some log_pair) (Some take_first) True [sample] =
      Some (SKIPARRAY_FOLD_OK, Some fs, W1)" "fold_in [0, 0] [sample_view] fs W1 ([], map (all_of SKIPARRAY_FOLD_LEFT [sample_view]) [0, 0])"
    "cb_cmp fs = cmp sample" "fold_deliver fs = deliver log_pair (Some take_first) True"
    using multi_init_correct [OF sample_worlds _ _ _ sample_callbacks(1), of "Some take_first" SKIPARRAY_FOLD_LEFT log_pair]
      sample_has_view(2) sample_cmp(4) by auto
  have p: "pull (snd (cb_cmp fs)) ([], map (all_of SKIPARRAY_FOLD_LEFT [sample_view]) [0, 0]) =
      ([(1, (1, 10), True), (0, (1, 10), False)], [tl sample_pairs, tl sample_pairs])"
    by (simp add: 1(3) sample_cmp(2) pull_def pull_one_def directed_def sample_view_def sample_pairs_def cmp_intptr_t_def upt_rec)
  obtain fs' W2 where "skiparray_fold_next fs W1 [] = Some (SKIPARRAY_FOLD_NEXT_OK, Some fs', W2, [(1, 10)])"
    using fold_next_more [OF 1(2) p, of "[]"] 1(4) by (auto simp: deliver_def take_first_def log_pair_def)
  with 1(1) show thesis by (rule that)
qed

section \<open>Properties\<close>

text \<open>
  C11. A fold over one skiparray, with whatever iterators are active on it, calls the callback
  on every pair once, in the direction asked for, and returns when the calls return;
  afterwards the skiparray, its iterators and its memory are as before, the fold's own
  iterator and blocks given back. Only when the memory callback may refuse can it end with an
  error instead, the callback not called.
\<close>

theorem fold_spec:
  assumes "iter_view sa ps its F pos"
  shows "(\<exists>sa'. skiparray_fold ty (Some 0) (Some f) [sa] u = Some (SKIPARRAY_FOLD_ERROR_MEMORY, [sa'], u) \<and>
      iter_view sa' ps its F pos \<and> same_but_iters sa sa' \<and> may_refuse sa) \<or>
    (case for_c (\<lambda>p. f (fst p) (snd p)) (directed ty ps) u of
       None \<Rightarrow> skiparray_fold ty (Some 0) (Some f) [sa] u = None
     | Some u' \<Rightarrow> \<exists>sa'. skiparray_fold ty (Some 0) (Some f) [sa] u = Some (SKIPARRAY_FOLD_OK, [sa'], u') \<and>
         iter_view sa' ps its F pos \<and> same_but_iters sa sa')"
  by (rule fold_correct [OF assms])

theorem fold_spec_witness:
  "\<exists>sa'. skiparray_fold SKIPARRAY_FOLD_RIGHT (Some 0) (Some log_pair) [sample] [] =
      Some (SKIPARRAY_FOLD_OK, [sa'], [(5, 50), (3, 30), (2, 20), (1, 10)]) \<and>
    iter_view sa' sample_pairs [] {99} (\<lambda>i. 0) \<and> same_but_iters sample sa'"
  using fold_spec [OF sample_has_view(1) [of "\<lambda>i. 0"], of SKIPARRAY_FOLD_RIGHT log_pair "[]"] sample_has_view(2)
  by (simp add: directed_def sample_pairs_def log_pair_def)

text \<open>
  C13. A fold over several skiparrays, the same one perhaps more than once, is the fold of a
  list of batches, each a single pair or pairs to merge, and returns when the callbacks
  return. The batches hold every pair of every skiparray once and, from the left over
  skiparrays with one key order, come in that order. Afterwards all skiparrays, their
  iterators and their memory are as before; only when a memory callback may refuse can it end
  with an error instead, no callback called.
\<close>

theorem fold_multi_spec:
  assumes "viewed W V" "ks \<noteq> []" "length ks < 256" "\<forall>k \<in> set ks. k < length W" "callbacks_agree W ks"
    and "length ks = 1 \<or> merge \<noteq> None" "bs = batches (call_cmp (W ! hd ks)) ([], map (all_of ty V) ks)"
  shows "((\<exists>W'. fold_over ty ks f merge W u = Some (SKIPARRAY_FOLD_ERROR_MEMORY, W', u) \<and> viewed W' V \<and> same_world W W' \<and>
        (\<exists>k. k \<in> set ks \<and> may_refuse (W ! k))) \<or>
      (case for_c (deliver f merge (use_values (W ! hd ks))) bs u of
         None \<Rightarrow> fold_over ty ks f merge W u = None
       | Some u' \<Rightarrow> \<exists>W'. fold_over ty ks f merge W u = Some (SKIPARRAY_FOLD_OK, W', u') \<and> viewed W' V \<and> same_world W W')) \<and>
    mset (concat (map batch_pairs bs)) = mset (concat (map (\<lambda>k. vw_pairs (V ! k)) ks)) \<and>
    (if ty = SKIPARRAY_FOLD_LEFT \<and> same_order W ks then sorted_wrt (le_key (call_cmp (W ! hd ks))) (concat (map batch_pairs bs)) else True)"
proof (intro conjI)
  show "(\<exists>W'. fold_over ty ks f merge W u = Some (SKIPARRAY_FOLD_ERROR_MEMORY, W', u) \<and> viewed W' V \<and> same_world W W' \<and>
        (\<exists>k. k \<in> set ks \<and> may_refuse (W ! k))) \<or>
      (case for_c (deliver f merge (use_values (W ! hd ks))) bs u of
         None \<Rightarrow> fold_over ty ks f merge W u = None
       | Some u' \<Rightarrow> \<exists>W'. fold_over ty ks f merge W u = Some (SKIPARRAY_FOLD_OK, W', u') \<and> viewed W' V \<and> same_world W W')"
    unfolding assms(7) using run_fold_correct [OF assms(1-6)] by (simp only: Bex_def)
  show "mset (concat (map batch_pairs bs)) = mset (concat (map (\<lambda>k. vw_pairs (V ! k)) ks))"
    unfolding assms(7) batches_all by (simp add: pairs_left_def mset_all_of)
  show "if ty = SKIPARRAY_FOLD_LEFT \<and> same_order W ks then sorted_wrt (le_key (call_cmp (W ! hd ks))) (concat (map batch_pairs bs)) else True"
    unfolding assms(7) using assms(2,4) views_comparator(1) [OF assms(1)] merging_views [OF assms(1,4)] by (auto intro: batches_sorted)
qed

theorem fold_multi_spec_witness:
  "\<exists>W'. fold_over SKIPARRAY_FOLD_LEFT [0, 0] log_pair (Some take_first) [sample] [] = Some (SKIPARRAY_FOLD_OK, W',
      [(1, 10), (1, 10), (2, 20), (2, 20), (3, 30), (3, 30), (5, 50), (5, 50)]) \<and> viewed W' [sample_view] \<and> same_world [sample] W'"
proof -
  let ?bs = "batches (call_cmp ([sample] ! hd [0, 0])) ([], map (all_of SKIPARRAY_FOLD_LEFT [sample_view]) [0, 0])"
  have d: "for_c (deliver log_pair (Some take_first) (use_values ([sample] ! hd [0, 0]))) ?bs [] =
      Some [(1, 10), (1, 10), (2, 20), (2, 20), (3, 30), (3, 30), (5, 50), (5, 50)]"
    by (simp add: sample_cmp directed_def sample_view_def sample_batches deliver_def log_pair_def take_first_def)
  show ?thesis
    using fold_multi_spec [OF sample_worlds _ _ _ sample_callbacks(1) _ refl, of "Some take_first" SKIPARRAY_FOLD_LEFT log_pair "[]"]
      sample_has_view(2) unfolding d by simp
qed

text \<open>
  C14. When no key is in two of the skiparrays, they share one key order, and their memory is
  never refused, a fold over them from the left does what a plain loop over their pairs sorted
  by key does, with no call of merge: from user state to user state, and not returning just
  when the loop does not.
\<close>

theorem fold_multi_distinct:
  assumes "viewed W V" "ks \<noteq> []" "length ks < 256" "\<forall>k \<in> set ks. k < length W" "callbacks_agree W ks"
    and "length ks = 1 \<or> merge \<noteq> None" "\<forall>k \<in> set ks. \<not> may_refuse (W ! k)" "same_order W ks"
    and "ascending (call_cmp (W ! hd ks)) (map fst qs)" "mset qs = mset (concat (map (\<lambda>k. vw_pairs (V ! k)) ks))"
  shows "map_option (\<lambda>(res, W', u'). (res, u')) (fold_over SKIPARRAY_FOLD_LEFT ks f merge W u) =
    map_option (Pair SKIPARRAY_FOLD_OK) (for_c (\<lambda>p. f (fst p) (snd p)) qs u)"
proof -
  have "mset qs = pairs_left ([], map (all_of SKIPARRAY_FOLD_LEFT V) ks)" using assms(10) by (simp add: pairs_left_def mset_all_of)
  then have b: "batches (call_cmp (W ! hd ks)) ([], map (all_of SKIPARRAY_FOLD_LEFT V) ks) = map Alone qs"
    using assms(2,4,9) views_comparator(1) [OF assms(1)] merging_views [OF assms(1,4,8)] by (auto intro: batches_distinct)
  have "case for_c (\<lambda>p. f (fst p) (snd p)) qs u of
       None \<Rightarrow> fold_over SKIPARRAY_FOLD_LEFT ks f merge W u = None
     | Some u' \<Rightarrow> \<exists>W'. fold_over SKIPARRAY_FOLD_LEFT ks f merge W u = Some (SKIPARRAY_FOLD_OK, W', u') \<and> viewed W' V \<and> same_world W W'"
    using run_fold_correct [OF assms(1-6), of SKIPARRAY_FOLD_LEFT f u] assms(7) unfolding b deliver_alone by blast
  then show ?thesis by (auto split: option.splits)
qed

theorem fold_multi_distinct_witness:
  "map_option (\<lambda>(res, W', u'). (res, u'))
      (fold_over SKIPARRAY_FOLD_LEFT [0, 1] log_pair (Some take_first) [sample, sample_odd] []) =
    Some (SKIPARRAY_FOLD_OK, [(1, 10), (2, 20), (3, 30), (4, 40), (5, 50), (6, 60)])"
proof -
  have "ascending (call_cmp ([sample, sample_odd] ! hd [0, 1])) (map fst [(1, 10), (2, 20), (3, 30), (4, 40), (5, 50), (6, 60)])"
    by (simp add: sample_cmp(2) cmp_intptr_t_def)
  from fold_multi_distinct [OF two_worlds(1) _ _ _ two_worlds(2) _ _ two_worlds(3) this, of "Some take_first" log_pair "[]"]
  show ?thesis using sample_has_view(2) two_worlds(4)
    by (simp add: sample_view_def sample_pairs_def odd_view_def odd_pairs_def log_pair_def)
qed

text \<open>
  C35. A fold may be halted after any number of steps: halting returns, closes the iterators
  still open, and gives back the state and its array, leaving every skiparray, its other
  iterators and its memory as before the fold was started.
\<close>

theorem fold_halt_spec:
  assumes "viewed W V" "ks \<noteq> []" "length ks < 256" "\<forall>k \<in> set ks. k < length W" "callbacks_agree W ks"
    and "length ks = 1 \<or> merge \<noteq> None"
    and "skiparray_fold_multi_init ty (Some (map Some ks)) (Some f) merge True W = Some (SKIPARRAY_FOLD_OK, Some fs, W1)"
    and "fold_progress fs W1 fs' W2"
  shows "\<exists>W3. skiparray_fold_halt (Some fs') W2 = Some W3 \<and> viewed W3 V \<and> same_world W W3"
proof -
  have f: "fold_in ks V fs W1 ([], map (all_of ty V) ks)" "same_world W W1"
    using multi_init_correct [OF assms(1-6), of ty f] assms(7) by auto
  obtain st where st: "fold_in ks V fs' W2 st" "same_world W1 W2" using fold_progress_in [OF assms(8) f(1)] by blast
  obtain W3 where W3: "skiparray_fold_halt (Some fs') W2 = Some W3" "viewed W3 V" "same_world W2 W3"
    using fold_in_halt [OF st(1)] by blast
  from same_world_trans [OF same_world_trans [OF f(2) st(2)] W3(3)] W3(1,2) show ?thesis by blast
qed

theorem fold_halt_spec_witness:
  "\<exists>fs W1 fs' W2 W3 u.
    skiparray_fold_multi_init SKIPARRAY_FOLD_LEFT (Some [Some 0, Some 0]) (Some log_pair) (Some take_first) True [sample] =
      Some (SKIPARRAY_FOLD_OK, Some fs, W1) \<and>
    skiparray_fold_next fs W1 [] = Some (SKIPARRAY_FOLD_NEXT_OK, Some fs', W2, u) \<and>
    skiparray_fold_halt (Some fs') W2 = Some W3 \<and> viewed W3 [sample_view] \<and> same_world [sample] W3"
proof -
  obtain fs W1 fs' W2 u where s:
    "skiparray_fold_multi_init SKIPARRAY_FOLD_LEFT (Some (map Some [0, 0])) (Some log_pair) (Some take_first) True [sample] =
      Some (SKIPARRAY_FOLD_OK, Some fs, W1)" "skiparray_fold_next fs W1 [] = Some (SKIPARRAY_FOLD_NEXT_OK, Some fs', W2, u)"
    by (rule sample_started)
  have "fold_progress fs W1 fs' W2" by (rule fold_stepped [OF fold_started s(2)])
  from fold_halt_spec [OF sample_worlds _ _ _ sample_callbacks(1) _ s(1) this] s show ?thesis by auto
qed

text \<open>
  C36. What starting a fold refuses as misuse, creating no state and touching no skiparray: no
  array or no callback, an empty array, no place for the state, several skiparrays without a
  merge callback, a NULL anywhere among skiparrays that agree or not, the first or only one
  included, or skiparrays whose cmp, mem or free callbacks or use of values differ. A fold
  over one skiparray that is NULL is refused in the same way.
\<close>

theorem fold_multi_misuse:
  assumes "\<forall>k \<in> set ks. k < length W"
  shows "skiparray_fold_multi_init ty None cb merge out W = Some (SKIPARRAY_FOLD_ERROR_MISUSE, None, W) \<and>
    skiparray_fold_multi_init ty arr None merge out W = Some (SKIPARRAY_FOLD_ERROR_MISUSE, None, W) \<and>
    skiparray_fold_multi_init ty (Some []) cb merge out W = Some (SKIPARRAY_FOLD_ERROR_MISUSE, None, W) \<and>
    skiparray_fold_multi_init ty (Some sas) cb merge False W = Some (SKIPARRAY_FOLD_ERROR_MISUSE, None, W) \<and>
    skiparray_fold_multi_init ty (Some (a # b # sas)) cb None out W = Some (SKIPARRAY_FOLD_ERROR_MISUSE, None, W) \<and>
    skiparray_fold_multi_init ty (Some (map Some ks @ None # sas)) cb merge out W = Some (SKIPARRAY_FOLD_ERROR_MISUSE, None, W) \<and>
    skiparray_fold_init ty None cb out W = Some (SKIPARRAY_FOLD_ERROR_MISUSE, None, W) \<and>
    (callbacks_agree W ks \<or>
     skiparray_fold_multi_init ty (Some (map Some ks)) cb merge out W = Some (SKIPARRAY_FOLD_ERROR_MISUSE, None, W))"
proof (intro conjI)
  show "skiparray_fold_multi_init ty None cb merge out W = Some (SKIPARRAY_FOLD_ERROR_MISUSE, None, W)"
    "skiparray_fold_multi_init ty arr None merge out W = Some (SKIPARRAY_FOLD_ERROR_MISUSE, None, W)"
    by (simp_all add: skiparray_fold_multi_init_def split: option.splits)
  show empty: "skiparray_fold_multi_init ty (Some []) cb merge out W = Some (SKIPARRAY_FOLD_ERROR_MISUSE, None, W)"
    by (rule multi_init_misuse) simp
  show "skiparray_fold_multi_init ty (Some sas) cb merge False W = Some (SKIPARRAY_FOLD_ERROR_MISUSE, None, W)"
    "skiparray_fold_multi_init ty (Some (a # b # sas)) cb None out W = Some (SKIPARRAY_FOLD_ERROR_MISUSE, None, W)"
    by (rule multi_init_misuse; simp)+
  show "skiparray_fold_multi_init ty (Some (map Some ks @ None # sas)) cb merge out W = Some (SKIPARRAY_FOLD_ERROR_MISUSE, None, W)"
    by (rule multi_init_misuse) (use check_callbacks_null [OF assms] in blast)
  show "skiparray_fold_init ty None cb out W = Some (SKIPARRAY_FOLD_ERROR_MISUSE, None, W)"
    unfolding skiparray_fold_init_def by (rule multi_init_misuse) simp
  show "callbacks_agree W ks \<or>
      skiparray_fold_multi_init ty (Some (map Some ks)) cb merge out W = Some (SKIPARRAY_FOLD_ERROR_MISUSE, None, W)"
    using empty callbacks_agree_check [OF assms] multi_init_misuse [of "map Some ks" out merge W ty cb]
    by (cases "ks = []"; cases "callbacks_agree W ks") simp_all
qed

theorem fold_multi_misuse_witness:
  "skiparray_fold_multi_init SKIPARRAY_FOLD_LEFT (Some [Some 0, Some 1]) (Some log_pair) (Some take_first) True [sample, sample_full] =
      Some (SKIPARRAY_FOLD_ERROR_MISUSE, None, [sample, sample_full]) \<and>
    skiparray_fold_multi_init SKIPARRAY_FOLD_LEFT (Some [Some 0, Some 1, None]) (Some log_pair) (Some take_first) True [sample, sample_full] =
      Some (SKIPARRAY_FOLD_ERROR_MISUSE, None, [sample, sample_full]) \<and>
    skiparray_fold_multi_init SKIPARRAY_FOLD_LEFT (Some [None, Some 0]) (Some log_pair) (Some take_first) True [sample, sample_full] =
      Some (SKIPARRAY_FOLD_ERROR_MISUSE, None, [sample, sample_full]) \<and>
    skiparray_fold_init SKIPARRAY_FOLD_LEFT None (Some log_pair) True [sample, sample_full] =
      Some (SKIPARRAY_FOLD_ERROR_MISUSE, None, [sample, sample_full])"
  using fold_multi_misuse [of "[0, 1]" "[sample, sample_full]" SKIPARRAY_FOLD_LEFT "Some log_pair" "Some take_first" True None "[]" None None]
    fold_multi_misuse [of "[]" "[sample, sample_full]" SKIPARRAY_FOLD_LEFT "Some log_pair" "Some take_first" True None "[Some 0]" None None]
    sample_callbacks(3) by simp

text \<open>
  C38. A fold from the left over skiparrays that share one key order does not call the
  callback once per key. Every key that two or more of the pairs have, so a key in two of the
  skiparrays, is delivered twice: first all its pairs but one are given to merge and the
  callback called with what comes out, then right after that the callback is called once more,
  with the one left out, its key and its own value. So merge never sees all the options. No
  other call is for that key.
\<close>

theorem merge_skips_last:
  assumes "viewed W V" "ks \<noteq> []" "length ks < 256" "\<forall>k \<in> set ks. k < length W" "callbacks_agree W ks"
    and "length ks = 1 \<or> merge \<noteq> None" "same_order W ks"
    and "2 \<le> size {#p \<in># mset (concat (map (\<lambda>k. vw_pairs (V ! k)) ks)). call_cmp (W ! hd ks) key (fst p) = 0#}"
    and "fold_over SKIPARRAY_FOLD_LEFT ks f merge W u = Some (SKIPARRAY_FOLD_OK, W', u')"
  shows "\<exists>xs ps r ys u1 u2 u3.
    mset (ps @ [r]) = {#p \<in># mset (concat (map (\<lambda>k. vw_pairs (V ! k)) ks)). call_cmp (W ! hd ks) key (fst p) = 0#} \<and>
    ps \<noteq> [] \<and> list_all (\<lambda>b. list_all (\<lambda>p. call_cmp (W ! hd ks) key (fst p) \<noteq> 0) (batch_pairs b)) (xs @ ys) \<and>
    for_c (deliver f merge (use_values (W ! hd ks))) xs u = Some u1 \<and>
    deliver f merge (use_values (W ! hd ks)) (Equal ps) u1 = Some u2 \<and>
    f (fst r) (snd r) u2 = Some u3 \<and> for_c (deliver f merge (use_values (W ! hd ks))) ys u3 = Some u'"
proof -
  let ?st = "([], map (all_of SKIPARRAY_FOLD_LEFT V) ks)"
  have c: "comparator (call_cmp (W ! hd ks))" using views_comparator(1) [OF assms(1)] assms(2,4) by simp
  have left: "pairs_left ?st = mset (concat (map (\<lambda>k. vw_pairs (V ! k)) ks))" by (simp add: pairs_left_def mset_all_of)
  obtain xs ps r ys where b: "batches (call_cmp (W ! hd ks)) ?st = xs @ Equal ps # Alone r # ys" "ps \<noteq> []"
    "mset (ps @ [r]) = {#p \<in># pairs_left ?st. call_cmp (W ! hd ks) key (fst p) = 0#}"
    "\<forall>b \<in> set (xs @ ys). \<forall>p \<in> set (batch_pairs b). call_cmp (W ! hd ks) key (fst p) \<noteq> 0"
    using shared_key_batches [OF c merging_views [OF assms(1,4,7)]] assms(8) unfolding left by blast
  have "for_c (deliver f merge (use_values (W ! hd ks))) (xs @ Equal ps # Alone r # ys) u = Some u'"
    using run_fold_correct [OF assms(1-6), of SKIPARRAY_FOLD_LEFT f u] assms(9) unfolding b(1)
    by (auto split: option.splits)
  then obtain u1 u2 u3 where "for_c (deliver f merge (use_values (W ! hd ks))) xs u = Some u1"
    "deliver f merge (use_values (W ! hd ks)) (Equal ps) u1 = Some u2"
    "deliver f merge (use_values (W ! hd ks)) (Alone r) u2 = Some u3"
    "for_c (deliver f merge (use_values (W ! hd ks))) ys u3 = Some u'"
    by (auto simp: for_c_append bind_eq_Some_conv)
  with b(2-4) show ?thesis unfolding left
    by (intro exI [of _ xs] exI [of _ ps] exI [of _ r] exI [of _ ys] exI [of _ u1] exI [of _ u2] exI [of _ u3])
      (simp add: deliver_def list_all_iff)
qed

theorem merge_skips_last_witness:
  "\<exists>W' xs ps r ys u1 u2 u3. fold_over SKIPARRAY_FOLD_LEFT [0, 0] log_pair (Some take_first) [sample] [] =
      Some (SKIPARRAY_FOLD_OK, W', [(1, 10), (1, 10), (2, 20), (2, 20), (3, 30), (3, 30), (5, 50), (5, 50)]) \<and>
    mset (ps @ [r]) = {#(3, 30), (3, 30)#} \<and> ps \<noteq> [] \<and>
    for_c (deliver log_pair (Some take_first) True) xs [] = Some u1 \<and>
    deliver log_pair (Some take_first) True (Equal ps) u1 = Some u2 \<and> log_pair (fst r) (snd r) u2 = Some u3 \<and>
    for_c (deliver log_pair (Some take_first) True) ys u3 =
      Some [(1, 10), (1, 10), (2, 20), (2, 20), (3, 30), (3, 30), (5, 50), (5, 50)]"
proof -
  obtain W' where r: "fold_over SKIPARRAY_FOLD_LEFT [0, 0] log_pair (Some take_first) [sample] [] =
      Some (SKIPARRAY_FOLD_OK, W', [(1, 10), (1, 10), (2, 20), (2, 20), (3, 30), (3, 30), (5, 50), (5, 50)])"
    using sample_run by blast
  have k: "{#p \<in># mset (concat (map (\<lambda>k. vw_pairs ([sample_view] ! k)) [0, 0])). call_cmp ([sample] ! hd [0, 0]) 3 (fst p) = 0#} =
      {#(3, 30), (3, 30)#}"
    by (simp add: sample_cmp(2) sample_view_def sample_pairs_def cmp_intptr_t_def)
  have "2 \<le> size {#p \<in># mset (concat (map (\<lambda>k. vw_pairs ([sample_view] ! k)) [0, 0])). call_cmp ([sample] ! hd [0, 0]) 3 (fst p) = 0#}"
    unfolding k by simp
  from merge_skips_last [OF sample_worlds _ _ _ sample_callbacks(1) _ sample_order(1) this r, unfolded k]
  obtain xs ps q ys u1 u2 u3 where "mset (ps @ [q]) = {#(3, 30), (3, 30)#}" "ps \<noteq> []"
    "for_c (deliver log_pair (Some take_first) (use_values ([sample] ! hd [0, 0]))) xs [] = Some u1"
    "deliver log_pair (Some take_first) (use_values ([sample] ! hd [0, 0])) (Equal ps) u1 = Some u2"
    "log_pair (fst q) (snd q) u2 = Some u3"
    "for_c (deliver log_pair (Some take_first) (use_values ([sample] ! hd [0, 0]))) ys u3 =
      Some [(1, 10), (1, 10), (2, 20), (2, 20), (3, 30), (3, 30), (5, 50), (5, 50)]"
    by auto
  moreover have "use_values ([sample] ! hd [0, 0])" using sample_cmp(4) by simp
  ultimately show ?thesis using r
    by (intro exI [of _ W'] exI [of _ xs] exI [of _ ps] exI [of _ q] exI [of _ ys] exI [of _ u1] exI [of _ u2] exI [of _ u3]) simp
qed



end
