(* ===== verification/Hof.thy ===== *)
theory Hof
  imports Fold_Run
begin

text \<open>
  \<^verbatim>\<open>skiparray_filter\<close> (\<open>src/skiparray_hof.c\<close>), a client of the fold and of the builder.  The
  state \<open>m\<close> is that of the memory callback for the new skiparray; the client's own state
  behind \<^verbatim>\<open>udata\<close> is passed through the filter function.
\<close>

section \<open>Definitions\<close>

type_synonym 'u filter_fun = "voidp \<Rightarrow> voidp \<Rightarrow> 'u \<Rightarrow> (bool \<times> 'u) option"

record 'u filter_fold_env =
  env_b :: skiparray_builder
  env_udata :: 'u
  env_ok :: bool

definition filter_append :: "'u filter_fun \<Rightarrow> voidp \<Rightarrow> voidp \<Rightarrow> 'u filter_fold_env \<Rightarrow> 'u filter_fold_env option" where
  "filter_append fn key value env = do {
     (keep, u) \<leftarrow> fn key value (env_udata env);
     let env1 = env\<lparr>env_udata := u\<rparr>;
     (if keep then do {
        (res, b) \<leftarrow> skiparray_builder_append (env_b env1) key value;
        Some (env1\<lparr>env_b := b, env_ok := (if res \<noteq> SKIPARRAY_BUILDER_APPEND_OK then False else env_ok env1)\<rparr>)
      } else Some env1)
   }"

text \<open>The configuration of the new skiparray; the fields not named are zero.\<close>

definition filter_config :: "skiparray \<Rightarrow> skiparray_config" where
  "filter_config sa = \<lparr>cfg_node_size = node_size sa, cfg_max_level = max_level sa, cfg_seed = 0,
     cfg_ignore_values = \<not> use_values sa, cfg_cmp = Some (cmp sa), cfg_memory = Some (mem sa),
     cfg_free = free_cb sa, cfg_level = Some (level sa)\<rparr>"

text \<open>
  The result: the new skiparray or NULL, the pairs its \<^verbatim>\<open>free\<close> callback was called with, the
  original afterwards, the client's state, and the memory of the new skiparray.
\<close>

definition skiparray_filter :: "skiparray \<Rightarrow> 'u filter_fun \<Rightarrow> mstate \<Rightarrow> 'u \<Rightarrow>
    (skiparray option \<times> bindings \<times> skiparray \<times> 'u \<times> mstate) option" where
  "skiparray_filter sa fn m u = do {
     (bres, r, m1) \<leftarrow> skiparray_builder_new True (Some (filter_config sa)) True m;
     (if bres \<noteq> SKIPARRAY_BUILDER_NEW_OK then Some (None, [], sa, u, m1)
      else do {
        b \<leftarrow> r;
        (fres, W, env) \<leftarrow> skiparray_fold SKIPARRAY_FOLD_LEFT (Some 0) (Some (filter_append fn)) [sa]
          \<lparr>env_b = b, env_udata = u, env_ok = True\<rparr>;
        sa' \<leftarrow> rd W 0;
        (if fres \<noteq> SKIPARRAY_FOLD_OK \<or> env_ok env \<noteq> True then do {
           (freed, m2) \<leftarrow> skiparray_builder_free (Some (env_b env)) m1;
           Some (None, freed, sa', env_udata env, m2)
         } else do {
           res \<leftarrow> skiparray_builder_finish (env_b env);
           Some (Some res, [], sa', env_udata env, mst res)
         })
      })
   }"

section \<open>Correctness\<close>

text \<open>The pairs a filter function keeps, and the state it ends in.\<close>

fun kept_by :: "'u filter_fun \<Rightarrow> bindings \<Rightarrow> 'u \<Rightarrow> (bindings \<times> 'u) option" where
  "kept_by fn [] u = Some ([], u)"
| "kept_by fn (p # ps) u = do {
     (keep, u1) \<leftarrow> fn (fst p) (snd p) u;
     (qs, u2) \<leftarrow> kept_by fn ps u1;
     Some (if keep then p # qs else qs, u2)
   }"

lemma kept_by_pure: "kept_by (\<lambda>k v u. Some (P k v, u)) ps u = Some (filter (\<lambda>p. P (fst p) (snd p)) ps, u)"
  by (induction ps) auto

lemma kept_by_subset: "kept_by fn ps u = Some (qs, u') \<Longrightarrow> set qs \<subseteq> set ps"
  by (induction ps arbitrary: u qs) (fastforce simp: bind_eq_Some_conv split: if_splits)+

text \<open>
  The loop: the builder holds what was kept so far, or, once an append was refused, a part of it.
\<close>

lemma filter_loop:
  assumes "builder_ok b qs F" "\<not> check_ascending b" "ascending (call_cmp (b_sa b)) (map fst (qs @ ps))"
    "kept_by fn ps u = Some (ks, u')" "\<forall>p \<in> set ps. \<not> use_values (b_sa b) \<longrightarrow> snd p = 0"
  shows "\<exists>b' ok' qs'. for_c (\<lambda>p. filter_append fn (fst p) (snd p)) ps \<lparr>env_b = b, env_udata = u, env_ok = ok\<rparr> =
      Some \<lparr>env_b = b', env_udata = u', env_ok = ok'\<rparr> \<and> same_env (b_sa b) (b_sa b') \<and> builder_ok b' qs' F \<and>
    set qs' \<subseteq> set qs \<union> set ps \<and> (ok' \<longrightarrow> ok \<and> qs' = qs @ ks) \<and> (\<not> ok' \<longrightarrow> \<not> ok \<or> may_refuse (b_sa b))"
  using assms
proof (induction ps arbitrary: b qs u ok ks)
  case Nil
  then show ?case by auto
next
  case (Cons p ps)
  let ?c = "call_cmp (b_sa b)"
  have c: "comparator ?c" using builder_represents [OF Cons.prems(1)] by (auto dest: represents_ascending)
  obtain keep u1 qs1 where f: "fn (fst p) (snd p) u = Some (keep, u1)" "kept_by fn ps u1 = Some (qs1, u')"
    "ks = (if keep then p # qs1 else qs1)"
    using Cons.prems(4) by (auto simp: bind_eq_Some_conv)
  show ?case
  proof (cases keep)
    case False
    have a: "ascending ?c (map fst (qs @ ps))" using Cons.prems(3) by (auto simp: ascending_append)
    have z: "\<forall>q \<in> set ps. \<not> use_values (b_sa b) \<longrightarrow> snd q = 0" using Cons.prems(5) by simp
    have "filter_append fn (fst p) (snd p) \<lparr>env_b = b, env_udata = u, env_ok = ok\<rparr> = Some \<lparr>env_b = b, env_udata = u1, env_ok = ok\<rparr>"
      using f(1) False by (simp add: filter_append_def)
    moreover obtain b' ok' qs' where "for_c (\<lambda>p. filter_append fn (fst p) (snd p)) ps \<lparr>env_b = b, env_udata = u1, env_ok = ok\<rparr> =
        Some \<lparr>env_b = b', env_udata = u', env_ok = ok'\<rparr>" "same_env (b_sa b) (b_sa b')" "builder_ok b' qs' F"
      "set qs' \<subseteq> set qs \<union> set ps" "ok' \<longrightarrow> ok \<and> qs' = qs @ qs1" "\<not> ok' \<longrightarrow> \<not> ok \<or> may_refuse (b_sa b)"
      using Cons.IH [OF Cons.prems(1,2) a f(2) z, of ok] by blast
    ultimately show ?thesis using f(3) False by (intro exI [of _ b'] exI [of _ ok'] exI [of _ qs']) auto
  next
    case True
    have gt: "0 < ?c (fst p) (fst (last qs))" if "qs \<noteq> []"
    proof -
      have "?c (fst (last qs)) (fst p) < 0" using Cons.prems(3) that by (auto simp: ascending_append above_def)
      then show ?thesis using comparator.cmp_swap [OF c] by simp
    qed
    then have np: "\<not> (qs \<noteq> [] \<and> ?c (fst p) (fst (last qs)) \<le> 0)" by auto
    have pv: "(fst p, value_kept (b_sa b) (snd p)) = p" using Cons.prems(5) by (cases p) (auto simp: value_kept_def)
    obtain res b1 where b1: "skiparray_builder_append b (fst p) (snd p) = Some (res, b1)" "same_env (b_sa b) (b_sa b1)"
      "check_ascending b1 = check_ascending b"
      "res = SKIPARRAY_BUILDER_APPEND_OK \<and> builder_ok b1 (qs @ [p]) F \<or>
       res = SKIPARRAY_BUILDER_APPEND_ERROR_MEMORY \<and> builder_ok b1 qs F \<and> may_refuse (b_sa b)"
      using builder_append_correct [OF Cons.prems(1), of "fst p" "snd p"] gt unfolding if_not_P [OF np] pv by blast
    have e: "call_cmp (b_sa b1) = ?c" "use_values (b_sa b1) = use_values (b_sa b)" "mem (b_sa b1) = mem (b_sa b)"
      using b1(2) by (simp_all add: same_env_def)
    have z: "\<forall>q \<in> set ps. \<not> use_values (b_sa b1) \<longrightarrow> snd q = 0" using Cons.prems(5) e(2) by simp
    have nc: "\<not> check_ascending b1" using Cons.prems(2) b1(3) by simp
    have step: "filter_append fn (fst p) (snd p) \<lparr>env_b = b, env_udata = u, env_ok = ok\<rparr> =
        Some \<lparr>env_b = b1, env_udata = u1, env_ok = (if res \<noteq> SKIPARRAY_BUILDER_APPEND_OK then False else ok)\<rparr>"
      using f(1) True b1(1) by (simp add: filter_append_def)
    from b1(4) show ?thesis
    proof
      assume r: "res = SKIPARRAY_BUILDER_APPEND_OK \<and> builder_ok b1 (qs @ [p]) F"
      have a: "ascending (call_cmp (b_sa b1)) (map fst ((qs @ [p]) @ ps))" using Cons.prems(3) e(1) by simp
      obtain b' ok' qs' where "for_c (\<lambda>p. filter_append fn (fst p) (snd p)) ps \<lparr>env_b = b1, env_udata = u1, env_ok = ok\<rparr> =
          Some \<lparr>env_b = b', env_udata = u', env_ok = ok'\<rparr>" "same_env (b_sa b1) (b_sa b')" "builder_ok b' qs' F"
        "set qs' \<subseteq> set (qs @ [p]) \<union> set ps" "ok' \<longrightarrow> ok \<and> qs' = (qs @ [p]) @ qs1" "\<not> ok' \<longrightarrow> \<not> ok \<or> may_refuse (b_sa b1)"
        using Cons.IH [OF conjunct2 [OF r] nc a f(2) z, of ok] by blast
      then show ?thesis using step r f(3) True same_env_trans [OF b1(2)] e(3)
        by (intro exI [of _ b'] exI [of _ ok'] exI [of _ qs']) (auto simp: same_env_refuse [OF b1(2)])
    next
      assume r: "res = SKIPARRAY_BUILDER_APPEND_ERROR_MEMORY \<and> builder_ok b1 qs F \<and> may_refuse (b_sa b)"
      have a: "ascending (call_cmp (b_sa b1)) (map fst (qs @ ps))" using Cons.prems(3) e(1) by (auto simp: ascending_append)
      have b1q: "builder_ok b1 qs F" using r by blast
      obtain b' ok' qs' where "for_c (\<lambda>p. filter_append fn (fst p) (snd p)) ps \<lparr>env_b = b1, env_udata = u1, env_ok = False\<rparr> =
          Some \<lparr>env_b = b', env_udata = u', env_ok = ok'\<rparr>" "same_env (b_sa b1) (b_sa b')" "builder_ok b' qs' F"
        "set qs' \<subseteq> set qs \<union> set ps" "ok' \<longrightarrow> False \<and> qs' = qs @ qs1" "\<not> ok' \<longrightarrow> \<not> False \<or> may_refuse (b_sa b1)"
        using Cons.IH [OF b1q nc a f(2) z, of False] by blast
      then show ?thesis using step r same_env_trans [OF b1(2)]
        by (intro exI [of _ b'] exI [of _ ok'] exI [of _ qs']) auto
    qed
  qed
qed

lemma filter_config_ok: "represents sa ps its F \<Longrightarrow> config_ok (filter_config sa) \<and> cfg_cmp (filter_config sa) \<noteq> None \<and>
    cfg_node_size (filter_config sa) \<noteq> 1"
proof -
  assume "represents sa ps its F"
  then have "cfg_ok sa" unfolding represents_def wf_def by blast
  note c = cfg_okD [OF this]
  show ?thesis using c by (simp add: config_ok_def filter_config_def cfg_mem_def cfg_lev_def)
qed

lemma filter_correct:
  assumes v: "iter_view sa ps its F pos" and k: "kept_by fn ps u = Some (qs, u')"
  shows "\<exists>r freed sa' u1 m'. skiparray_filter sa fn m u = Some (r, freed, sa', u1, m') \<and>
    iter_view sa' ps its F pos \<and> same_but_iters sa sa' \<and>
    (case r of
       Some sb \<Rightarrow> u1 = u' \<and> freed = [] \<and> mst sb = m' \<and> configured (filter_config sa) sb \<and> represents sb qs [] (set (live m))
     | None \<Rightarrow> (may_refuse sa \<or> refusing (snd (mem sa)) m) \<and> set (live m') = set (live m) \<and> set freed \<subseteq> set ps)"
proof -
  let ?cfg = "filter_config sa"
  have r: "represents sa ps its F" by (rule iter_view_represents [OF v])
  have c: "config_ok ?cfg" "\<not> (cfg_cmp ?cfg = None \<or> cfg_node_size ?cfg = 1)" using filter_config_ok [OF r] by simp_all
  have refuse: "refusing (snd (mem sa)) m" if "refusing (snd (cfg_mem ?cfg)) m"
    using that by (simp add: filter_config_def cfg_mem_def)
  obtain bres rb m1 where 1: "skiparray_builder_new True (Some ?cfg) True m = Some (bres, rb, m1)"
    "bres = SKIPARRAY_BUILDER_NEW_ERROR_MEMORY \<and> rb = None \<and> set (live m1) = set (live m) \<and>
       refusing (snd (cfg_mem ?cfg)) m \<or>
     bres = SKIPARRAY_BUILDER_NEW_OK \<and> (\<exists>b. rb = Some b \<and> mst (b_sa b) = m1 \<and> oom m1 = oom m \<and> configured ?cfg (b_sa b) \<and>
       check_ascending b = (\<not> True) \<and> builder_ok b [] (set (live m)))"
    using builder_new_correct [OF c(1), of True m] unfolding if_not_P [OF c(2)] by blast
  from 1(2) show ?thesis
  proof
    assume "bres = SKIPARRAY_BUILDER_NEW_ERROR_MEMORY \<and> rb = None \<and> set (live m1) = set (live m) \<and>
       refusing (snd (cfg_mem ?cfg)) m"
    then show ?thesis using 1(1) v refuse by (simp add: skiparray_filter_def)
  next
    assume "bres = SKIPARRAY_BUILDER_NEW_OK \<and> (\<exists>b. rb = Some b \<and> mst (b_sa b) = m1 \<and> oom m1 = oom m \<and> configured ?cfg (b_sa b) \<and>
       check_ascending b = (\<not> True) \<and> builder_ok b [] (set (live m)))"
    then obtain b where b: "bres = SKIPARRAY_BUILDER_NEW_OK" "rb = Some b" "configured ?cfg (b_sa b)" "\<not> check_ascending b"
      "builder_ok b [] (set (live m))" and bm: "mst (b_sa b) = m1" "oom m1 = oom m" by blast
    have e: "cmp (b_sa b) = cmp sa" "use_values (b_sa b) = use_values sa" "may_refuse (b_sa b) = refusing (snd (mem sa)) m"
      using b(3) bm by (simp_all add: configured_def filter_config_def cfg_mem_def may_refuse_def refusing_def)
    let ?env = "\<lparr>env_b = b, env_udata = u, env_ok = True\<rparr>" and ?f = "filter_append fn"
    have asc: "ascending (call_cmp (b_sa b)) (map fst ([] @ ps))" using represents_ascending [OF r] e(1) by simp
    have z: "\<forall>p \<in> set ps. \<not> use_values (b_sa b) \<longrightarrow> snd p = 0" using represents_null [OF r] e(2) by blast
    obtain b' ok' qs' where l: "for_c (\<lambda>p. ?f (fst p) (snd p)) ps ?env = Some \<lparr>env_b = b', env_udata = u', env_ok = ok'\<rparr>"
      "same_env (b_sa b) (b_sa b')" "builder_ok b' qs' (set (live m))" "set qs' \<subseteq> set [] \<union> set ps"
      "ok' \<longrightarrow> True \<and> qs' = [] @ qs" "\<not> ok' \<longrightarrow> \<not> True \<or> may_refuse (b_sa b)"
      using filter_loop [OF b(5,4) asc k z, of True] by blast
    have freeing: "\<exists>freed m2. skiparray_builder_free (Some d) m1 = Some (freed, m2) \<and> set (live m2) = set (live m) \<and>
        set freed \<subseteq> set ks" if "builder_ok d ks (set (live m))" for d ks
      using builder_free_correct [OF that, of m1] by auto
    consider (memory) sa' where "skiparray_fold SKIPARRAY_FOLD_LEFT (Some 0) (Some ?f) [sa] ?env =
          Some (SKIPARRAY_FOLD_ERROR_MEMORY, [sa'], ?env)" "iter_view sa' ps its F pos" "same_but_iters sa sa'" "may_refuse sa"
      | (ok) sa' where "skiparray_fold SKIPARRAY_FOLD_LEFT (Some 0) (Some ?f) [sa] ?env =
          Some (SKIPARRAY_FOLD_OK, [sa'], \<lparr>env_b = b', env_udata = u', env_ok = ok'\<rparr>)"
          "iter_view sa' ps its F pos" "same_but_iters sa sa'"
      using fold_correct [OF v, of SKIPARRAY_FOLD_LEFT ?f ?env] l(1) by (auto simp: directed_def)
    then show ?thesis
    proof cases
      case memory
      obtain freed m2 where f: "skiparray_builder_free (Some b) m1 = Some (freed, m2)" "set (live m2) = set (live m)" "set freed \<subseteq> {}"
        using freeing [OF b(5)] by auto
      have "skiparray_filter sa fn m u = Some (None, freed, sa', u, m2)"
        using 1(1) b(1,2) memory(1) f(1) by (simp add: skiparray_filter_def)
      with memory(2-4) f(2,3) show ?thesis by auto
    next
      case ok
      show ?thesis
      proof (cases ok')
        case True
        obtain sb where sb: "skiparray_builder_finish b' = Some sb" "same_env (b_sa b') sb" "represents sb qs' [] (set (live m))"
          using builder_finish_correct [OF l(3)] by blast
        have "configured ?cfg sb" using b(3) same_env_trans [OF l(2) sb(2)] by (simp add: configured_def same_env_def)
        moreover have "skiparray_filter sa fn m u = Some (Some sb, [], sa', u', mst sb)"
          using 1(1) b(1,2) ok(1) True sb(1) by (simp add: skiparray_filter_def)
        ultimately show ?thesis using ok(2,3) sb(3) l(5) True by auto
      next
        case False
        obtain freed m2 where f: "skiparray_builder_free (Some b') m1 = Some (freed, m2)" "set (live m2) = set (live m)"
          "set freed \<subseteq> set qs'" using freeing [OF l(3)] by blast
        have "skiparray_filter sa fn m u = Some (None, freed, sa', u', m2)"
          using 1(1) b(1,2) ok(1) False f(1) by (simp add: skiparray_filter_def)
        moreover have "refusing (snd (mem sa)) m" using l(6) False e(3) by simp
        ultimately show ?thesis using ok(2,3) f(2,3) l(4) by auto
      qed
    qed
  qed
qed

section \<open>Properties\<close>

text \<open>
  C12. Filtering always returns when the filter function does. The result is a new skiparray
  with the configuration of the original and exactly the pairs the function keeps, or NULL,
  only when the memory callback may refuse, with all the memory requested for it given back;
  then free has been called on pairs the original still holds. In both cases the original has
  its pairs, iterators and memory as before.
\<close>

theorem filter_spec:
  assumes "iter_view sa ps its F pos" "kept_by fn ps u = Some (qs, u')"
  shows "\<exists>r freed sa' u1 m'. skiparray_filter sa fn m u = Some (r, freed, sa', u1, m') \<and>
    iter_view sa' ps its F pos \<and> same_but_iters sa sa' \<and>
    (case r of
       Some sb \<Rightarrow> u1 = u' \<and> freed = [] \<and> mst sb = m' \<and> configured (filter_config sa) sb \<and> represents sb qs [] (set (live m))
     | None \<Rightarrow> (may_refuse sa \<or> refusing (snd (mem sa)) m) \<and> set (live m') = set (live m) \<and> set freed \<subseteq> set ps)"
  by (rule filter_correct [OF assms])

theorem filter_spec_witness:
  "\<exists>sb sa' m'. skiparray_filter sample (\<lambda>k v u. Some (odd k, u + v)) \<lparr>live = [5], clock = 0, oom = []\<rparr> 0 =
      Some (Some sb, [], sa', 110, m') \<and>
    iter_view sa' sample_pairs [] {99} (\<lambda>i. 0) \<and> same_but_iters sample sa' \<and>
    configured (filter_config sample) sb \<and> represents sb [(1, 10), (3, 30), (5, 50)] [] {5}"
proof -
  have k: "kept_by (\<lambda>k v u. Some (odd k, u + v)) sample_pairs 0 = Some ([(1, 10), (3, 30), (5, 50)], 110)"
    by (simp add: sample_pairs_def)
  obtain r freed sa' u1 m' where f:
    "skiparray_filter sample (\<lambda>k v u. Some (odd k, u + v)) \<lparr>live = [5], clock = 0, oom = []\<rparr> 0 = Some (r, freed, sa', u1, m')"
    "iter_view sa' sample_pairs [] {99} (\<lambda>i. 0)" "same_but_iters sample sa'"
    "case r of
       Some sb \<Rightarrow> u1 = 110 \<and> freed = [] \<and> mst sb = m' \<and> configured (filter_config sample) sb \<and>
         represents sb [(1, 10), (3, 30), (5, 50)] [] (set (live \<lparr>live = [5], clock = 0, oom = []\<rparr>))
     | None \<Rightarrow> (may_refuse sample \<or> refusing (snd (mem sample)) \<lparr>live = [5], clock = 0, oom = []\<rparr>) \<and> set (live m') = set (live \<lparr>live = [5], clock = 0, oom = []\<rparr>) \<and> set freed \<subseteq> set sample_pairs"
    using filter_spec [OF sample_has_view(1) k] by blast
  note f
  moreover have "\<not> refusing (snd (mem sample)) \<lparr>live = [5], clock = 0, oom = []\<rparr>" by (simp add: sample_def malloc_refusing)
  ultimately show ?thesis using sample_has_view(2) by (cases r) auto
qed

end
