(* ===== verification/Bench.thy ===== *)
theory Bench
  imports Hof
begin

text \<open>
  The benchmark program (\<open>src/bench.c\<close>) as a client of the library: every benchmark with its
  assertions, the options, and \<^verbatim>\<open>main\<close>.  Left out are the clock and the printing.  A limit is a natural number, and \<open>of_nat\<close> its conversion to 64 bits.  The state
  is that of the memory callback; what a benchmark returns is the state after it.
\<close>

section \<open>Configurations\<close>

text \<open>The file-scope variables \<^verbatim>\<open>sa_config\<close> and \<^verbatim>\<open>sa_config_no_values\<close>.\<close>

record bench_globals =
  sa_config :: skiparray_config
  sa_config_no_values :: skiparray_config

text \<open>
  \<^verbatim>\<open>memory_cb\<close>, for both of its uses.  It asks \<^verbatim>\<open>malloc\<close> for one word more, in which it
  saves the size; a block is named by the address handed to the library.  The counters are of
  type \<^verbatim>\<open>size_t\<close>.  The library sees of it the requests it makes of \<^verbatim>\<open>malloc\<close>.
\<close>

record memory_stats =
  memory_used :: "64 word"
  memory_hwm :: "64 word"
  saved_size :: "addr \<rightharpoonup> 64 word"

definition memory_cb :: "addr option \<Rightarrow> nat \<Rightarrow> memory_stats \<Rightarrow> mstate \<Rightarrow> (addr option \<times> memory_stats \<times> mstate) option" where
  "memory_cb p nbytes st m =
     (case p of
        Some a \<Rightarrow> do {
          assert_c (nbytes = 0);
          word \<leftarrow> saved_size st a;
          m' \<leftarrow> mem_free a m;
          Some (None, st\<lparr>memory_used := memory_used st - word\<rparr>, m')
        }
      | None \<Rightarrow>
        (let used = memory_used st + of_nat nbytes;
             st1 = st\<lparr>memory_used := used, memory_hwm := (if used > memory_hwm st then used else memory_hwm st)\<rparr>
         in (case mem_alloc malloc (sizeof_ptr + nbytes) m of
               (None, m') \<Rightarrow> Some (None, st1, m')
             | (Some a, m') \<Rightarrow> Some (Some a, st1\<lparr>saved_size := (saved_size st)(a \<mapsto> of_nat nbytes)\<rparr>, m'))))"

definition tracking_malloc :: mem_fun where
  "tracking_malloc m nbytes = malloc m (sizeof_ptr + nbytes)"

definition bench_config :: "nat \<Rightarrow> 64 word \<Rightarrow> bool \<Rightarrow> skiparray_config" where
  "bench_config nsize rng_seed track_memory = \<lparr>cfg_node_size = u16 nsize, cfg_max_level = 0, cfg_seed = rng_seed,
     cfg_ignore_values = False, cfg_cmp = Some (0, cmp_intptr_t),
     cfg_memory = (if track_memory then Some (3, tracking_malloc) else None), cfg_free = None, cfg_level = None\<rparr>"

definition bench_setup :: "nat \<Rightarrow> 64 word \<Rightarrow> bool \<Rightarrow> bench_globals" where
  "bench_setup nsize rng_seed track_memory =
     (let c = bench_config nsize rng_seed track_memory
      in \<lparr>sa_config = c, sa_config_no_values = c\<lparr>cfg_ignore_values := True\<rparr>\<rparr>)"

section \<open>Parts of benchmarks\<close>

type_synonym bench = "bench_globals \<Rightarrow> nat \<Rightarrow> mstate \<Rightarrow> mstate option"

definition prime :: "64 word" where "prime = 7919"

text \<open>\<^verbatim>\<open>(i * prime) % limit\<close> in \<^verbatim>\<open>size_t\<close>.\<close>

definition access :: "nat \<Rightarrow> nat \<Rightarrow> voidp" where
  "access limit i = (of_nat i * prime) mod of_nat limit"

text \<open>The builder is configured with \<^verbatim>\<open>sa_config\<close>, whatever the argument \<^verbatim>\<open>config\<close>.\<close>

definition sequential_build :: "bench_globals \<Rightarrow> skiparray_config \<Rightarrow> nat \<Rightarrow> mstate \<Rightarrow> skiparray option" where
  "sequential_build G config limit m = do {
     (bnres, r, m1) \<leftarrow> skiparray_builder_new True (Some (sa_config G)) False m;
     b \<leftarrow> r;
     b1 \<leftarrow> for_c (\<lambda>i b. do {
         (bares, b') \<leftarrow> skiparray_builder_append b (of_nat i) (if cfg_ignore_values config then 0 else of_nat i);
         Some b'
       }) [0..<limit] b;
     skiparray_builder_finish b1
   }"

definition fresh_skiparray :: "skiparray_config \<Rightarrow> mstate \<Rightarrow> skiparray option" where
  "fresh_skiparray c m = do { (nres, r, m1) \<leftarrow> skiparray_new True (Some c) m; r }"

definition dispose :: "skiparray \<Rightarrow> mstate option" where
  "dispose sa = do { (freed, m) \<leftarrow> skiparray_free sa; Some m }"

text \<open>\<^verbatim>\<open>v\<close> after \<^verbatim>\<open>intptr_t v = 0; skiparray_get(sa, k, &v)\<close>.\<close>

definition get_value :: "skiparray \<Rightarrow> voidp \<Rightarrow> voidp option" where
  "get_value sa k = do { r \<leftarrow> skiparray_get sa k; Some (case r of None \<Rightarrow> 0 | Some v \<Rightarrow> v) }"

text \<open>The result of a set or of a forget is not looked at.\<close>

definition set_value :: "voidp \<Rightarrow> voidp \<Rightarrow> skiparray \<Rightarrow> skiparray option" where
  "set_value k v sa = do { (res, sa') \<leftarrow> skiparray_set sa k v; Some sa' }"

definition forget_key :: "voidp \<Rightarrow> skiparray \<Rightarrow> skiparray option" where
  "forget_key k sa = do { (res, p, sa') \<leftarrow> skiparray_forget sa k; Some sa' }"

section \<open>The benchmarks\<close>

definition get_sequential :: bench where
  "get_sequential G limit m = do {
     sa \<leftarrow> sequential_build G (sa_config G) limit m;
     for_c (\<lambda>i s. do { let k = of_nat i; v \<leftarrow> get_value sa k; assert_c (v = k) }) [0..<limit] ();
     dispose sa
   }"

definition get_random_access :: bench where
  "get_random_access G limit m = do {
     sa \<leftarrow> sequential_build G (sa_config G) limit m;
     for_c (\<lambda>i s. do { let k = access limit i; v \<leftarrow> get_value sa k; assert_c (v = k) }) [0..<limit] ();
     dispose sa
   }"

definition get_random_access_no_values :: bench where
  "get_random_access_no_values G limit m = do {
     sa \<leftarrow> sequential_build G (sa_config_no_values G) limit m;
     for_c (\<lambda>i s. do { r \<leftarrow> skiparray_get sa (access limit i); Some () }) [0..<limit] ();
     dispose sa
   }"

definition get_nonexistent :: bench where
  "get_nonexistent G limit m = do {
     sa \<leftarrow> sequential_build G (sa_config G) limit m;
     for_c (\<lambda>i s. do { v \<leftarrow> get_value sa (access limit i + of_nat limit); assert_c (v = 0) }) [0..<limit] ();
     dispose sa
   }"

text \<open>The function \<^verbatim>\<open>count\<close>.\<close>

definition count_pairs :: bench where
  "count_pairs G limit m = do {
     sa \<leftarrow> sequential_build G (sa_config G) limit m;
     cnt \<leftarrow> skiparray_count sa;
     assert_c (cnt = limit);
     dispose sa
   }"

definition set_sequential :: bench where
  "set_sequential G limit m = do {
     sa \<leftarrow> fresh_skiparray (sa_config G) m;
     sa1 \<leftarrow> for_c (\<lambda>i. set_value (of_nat i) (of_nat i)) [0..<limit] sa;
     dispose sa1
   }"

definition set_sequential_builder :: bench where
  "set_sequential_builder G limit m = do {
     (bnres, r, m1) \<leftarrow> skiparray_builder_new True (Some (sa_config G)) False m;
     b \<leftarrow> r;
     b1 \<leftarrow> for_c (\<lambda>i b. do { (bares, b') \<leftarrow> skiparray_builder_append b (of_nat i) (of_nat i); Some b' }) [0..<limit] b;
     sa \<leftarrow> skiparray_builder_finish b1;
     dispose sa
   }"

definition set_sequential_builder_no_chk :: bench where
  "set_sequential_builder_no_chk G limit m = do {
     (bnres, r, m1) \<leftarrow> skiparray_builder_new True (Some (sa_config G)) True m;
     b \<leftarrow> r;
     b1 \<leftarrow> for_c (\<lambda>i b. do { (bares, b') \<leftarrow> skiparray_builder_append b (of_nat i) (of_nat i); Some b' }) [0..<limit] b;
     sa \<leftarrow> skiparray_builder_finish b1;
     dispose sa
   }"

definition set_random_access :: bench where
  "set_random_access G limit m = do {
     sa \<leftarrow> fresh_skiparray (sa_config G) m;
     sa1 \<leftarrow> for_c (\<lambda>i. set_value (access limit i) (access limit i)) [0..<limit] sa;
     dispose sa1
   }"

definition set_random_access_no_values :: bench where
  "set_random_access_no_values G limit m = do {
     sa \<leftarrow> fresh_skiparray (sa_config_no_values G) m;
     sa1 \<leftarrow> for_c (\<lambda>i. set_value (access limit i) 0) [0..<limit] sa;
     dispose sa1
   }"

definition set_replacing_sequential :: bench where
  "set_replacing_sequential G limit m = do {
     sa \<leftarrow> sequential_build G (sa_config G) limit m;
     sa1 \<leftarrow> for_c (\<lambda>i. set_value (of_nat i) (of_nat i + 1)) [0..<limit] sa;
     dispose sa1
   }"

definition set_replacing_random_access :: bench where
  "set_replacing_random_access G limit m = do {
     sa \<leftarrow> sequential_build G (sa_config G) limit m;
     sa1 \<leftarrow> for_c (\<lambda>i. set_value (access limit i) (access limit i + 1)) [0..<limit] sa;
     dispose sa1
   }"

definition forget_sequential :: bench where
  "forget_sequential G limit m = do {
     sa \<leftarrow> sequential_build G (sa_config G) limit m;
     sa1 \<leftarrow> for_c (\<lambda>i. forget_key (of_nat i)) [0..<limit] sa;
     dispose sa1
   }"

definition forget_random_access :: bench where
  "forget_random_access G limit m = do {
     sa \<leftarrow> sequential_build G (sa_config G) limit m;
     sa1 \<leftarrow> for_c (\<lambda>i. forget_key (access limit i)) [0..<limit] sa;
     dispose sa1
   }"

definition forget_random_access_no_values :: bench where
  "forget_random_access_no_values G limit m = do {
     sa \<leftarrow> sequential_build G (sa_config_no_values G) limit m;
     sa1 \<leftarrow> for_c (\<lambda>i. forget_key (access limit i)) [0..<limit] sa;
     dispose sa1
   }"

definition forget_nonexistent :: bench where
  "forget_nonexistent G limit m = do {
     sa \<leftarrow> sequential_build G (sa_config G) limit m;
     sa1 \<leftarrow> for_c (\<lambda>i. forget_key (access limit i + of_nat limit)) [0..<limit] sa;
     dispose sa1
   }"

text \<open>\<^verbatim>\<open>k\<close> and \<^verbatim>\<open>v\<close> are 0 unless they are set.\<close>

definition popped_key :: "(voidp \<times> voidp option) option \<Rightarrow> voidp" where
  "popped_key p = (case p of None \<Rightarrow> 0 | Some (k, v) \<Rightarrow> k)"

definition popped_value :: "(voidp \<times> voidp option) option \<Rightarrow> voidp" where
  "popped_value p = (case p of Some (k, Some v) \<Rightarrow> v | _ \<Rightarrow> 0)"

definition pop_first :: bench where
  "pop_first G limit m = do {
     sa \<leftarrow> sequential_build G (sa_config G) limit m;
     sa1 \<leftarrow> for_c (\<lambda>i sa. do {
         (res, p, sa') \<leftarrow> skiparray_pop_first sa;
         assert_c (res \<noteq> SKIPARRAY_POP_EMPTY);
         assert_c (res = SKIPARRAY_POP_OK \<or> res = SKIPARRAY_POP_EMPTY);
         assert_c (popped_value p = popped_key p);
         Some sa'
       }) [0..<limit] sa;
     dispose sa1
   }"

definition pop_last :: bench where
  "pop_last G limit m = do {
     sa \<leftarrow> sequential_build G (sa_config G) limit m;
     sa1 \<leftarrow> for_c (\<lambda>i sa. do {
         (res, p, sa') \<leftarrow> skiparray_pop_last sa;
         assert_c (res = SKIPARRAY_POP_OK \<or> res = SKIPARRAY_POP_EMPTY);
         assert_c (popped_value p = popped_key p);
         Some sa'
       }) [0..<limit] sa;
     dispose sa1
   }"

definition member_sequential :: bench where
  "member_sequential G limit m = do {
     sa \<leftarrow> sequential_build G (sa_config G) limit m;
     for_c (\<lambda>i s. do { r \<leftarrow> skiparray_member sa (of_nat i); assert_c r }) [0..<limit] ();
     dispose sa
   }"

definition member_random_access :: bench where
  "member_random_access G limit m = do {
     sa \<leftarrow> sequential_build G (sa_config G) limit m;
     for_c (\<lambda>i s. do { r \<leftarrow> skiparray_member sa (access limit i); assert_c r }) [0..<limit] ();
     dispose sa
   }"

text \<open>The loops that read an iterator to the end; a value not written may not be read.\<close>

definition sum_step :: "addr \<Rightarrow> skiparray \<times> voidp \<Rightarrow> (skiparray \<times> voidp + skiparray \<times> voidp) option" where
  "sum_step i = (\<lambda>(sa, total). do {
     (k, v) \<leftarrow> skiparray_iter_get sa i;
     v \<leftarrow> v;
     (res, sa') \<leftarrow> skiparray_iter_next sa i;
     Some (if res = SKIPARRAY_ITER_STEP_OK then Inl (sa', total + v) else Inr (sa', total + v))
   })"

definition read_on_step :: "addr \<Rightarrow> skiparray \<Rightarrow> (skiparray + skiparray) option" where
  "read_on_step i sa = do {
     (k, v) \<leftarrow> skiparray_iter_get sa i;
     (res, sa') \<leftarrow> skiparray_iter_next sa i;
     Some (if res = SKIPARRAY_ITER_STEP_OK then Inl sa' else Inr sa')
   }"

text \<open>The function \<^verbatim>\<open>sum\<close>.\<close>

definition sum_values :: bench where
  "sum_values G limit m = do {
     sa \<leftarrow> fresh_skiparray (sa_config G) m;
     (sa1, actual) \<leftarrow> for_c (\<lambda>i (sa, actual). do {
         sa' \<leftarrow> set_value (of_nat i) (of_nat i) sa;
         Some (sa', actual + of_nat i)
       }) [0..<limit] (sa, 0);
     (res, r, sa2) \<leftarrow> skiparray_iter_new sa1;
     assert_c (res = SKIPARRAY_ITER_NEW_OK);
     i \<leftarrow> r;
     sa3 \<leftarrow> skiparray_iter_seek_endpoint sa2 i SKIPARRAY_ITER_SEEK_FIRST;
     (sa4, total) \<leftarrow> loop_c (sum_step i) (sa3, 0);
     sa5 \<leftarrow> skiparray_iter_free sa4 (Some i);
     m' \<leftarrow> dispose sa5;
     assert_c (total = actual);
     Some m'
   }"

definition sum_partway :: bench where
  "sum_partway G limit m = do {
     sa \<leftarrow> fresh_skiparray (sa_config G) m;
     sa1 \<leftarrow> for_c (\<lambda>i. set_value (of_nat i) (of_nat i)) [0..<limit] sa;
     (res, r, sa2) \<leftarrow> skiparray_iter_new sa1;
     assert_c (res = SKIPARRAY_ITER_NEW_OK);
     i \<leftarrow> r;
     (sres, sa3) \<leftarrow> skiparray_iter_seek sa2 i (of_nat (limit div 2));
     assert_c (sres = SKIPARRAY_ITER_SEEK_FOUND);
     sa4 \<leftarrow> loop_c (read_on_step i) sa3;
     sa5 \<leftarrow> skiparray_iter_free sa4 (Some i);
     dispose sa5
   }"

definition benchmarks :: "(string \<times> bench) list" where
  "benchmarks =
    [(''get_sequential'', get_sequential),
     (''get_random_access'', get_random_access),
     (''get_random_access_no_values'', get_random_access_no_values),
     (''get_nonexistent'', get_nonexistent),
     (''set_sequential'', set_sequential),
     (''set_sequential_builder'', set_sequential_builder),
     (''set_sequential_builder_no_chk'', set_sequential_builder_no_chk),
     (''set_random_access'', set_random_access),
     (''set_random_access_no_values'', set_random_access_no_values),
     (''set_replacing_sequential'', set_replacing_sequential),
     (''set_replacing_random_access'', set_replacing_random_access),
     (''forget_sequential'', forget_sequential),
     (''forget_random_access'', forget_random_access),
     (''forget_random_access_no_values'', forget_random_access_no_values),
     (''forget_nonexistent'', forget_nonexistent),
     (''count'', count_pairs),
     (''pop_first'', pop_first),
     (''pop_last'', pop_last),
     (''member_sequential'', member_sequential),
     (''member_random_access'', member_random_access),
     (''sum'', sum_values),
     (''sum_partway'', sum_partway)]"

section \<open>The program\<close>

definition MAX_LIMITS :: nat where "MAX_LIMITS = 64"
definition DEF_LIMIT :: nat where "DEF_LIMIT = 1000000"
definition DEF_CYCLES :: nat where "DEF_CYCLES = 1"

text \<open>
  \<^verbatim>\<open>parse_limits\<close> on the numbers the comma-separated parts of its argument stand for, by
  \<^verbatim>\<open>strtok\<close> and \<^verbatim>\<open>strtoul\<close>; \<open>ls\<close> and \<open>n\<close> are \<^verbatim>\<open>limits\<close> and \<^verbatim>\<open>limit_count\<close>.  It returns
  whether all are good, or the program exits.
\<close>

datatype parsed = Bad_limit | Too_many | Parsed "nat list" nat

fun parse_loop :: "nat list \<Rightarrow> nat list \<Rightarrow> nat \<Rightarrow> parsed option" where
  "parse_loop [] ls n = Some (Parsed ls n)"
| "parse_loop (nlimit # args) ls n =
     (if nlimit \<le> 1 then Some Bad_limit
      else do {
        ls' \<leftarrow> wr ls n nlimit;
        (if n = MAX_LIMITS then Some Too_many else parse_loop args ls' (u8 (n + 1)))
      })"

text \<open>\<^verbatim>\<open>qsort\<close> with \<^verbatim>\<open>cmp_size_t\<close> puts numbers in ascending order.\<close>

definition parse_limits :: "nat list \<Rightarrow> nat list \<Rightarrow> nat \<Rightarrow> parsed option" where
  "parse_limits args ls n = do {
     r \<leftarrow> parse_loop args ls n;
     Some (case r of Parsed ls' n' \<Rightarrow> Parsed (sort (take n' ls') @ drop n' ls') n' | _ \<Rightarrow> r)
   }"

text \<open>
  The file-scope variables the options set, and the options as \<^verbatim>\<open>getopt\<close> and \<^verbatim>\<open>strtoul\<close> deliver
  them.  \<^verbatim>\<open>usage\<close> ends the program with a failure.
\<close>

record settings =
  arg_cycles :: nat
  arg_seed :: "64 word"
  arg_limit_count :: nat
  arg_limits :: "nat list"
  arg_node_size :: nat
  arg_name :: "string option"
  arg_track_memory :: bool

datatype opt = Opt_h | Opt_c nat | Opt_l "nat list" | Opt_m | Opt_n string | Opt_r "64 word" | Opt_s nat | Opt_unknown

datatype exit_code = EXIT_SUCCESS | EXIT_FAILURE

definition default_settings :: settings where
  "default_settings = \<lparr>arg_cycles = DEF_CYCLES, arg_seed = 0, arg_limit_count = 0, arg_limits = replicate MAX_LIMITS 0,
     arg_node_size = SKIPARRAY_DEF_NODE_SIZE, arg_name = None, arg_track_memory = False\<rparr>"

fun handle_arg :: "opt \<Rightarrow> settings \<Rightarrow> (exit_code + settings) option" where
  "handle_arg Opt_h g = Some (Inl EXIT_FAILURE)"
| "handle_arg (Opt_c n) g = Some (if n = 0 then Inl EXIT_FAILURE else Inr (g\<lparr>arg_cycles := n\<rparr>))"
| "handle_arg (Opt_l ns) g = do {
     r \<leftarrow> parse_limits ns (arg_limits g) (arg_limit_count g);
     Some (case r of
        Parsed ls n \<Rightarrow> Inr (g\<lparr>arg_limits := ls, arg_limit_count := n\<rparr>)
      | Bad_limit \<Rightarrow> Inl EXIT_FAILURE
      | Too_many \<Rightarrow> Inl EXIT_FAILURE)
   }"
| "handle_arg Opt_m g = Some (Inr (g\<lparr>arg_track_memory := True\<rparr>))"
| "handle_arg (Opt_n s) g = Some (Inr (g\<lparr>arg_name := Some s\<rparr>))"
| "handle_arg (Opt_r x) g = Some (Inr (g\<lparr>arg_seed := x\<rparr>))"
| "handle_arg (Opt_s n) g = Some (if n < 2 then Inl EXIT_FAILURE else Inr (g\<lparr>arg_node_size := n\<rparr>))"
| "handle_arg Opt_unknown g = Some (Inl EXIT_FAILURE)"

fun handle_args :: "opt list \<Rightarrow> settings \<Rightarrow> (exit_code + settings) option" where
  "handle_args [] g = Some (Inr g)"
| "handle_args (a # args) g = do {
     r \<leftarrow> handle_arg a g;
     (case r of Inl e \<Rightarrow> Some (Inl e) | Inr g' \<Rightarrow> handle_args args g')
   }"

text \<open>The loops of \<^verbatim>\<open>main\<close>, over limits, cycles and benchmarks, and \<^verbatim>\<open>main\<close> itself.\<close>

definition run_benchmarks :: "bench_globals \<Rightarrow> string option \<Rightarrow> nat list \<Rightarrow> nat \<Rightarrow> nat \<Rightarrow> mstate \<Rightarrow> mstate option" where
  "run_benchmarks G only ls n cycles m =
     for_c (\<lambda>l_i m. do {
         limit \<leftarrow> rd ls l_i;
         for_c (\<lambda>c_i. for_c (\<lambda>(bname, fn) m.
             if only = None \<or> only = Some bname then fn G limit m else Some m) benchmarks) [0..<cycles] m
       }) [0..<n] m"

definition bench_main :: "opt list \<Rightarrow> mstate \<Rightarrow> (exit_code \<times> mstate) option" where
  "bench_main args m = do {
     r \<leftarrow> handle_args args default_settings;
     (case r of
        Inl e \<Rightarrow> Some (e, m)
      | Inr g \<Rightarrow> do {
          (ls, n) \<leftarrow> (if arg_limit_count g = 0
                    then do { ls \<leftarrow> wr (arg_limits g) 0 DEF_LIMIT; Some (ls, 1) }
                    else Some (arg_limits g, arg_limit_count g));
          (if arg_name g = Some ''help'' then Some (EXIT_SUCCESS, m)
           else do {
             m' \<leftarrow> run_benchmarks (bench_setup (arg_node_size g) (arg_seed g) (arg_track_memory g)) (arg_name g) ls n (arg_cycles g) m;
             Some (EXIT_SUCCESS, m')
           })
        })
   }"

end
