(* ===== verification/Intmap.thy ===== *)
theory Intmap
  imports Contract
begin

text \<open>
  A skiparray whose keys are compared by \<^verbatim>\<open>cmp_intptr_t\<close> as a finite map from signed integers:
  its keys as a type with that order, the map its pairs stand for, and the effect of the
  operations on this map.
\<close>

section \<open>Keys as a linear order\<close>

datatype int_key = Int_key (key_ptr: voidp)

lemma cmp_eq: "cmp_intptr_t a b = 0 \<longleftrightarrow> a = b"
  by (auto simp: cmp_intptr_t_def Let_def intro: signed_word_eqI)

instantiation int_key :: linorder
begin

definition less_eq_int_key :: "int_key \<Rightarrow> int_key \<Rightarrow> bool" where
  "less_eq_int_key a b \<longleftrightarrow> cmp_intptr_t (key_ptr a) (key_ptr b) \<le> 0"

definition less_int_key :: "int_key \<Rightarrow> int_key \<Rightarrow> bool" where
  "less_int_key a b \<longleftrightarrow> cmp_intptr_t (key_ptr a) (key_ptr b) < 0"

instance
proof
  fix x y z :: int_key
  show "x < y \<longleftrightarrow> x \<le> y \<and> \<not> y \<le> x"
    using intptr.cmp_swap [of "key_ptr x" "key_ptr y"] by (auto simp: less_int_key_def less_eq_int_key_def)
  show "x \<le> x" by (simp add: less_eq_int_key_def)
  show "x \<le> y \<Longrightarrow> y \<le> z \<Longrightarrow> x \<le> z" using intptr.cmp_trans by (auto simp: less_eq_int_key_def)
  show "x = y" if "x \<le> y" "y \<le> x"
  proof -
    have "cmp_intptr_t (key_ptr x) (key_ptr y) = 0"
      using that intptr.cmp_le_swap [of "key_ptr y" "key_ptr x"] by (simp add: less_eq_int_key_def)
    then show ?thesis by (intro int_key.expand) (simp add: cmp_eq)
  qed
  show "x \<le> y \<or> y \<le> x" using intptr.cmp_le_swap [of "key_ptr x" "key_ptr y"] by (auto simp: less_eq_int_key_def)
qed

end

section \<open>The map of a list of pairs\<close>

definition int_keys :: "bindings \<Rightarrow> int_key list" where
  "int_keys ps = map (\<lambda>p. Int_key (fst p)) ps"

definition abs_map :: "bindings \<Rightarrow> int_key \<rightharpoonup> voidp" where
  "abs_map ps = map_of (map (\<lambda>p. (Int_key (fst p), snd p)) ps)"

lemma abs_map_simps [simp]:
  "abs_map [] = Map.empty" "abs_map (p # ps) = (abs_map ps)(Int_key (fst p) \<mapsto> snd p)" "int_keys [] = []"
  "int_keys (p # ps) = Int_key (fst p) # int_keys ps" "int_keys (ps @ qs) = int_keys ps @ int_keys qs"
  "length (int_keys ps) = length ps"
  by (simp_all add: abs_map_def int_keys_def)

lemma dom_abs_map [simp]: "dom (abs_map ps) = set (int_keys ps)"
  by (simp add: abs_map_def int_keys_def dom_map_of_conv_image_fst image_image)

lemma abs_map_get: "abs_map ps j = map_option snd (spec_get cmp_intptr_t (key_ptr j) ps)"
  by (induction ps) (auto simp: spec_get_def cmp_eq int_key.expand)

lemma abs_map_set:
  assumes "ascending cmp_intptr_t (map fst ps)"
  shows "abs_map (spec_set cmp_intptr_t rk k v ps) = (abs_map ps)(Int_key k \<mapsto> v)"
proof
  fix j
  show "abs_map (spec_set cmp_intptr_t rk k v ps) j = ((abs_map ps)(Int_key k \<mapsto> v)) j"
    using intptr.spec_get_set_same [OF assms, of "key_ptr j" k rk v] intptr.spec_get_set_other [of "key_ptr j" k rk v ps]
    by (cases "key_ptr j = k") (auto simp: abs_map_get cmp_eq)
qed

lemma abs_map_del: "abs_map (spec_del cmp_intptr_t k ps) = (abs_map ps)(Int_key k := None)"
proof
  fix j
  show "abs_map (spec_del cmp_intptr_t k ps) j = ((abs_map ps)(Int_key k := None)) j"
    using intptr.spec_get_del [of "key_ptr j" k ps] by (cases j) (auto simp: abs_map_get cmp_eq)
qed

lemma ascending_sorted: "ascending cmp_intptr_t (map fst ps) \<longleftrightarrow> sorted_wrt (<) (int_keys ps)"
  by (simp add: ascending_def int_keys_def sorted_wrt_map less_int_key_def)

lemma ascending_listing:
  assumes "ascending cmp_intptr_t (map fst ps)"
  shows "int_keys ps = sorted_list_of_set (dom (abs_map ps))"
  using assms sorted_list_of_set.idem_if_sorted_distinct [of "int_keys ps"]
  by (simp add: ascending_sorted strict_sorted_iff)

text \<open>The map tells the pairs.\<close>

lemma abs_map_nth:
  assumes "ascending cmp_intptr_t (map fst ps)" "p \<in> set ps"
  shows "abs_map ps (Int_key (fst p)) = Some (snd p)"
proof -
  have "distinct (int_keys ps)" using assms(1) by (simp add: ascending_sorted strict_sorted_iff)
  then show ?thesis using assms(2) by (simp add: abs_map_def int_keys_def comp_def image_iff map_of_eq_Some_iff)
      (metis prod.collapse)
qed

lemma abs_map_first:
  assumes "ascending cmp_intptr_t (map fst (p # ps))"
  shows "Min (dom (abs_map (p # ps))) = Int_key (fst p)" "abs_map ps = (abs_map (p # ps))(Int_key (fst p) := None)"
proof -
  have s: "sorted_wrt (<) (Int_key (fst p) # int_keys ps)" using assms unfolding ascending_sorted by simp
  then show "Min (dom (abs_map (p # ps))) = Int_key (fst p)"
    by (intro Min_eqI) (auto simp del: abs_map_simps(2) simp: dom_abs_map less_imp_le)
  have "Int_key (fst p) \<notin> dom (abs_map ps)" using s by auto
  then show "abs_map ps = (abs_map (p # ps))(Int_key (fst p) := None)" by (auto simp: fun_eq_iff domIff)
qed

lemma abs_map_last:
  assumes "ascending cmp_intptr_t (map fst ps)" "ps \<noteq> []"
  shows "Max (dom (abs_map ps)) = Int_key (fst (last ps))" "abs_map (butlast ps) = (abs_map ps)(Int_key (fst (last ps)) := None)"
proof -
  have ps: "ps = butlast ps @ [last ps]" using assms(2) by simp
  have k: "int_keys ps = int_keys (butlast ps) @ [Int_key (fst (last ps))]" using arg_cong [OF ps, of int_keys] by simp
  have s: "sorted_wrt (<) (int_keys (butlast ps) @ [Int_key (fst (last ps))])" using assms(1) unfolding ascending_sorted k .
  moreover have "dom (abs_map ps) = set (int_keys (butlast ps) @ [Int_key (fst (last ps))])" unfolding dom_abs_map k ..
  ultimately show "Max (dom (abs_map ps)) = Int_key (fst (last ps))" by (intro Max_eqI) (auto simp: sorted_wrt_append less_imp_le)
  have "abs_map ps = abs_map [last ps] ++ abs_map (butlast ps)"
    using arg_cong [OF ps, of abs_map] by (simp add: abs_map_def)
  moreover have "Int_key (fst (last ps)) \<notin> set (int_keys (butlast ps))" using s by (auto simp: sorted_wrt_append)
  then have "abs_map (butlast ps) (Int_key (fst (last ps))) = None" by (metis domIff dom_abs_map)
  ultimately show "abs_map (butlast ps) = (abs_map ps)(Int_key (fst (last ps)) := None)"
    by (auto simp: fun_eq_iff map_add_def domIff split: option.splits)
qed

section \<open>The skiparray as a map\<close>

definition is_map :: "skiparray \<Rightarrow> (int_key \<rightharpoonup> voidp) \<Rightarrow> addr set \<Rightarrow> bool" where
  "is_map sa m F \<longleftrightarrow> call_cmp sa = cmp_intptr_t \<and> (\<exists>ps. represents sa ps [] F \<and> abs_map ps = m)"

lemma is_mapI: "represents sa ps [] F \<Longrightarrow> call_cmp sa = cmp_intptr_t \<Longrightarrow> is_map sa (abs_map ps) F"
  by (auto simp: is_map_def)

lemma is_mapE:
  assumes "is_map sa m F"
  obtains ps where "represents sa ps [] F" "call_cmp sa = cmp_intptr_t" "m = abs_map ps" "ascending cmp_intptr_t (map fst ps)"
  using assms represents_ascending(1) by (fastforce simp: is_map_def)

lemma same_env_cmp: "same_env sa sa' \<Longrightarrow> call_cmp sa = c \<Longrightarrow> call_cmp sa' = c"
  by (simp add: same_env_def)

lemma is_map_represents:
  assumes "is_map sa m F"
  shows "represents sa (map (\<lambda>j. (key_ptr j, the (m j))) (sorted_list_of_set (dom m))) [] F"
proof -
  obtain ps where ps: "represents sa ps [] F" "m = abs_map ps" "ascending cmp_intptr_t (map fst ps)"
    using assms by (rule is_mapE)
  have "map (\<lambda>j. (key_ptr j, the (m j))) (int_keys ps) = ps"
    unfolding int_keys_def map_map by (rule map_idI) (simp add: ps(2) abs_map_nth [OF ps(3)])
  with ps(1) show ?thesis unfolding ps(2) by (simp only: ascending_listing [OF ps(3)] flip: ps(2))
qed

text \<open>The reading operations.\<close>

lemma is_map_reads:
  assumes "is_map sa m F"
  shows "skiparray_get sa k = Some (m (Int_key k))" "skiparray_member sa k = Some (Int_key k \<in> dom m)"
    "skiparray_count sa = Some (card (dom m) mod 2 ^ 64)" "finite (dom m)"
proof -
  obtain ps where ps: "represents sa ps [] F" "call_cmp sa = cmp_intptr_t" "m = abs_map ps" "ascending cmp_intptr_t (map fst ps)"
    using assms by (rule is_mapE)
  show g: "skiparray_get sa k = Some (m (Int_key k))" using get_correct [OF ps(1)] ps(2,3) by (simp add: abs_map_get)
  then show "skiparray_member sa k = Some (Int_key k \<in> dom m)" by (auto simp: skiparray_member_def split: option.splits)
  have "distinct (int_keys ps)" using ps(4) by (simp add: ascending_sorted strict_sorted_iff)
  then have "card (dom m) = length ps" using distinct_card ps(3) by fastforce
  then show "skiparray_count sa = Some (card (dom m) mod 2 ^ 64)" using count_correct [OF ps(1)] by simp
  show "finite (dom m)" using ps(3) by simp
qed

lemma is_map_set:
  assumes "is_map sa m F"
  shows "\<exists>res p sa'. skiparray_set_with_pair sa k v rk = Some (res, p, sa') \<and> same_env sa sa' \<and>
    (if res = SKIPARRAY_SET_ERROR_MEMORY then may_refuse sa \<and> is_map sa' m F
     else res = (if Int_key k \<in> dom m then SKIPARRAY_SET_REPLACED else SKIPARRAY_SET_BOUND) \<and>
       is_map sa' (m(Int_key k \<mapsto> value_kept sa v)) F)"
proof -
  obtain ps where ps: "represents sa ps [] F" "call_cmp sa = cmp_intptr_t" "m = abs_map ps" "ascending cmp_intptr_t (map fst ps)"
    using assms by (rule is_mapE)
  obtain res p sa' where s: "skiparray_set_with_pair sa k v rk = Some (res, p, sa')" "set_outcome sa ps [] F rk k v res p sa'"
    using set_with_pair_correct [OF ps(1)] by blast
  have e: "same_env sa sa'" using s(2) by (simp add: set_outcome_def Let_def)
  note c = same_env_cmp [OF e ps(2)]
  have d: "Int_key k \<in> dom m \<longleftrightarrow> spec_get cmp_intptr_t k ps \<noteq> None" using ps(3) by (auto simp: abs_map_get domIff simp del: dom_abs_map)
  have o: "if res = SKIPARRAY_SET_ERROR_MEMORY then represents sa' ps [] F
     else res = (if spec_get cmp_intptr_t k ps \<noteq> None then SKIPARRAY_SET_REPLACED else SKIPARRAY_SET_BOUND) \<and>
       represents sa' (spec_set cmp_intptr_t rk k (value_kept sa v) ps) [] F"
    using s(2) ps(2) by (auto simp: set_outcome_def Let_def value_kept_def split: option.splits)
  show ?thesis
  proof (cases "res = SKIPARRAY_SET_ERROR_MEMORY")
    case True
    then have "may_refuse sa" using set_error_memory s(1) by blast
    with s(1) e o True is_mapI [OF _ c, of ps F] ps(3) show ?thesis by auto
  next
    case False
    with s(1) e o is_mapI [OF _ c, of "spec_set cmp_intptr_t rk k (value_kept sa v) ps" F] abs_map_set [OF ps(4)] ps(3) d
    show ?thesis by auto
  qed
qed

lemma is_map_forget:
  assumes "is_map sa m F"
  shows "\<exists>p sa'. skiparray_forget sa k =
      Some (if Int_key k \<in> dom m then SKIPARRAY_FORGET_OK else SKIPARRAY_FORGET_NOT_FOUND, p, sa') \<and>
    same_env sa sa' \<and> is_map sa' (m(Int_key k := None)) F"
proof -
  obtain ps where ps: "represents sa ps [] F" "call_cmp sa = cmp_intptr_t" "m = abs_map ps" "ascending cmp_intptr_t (map fst ps)"
    using assms by (rule is_mapE)
  have d: "Int_key k \<in> dom m \<longleftrightarrow> spec_get cmp_intptr_t k ps \<noteq> None" using ps(3) by (auto simp: abs_map_get domIff simp del: dom_abs_map)
  obtain sa' where s: "skiparray_forget sa k =
      Some (if spec_get cmp_intptr_t k ps = None then SKIPARRAY_FORGET_NOT_FOUND else SKIPARRAY_FORGET_OK, spec_get cmp_intptr_t k ps, sa')"
    "same_env sa sa'" "represents sa' (spec_del cmp_intptr_t k ps) [] F"
    using forget_correct [OF ps(1), of k] ps(2) by auto
  from is_mapI [OF s(3) same_env_cmp [OF s(2) ps(2)]] s(1,2) d ps(3) show ?thesis by (auto simp: abs_map_del)
qed

lemma is_map_pop_first:
  assumes "is_map sa m F"
  shows "\<exists>sa'. skiparray_pop_first sa = Some (if m = Map.empty then (SKIPARRAY_POP_EMPTY, None, sa')
      else (SKIPARRAY_POP_OK, Some (out_of sa (key_ptr (Min (dom m)), the (m (Min (dom m))))), sa')) \<and>
    same_env sa sa' \<and> is_map sa' (m(Min (dom m) := None)) F"
proof -
  obtain ps where ps: "represents sa ps [] F" "call_cmp sa = cmp_intptr_t" "m = abs_map ps" "ascending cmp_intptr_t (map fst ps)"
    using assms by (rule is_mapE)
  obtain sa' where s: "skiparray_pop_first sa =
      Some (case ps of [] \<Rightarrow> (SKIPARRAY_POP_EMPTY, None, sa') | p # _ \<Rightarrow> (SKIPARRAY_POP_OK, Some (out_of sa p), sa'))"
    "same_env sa sa'" "represents sa' (tl ps) [] F" using pop_first_correct [OF ps(1)] by blast
  note m = is_mapI [OF s(3) same_env_cmp [OF s(2) ps(2)]]
  show ?thesis
  proof (cases ps)
    case Nil
    with s m ps(3) show ?thesis by auto
  next
    case (Cons p qs)
    note f = abs_map_first [OF ps(4) [unfolded Cons]]
    have n: "m \<noteq> Map.empty" "m (Int_key (fst p)) = Some (snd p)" using ps(3) Cons by (auto simp: fun_eq_iff)
    have r: "skiparray_pop_first sa = Some (SKIPARRAY_POP_OK, Some (out_of sa p), sa')" using s(1) Cons by simp
    have x: "Min (dom m) = Int_key (fst p)" using f(1) ps(3) Cons by (simp del: dom_abs_map)
    have "is_map sa' (m(Int_key (fst p) := None)) F" using m unfolding Cons list.sel f(2) ps(3) .
    with r s(2) n show ?thesis unfolding x by simp
  qed
qed

lemma abs_map_empty: "abs_map ps = Map.empty \<longleftrightarrow> ps = []"
  by (cases ps) auto

lemma is_map_pop_last:
  assumes "is_map sa m F" "m = Map.empty \<or> sa_height sa \<le> 128"
  shows "\<exists>sa'. skiparray_pop_last sa = Some (if m = Map.empty then (SKIPARRAY_POP_EMPTY, None, sa')
      else (SKIPARRAY_POP_OK, Some (out_of sa (key_ptr (Max (dom m)), the (m (Max (dom m))))), sa')) \<and>
    same_env sa sa' \<and> is_map sa' (m(Max (dom m) := None)) F"
proof -
  obtain ps where ps: "represents sa ps [] F" "call_cmp sa = cmp_intptr_t" "m = abs_map ps" "ascending cmp_intptr_t (map fst ps)"
    using assms(1) by (rule is_mapE)
  have "ps \<noteq> [] \<Longrightarrow> sa_height sa \<le> 128" using assms(2) abs_map_empty [of ps] ps(3) by simp
  from pop_last_total [OF ps(1) this]
  obtain sa' where s: "skiparray_pop_last sa =
      Some (if ps = [] then (SKIPARRAY_POP_EMPTY, None, sa') else (SKIPARRAY_POP_OK, Some (out_of sa (last ps)), sa'))"
    "same_env sa sa'" "represents sa' (butlast ps) [] F"
    by blast
  note m = is_mapI [OF s(3) same_env_cmp [OF s(2) ps(2)]]
  show ?thesis
  proof (cases "ps = []")
    case True
    with s m ps(3) show ?thesis by auto
  next
    case False
    note f = abs_map_last [OF ps(4) False]
    have n: "m (Int_key (fst (last ps))) = Some (snd (last ps))" using abs_map_nth [OF ps(4), of "last ps"] False ps(3) by simp
    then have "m \<noteq> Map.empty" by auto
    have r: "skiparray_pop_last sa = Some (SKIPARRAY_POP_OK, Some (out_of sa (last ps)), sa')" using s(1) False by simp
    have x: "Max (dom m) = Int_key (fst (last ps))" using f(1) ps(3) by (simp del: dom_abs_map)
    have "is_map sa' (m(Int_key (fst (last ps)) := None)) F" using m unfolding f(2) ps(3) .
    with r s(2) n \<open>m \<noteq> Map.empty\<close> show ?thesis unfolding x by simp
  qed
qed

lemma is_map_pop_last_overflow:
  assumes "is_map sa m F" "m \<noteq> Map.empty" "128 < sa_height sa"
  shows "skiparray_pop_last sa = None"
proof -
  obtain ps where "represents sa ps [] F" "m = abs_map ps" using assms(1) by (rule is_mapE)
  then show ?thesis using pop_last_overflow [of sa ps F] assms(2,3) by (cases ps) auto
qed

section \<open>Properties\<close>

text \<open>
  C7. A skiparray compared by cmp_intptr_t is a finite map from signed integers. Its pairs are
  the map's, listed by ascending key; get, member and count read the map; a set that succeeds
  updates it and one that fails, only when the memory callback may refuse, leaves it; forget
  deletes from it; popping the first takes out the least of its keys; and popping the last
  takes out the greatest, up to a height of 128 levels, above which it fails unless the map is
  empty.
\<close>

theorem int_map_spec:
  assumes "is_map sa m F"
  shows "represents sa (map (\<lambda>j. (key_ptr j, the (m j))) (sorted_list_of_set (dom m))) [] F \<and>
    skiparray_get sa k = Some (m (Int_key k)) \<and> skiparray_member sa k = Some (Int_key k \<in> dom m) \<and>
    skiparray_count sa = Some (card (dom m) mod 2 ^ 64) \<and>
    (\<exists>res p sa'. skiparray_set_with_pair sa k v rk = Some (res, p, sa') \<and>
      (if res = SKIPARRAY_SET_ERROR_MEMORY then may_refuse sa \<and> is_map sa' m F
       else res = (if Int_key k \<in> dom m then SKIPARRAY_SET_REPLACED else SKIPARRAY_SET_BOUND) \<and>
         is_map sa' (m(Int_key k \<mapsto> value_kept sa v)) F)) \<and>
    (\<exists>p sa'. skiparray_forget sa k =
        Some (if Int_key k \<in> dom m then SKIPARRAY_FORGET_OK else SKIPARRAY_FORGET_NOT_FOUND, p, sa') \<and>
      is_map sa' (m(Int_key k := None)) F) \<and>
    (\<exists>sa'. skiparray_pop_first sa = Some (if m = Map.empty then (SKIPARRAY_POP_EMPTY, None, sa')
        else (SKIPARRAY_POP_OK, Some (out_of sa (key_ptr (Min (dom m)), the (m (Min (dom m))))), sa')) \<and>
      is_map sa' (m(Min (dom m) := None)) F) \<and>
    (if m = Map.empty \<or> sa_height sa \<le> 128
     then \<exists>sa'. skiparray_pop_last sa = Some (if m = Map.empty then (SKIPARRAY_POP_EMPTY, None, sa')
          else (SKIPARRAY_POP_OK, Some (out_of sa (key_ptr (Max (dom m)), the (m (Max (dom m))))), sa')) \<and>
        is_map sa' (m(Max (dom m) := None)) F
     else skiparray_pop_last sa = None)"
proof -
  have "if m = Map.empty \<or> sa_height sa \<le> 128
     then \<exists>sa'. skiparray_pop_last sa = Some (if m = Map.empty then (SKIPARRAY_POP_EMPTY, None, sa')
          else (SKIPARRAY_POP_OK, Some (out_of sa (key_ptr (Max (dom m)), the (m (Max (dom m))))), sa')) \<and>
        is_map sa' (m(Max (dom m) := None)) F
     else skiparray_pop_last sa = None" (is "if ?c then _ else _")
  proof (cases ?c)
    case True
    from is_map_pop_last [OF assms True] show ?thesis unfolding if_P [OF True] by blast
  next
    case False
    with is_map_pop_last_overflow [OF assms] show ?thesis unfolding if_not_P [OF False] by simp
  qed
  then show ?thesis
    by (intro conjI is_map_represents [OF assms] is_map_reads [OF assms])
       (use is_map_set [OF assms, of k v rk] is_map_forget [OF assms, of k] is_map_pop_first [OF assms] in blast)+
qed

theorem int_map_spec_witness:
  "is_map sample (abs_map sample_pairs) {99} \<and> skiparray_get sample 3 = Some (Some 30) \<and> skiparray_count sample = Some 4 \<and>
    (\<exists>p sa'. skiparray_forget sample 3 = Some (SKIPARRAY_FORGET_OK, p, sa') \<and>
      is_map sa' ((abs_map sample_pairs)(Int_key 3 := None)) {99}) \<and>
    (\<exists>sa'. skiparray_pop_last sample = Some (SKIPARRAY_POP_OK, Some (5, Some 50), sa') \<and>
      is_map sa' ((abs_map sample_pairs)(Int_key 5 := None)) {99})"
proof -
  have s: "is_map sample (abs_map sample_pairs) {99}"
    by (rule is_mapI [OF sample_represents]) (simp add: sample_def)
  have d: "Int_key 3 \<in> dom (abs_map sample_pairs)" "abs_map sample_pairs (Int_key 3) = Some 30" "card (dom (abs_map sample_pairs)) = 4"
    by (simp_all add: sample_pairs_def abs_map_def int_keys_def)
  have n: "abs_map sample_pairs \<noteq> Map.empty" "sa_height sample \<le> 128"
    by (auto simp: sample_env abs_map_empty sample_pairs_def)
  have x: "Max (dom (abs_map sample_pairs)) = Int_key 5"
    using abs_map_last(1) [of sample_pairs] by (simp add: sample_pairs_def cmp_intptr_t_def)
  have "out_of sample (key_ptr (Int_key 5), the (abs_map sample_pairs (Int_key 5))) = (5, Some 50)"
    by (simp add: out_of_def sample_env sample_pairs_def)
  then have "\<exists>sa'. skiparray_pop_last sample = Some (SKIPARRAY_POP_OK, Some (5, Some 50), sa') \<and>
      is_map sa' ((abs_map sample_pairs)(Int_key 5 := None)) {99}"
    using int_map_spec [OF s, of 3] n unfolding x by simp
  moreover have "\<exists>p sa'. skiparray_forget sample 3 = Some (SKIPARRAY_FORGET_OK, p, sa') \<and>
      is_map sa' ((abs_map sample_pairs)(Int_key 3 := None)) {99}"
    using int_map_spec [OF s, of 3] d(1) by (simp del: dom_abs_map)
  ultimately show ?thesis using int_map_spec [OF s, of 3] d s by simp
qed

end
