(* ===== verification/Bench_Run.thy ===== *)
theory Bench_Run
  imports Bench Intmap
begin

text \<open>
  The benchmarks of \<open>src/bench.c\<close> run: no assertion fails, and all memory is given back.  What
  they need of the library are the specifications of its operations on lists of pairs.
\<close>

section \<open>Keys\<close>

abbreviation key_of :: "nat \<Rightarrow> voidp" where
  "key_of i \<equiv> of_nat i"

lemma sint_key: "i < 2 ^ 63 \<Longrightarrow> sint (key_of i) = int i"
  by (simp add: signed_of_nat signed_take_bit_int_eq_self)

lemma cmp_key: "i < 2 ^ 63 \<Longrightarrow> j < 2 ^ 63 \<Longrightarrow> cmp_intptr_t (key_of i) (key_of j) = (if i < j then -1 else if j < i then 1 else 0)"
  by (simp add: cmp_intptr_t_def sint_key)

lemma key_inj:
  assumes "i < 2 ^ 64" "j < 2 ^ 64"
  shows "key_of i = key_of j \<longleftrightarrow> i = j"
proof
  assume "key_of i = key_of j"
  then have "unat (key_of i) = unat (key_of j)" by simp
  with assms show "i = j" by (simp add: unat_of_nat)
qed simp

lemma access_key:
  assumes "0 < limit" "limit < 2 ^ 64"
  obtains j where "j < limit" "access limit i = key_of j"
proof -
  have "unat (access limit i) < limit"
    using assms by (simp add: access_def unat_mod unat_of_nat)
  then show ?thesis by (intro that [of "unat (access limit i)"]) simp_all
qed

text \<open>The pairs the benchmarks work with: the keys below a limit.\<close>

definition upto_pairs :: "(nat \<Rightarrow> voidp) \<Rightarrow> nat \<Rightarrow> bindings" where
  "upto_pairs v n = map (\<lambda>i. (key_of i, v i)) [0..<n]"

lemma upto_pairs_simps [simp]:
  "upto_pairs v 0 = []" "upto_pairs v (Suc n) = upto_pairs v n @ [(key_of n, v n)]" "length (upto_pairs v n) = n"
  "i < n \<Longrightarrow> upto_pairs v n ! i = (key_of i, v i)" "upto_pairs v n = [] \<longleftrightarrow> n = 0"
  by (simp_all add: upto_pairs_def)

lemma upto_pairs_found:
  assumes "i < n" "n \<le> 2 ^ 63"
  shows "spec_get cmp_intptr_t (key_of i) (upto_pairs v n) = Some (key_of i, v i)"
proof -
  have "\<forall>j < i. key_of i \<noteq> key_of j" using assms key_inj [of i] by auto
  then show ?thesis
    using assms(1) unfolding spec_get_def find_Some_iff by (intro exI [of _ i]) (auto simp: cmp_eq)
qed

lemma upto_pairs_missing:
  assumes "limit < 2 ^ 63" "j < limit"
  shows "spec_get cmp_intptr_t (key_of j + key_of limit) (upto_pairs v limit) = None"
proof -
  have "key_of j + key_of limit \<noteq> key_of i" if "i < limit" for i
  proof -
    have "key_of (j + limit) \<noteq> key_of i" using assms that key_inj [of "j + limit" i] by auto
    then show ?thesis by simp
  qed
  then show ?thesis by (auto simp: spec_get_def find_None_iff cmp_eq upto_pairs_def)
qed

lemma upto_pairs_below: "n < 2 ^ 63 \<Longrightarrow> below cmp_intptr_t (key_of n) (map fst (upto_pairs v n))"
  by (auto simp: below_def upto_pairs_def cmp_key)

lemma upto_pairs_set: "n < 2 ^ 63 \<Longrightarrow> spec_set cmp_intptr_t rk (key_of n) (v n) (upto_pairs v n) = upto_pairs v (Suc n)"
  using intptr.spec_set_insert [of "key_of n" "upto_pairs v n" "[]"] upto_pairs_below by simp

section \<open>The state of a benchmark\<close>

text \<open>
  A skiparray with pairs \<open>ps\<close>, as the benchmarks configure it, with memory that never runs
  out; \<open>M\<close> are the blocks of others.
\<close>

definition bench_sa :: "addr set \<Rightarrow> bool \<Rightarrow> bindings \<Rightarrow> skiparray \<Rightarrow> bool" where
  "bench_sa M uv ps sa \<longleftrightarrow> represents sa ps [] M \<and> \<not> may_refuse sa \<and> call_cmp sa = cmp_intptr_t \<and> free_cb sa = None \<and>
     use_values sa = uv \<and> max_level sa \<le> 128 \<and> oom (mst sa) = []"

definition bench_cfg :: "skiparray_config \<Rightarrow> bool" where
  "bench_cfg c \<longleftrightarrow> config_ok c \<and> map_option snd (cfg_cmp c) = Some cmp_intptr_t \<and> cfg_node_size c \<noteq> 1 \<and> cfg_free c = None \<and>
     cfg_levels c \<le> 128 \<and> (\<forall>m. oom m = [] \<longrightarrow> \<not> refusing (snd (cfg_mem c)) m)"

text \<open>Memory before and after.\<close>

definition settled :: "mstate \<Rightarrow> mstate \<Rightarrow> bool" where
  "settled m m' \<longleftrightarrow> set (live m') = set (live m) \<and> oom m' = oom m"

lemma bench_saD:
  assumes "bench_sa M uv ps sa"
  shows "represents sa ps [] M" "\<not> may_refuse sa" "call_cmp sa = cmp_intptr_t" "free_cb sa = None" "use_values sa = uv"
    "max_level sa \<le> 128" "oom (mst sa) = []" "iter_view sa ps [] M pos" "sa_height sa \<le> 128"
proof -
  show r: "represents sa ps [] M" and m: "max_level sa \<le> 128" and "\<not> may_refuse sa" "call_cmp sa = cmp_intptr_t" "free_cb sa = None"
    "use_values sa = uv" "oom (mst sa) = []" using assms by (simp_all add: bench_sa_def)
  show "iter_view sa ps [] M pos" using r by (rule iffD1 [OF represents_iter_view])
  have "cfg_ok sa" using r unfolding represents_def wf_def by blast
  then show "sa_height sa \<le> 128" using cfg_okD(6) m by fastforce
qed

lemma bench_sa_keep:
  assumes "bench_sa M uv ps sa" "same_env sa sa'" "represents sa' ps' [] M"
  shows "bench_sa M uv ps' sa'"
  using assms same_env_refuse [OF assms(2)] by (simp add: bench_sa_def same_env_def)

lemma bench_sa_iters:
  assumes "bench_sa M uv ps sa" "same_but_iters sa sa'" "represents sa' ps [] M"
  shows "bench_sa M uv ps sa'"
  using assms same_but_itersD [OF assms(2)] by (simp add: bench_sa_def)

lemma dispose_ok: "bench_sa M uv ps sa \<Longrightarrow> \<exists>m. dispose sa = Some m \<and> set (live m) = M \<and> oom m = []"
  using free_correct [OF bench_saD(1)] bench_saD(4,7) by (fastforce simp: dispose_def)

lemma configured_bench:
  assumes "bench_cfg c" "configured c sa" "represents sa ps [] M" "oom (mst sa) = []"
  shows "bench_sa M (\<not> cfg_ignore_values c) ps sa"
  using assms by (cases "cfg_cmp c") (auto simp: bench_sa_def bench_cfg_def configured_def may_refuse_def)

section \<open>Building\<close>

lemma for_c_pure: "(\<And>i. i < n \<Longrightarrow> f i () = Some ()) \<Longrightarrow> for_c f [0..<n] () = Some ()"
  using for_c_upt [of "\<lambda>_ _. True" 0 "()" n f] by auto

lemma for_c_keep:
  assumes "P s" "\<And>i s. i < n \<Longrightarrow> P s \<Longrightarrow> \<exists>s'. f i s = Some s' \<and> P s'"
  shows "\<exists>s'. for_c f [0..<n] s = Some s' \<and> P s'"
  using for_c_upt [of "\<lambda>_. P" 0 s n f] assms by blast

lemma build_loop:
  assumes b: "builder_ok b [] M" "\<not> may_refuse (b_sa b)" "call_cmp (b_sa b) = cmp_intptr_t" and l: "limit < 2 ^ 63"
  shows "\<exists>b'. for_c (\<lambda>i b. do { (res, b') \<leftarrow> skiparray_builder_append b (key_of i) (v i); Some b' }) [0..<limit] b = Some b' \<and>
    same_env (b_sa b) (b_sa b') \<and> builder_ok b' (upto_pairs (\<lambda>i. value_kept (b_sa b) (v i)) limit) M"
proof (rule for_c_upt [where I = "\<lambda>i b'. same_env (b_sa b) (b_sa b') \<and> builder_ok b' (upto_pairs (\<lambda>i. value_kept (b_sa b) (v i)) i) M"])
  show "same_env (b_sa b) (b_sa b) \<and> builder_ok b (upto_pairs (\<lambda>i. value_kept (b_sa b) (v i)) 0) M" using b(1) by simp
  fix j b1 assume j: "j < limit"
  let ?ps = "upto_pairs (\<lambda>i. value_kept (b_sa b) (v i)) j"
  assume "same_env (b_sa b) (b_sa b1) \<and> builder_ok b1 ?ps M"
  then have e: "same_env (b_sa b) (b_sa b1)" and o: "builder_ok b1 ?ps M" by simp_all
  have gt: "0 < call_cmp (b_sa b1) (key_of j) (fst (last ?ps))" if "?ps \<noteq> []"
  proof -
    have "last ?ps \<in> set ?ps" using that by simp
    then have "0 < cmp_intptr_t (key_of j) (fst (last ?ps))" using upto_pairs_below [of j] j l by (auto simp: below_def)
    then show ?thesis using e b(3) by (simp add: same_env_def)
  qed
  then have np: "\<not> (?ps \<noteq> [] \<and> call_cmp (b_sa b1) (key_of j) (fst (last ?ps)) \<le> 0)" by auto
  have kept: "value_kept (b_sa b1) (v j) = value_kept (b_sa b) (v j)" using e by (simp add: value_kept_def same_env_def)
  obtain b2 where "skiparray_builder_append b1 (key_of j) (v j) = Some (SKIPARRAY_BUILDER_APPEND_OK, b2)" "same_env (b_sa b1) (b_sa b2)"
    "builder_ok b2 (?ps @ [(key_of j, value_kept (b_sa b) (v j))]) M"
    using builder_append_correct [OF o, of "key_of j" "v j"] gt b(2) same_env_refuse [OF e] unfolding if_not_P [OF np] kept by blast
  then show "\<exists>b'. (do { (res, b') \<leftarrow> skiparray_builder_append b1 (key_of j) (v j); Some b' }) = Some b' \<and>
      (same_env (b_sa b) (b_sa b') \<and> builder_ok b' (upto_pairs (\<lambda>i. value_kept (b_sa b) (v i)) (Suc j)) M)"
    using same_env_trans [OF e] by simp
qed simp

lemma builder_run:
  assumes c: "bench_cfg c" and m: "oom m = []" and l: "limit < 2 ^ 63"
  shows "\<exists>b m1 b1 sa. skiparray_builder_new True (Some c) skip m = Some (SKIPARRAY_BUILDER_NEW_OK, Some b, m1) \<and>
    for_c (\<lambda>i b. do { (res, b') \<leftarrow> skiparray_builder_append b (key_of i) (v i); Some b' }) [0..<limit] b = Some b1 \<and>
    skiparray_builder_finish b1 = Some sa \<and>
    bench_sa (set (live m)) (\<not> cfg_ignore_values c) (upto_pairs (\<lambda>i. if cfg_ignore_values c then 0 else v i) limit) sa"
proof -
  have cok: "config_ok c" "\<not> (cfg_cmp c = None \<or> cfg_node_size c = 1)" "\<not> refusing (snd (cfg_mem c)) m"
    using c m by (auto simp: bench_cfg_def)
  obtain b m1 where b: "skiparray_builder_new True (Some c) skip m = Some (SKIPARRAY_BUILDER_NEW_OK, Some b, m1)"
    "mst (b_sa b) = m1" "oom m1 = oom m" "configured c (b_sa b)" "builder_ok b [] (set (live m))"
    using builder_new_correct [OF cok(1), of skip m] cok(3) unfolding if_not_P [OF cok(2)] by blast
  have e: "\<not> may_refuse (b_sa b)" "call_cmp (b_sa b) = cmp_intptr_t" "value_kept (b_sa b) = (\<lambda>x. if cfg_ignore_values c then 0 else x)"
    using c m b(2-4) by (auto simp: bench_cfg_def configured_def may_refuse_def value_kept_def)
  obtain b1 where b1: "for_c (\<lambda>i b. do { (res, b') \<leftarrow> skiparray_builder_append b (key_of i) (v i); Some b' }) [0..<limit] b = Some b1"
    "same_env (b_sa b) (b_sa b1)" "builder_ok b1 (upto_pairs (\<lambda>i. if cfg_ignore_values c then 0 else v i) limit) (set (live m))"
    using build_loop [OF b(5) e(1,2) l, of v] unfolding e(3) by blast
  obtain sa where sa: "skiparray_builder_finish b1 = Some sa" "same_env (b_sa b1) sa"
    "represents sa (upto_pairs (\<lambda>i. if cfg_ignore_values c then 0 else v i) limit) [] (set (live m))"
    using builder_finish_correct [OF b1(3)] by blast
  have "configured c sa" "oom (mst sa) = []"
    using b(2-4) m same_env_trans [OF b1(2) sa(2)] by (simp_all add: configured_def same_env_def)
  with configured_bench [OF c _ sa(3)] b(1) b1(1) sa(1) show ?thesis by blast
qed

lemma fresh_run:
  assumes c: "bench_cfg c" and m: "oom m = []"
  shows "\<exists>sa. fresh_skiparray c m = Some sa \<and> bench_sa (set (live m)) (\<not> cfg_ignore_values c) [] sa"
proof -
  have cok: "config_ok c" "\<not> (cfg_cmp c = None \<or> cfg_node_size c = 1)" "\<not> refusing (snd (cfg_mem c)) m"
    using c m by (auto simp: bench_cfg_def)
  obtain res r m1 where n: "skiparray_new True (Some c) m = Some (res, r, m1)"
    "res = SKIPARRAY_NEW_ERROR_MEMORY \<or> (\<exists>sa. r = Some sa \<and> mst sa = m1 \<and> configured c sa \<and> represents sa [] [] (set (live m)))"
    using new_correct [OF cok(1), of m] unfolding if_not_P [OF cok(2)] by blast
  then obtain sa where sa: "r = Some sa" "mst sa = m1" "configured c sa" "represents sa [] [] (set (live m))"
    using new_error_memory cok(3) by blast
  have "oom (mst sa) = []" using new_oom [OF n(1)] m sa(2) by simp
  with configured_bench [OF c sa(3,4)] n(1) sa(1) show ?thesis by (simp add: fresh_skiparray_def)
qed

text \<open>The two configurations.\<close>

definition globals_ok :: "bench_globals \<Rightarrow> bool" where
  "globals_ok G \<longleftrightarrow> bench_cfg (sa_config G) \<and> \<not> cfg_ignore_values (sa_config G) \<and>
     bench_cfg (sa_config_no_values G) \<and> cfg_ignore_values (sa_config_no_values G)"

lemma sequential_build_run:
  assumes "globals_ok G" "oom m = []" "limit < 2 ^ 63"
  shows "\<exists>sa. sequential_build G c limit m = Some sa \<and>
    bench_sa (set (live m)) True (upto_pairs (\<lambda>i. if cfg_ignore_values c then 0 else key_of i) limit) sa"
  using builder_run [of "sa_config G" m limit False "\<lambda>i. if cfg_ignore_values c then 0 else key_of i"] assms
  by (auto simp: globals_ok_def sequential_build_def)

section \<open>Operations\<close>

lemma get_ok:
  assumes "bench_sa M uv (upto_pairs v n) sa" "i < n" "n < 2 ^ 63"
  shows "skiparray_get sa (key_of i) = Some (Some (v i))" "get_value sa (key_of i) = Some (v i)"
    "skiparray_member sa (key_of i) = Some True"
proof -
  have f: "spec_get cmp_intptr_t (key_of i) (upto_pairs v n) = Some (key_of i, v i)" using upto_pairs_found assms(2,3) by simp
  show g: "skiparray_get sa (key_of i) = Some (Some (v i))"
    using get_correct [OF bench_saD(1) [OF assms(1)]] bench_saD(3) [OF assms(1)] f by simp
  show "get_value sa (key_of i) = Some (v i)" using g by (simp add: get_value_def)
  show "skiparray_member sa (key_of i) = Some True" using g by (simp add: skiparray_member_def)
qed

lemma get_missing:
  assumes "bench_sa M uv (upto_pairs v limit) sa" "j < limit" "limit < 2 ^ 63"
  shows "get_value sa (key_of j + key_of limit) = Some 0"
  using get_correct [OF bench_saD(1) [OF assms(1)]] bench_saD(3) [OF assms(1)] upto_pairs_missing [OF assms(3,2)]
  by (simp add: get_value_def)

lemma set_ok:
  assumes "bench_sa M uv ps sa"
  shows "\<exists>sa'. set_value k v sa = Some sa' \<and> bench_sa M uv (spec_set cmp_intptr_t True k (if uv then v else 0) ps) sa'"
proof -
  note b = bench_saD [OF assms]
  obtain res previous sa' where s: "skiparray_set_with_pair sa k v True = Some (res, previous, sa')"
    "set_outcome sa ps [] M True k v res previous sa'" using set_with_pair_correct [OF b(1)] by blast
  moreover have "res \<noteq> SKIPARRAY_SET_ERROR_MEMORY" using set_error_memory s(1) b(2) by blast
  ultimately have "same_env sa sa'" "represents sa' (spec_set cmp_intptr_t True k (if uv then v else 0) ps) [] M"
    using b(3,5) by (auto simp: set_outcome_def Let_def split: option.splits)
  with bench_sa_keep [OF assms] s(1) show ?thesis by (auto simp: set_value_def skiparray_set_def)
qed

lemma forget_ok:
  assumes "bench_sa M uv ps sa"
  shows "\<exists>sa'. forget_key k sa = Some sa' \<and> bench_sa M uv (spec_del cmp_intptr_t k ps) sa'"
  using forget_correct [OF bench_saD(1) [OF assms], of k] bench_sa_keep [OF assms] bench_saD(3) [OF assms]
  by (auto simp: forget_key_def)

text \<open>The same at the keys \<^verbatim>\<open>(i * prime) % limit\<close>.\<close>

lemma access_ok:
  assumes "bench_sa M uv (upto_pairs v limit) sa" "i < limit" "limit < 2 ^ 63"
  shows "skiparray_get sa (access limit i) = Some (Some (v (unat (access limit i))))"
    "get_value sa (access limit i) = Some (v (unat (access limit i)))"
    "skiparray_member sa (access limit i) = Some True" "get_value sa (access limit i + key_of limit) = Some 0"
proof -
  have "0 < limit" "limit < 2 ^ 64" using assms(2,3) by simp_all
  then obtain j where j: "j < limit" "access limit i = key_of j" by (rule access_key)
  have "unat (key_of j) = j" using j(1) assms(3) by (simp add: unat_of_nat)
  with get_ok [OF assms(1) j(1) assms(3)] get_missing [OF assms(1) j(1) assms(3)] j(2)
  show "skiparray_get sa (access limit i) = Some (Some (v (unat (access limit i))))"
    "get_value sa (access limit i) = Some (v (unat (access limit i)))"
    "skiparray_member sa (access limit i) = Some True" "get_value sa (access limit i + key_of limit) = Some 0" by simp_all
qed

text \<open>Loops that change the pairs in a way that does not matter.\<close>

lemma set_loop:
  assumes "bench_sa M uv ps sa"
  shows "\<exists>sa' ps'. for_c (\<lambda>i. set_value (k i) (v i)) [0..<n] sa = Some sa' \<and> bench_sa M uv ps' sa'"
proof -
  have "\<exists>sa'. for_c (\<lambda>i. set_value (k i) (v i)) [0..<n] sa = Some sa' \<and> (\<exists>ps'. bench_sa M uv ps' sa')"
    by (rule for_c_keep) (use assms set_ok in blast)+
  then show ?thesis by blast
qed

lemma forget_loop:
  assumes "bench_sa M uv ps sa"
  shows "\<exists>sa' ps'. for_c (\<lambda>i. forget_key (k i)) [0..<n] sa = Some sa' \<and> bench_sa M uv ps' sa'"
proof -
  have "\<exists>sa'. for_c (\<lambda>i. forget_key (k i)) [0..<n] sa = Some sa' \<and> (\<exists>ps'. bench_sa M uv ps' sa')"
    by (rule for_c_keep) (use assms forget_ok in blast)+
  then show ?thesis by blast
qed

section \<open>The benchmarks\<close>

definition passes :: "bench \<Rightarrow> bench_globals \<Rightarrow> nat \<Rightarrow> mstate \<Rightarrow> bool" where
  "passes f G limit m \<longleftrightarrow> (\<exists>m'. f G limit m = Some m' \<and> settled m m')"

lemma settled_dispose: "bench_sa (set (live m)) uv ps sa \<Longrightarrow> oom m = [] \<Longrightarrow> \<exists>m'. dispose sa = Some m' \<and> settled m m'"
  using dispose_ok by (fastforce simp: settled_def)

text \<open>A benchmark that builds, reads, and frees; and one that builds, changes, and frees.\<close>

lemma passes_read:
  assumes "globals_ok G" "oom m = []" "limit < 2 ^ 63"
    and "f G limit m = do { sa \<leftarrow> sequential_build G c limit m; for_c (body sa) [0..<limit] (); dispose sa }"
    and "\<And>sa i. bench_sa (set (live m)) True (upto_pairs (\<lambda>i. if cfg_ignore_values c then 0 else key_of i) limit) sa \<Longrightarrow>
      i < limit \<Longrightarrow> body sa i () = Some ()"
  shows "passes f G limit m"
proof -
  obtain sa where sa: "sequential_build G c limit m = Some sa"
    "bench_sa (set (live m)) True (upto_pairs (\<lambda>i. if cfg_ignore_values c then 0 else key_of i) limit) sa"
    using sequential_build_run [OF assms(1-3)] by blast
  have "for_c (body sa) [0..<limit] () = Some ()" by (rule for_c_pure) (rule assms(5) [OF sa(2)])
  with sa settled_dispose [OF sa(2) assms(2)] show ?thesis by (simp add: passes_def assms(4))
qed

lemma passes_change:
  assumes "globals_ok G" "oom m = []" "limit < 2 ^ 63"
    and "f G limit m = do { sa \<leftarrow> sequential_build G c limit m; sa1 \<leftarrow> for_c body [0..<limit] sa; dispose sa1 }"
    and "\<And>sa. bench_sa (set (live m)) True (upto_pairs (\<lambda>i. if cfg_ignore_values c then 0 else key_of i) limit) sa \<Longrightarrow>
      \<exists>sa' ps'. for_c body [0..<limit] sa = Some sa' \<and> bench_sa (set (live m)) True ps' sa'"
  shows "passes f G limit m"
proof -
  obtain sa where sa: "sequential_build G c limit m = Some sa"
    "bench_sa (set (live m)) True (upto_pairs (\<lambda>i. if cfg_ignore_values c then 0 else key_of i) limit) sa"
    using sequential_build_run [OF assms(1-3)] by blast
  obtain sa' ps' where "for_c body [0..<limit] sa = Some sa'" "bench_sa (set (live m)) True ps' sa'" using assms(5) [OF sa(2)] by blast
  with sa(1) settled_dispose [OF _ assms(2)] show ?thesis by (auto simp: passes_def assms(4))
qed

lemma read_benchmarks:
  assumes g: "globals_ok G" and m: "oom m = []" and l: "limit < 2 ^ 63"
  shows "passes get_sequential G limit m" "passes get_random_access G limit m" "passes get_random_access_no_values G limit m"
    "passes get_nonexistent G limit m" "passes member_sequential G limit m" "passes member_random_access G limit m"
proof -
  have v: "\<not> cfg_ignore_values (sa_config G)" using g by (simp add: globals_ok_def)
  note run = passes_read [OF g m l]
  show "passes get_sequential G limit m"
    by (rule run, rule get_sequential_def, drule get_ok(2) [OF _ _ l], assumption, simp add: v assert_c_def)
  show "passes get_random_access G limit m"
    by (rule run, rule get_random_access_def, drule access_ok(2) [OF _ _ l], assumption, simp add: v assert_c_def)
  show "passes get_random_access_no_values G limit m"
    by (rule run, rule get_random_access_no_values_def, drule access_ok(1) [OF _ _ l], assumption, simp)
  show "passes get_nonexistent G limit m"
    by (rule run, rule get_nonexistent_def, drule access_ok(4) [OF _ _ l], assumption, simp add: assert_c_def)
  show "passes member_sequential G limit m"
    by (rule run, rule member_sequential_def, drule get_ok(3) [OF _ _ l], assumption, simp add: assert_c_def)
  show "passes member_random_access G limit m"
    by (rule run, rule member_random_access_def, drule access_ok(3) [OF _ _ l], assumption, simp add: assert_c_def)
qed

lemma change_benchmarks:
  assumes g: "globals_ok G" and m: "oom m = []" and l: "limit < 2 ^ 63"
  shows "passes set_replacing_sequential G limit m" "passes set_replacing_random_access G limit m"
    "passes forget_sequential G limit m" "passes forget_random_access G limit m"
    "passes forget_random_access_no_values G limit m" "passes forget_nonexistent G limit m"
proof -
  note run = passes_change [OF g m l]
  show "passes set_replacing_sequential G limit m"
    by (rule run, rule set_replacing_sequential_def, erule set_loop)
  show "passes set_replacing_random_access G limit m"
    by (rule run, rule set_replacing_random_access_def, erule set_loop)
  show "passes forget_sequential G limit m"
    by (rule run, rule forget_sequential_def, erule forget_loop)
  show "passes forget_random_access G limit m"
    by (rule run, rule forget_random_access_def, erule forget_loop)
  show "passes forget_random_access_no_values G limit m"
    by (rule run, rule forget_random_access_no_values_def, erule forget_loop)
  show "passes forget_nonexistent G limit m"
    by (rule run, rule forget_nonexistent_def, erule forget_loop)
qed

lemma set_benchmarks:
  assumes g: "globals_ok G" and m: "oom m = []"
  shows "passes set_sequential G limit m" "passes set_random_access G limit m" "passes set_random_access_no_values G limit m"
proof -
  have run: "\<exists>m'. do { sa \<leftarrow> fresh_skiparray c m; sa1 \<leftarrow> for_c (\<lambda>i. set_value (k i) (v i)) [0..<limit] sa; dispose sa1 } = Some m' \<and>
      settled m m'" if c: "bench_cfg c" for c k v
  proof -
    obtain sa where sa: "fresh_skiparray c m = Some sa" "bench_sa (set (live m)) (\<not> cfg_ignore_values c) [] sa"
      using fresh_run [OF c m] by blast
    obtain sa' ps' where "for_c (\<lambda>i. set_value (k i) (v i)) [0..<limit] sa = Some sa'"
      "bench_sa (set (live m)) (\<not> cfg_ignore_values c) ps' sa'" using set_loop [OF sa(2)] by blast
    with sa(1) settled_dispose [OF _ m] show ?thesis by auto
  qed
  show "passes set_sequential G limit m" "passes set_random_access G limit m" "passes set_random_access_no_values G limit m"
    unfolding passes_def set_sequential_def set_random_access_def set_random_access_no_values_def
    by (rule run; use g in \<open>simp add: globals_ok_def\<close>)+
qed

lemma builder_benchmarks:
  assumes g: "globals_ok G" and m: "oom m = []" and l: "limit < 2 ^ 63"
  shows "passes set_sequential_builder G limit m" "passes set_sequential_builder_no_chk G limit m"
proof -
  have run: "\<exists>m'. do {
      (bnres, r, m1) \<leftarrow> skiparray_builder_new True (Some (sa_config G)) skip m;
      b \<leftarrow> r;
      b1 \<leftarrow> for_c (\<lambda>i b. do { (bares, b') \<leftarrow> skiparray_builder_append b (of_nat i) (of_nat i); Some b' }) [0..<limit] b;
      sa \<leftarrow> skiparray_builder_finish b1;
      dispose sa
    } = Some m' \<and> settled m m'" for skip
    using builder_run [of "sa_config G" m limit skip key_of] settled_dispose [OF _ m] g m l by (fastforce simp: globals_ok_def)
  show "passes set_sequential_builder G limit m" "passes set_sequential_builder_no_chk G limit m"
    unfolding passes_def set_sequential_builder_def set_sequential_builder_no_chk_def by (rule run)+
qed

lemma count_benchmark:
  assumes g: "globals_ok G" and m: "oom m = []" and l: "limit < 2 ^ 63"
  shows "passes count_pairs G limit m"
proof -
  obtain sa where sa: "sequential_build G (sa_config G) limit m = Some sa"
    "bench_sa (set (live m)) True (upto_pairs (\<lambda>i. if cfg_ignore_values (sa_config G) then 0 else key_of i) limit) sa"
    using sequential_build_run [OF g m l] by blast
  have "skiparray_count sa = Some limit" using count_correct [OF bench_saD(1) [OF sa(2)]] l by simp
  with sa(1) settled_dispose [OF sa(2) m] show ?thesis by (simp add: passes_def count_pairs_def assert_c_def)
qed

lemma drop_upto_pairs: "i < n \<Longrightarrow> drop i (upto_pairs v n) = (key_of i, v i) # drop (Suc i) (upto_pairs v n)"
  using Cons_nth_drop_Suc [of i "upto_pairs v n"] by simp

lemma pop_benchmarks:
  assumes g: "globals_ok G" and m: "oom m = []" and l: "limit < 2 ^ 63"
  shows "passes pop_first G limit m" "passes pop_last G limit m"
proof -
  let ?M = "set (live m)" and ?ps = "upto_pairs key_of limit"
  have v: "upto_pairs (\<lambda>i. if cfg_ignore_values (sa_config G) then 0 else key_of i) limit = ?ps" using g by (simp add: globals_ok_def)
  have popped: "popped_value (Some (out_of sa p)) = popped_key (Some (out_of sa p))" if "bench_sa ?M True qs sa" "fst p = snd p" for sa qs p
    using bench_saD(5) [OF that(1)] that(2) by (simp add: popped_value_def popped_key_def out_of_def)
  show "passes pop_first G limit m"
  proof (rule passes_change [OF g m l], rule pop_first_def, unfold v)
    fix sa assume sa: "bench_sa ?M True ?ps sa"
    let ?body = "\<lambda>i sa. do {
         (res, p, sa') \<leftarrow> skiparray_pop_first sa;
         assert_c (res \<noteq> SKIPARRAY_POP_EMPTY);
         assert_c (res = SKIPARRAY_POP_OK \<or> res = SKIPARRAY_POP_EMPTY);
         assert_c (popped_value p = popped_key p);
         Some sa'
       }"
    have "\<exists>sa'. for_c ?body [0..<limit] sa = Some sa' \<and> bench_sa ?M True (drop limit ?ps) sa'"
    proof (rule for_c_upt [where I = "\<lambda>i. bench_sa ?M True (drop i ?ps)"])
      show "bench_sa ?M True (drop 0 ?ps) sa" using sa by simp
      fix j s assume j: "bench_sa ?M True (drop j ?ps) s" "j < limit"
      note d = drop_upto_pairs [OF j(2), of key_of]
      obtain s' where s': "skiparray_pop_first s = Some (SKIPARRAY_POP_OK, Some (out_of s (key_of j, key_of j)), s')" "same_env s s'"
        "represents s' (drop (Suc j) ?ps) [] ?M" using pop_first_correct [OF bench_saD(1) [OF j(1)]] unfolding d by auto
      with popped [OF j(1)] bench_sa_keep [OF j(1)]
      show "\<exists>s'. ?body j s = Some s' \<and> bench_sa ?M True (drop (Suc j) ?ps) s'" by (simp add: assert_c_def)
    qed simp
    then show "\<exists>sa' ps'. for_c ?body [0..<limit] sa = Some sa' \<and> bench_sa ?M True ps' sa'" by blast
  qed
  show "passes pop_last G limit m"
  proof (rule passes_change [OF g m l], rule pop_last_def, unfold v)
    fix sa assume sa: "bench_sa ?M True ?ps sa"
    let ?body = "\<lambda>i sa. do {
         (res, p, sa') \<leftarrow> skiparray_pop_last sa;
         assert_c (res = SKIPARRAY_POP_OK \<or> res = SKIPARRAY_POP_EMPTY);
         assert_c (popped_value p = popped_key p);
         Some sa'
       }"
    have "\<exists>sa'. for_c ?body [0..<limit] sa = Some sa' \<and> bench_sa ?M True (upto_pairs key_of (limit - limit)) sa'"
    proof (rule for_c_upt [where I = "\<lambda>i. bench_sa ?M True (upto_pairs key_of (limit - i))"])
      show "bench_sa ?M True (upto_pairs key_of (limit - 0)) sa" using sa by simp
      fix j s assume j: "bench_sa ?M True (upto_pairs key_of (limit - j)) s" "j < limit"
      then obtain k where k: "limit - j = Suc k" "limit - Suc j = k" by (cases "limit - j") auto
      obtain s' where s': "skiparray_pop_last s = Some (SKIPARRAY_POP_OK, Some (out_of s (key_of k, key_of k)), s')" "same_env s s'"
        "represents s' (upto_pairs key_of k) [] ?M"
        using pop_last_correct [OF bench_saD(1,9) [OF j(1)]] unfolding k by auto
      with popped [OF j(1)] bench_sa_keep [OF j(1)]
      show "\<exists>s'. ?body j s = Some s' \<and> bench_sa ?M True (upto_pairs key_of (limit - Suc j)) s'" unfolding k by (simp add: assert_c_def)
    qed simp
    then show "\<exists>sa' ps'. for_c ?body [0..<limit] sa = Some sa' \<and> bench_sa ?M True ps' sa'" by blast
  qed
qed

section \<open>Iterating\<close>

lemma search_res_other: "r \<noteq> SEARCH_EMPTY \<Longrightarrow> r \<noteq> SEARCH_NOT_FOUND \<Longrightarrow> r \<noteq> SEARCH_FOUND \<Longrightarrow> False"
  by (cases r) simp_all

lemma iter_seek_same: "skiparray_iter_seek sa i key = Some (res, sa') \<Longrightarrow> same_but_iters sa sa'"
  using same_but_iters_upd(1) [OF same_but_iters_refl, of sa i]
  by (auto simp: skiparray_iter_seek_def bind_eq_Some_conv split: search_res.splits if_splits option.splits
      dest: search_res_other)

lemma open_iter:
  assumes b: "bench_sa M uv ps sa" and n: "ps \<noteq> []"
  obtains i sa' where "skiparray_iter_new sa = Some (SKIPARRAY_ITER_NEW_OK, Some i, sa')" "iter_view sa' ps [i] M (\<lambda>_. 0)"
    "same_but_iters sa sa'"
proof -
  have z: "(\<lambda>_. 0)(i := 0) = (\<lambda>_. 0 :: nat)" for i :: addr by (simp add: fun_eq_iff)
  obtain i sa' where i: "skiparray_iter_new sa = Some (SKIPARRAY_ITER_NEW_OK, Some i, sa')" "iter_view sa' ps [i] M ((\<lambda>_. 0)(i := 0))"
    using iter_new_correct [OF bench_saD(8) [OF b, of "\<lambda>_. 0"]] iter_new_refused [of sa] bench_saD(2) [OF b] n by auto
  with iter_new_same [OF i(1)] show ?thesis unfolding z by (intro that [of i sa'])
qed

lemma close_iter_dispose:
  assumes b: "bench_sa M uv ps sa" and s: "same_but_iters sa sa'" and v: "iter_view sa' ps [i] M pos"
  shows "\<exists>sa''. skiparray_iter_free sa' (Some i) = Some sa'' \<and> bench_sa M uv ps sa''"
proof -
  obtain sa'' where f: "skiparray_iter_free sa' (Some i) = Some sa''" "iter_view sa'' ps [] M pos"
    using iter_free_correct [OF v] by auto
  have "same_but_iters sa sa''" using same_but_iters_trans [OF s iter_free_same [OF f(1)]] .
  with bench_sa_iters [OF b] f iter_view_represents [OF f(2)] show ?thesis by blast
qed

lemma sum_loop:
  assumes "iter_view sa ps [i] M pos" "pos i < length ps" "use_values sa"
  shows "\<exists>sa' pos'. loop_c (sum_step i) (sa, t0) = Some (sa', t0 + sum_list (map snd (drop (pos i) ps))) \<and>
    iter_view sa' ps [i] M pos' \<and> same_but_iters sa sa'"
  using assms
proof (induction "length ps - pos i" arbitrary: sa pos t0)
  case (Suc d)
  obtain sa' where s: "skiparray_iter_get sa i = Some (out_of sa (ps ! pos i))"
    "skiparray_iter_next sa i = Some (if Suc (pos i) = length ps then SKIPARRAY_ITER_STEP_END else SKIPARRAY_ITER_STEP_OK, sa')"
    "iter_view sa' ps [i] M (pos(i := Suc (pos i)))" "same_but_iters sa sa'"
    using iterate [OF Suc.prems(1) _ Suc.prems(2)] by (auto simp del: fun_upd_apply)
  have d: "drop (pos i) ps = ps ! pos i # drop (Suc (pos i)) ps" using Cons_nth_drop_Suc [OF Suc.prems(2)] by simp
  show ?case
  proof (cases "Suc (pos i) = length ps")
    case True
    then have "sum_step i (sa, t0) = Some (Inr (sa', t0 + snd (ps ! pos i)))"
      using s(1,2) Suc.prems(3) by (simp add: sum_step_def out_of_def)
    with loop_c_Inr s(3,4) True show ?thesis unfolding d by fastforce
  next
    case False
    then have "sum_step i (sa, t0) = Some (Inl (sa', t0 + snd (ps ! pos i)))"
      using s(1,2) Suc.prems(3) by (simp add: sum_step_def out_of_def)
    then have l: "loop_c (sum_step i) (sa, t0) = loop_c (sum_step i) (sa', t0 + snd (ps ! pos i))" by (rule loop_c_Inl)
    have p: "d = length ps - (pos(i := Suc (pos i))) i" "(pos(i := Suc (pos i))) i < length ps" "use_values sa'"
      using Suc.hyps(2) Suc.prems(2,3) False same_but_itersD(5) [OF s(4)] by auto
    from Suc.hyps(1) [OF p(1) s(3) p(2,3), of "t0 + snd (ps ! pos i)"] same_but_iters_trans [OF s(4)] show ?thesis
      unfolding l d by (auto simp: add.assoc)
  qed
qed simp

lemma read_on_loop:
  assumes "iter_view sa ps [i] M pos" "pos i < length ps"
  shows "\<exists>sa' pos'. loop_c (read_on_step i) sa = Some sa' \<and> iter_view sa' ps [i] M pos' \<and> same_but_iters sa sa'"
  using assms
proof (induction "length ps - pos i" arbitrary: sa pos)
  case (Suc d)
  obtain sa' where s: "skiparray_iter_get sa i = Some (out_of sa (ps ! pos i))"
    "skiparray_iter_next sa i = Some (if Suc (pos i) = length ps then SKIPARRAY_ITER_STEP_END else SKIPARRAY_ITER_STEP_OK, sa')"
    "iter_view sa' ps [i] M (pos(i := Suc (pos i)))" "same_but_iters sa sa'"
    using iterate [OF Suc.prems(1) _ Suc.prems(2)] by (auto simp del: fun_upd_apply)
  show ?case
  proof (cases "Suc (pos i) = length ps")
    case True
    then have "read_on_step i sa = Some (Inr sa')" using s(1,2) by (simp add: read_on_step_def out_of_def)
    with loop_c_Inr s(3,4) show ?thesis by fastforce
  next
    case False
    then have "read_on_step i sa = Some (Inl sa')" using s(1,2) by (simp add: read_on_step_def out_of_def)
    then have l: "loop_c (read_on_step i) sa = loop_c (read_on_step i) sa'" by (rule loop_c_Inl)
    have p: "d = length ps - (pos(i := Suc (pos i))) i" "(pos(i := Suc (pos i))) i < length ps"
      using Suc.hyps(2) Suc.prems(2) False by auto
    from Suc.hyps(1) [OF p(1) s(3) p(2)] same_but_iters_trans [OF s(4)] show ?thesis unfolding l by blast
  qed
qed simp

text \<open>Setting the keys in order.\<close>

lemma set_step_upto:
  assumes "bench_sa M True (upto_pairs key_of j) sa" "j < 2 ^ 63"
  shows "\<exists>sa'. set_value (key_of j) (key_of j) sa = Some sa' \<and> bench_sa M True (upto_pairs key_of (Suc j)) sa'"
  using set_ok [OF assms(1), of "key_of j" "key_of j"] upto_pairs_set [OF assms(2), of True key_of] by simp

lemma sum_benchmark:
  assumes g: "globals_ok G" and m: "oom m = []" and l: "0 < limit" "limit < 2 ^ 63"
  shows "passes sum_values G limit m"
proof -
  let ?M = "set (live m)" and ?ps = "upto_pairs key_of limit" and ?sum = "\<lambda>j. sum_list (map key_of [0..<j])"
  let ?body = "\<lambda>i (sa, actual). do { sa' \<leftarrow> set_value (of_nat i) (of_nat i) sa; Some (sa', actual + of_nat i) }"
  obtain sa where sa: "fresh_skiparray (sa_config G) m = Some sa" "bench_sa ?M True [] sa"
    using fresh_run [OF _ m, of "sa_config G"] g by (auto simp: globals_ok_def)
  have "\<exists>s'. for_c ?body [0..<limit] (sa, 0) = Some s' \<and> (bench_sa ?M True ?ps (fst s') \<and> snd s' = ?sum limit)"
    by (rule for_c_upt [where I = "\<lambda>j s. bench_sa ?M True (upto_pairs key_of j) (fst s) \<and> snd s = ?sum j"])
       (use sa(2) l(2) set_step_upto in \<open>fastforce+\<close>)
  then obtain sa1 where sa1: "for_c ?body [0..<limit] (sa, 0) = Some (sa1, ?sum limit)" "bench_sa ?M True ?ps sa1" by auto
  have n: "?ps \<noteq> []" using l(1) by simp
  obtain i sa2 where i: "skiparray_iter_new sa1 = Some (SKIPARRAY_ITER_NEW_OK, Some i, sa2)" "iter_view sa2 ?ps [i] ?M (\<lambda>_. 0)"
    "same_but_iters sa1 sa2" by (rule open_iter [OF sa1(2) n])
  obtain sa3 where e: "skiparray_iter_seek_endpoint sa2 i SKIPARRAY_ITER_SEEK_FIRST = Some sa3"
    "iter_view sa3 ?ps [i] ?M ((\<lambda>_. 0)(i := 0))" using iter_seek_endpoint_correct [OF i(2), of i SKIPARRAY_ITER_SEEK_FIRST] by auto
  have s3: "same_but_iters sa1 sa3" using same_but_iters_trans [OF i(3) iter_moves_same(1) [OF e(1)]] .
  have t: "sum_list (map snd ?ps) = ?sum limit" by (simp add: upto_pairs_def comp_def)
  obtain sa4 pos' where r: "loop_c (sum_step i) (sa3, 0) = Some (sa4, ?sum limit)" "iter_view sa4 ?ps [i] ?M pos'" "same_but_iters sa3 sa4"
    using sum_loop [OF e(2), of 0] l(1) t same_but_itersD(5) [OF s3] bench_saD(5) [OF sa1(2)] by auto
  obtain sa5 where c: "skiparray_iter_free sa4 (Some i) = Some sa5" "bench_sa ?M True ?ps sa5"
    using close_iter_dispose [OF sa1(2) same_but_iters_trans [OF s3 r(3)] r(2)] by blast
  from settled_dispose [OF c(2) m] show ?thesis
    using sa(1) sa1(1) i(1) e(1) r(1) c(1) by (auto simp: passes_def sum_values_def assert_c_def)
qed

lemma sum_partway_benchmark:
  assumes g: "globals_ok G" and m: "oom m = []" and l: "0 < limit" "limit < 2 ^ 63"
  shows "passes sum_partway G limit m"
proof -
  let ?M = "set (live m)" and ?ps = "upto_pairs key_of limit" and ?k = "limit div 2"
  obtain sa where sa: "fresh_skiparray (sa_config G) m = Some sa" "bench_sa ?M True [] sa"
    using fresh_run [OF _ m, of "sa_config G"] g by (auto simp: globals_ok_def)
  have "\<exists>s'. for_c (\<lambda>i. set_value (of_nat i) (of_nat i)) [0..<limit] sa = Some s' \<and> bench_sa ?M True ?ps s'"
    by (rule for_c_upt [where I = "\<lambda>j. bench_sa ?M True (upto_pairs key_of j)"]) (use sa(2) l(2) set_step_upto in \<open>fastforce+\<close>)
  then obtain sa1 where sa1: "for_c (\<lambda>i. set_value (of_nat i) (of_nat i)) [0..<limit] sa = Some sa1" "bench_sa ?M True ?ps sa1" by blast
  have n: "?ps \<noteq> []" using l(1) by simp
  obtain i sa2 where i: "skiparray_iter_new sa1 = Some (SKIPARRAY_ITER_NEW_OK, Some i, sa2)" "iter_view sa2 ?ps [i] ?M (\<lambda>_. 0)"
    "same_but_iters sa1 sa2" by (rule open_iter [OF sa1(2) n])
  have cmp: "call_cmp sa2 = cmp_intptr_t" using same_but_itersD(8) [OF i(3)] bench_saD(3) [OF sa1(2)] by simp
  have kl: "?k < limit" using l(1) by simp
  have sp: "seek_pos cmp_intptr_t (key_of ?k) ?ps = ?k"
  proof -
    have "?ps = upto_pairs key_of ?k @ drop ?k ?ps"
      using upt_add_eq_append [of 0 ?k "limit - ?k"] kl by (simp add: upto_pairs_def drop_map flip: map_append)
    moreover have "takeWhile (\<lambda>p. 0 < cmp_intptr_t (key_of ?k) (fst p)) (upto_pairs key_of ?k @ drop ?k ?ps) = upto_pairs key_of ?k"
      using kl l(2) drop_upto_pairs [OF kl, of key_of] by (subst takeWhile_append2) (auto simp: upto_pairs_def cmp_key)
    ultimately show ?thesis unfolding seek_pos_def by (metis upto_pairs_simps(3))
  qed
  then have sf: "seek_found cmp_intptr_t (key_of ?k) ?ps" using kl by (simp add: seek_found_def cmp_eq)
  obtain sa3 where e: "skiparray_iter_seek sa2 i (key_of ?k) = Some (SKIPARRAY_ITER_SEEK_FOUND, sa3)"
    "iter_view sa3 ?ps [i] ?M ((\<lambda>_. 0)(i := ?k))"
    using iter_seek_correct [OF i(2), of i ?k "key_of ?k"] sp sf unfolding cmp by auto
  have s3: "same_but_iters sa1 sa3" using same_but_iters_trans [OF i(3) iter_seek_same [OF e(1)]] .
  obtain sa4 pos' where r: "loop_c (read_on_step i) sa3 = Some sa4" "iter_view sa4 ?ps [i] ?M pos'" "same_but_iters sa3 sa4"
    using read_on_loop [OF e(2)] kl by auto
  obtain sa5 where c: "skiparray_iter_free sa4 (Some i) = Some sa5" "bench_sa ?M True ?ps sa5"
    using close_iter_dispose [OF sa1(2) same_but_iters_trans [OF s3 r(3)] r(2)] by blast
  from settled_dispose [OF c(2) m] show ?thesis
    using sa(1) sa1(1) i(1) e(1) r(1) c(1) by (auto simp: passes_def sum_partway_def assert_c_def)
qed

section \<open>All benchmarks\<close>

lemma all_pass:
  assumes "globals_ok G" "oom m = []" "2 \<le> limit" "limit < 2 ^ 63" "(n, f) \<in> set benchmarks"
  shows "passes f G limit m"
proof -
  have p: "0 < limit" using assms(3) by simp
  from assms(5) show ?thesis
    using read_benchmarks [OF assms(1,2,4)] change_benchmarks [OF assms(1,2,4)] set_benchmarks [OF assms(1,2)]
      builder_benchmarks [OF assms(1,2,4)] count_benchmark [OF assms(1,2,4)] pop_benchmarks [OF assms(1,2,4)]
      sum_benchmark [OF assms(1,2) p assms(4)] sum_partway_benchmark [OF assms(1,2) p assms(4)]
    by (auto simp: benchmarks_def)
qed

lemma settled_refl [simp]: "settled m m"
  by (simp add: settled_def)

lemma settled_trans: "settled m m' \<Longrightarrow> settled m' m'' \<Longrightarrow> settled m m''"
  by (simp add: settled_def)

lemma for_c_settled:
  assumes "\<And>x m'. x \<in> set xs \<Longrightarrow> settled m m' \<Longrightarrow> \<exists>m''. f x m' = Some m'' \<and> settled m' m''"
  shows "\<exists>m'. for_c f xs m = Some m' \<and> settled m m'"
  using assms
proof (induction xs arbitrary: m)
  case (Cons x xs)
  obtain m1 where m1: "f x m = Some m1" "settled m m1" using Cons.prems [of x m] by auto
  have "\<exists>m'. for_c f xs m1 = Some m' \<and> settled m1 m'"
    by (rule Cons.IH) (use Cons.prems settled_trans [OF m1(2)] in auto)
  with m1 settled_trans [OF m1(2)] show ?case by auto
qed simp

lemma run_benchmarks_run:
  assumes g: "globals_ok G" and m: "oom m = []" and n: "n \<le> length ls" and l: "\<And>l. l \<in> set (take n ls) \<Longrightarrow> 2 \<le> l \<and> l < 2 ^ 63"
  shows "\<exists>m'. run_benchmarks G only ls n cycles m = Some m' \<and> settled m m'"
  unfolding run_benchmarks_def
proof (rule for_c_settled)
  fix i m1 assume i: "i \<in> set [0..<n]" and m1: "settled m m1"
  then have "i < length (take n ls)" "take n ls ! i = ls ! i" using n by simp_all
  then have "ls ! i \<in> set (take n ls)" by (metis nth_mem)
  then have r: "rd ls i = Some (ls ! i)" and li: "2 \<le> ls ! i \<and> ls ! i < 2 ^ 63"
    using l i n by (simp_all add: rd_def)
  have "\<exists>m''. for_c (\<lambda>c. for_c (\<lambda>(bname, fn) m. if only = None \<or> only = Some bname then fn G (ls ! i) m else Some m) benchmarks)
      [0..<cycles] m1 = Some m'' \<and> settled m1 m''"
  proof (intro for_c_settled, goal_cases)
    case (1 c m2 bf m3)
    obtain n f where f: "bf = (n, f)" by (cases bf)
    have "oom m3 = []" using 1(2,4) m1 m by (simp add: settled_def)
    then have "passes f G (ls ! i) m3" using all_pass [OF g _ _ _ 1(3) [unfolded f]] li by blast
    then show ?case by (simp add: f passes_def)
  qed
  with r show "\<exists>m''. (do { limit \<leftarrow> rd ls i;
      for_c (\<lambda>c. for_c (\<lambda>(bname, fn) m. if only = None \<or> only = Some bname then fn G limit m else Some m) benchmarks) [0..<cycles] m1 })
      = Some m'' \<and> settled m1 m''" by simp
qed

section \<open>The configuration\<close>

text \<open>\<^verbatim>\<open>memory_cb\<close> keeps the contract of a memory callback.\<close>

interpretation tracking: allocator tracking_malloc
  by unfold_locales (simp add: tracking_malloc_def def_memory.alloc_fresh)

lemma tracking_refusing: "oom m = [] \<Longrightarrow> \<not> refusing tracking_malloc m"
  using malloc_refusing by (simp add: refusing_def tracking_malloc_def)

text \<open>
  Its counter is the sum of the sizes saved in the blocks in use; but it counts a request before
  \<^verbatim>\<open>malloc\<close> refuses it.
\<close>

definition counted :: "memory_stats \<Rightarrow> mstate \<Rightarrow> bool" where
  "counted st m \<longleftrightarrow> set (live m) \<subseteq> dom (saved_size st) \<and> memory_used st = (\<Sum>a \<in> set (live m). the (saved_size st a))"

lemma memory_cb_alloc:
  "\<exists>r st' m'. memory_cb None n st m = Some (r, st', m') \<and> mem_alloc tracking_malloc n m = (r, m') \<and>
    (counted st m \<and> r \<noteq> None \<longrightarrow> counted st' m') \<and> memory_used st' \<le> memory_hwm st'"
proof -
  obtain r m' where a: "mem_alloc malloc (sizeof_ptr + n) m = (r, m')" by fastforce
  then have t: "mem_alloc tracking_malloc n m = (r, m')" by (simp add: mem_alloc_def tracking_malloc_def)
  show ?thesis
  proof (cases r)
    case (Some x)
    then have x: "x \<notin> set (live m)" "live m' = x # live m" using def_memory.mem_alloc_SomeD a by blast+
    have "(\<Sum>a \<in> set (live m). the (((saved_size st)(x \<mapsto> of_nat n)) a)) = (\<Sum>a \<in> set (live m). the (saved_size st a))"
      using x(1) by (intro sum.cong) auto
    with a t x Some show ?thesis by (auto simp: memory_cb_def Let_def counted_def add.commute)
  qed (use a t in \<open>simp add: memory_cb_def Let_def not_less\<close>)
qed

lemma memory_cb_free:
  assumes "counted st m" "a \<in> set (live m)"
  shows "\<exists>st' m'. memory_cb (Some a) 0 st m = Some (None, st', m') \<and> mem_free a m = Some m' \<and> counted st' m'"
proof -
  obtain w where w: "saved_size st a = Some w" using assms by (auto simp: counted_def)
  have "(\<Sum>x \<in> set (live m) - {a}. the (saved_size st x)) = (\<Sum>x \<in> set (live m). the (saved_size st x)) - w"
    using assms(2) w by (simp add: sum_diff1)
  with assms w show ?thesis by (auto simp: memory_cb_def mem_free_def counted_def)
qed

lemma bench_setup_ok:
  assumes "nsize mod 65536 \<noteq> 1"
  shows "globals_ok (bench_setup nsize rng track)"
proof -
  have "config_ok (bench_config nsize rng track)" "config_ok (bench_config nsize rng track\<lparr>cfg_ignore_values := True\<rparr>)"
    using intptr.comparator_axioms def_memory.allocator_axioms tracking.allocator_axioms def_level.level_source_axioms
    by (simp_all add: config_ok_def bench_config_def cfg_mem_def cfg_lev_def def_memory_ptr_def def_level_ptr_def u16_def)
  then show ?thesis
    using assms malloc_refusing tracking_refusing
    by (simp_all add: globals_ok_def bench_cfg_def bench_setup_def Let_def)
       (simp_all add: bench_config_def cfg_mem_def def_memory_ptr_def cfg_levels_def SKIPARRAY_DEF_MAX_LEVEL_def u16_def)
qed

section \<open>Options\<close>

lemma parse_loop_run:
  assumes "length ls = MAX_LIMITS" "n \<le> MAX_LIMITS"
  shows "parse_loop args ls n =
    (if \<exists>x \<in> set (take (Suc MAX_LIMITS - n) args). x \<le> 1 then Some Bad_limit
     else if n + length args \<le> MAX_LIMITS then Some (Parsed (take n ls @ args @ drop (n + length args) ls) (n + length args))
     else None)"
  using assms
proof (induction args arbitrary: ls n)
  case (Cons x args)
  have t: "take (Suc MAX_LIMITS - n) (x # args) = x # take (MAX_LIMITS - n) args" using Cons.prems(2) by (simp add: Suc_diff_le)
  consider "x \<le> 1" | "1 < x" "n = MAX_LIMITS" | "1 < x" "n < MAX_LIMITS" using Cons.prems(2) by fastforce
  then show ?case
  proof cases
    case 3
    have w: "wr ls n x = Some (ls[n := x])" "u8 (n + 1) = n + 1"
      using 3 Cons.prems(1) by (simp_all add: wr_def u8_def MAX_LIMITS_def)
    have l: "take (Suc n) (ls[n := x]) = take n ls @ [x]" "drop (Suc (n + length args)) (ls[n := x]) = drop (Suc (n + length args)) ls"
      using 3 Cons.prems(1) by (simp_all add: take_Suc_conv_app_nth)
    have m: "Suc MAX_LIMITS - (n + 1) = MAX_LIMITS - n" by simp
    have "parse_loop (x # args) ls n = parse_loop args (ls[n := x]) (n + 1)" using 3 w by simp
    also have "\<dots> = (if \<exists>x \<in> set (take (MAX_LIMITS - n) args). x \<le> 1 then Some Bad_limit
     else if n + 1 + length args \<le> MAX_LIMITS
       then Some (Parsed (take (n + 1) (ls[n := x]) @ args @ drop (n + 1 + length args) (ls[n := x])) (n + 1 + length args)) else None)"
      using Cons.IH [of "ls[n := x]" "n + 1"] 3 Cons.prems(1) unfolding m by simp
    finally show ?thesis using 3 l unfolding t by simp
  qed (use Cons.prems(1) t in \<open>simp_all add: wr_def\<close>)
qed simp

lemma parse_limits_run:
  assumes "length ls = MAX_LIMITS" "n \<le> MAX_LIMITS"
  shows "parse_limits args ls n =
    (if \<exists>x \<in> set (take (Suc MAX_LIMITS - n) args). x \<le> 1 then Some Bad_limit
     else if n + length args \<le> MAX_LIMITS
       then Some (Parsed (sort (take n ls @ args) @ drop (n + length args) ls) (n + length args))
     else None)"
  unfolding parse_limits_def parse_loop_run [OF assms] using assms by simp

text \<open>
  Options the program rejects; the conditions under which those it accepts do not lead outside
  the array of limits, to a node size of one, or to limits that are no positive \<^verbatim>\<open>intptr_t\<close>.
\<close>

fun opt_bad :: "opt \<Rightarrow> bool" where
  "opt_bad (Opt_c n) = (n = 0)"
| "opt_bad (Opt_l ns) = list_ex (\<lambda>l. l \<le> 1) ns"
| "opt_bad (Opt_s n) = (n < 2)"
| "opt_bad Opt_h = True"
| "opt_bad Opt_unknown = True"
| "opt_bad _ = False"

fun opt_ok :: "opt \<Rightarrow> bool" where
  "opt_ok (Opt_l ns) = list_all (\<lambda>l. l < 2 ^ 63) ns"
| "opt_ok (Opt_s n) = (n mod 2 ^ 16 \<noteq> 1)"
| "opt_ok _ = True"

fun opt_limits :: "opt \<Rightarrow> nat" where
  "opt_limits (Opt_l ns) = length ns"
| "opt_limits _ = 0"

definition options_ok :: "opt list \<Rightarrow> bool" where
  "options_ok args \<longleftrightarrow> list_all opt_ok args \<and> sum_list (map opt_limits args) \<le> MAX_LIMITS"

definition settings_ok :: "settings \<Rightarrow> bool" where
  "settings_ok g \<longleftrightarrow> length (arg_limits g) = MAX_LIMITS \<and> arg_limit_count g \<le> MAX_LIMITS \<and>
     (\<forall>l \<in> set (take (arg_limit_count g) (arg_limits g)). 2 \<le> l \<and> l < 2 ^ 63) \<and> arg_node_size g mod 65536 \<noteq> 1"

lemma handle_limits:
  assumes g: "settings_ok g" and n: "arg_limit_count g + length ns \<le> MAX_LIMITS" and l: "list_all (\<lambda>l. l < 2 ^ 63) ns"
  shows "if list_ex (\<lambda>l. l \<le> 1) ns then handle_arg (Opt_l ns) g = Some (Inl EXIT_FAILURE)
    else \<exists>g'. handle_arg (Opt_l ns) g = Some (Inr g') \<and> settings_ok g' \<and> arg_limit_count g' = arg_limit_count g + length ns"
proof -
  have s: "length (arg_limits g) = MAX_LIMITS" "arg_limit_count g \<le> MAX_LIMITS" using g by (simp_all add: settings_ok_def)
  have "take (Suc MAX_LIMITS - arg_limit_count g) ns = ns" using n by simp
  with parse_limits_run [OF s, of ns] n g l show ?thesis
    by (auto simp: settings_ok_def list_ex_iff list_all_iff not_less_eq_eq numeral_2_eq_2)
qed

lemma handle_args_run:
  assumes "settings_ok g" "list_all opt_ok args" "arg_limit_count g + sum_list (map opt_limits args) \<le> MAX_LIMITS"
  shows "if list_ex opt_bad args then handle_args args g = Some (Inl EXIT_FAILURE)
    else \<exists>g'. handle_args args g = Some (Inr g') \<and> settings_ok g'"
  using assms
proof (induction args arbitrary: g)
  case (Cons a args)
  have s: "if opt_bad a then handle_arg a g = Some (Inl EXIT_FAILURE)
    else \<exists>g'. handle_arg a g = Some (Inr g') \<and> settings_ok g' \<and> arg_limit_count g' = arg_limit_count g + opt_limits a"
  proof (cases a)
    case (Opt_l ns)
    then show ?thesis using handle_limits [OF Cons.prems(1), of ns] Cons.prems(2,3) by (simp split: if_splits)
  qed (use Cons.prems(1,2) in \<open>auto simp: settings_ok_def\<close>)
  show ?case
  proof (cases "opt_bad a")
    case False
    then obtain g' where g': "handle_arg a g = Some (Inr g')" "settings_ok g'" "arg_limit_count g' = arg_limit_count g + opt_limits a"
      using s by auto
    from Cons.IH [OF g'(2)] Cons.prems(2,3) g'(1,3) False show ?thesis by simp
  qed (use s in simp)
qed simp

lemma default_settings_ok: "settings_ok default_settings" "arg_limit_count default_settings = 0"
  by (simp_all add: settings_ok_def default_settings_def SKIPARRAY_DEF_NODE_SIZE_def)

lemma bench_main_run:
  assumes a: "options_ok args" and m: "oom m = []"
  shows "\<exists>m'. bench_main args m = Some (if list_ex opt_bad args then EXIT_FAILURE else EXIT_SUCCESS, m') \<and> settled m m'"
proof (cases "list_ex opt_bad args")
  case True
  with handle_args_run [OF default_settings_ok(1), of args] a default_settings_ok(2) show ?thesis
    by (simp add: options_ok_def bench_main_def)
next
  case False
  then obtain g where g: "handle_args args default_settings = Some (Inr g)" "settings_ok g"
    using handle_args_run [OF default_settings_ok(1), of args] a default_settings_ok(2) by (auto simp: options_ok_def)
  let ?G = "bench_setup (arg_node_size g) (arg_seed g) (arg_track_memory g)"
  have G: "globals_ok ?G" using g(2) by (intro bench_setup_ok) (simp add: settings_ok_def)
  have run: "\<exists>m'. run_benchmarks ?G (arg_name g) ls n (arg_cycles g) m = Some m' \<and> settled m m'"
    if "n \<le> length ls" "\<forall>l \<in> set (take n ls). 2 \<le> l \<and> l < 2 ^ 63" for ls n
    using run_benchmarks_run [OF G m that(1)] that(2) by blast
  obtain ls n where ls: "(if arg_limit_count g = 0 then do { ls \<leftarrow> wr (arg_limits g) 0 DEF_LIMIT; Some (ls, 1) }
      else Some (arg_limits g, arg_limit_count g)) = Some (ls, n)" "n \<le> length ls" "\<forall>l \<in> set (take n ls). 2 \<le> l \<and> l < 2 ^ 63"
  proof (cases "arg_limit_count g = 0")
    case True
    obtain x xs where "arg_limits g = x # xs" using g(2) by (cases "arg_limits g") (auto simp: settings_ok_def MAX_LIMITS_def)
    with True show ?thesis by (intro that [of "DEF_LIMIT # xs" 1]) (simp_all add: wr_def DEF_LIMIT_def)
  next
    case n: False
    with g(2) show ?thesis by (intro that [of "arg_limits g" "arg_limit_count g"]) (simp_all add: settings_ok_def)
  qed
  from run [OF ls(2,3)] False show ?thesis unfolding bench_main_def g(1) by (auto simp: ls(1))
qed

section \<open>Properties\<close>

text \<open>
  C22. The benchmark program, run on options that give at most MAX_LIMITS limits in all, each
  a positive intptr_t, and a node size that is not one modulo 2^16, with memory that does not
  run out, ends: with a failure exactly when an option is to be rejected. No assertion of a
  benchmark or of the library fails on the way, no block is used after it was given back, and
  at the end all memory is given back, whatever benchmarks, cycles, seed and node size are
  chosen.
\<close>

theorem bench_main_spec:
  assumes "options_ok args" "oom m = []"
  shows "\<exists>m'. bench_main args m = Some (if list_ex opt_bad args then EXIT_FAILURE else EXIT_SUCCESS, m') \<and>
    set (live m') = set (live m)"
  using bench_main_run [OF assms] by (auto simp: settled_def)

theorem bench_main_spec_witness:
  "\<exists>m'. bench_main [Opt_c 3, Opt_l [1000, 10], Opt_m, Opt_s 5] \<lparr>live = [7], clock = 0, oom = []\<rparr> = Some (EXIT_SUCCESS, m') \<and>
    set (live m') = {7}"
  using bench_main_spec [of "[Opt_c 3, Opt_l [1000, 10], Opt_m, Opt_s 5]" "\<lparr>live = [7], clock = 0, oom = []\<rparr>"]
  by (simp add: options_ok_def MAX_LIMITS_def)

text \<open>
  C37. Parsing limits into the array of MAX_LIMITS, n of them there already: the first that is
  at most 1 makes the result false; otherwise, when they fit, they are added and all are
  sorted; and when they do not fit, the one that is too many is written past the end of the
  array before it is noticed, so the message about too many limits is never reached in the
  bounds of the array.
\<close>

theorem parse_limits_spec:
  assumes "length ls = MAX_LIMITS" "n \<le> MAX_LIMITS"
  shows "parse_limits args ls n =
    (if list_ex (\<lambda>l. l \<le> 1) (take (Suc MAX_LIMITS - n) args) then Some Bad_limit
     else if n + length args \<le> MAX_LIMITS
       then Some (Parsed (sort (take n ls @ args) @ drop (n + length args) ls) (n + length args))
     else None)"
  using parse_limits_run [OF assms] by (simp add: list_ex_iff)

theorem parse_limits_spec_witness:
  "parse_limits [900, 20] (replicate 64 0) 0 = Some (Parsed ([20, 900] @ replicate 62 0) 2) \<and>
    parse_limits [900, 1, 20] (replicate 64 0) 0 = Some Bad_limit \<and>
    parse_limits [900] (replicate 64 2) 64 = None"
  using parse_limits_spec [of "replicate 64 0" 0 "[900, 20]"] parse_limits_spec [of "replicate 64 0" 0 "[900, 1, 20]"]
    parse_limits_spec [of "replicate 64 2" 64 "[900]"] by (simp add: MAX_LIMITS_def)

end
