(* ===== verification/Self_Check.thy ===== *)
theory Self_Check
  imports Cursor Intmap
begin

text \<open>
  The test suite's check of a skiparray, \<^verbatim>\<open>test_skiparray_invariants\<close>
  (\<open>test/test_skiparray_invariants.c\<close>), statement by statement, and that it passes on every
  well-formed state: the invariant the theorems keep is at least what the authors check.
\<close>

section \<open>The check\<close>

text \<open>
  The function returns false at the first \<^verbatim>\<open>CHECK\<close> that fails.  A loop ends with \<open>Inr None\<close>
  then; the parts return \<open>Some None\<close>, the whole too, and otherwise the state after the check,
  which creates and frees an iterator.
\<close>

definition CHECK :: "bool option \<Rightarrow> ('s + 'r option) option \<Rightarrow> ('s + 'r option) option" where
  "CHECK b k = do { ok \<leftarrow> b; (if ok then k else Some (Inr None)) }"

fun every :: "('a \<Rightarrow> bool option) \<Rightarrow> 'a list \<Rightarrow> bool option" where
  "every f [] = Some True"
| "every f (x # xs) = do { ok \<leftarrow> f x; (if ok then every f xs else Some False) }"

text \<open>The counters are of type \<^verbatim>\<open>size_t\<close>.\<close>

definition bump :: "nat list \<Rightarrow> nat \<Rightarrow> nat list option" where
  "bump cs i = do { c \<leftarrow> rd cs i; wr cs i ((c + 1) mod 2 ^ 64) }"

text \<open>\<open>cl\<close> is \<^verbatim>\<open>counts_linked\<close>.\<close>

text \<open>The first loop, over the nodes of level 0.\<close>

definition check_heads :: "skiparray \<Rightarrow> nat \<Rightarrow> addr \<Rightarrow> node \<Rightarrow> bool option" where
  "check_heads sa checked a n =
     every (\<lambda>i. do { p \<leftarrow> rd (nodes sa) i; Some (p = Some a) }) [checked + 1..<height n]"

definition check_back :: "skiparray \<Rightarrow> addr option \<Rightarrow> node \<Rightarrow> bool option" where
  "check_back sa prev n =
     (case prev of
        None \<Rightarrow> Some (back_p n = None)
      | Some b \<Rightarrow>
        if back_p n \<noteq> Some b then Some False
        else if 0 < count n then do {
          pn \<leftarrow> heap sa b;
          l \<leftarrow> last_key pn;
          f \<leftarrow> first_key n;
          Some (call_cmp sa l f < 0)
        }
        else Some True)"

definition check_fill :: "skiparray \<Rightarrow> addr \<Rightarrow> node \<Rightarrow> addr option \<Rightarrow> bool option" where
  "check_fill sa a n next =
     (case next of
        None \<Rightarrow> do { root \<leftarrow> rd (nodes sa) 0; Some (Some a \<noteq> root \<longrightarrow> 0 < count n) }
      | Some b \<Rightarrow> Some (node_size sa div 2 \<le> count n))"

definition check_keys :: "skiparray \<Rightarrow> node \<Rightarrow> bool option" where
  "check_keys sa n =
     every (\<lambda>i. do { k \<leftarrow> rd (keys n) (offset n + i - 1); k' \<leftarrow> rd (keys n) (offset n + i); Some (call_cmp sa k k' < 0) })
       [1..<count n]"

type_synonym walk = "addr option \<times> addr option \<times> nat \<times> nat \<times> nat list \<times> nat list"

definition node_step :: "skiparray \<Rightarrow> walk \<Rightarrow> (walk + (nat \<times> nat list \<times> nat list) option) option" where
  "node_step sa = (\<lambda>(cur, prev, checked, pairs, counts, cl).
     (case cur of
        None \<Rightarrow> Some (Inr (Some (pairs, counts, cl)))
      | Some a \<Rightarrow> do {
          n \<leftarrow> heap sa a;
          next \<leftarrow> rd (fwd n) 0;
          let pairs' = (pairs + count n) mod 2 ^ 64;
          CHECK (Some (height n \<le> max_level sa)) (do {
            assert_c (1 \<le> height n);
            counts' \<leftarrow> bump counts (height n - 1);
            CHECK (if checked < height n then check_heads sa checked a n else Some True) (
            CHECK (check_back sa prev n) (
            CHECK (check_fill sa a n next) (
            CHECK (Some (count n \<le> node_size sa)) (
            CHECK (Some (offset n + count n \<le> node_size sa)) (
            CHECK (check_keys sa n) (do {
              cl' \<leftarrow> bump cl 0;
              Some (Inl (next, Some a, max checked (height n), pairs', counts', cl'))
            }))))))
          })
        }))"

text \<open>The second, over the levels above.\<close>

definition level_step :: "skiparray \<Rightarrow> nat \<Rightarrow> addr option \<times> nat list \<Rightarrow> (addr option \<times> nat list + nat list option) option" where
  "level_step sa li = (\<lambda>(cur, cl).
     (case cur of
        None \<Rightarrow> Some (Inr (Some cl))
      | Some a \<Rightarrow> do {
          n \<leftarrow> heap sa a;
          next \<leftarrow> rd (fwd n) li;
          CHECK (Some (next \<noteq> Some a)) (
          CHECK (case next of
                   None \<Rightarrow> Some True
                 | Some b \<Rightarrow> do {
                     m \<leftarrow> heap sa b;
                     (if li \<le> height m then do { l \<leftarrow> last_key n; f \<leftarrow> first_key m; Some (call_cmp sa l f < 0) } else Some False)
                   }) (do {
            cl' \<leftarrow> bump cl li;
            Some (Inl (next, cl'))
          }))
        }))"

fun check_levels :: "skiparray \<Rightarrow> nat list \<Rightarrow> nat list \<Rightarrow> nat list option option" where
  "check_levels sa [] cl = Some (Some cl)"
| "check_levels sa (li # lis) cl = do {
     cur \<leftarrow> rd (nodes sa) li;
     r \<leftarrow> loop_c (level_step sa li) (cur, cl);
     (case r of None \<Rightarrow> Some None | Some cl' \<Rightarrow> check_levels sa lis cl')
   }"

definition check_counts :: "skiparray \<Rightarrow> nat list \<Rightarrow> nat list \<Rightarrow> bool option" where
  "check_counts sa counts cl = do {
     ok \<leftarrow> every (\<lambda>li. do {
         level_gte \<leftarrow> for_c (\<lambda>i s. do { c \<leftarrow> rd counts i; Some ((s + c) mod 2 ^ 64) }) [li..<Suc (sa_height sa)] 0;
         l \<leftarrow> rd cl li;
         Some (l = level_gte)
       }) [1..<sa_height sa];
     (if ok then every (\<lambda>li. do { l \<leftarrow> rd cl (li - 1); l' \<leftarrow> rd cl li; Some (l' \<le> l) }) [1..<Suc (sa_height sa)]
      else Some False)
   }"

text \<open>The last, with an iterator; the keys must ascend as \<^verbatim>\<open>intptr_t\<close>.\<close>

definition forward_step :: "addr \<Rightarrow> skiparray \<times> voidp \<times> nat \<Rightarrow> (skiparray \<times> voidp \<times> nat + (skiparray \<times> voidp \<times> nat) option) option" where
  "forward_step i = (\<lambda>(sa, prev_k, cnt). do {
     (key, v) \<leftarrow> skiparray_iter_get sa i;
     let cnt' = (cnt + 1) mod 2 ^ 64;
     CHECK (Some (1 < cnt' \<longrightarrow> cmp_intptr_t prev_k key < 0)) (do {
       (res, sa') \<leftarrow> skiparray_iter_next sa i;
       (if res = SKIPARRAY_ITER_STEP_END then Some (Inr (Some (sa', prev_k, cnt')))
        else CHECK (Some (res = SKIPARRAY_ITER_STEP_OK)) (Some (Inl (sa', key, cnt'))))
     })
   })"

definition backward_step :: "addr \<Rightarrow> skiparray \<times> voidp \<times> nat \<Rightarrow> (skiparray \<times> voidp \<times> nat + (skiparray \<times> voidp \<times> nat) option) option" where
  "backward_step i = (\<lambda>(sa, prev_k, cnt). do {
     (key, v) \<leftarrow> skiparray_iter_get sa i;
     let cnt' = (cnt + 1) mod 2 ^ 64;
     CHECK (Some (1 < cnt' \<longrightarrow> 0 < cmp_intptr_t prev_k key)) (do {
       (res, sa') \<leftarrow> skiparray_iter_prev sa i;
       (if res = SKIPARRAY_ITER_STEP_END then Some (Inr (Some (sa', prev_k, cnt')))
        else CHECK (Some (res = SKIPARRAY_ITER_STEP_OK)) (Some (Inl (sa', key, cnt'))))
     })
   })"

definition check_iteration :: "skiparray \<Rightarrow> nat \<Rightarrow> skiparray option option" where
  "check_iteration sa count_pairs = do {
     (res, r, sa1) \<leftarrow> skiparray_iter_new sa;
     (if count_pairs = 0 then Some (if res = SKIPARRAY_ITER_NEW_EMPTY then Some sa1 else None)
      else if res \<noteq> SKIPARRAY_ITER_NEW_OK then Some None
      else do {
        i \<leftarrow> r;
        sa2 \<leftarrow> skiparray_iter_seek_endpoint sa1 i SKIPARRAY_ITER_SEEK_FIRST;
        f \<leftarrow> loop_c (forward_step i) (sa2, 0, 0);
        (case f of
           None \<Rightarrow> Some None
         | Some (sa3, prev_k, count_forward) \<Rightarrow>
           if count_forward \<noteq> count_pairs then Some None
           else do {
             sa4 \<leftarrow> skiparray_iter_seek_endpoint sa3 i SKIPARRAY_ITER_SEEK_LAST;
             b \<leftarrow> loop_c (backward_step i) (sa4, prev_k, 0);
             (case b of
                None \<Rightarrow> Some None
              | Some (sa5, prev_k', count_backward) \<Rightarrow> do { sa6 \<leftarrow> skiparray_iter_free sa5 (Some i); Some (Some sa6) })
           })
      })
   }"

definition test_skiparray_invariants :: "skiparray \<Rightarrow> skiparray option option" where
  "test_skiparray_invariants sa = do {
     let zeros = replicate (max_level sa + 1) 0;
     cur \<leftarrow> rd (nodes sa) 0;
     (if cur = None then Some None
      else do {
        r \<leftarrow> loop_c (node_step sa) (cur, None, 0, 0, zeros, zeros);
        (case r of
           None \<Rightarrow> Some None
         | Some (actual_pairs, counts, cl) \<Rightarrow> do {
             r' \<leftarrow> check_levels sa [1..<sa_height sa] cl;
             (case r' of
                None \<Rightarrow> Some None
              | Some cl' \<Rightarrow> do {
                  ok \<leftarrow> check_counts sa counts cl';
                  (if \<not> ok then Some None
                   else do {
                     count_pairs \<leftarrow> skiparray_count sa;
                     (if count_pairs \<noteq> actual_pairs then Some None else check_iteration sa count_pairs)
                   })
                })
           })
      })
   }"

lemma CHECK_True [simp]: "CHECK (Some True) k = k"
  by (simp add: CHECK_def)

lemma every_True: "(\<And>x. x \<in> set xs \<Longrightarrow> f x = Some True) \<Longrightarrow> every f xs = Some True"
  by (induction xs) auto

section \<open>Nodes\<close>

text \<open>What the loops have counted after some of the nodes.\<close>

definition taller :: "skiparray \<Rightarrow> addr list \<Rightarrow> nat \<Rightarrow> nat" where
  "taller sa ns l = length (filter (\<lambda>a. l < ht (heap sa) a) ns)"

definition exactly :: "skiparray \<Rightarrow> addr list \<Rightarrow> nat \<Rightarrow> nat" where
  "exactly sa ns l = length (filter (\<lambda>a. ht (heap sa) a = Suc l) ns)"

definition counted_at :: "skiparray \<Rightarrow> (nat \<Rightarrow> nat) \<Rightarrow> nat list" where
  "counted_at sa f = map (\<lambda>l. f l mod 2 ^ 64) [0..<max_level sa + 1]"

lemma counted_at_zero: "counted_at sa (\<lambda>l. 0) = replicate (max_level sa + 1) 0"
  by (simp add: counted_at_def map_replicate_trivial flip: replicate_append_same)

lemma rd_counted_at: "l \<le> max_level sa \<Longrightarrow> rd (counted_at sa f) l = Some (f l mod 2 ^ 64)"
  by (simp add: rd_def counted_at_def del: upt_Suc)

lemma bump_counted_at:
  assumes "l \<le> max_level sa"
  shows "bump (counted_at sa f) l = Some (counted_at sa (f(l := Suc (f l))))"
proof -
  have "(counted_at sa f)[l := Suc (f l) mod 2 ^ 64] = counted_at sa (f(l := Suc (f l)))"
    using assms by (intro nth_equalityI) (auto simp: counted_at_def nth_list_update simp del: upt_Suc)
  moreover have "(f l mod 2 ^ 64 + 1) mod 2 ^ 64 = Suc (f l) mod 2 ^ 64" by (simp add: mod_simps)
  ultimately show ?thesis using assms rd_counted_at [OF assms, of f]
    by (simp add: bump_def wr_def) (simp add: counted_at_def)
qed

text \<open>Two nodes of the chain: the last key of the one comes before the first of the other.\<close>

lemma node_order:
  assumes w: "wf sa (us @ b # ms @ a # vs) its" and h: "heap sa b = Some n" "heap sa a = Some n'"
  shows "0 < count n" "0 < count n'" "\<exists>l f. last_key n = Some l \<and> first_key n' = Some f \<and> call_cmp sa l f < 0"
proof -
  let ?ns = "us @ b # ms @ a # vs"
  have t: "tl ?ns \<noteq> []" by (cases us) simp_all
  have f: "full sa ?ns" using wf_nonempty [OF w t] wfD [OF w] by (simp add: full_def)
  obtain m where m: "heap sa b = Some m" "node_ok (node_size sa) (use_values sa) m" "0 < count m"
    "map fst (pairs_at (heap sa) b) = node_keys m" "last_key m = Some (last (node_keys m))" "node_keys m \<noteq> []"
    using full_node [OF f, of b] by auto
  obtain m' where m': "heap sa a = Some m'" "node_ok (node_size sa) (use_values sa) m'" "0 < count m'"
    "map fst (pairs_at (heap sa) a) = node_keys m'" "node_keys m' \<noteq> []"
    using full_node [OF f, of a] by auto
  show "0 < count n" "0 < count n'" using m m' h by simp_all
  have "\<forall>k \<in> set (map fst (pairs_at (heap sa) b)). above (call_cmp sa) k (map fst (pairs_at (heap sa) a))"
    using wfD(3) [OF w] by (simp add: ordered_def ascending_append del: set_map)
  then have "call_cmp sa (last (node_keys m)) (hd (node_keys m')) < 0" unfolding m(4) m'(4) using m(6) m'(5) by (simp add: above_def)
  with m m' h first_key_ok [OF m'(2,3)] show "\<exists>l f. last_key n = Some l \<and> first_key n' = Some f \<and> call_cmp sa l f < 0" by simp
qed

lemma wf_node:
  assumes "wf sa ns its" "a \<in> set ns"
  obtains n where "heap sa a = Some n" "node_ok (node_size sa) (use_values sa) n" "height n \<le> max_level sa" "ht (heap sa) a = height n"
  using shape_node [OF wfD(2) [OF assms(1)] assms(2)] by (auto simp: at_Some)

lemma check_heads_ok:
  assumes w: "wf sa (us @ a # vs) its" and n: "heap sa a = Some n" "height n \<le> max_level sa"
    and c: "\<forall>b \<in> set us. ht (heap sa) b \<le> checked"
  shows "check_heads sa checked a n = Some True"
  unfolding check_heads_def
proof (rule every_True)
  fix i assume i: "i \<in> set [checked + 1..<height n]"
  then have l: "i < max_level sa" "i < length (nodes sa)" using n(2) cfg_okD(7) [OF wfD(1) [OF w]] by auto
  have "nxt (heap sa) i us = None" using c i by (force simp: nxt_None)
  then have "nodes sa ! i = Some a"
    using linked_headD [OF shape_linked [OF wfD(2) [OF w] l(1)]] n(1) i by (simp add: nxt_append at_Some)
  with l(2) show "(do { p \<leftarrow> rd (nodes sa) i; Some (p = Some a) }) = Some True" by simp
qed

lemma check_back_ok:
  assumes w: "wf sa (us @ a # vs) its" and n: "heap sa a = Some n"
  shows "check_back sa (last_opt us) n = Some True"
proof -
  have "distinct (us @ a # vs)" using wfD(2) [OF w] by (simp add: shape_def)
  then have "prev_of a (us @ a # vs) = last_opt us" by (intro prev_of_split) simp
  then have b: "back_p n = last_opt us" using wfD(2) [OF w] n by (auto simp: shape_def at_Some)
  show ?thesis
  proof (cases us rule: rev_cases)
    case Nil
    with b show ?thesis by (simp add: check_back_def)
  next
    case (snoc us' p)
    have w': "wf sa (us' @ p # [] @ a # vs) its" using w snoc by simp
    obtain m where m: "heap sa p = Some m" using wf_node [OF w, of p] snoc by auto
    from node_order [OF w' m n] obtain l f where "last_key m = Some l" "first_key n = Some f" "call_cmp sa l f < 0" by blast
    with b m snoc show ?thesis by (simp add: check_back_def)
  qed
qed

lemma check_fill_ok:
  assumes w: "wf sa (us @ a # vs) its" and n: "heap sa a = Some n"
  shows "check_fill sa a n (case vs of [] \<Rightarrow> None | b # _ \<Rightarrow> Some b) = Some True"
proof (cases vs)
  case Nil
  note c = cfg_okD [OF wfD(1) [OF w]]
  have r: "rd (nodes sa) 0 = Some (Some (hd (us @ a # vs)))" using shape_head0 [OF wfD(2) [OF w] c(3)] c(3,7) by simp
  show ?thesis
  proof (cases us rule: rev_cases)
    case us: Nil
    with r Nil show ?thesis by (simp add: check_fill_def)
  next
    case (snoc us' p)
    have w': "wf sa (us' @ p # [] @ a # vs) its" using w snoc by simp
    obtain m where m: "heap sa p = Some m" using wf_node [OF w, of p] snoc by auto
    from node_order(2) [OF w' m n] r Nil show ?thesis by (simp add: check_fill_def)
  qed
next
  case (Cons b ws)
  have "a \<in> set (butlast (us @ a # vs))" using Cons by (simp add: butlast_append)
  then have "node_size sa div 2 \<le> length (pairs_at (heap sa) a)" using wfD(4) [OF w] by (simp add: occupied_def)
  moreover obtain m where m: "heap sa a = Some m" "node_ok (node_size sa) (use_values sa) m" using wf_node [OF w, of a] by auto
  ultimately show ?thesis using pairs_at_ok(1) [OF m] n m(1) Cons by (auto simp: check_fill_def)
qed

lemma check_keys_ok:
  assumes w: "wf sa ns its" and a: "a \<in> set ns" "heap sa a = Some n" "node_ok (node_size sa) (use_values sa) n"
  shows "check_keys sa n = Some True"
  unfolding check_keys_def
proof (rule every_True)
  fix i assume i: "i \<in> set [1..<count n]"
  obtain us vs where "ns = us @ a # vs" using split_list [OF a(1)] by blast
  then have "ascending (call_cmp sa) (node_keys n)"
    using wfD(3) [OF w] pairs_at_ok(2) [OF a(2,3)] by (simp add: ordered_def ascending_append)
  then have lt: "call_cmp sa (node_keys n ! (i - 1)) (node_keys n ! i) < 0"
    using i length_node_keys [OF a(3)] by (simp add: ascending_def sorted_wrt_iff_nth_less)
  have k: "node_keys n ! (i - 1) = keys n ! (offset n + i - 1)" "node_keys n ! i = keys n ! (offset n + i)"
    using i nth_node_keys [OF a(3), of "i - 1"] nth_node_keys [OF a(3), of i] by auto
  have "offset n + i < length (keys n)" "offset n + i - 1 < length (keys n)" using i node_okD(1,3) [OF a(3)] by auto
  with lt k show "(do { k \<leftarrow> rd (keys n) (offset n + i - 1); k' \<leftarrow> rd (keys n) (offset n + i); Some (call_cmp sa k k' < 0) }) = Some True"
    by simp
qed

lemma exactly_snoc: "exactly sa (us @ [a]) = (if 0 < ht (heap sa) a then (exactly sa us)(ht (heap sa) a - 1 := Suc (exactly sa us (ht (heap sa) a - 1))) else exactly sa us)"
  by (auto simp: exactly_def fun_eq_iff)

definition first_only :: "nat \<Rightarrow> nat \<Rightarrow> nat" where
  "first_only k = (\<lambda>l. 0)(0 := k)"

lemma node_step_ok:
  assumes w: "wf sa (us @ a # vs) its" and c: "\<forall>b \<in> set us. ht (heap sa) b \<le> checked"
  shows "\<exists>checked'. node_step sa (Some a, last_opt us, checked, m mod 2 ^ 64, counted_at sa (exactly sa us), counted_at sa (first_only k)) =
      Some (Inl (case vs of [] \<Rightarrow> None | b # _ \<Rightarrow> Some b, last_opt (us @ [a]), checked',
        (m + length (pairs_at (heap sa) a)) mod 2 ^ 64, counted_at sa (exactly sa (us @ [a])), counted_at sa (first_only (Suc k)))) \<and>
    (\<forall>b \<in> set (us @ [a]). ht (heap sa) b \<le> checked')"
proof -
  obtain n where n: "heap sa a = Some n" "node_ok (node_size sa) (use_values sa) n" "height n \<le> max_level sa" "ht (heap sa) a = height n"
    using wf_node [OF w, of a] by auto
  have d: "a \<notin> set us" "set vs \<subseteq> set (us @ a # vs)" using wfD(2) [OF w] by (auto simp: shape_def)
  have nx: "rd (fwd n) 0 = Some (case vs of [] \<Rightarrow> None | b # _ \<Rightarrow> Some b)"
    using get_fwd_shape [OF wfD(2) [OF w], of a 0] nxt0 [OF wfD(2) [OF w] d(2)] d(1) n node_okD(5) [OF n(2)]
    by (simp add: get_fwd_def chain)
  have heads: "(if checked < height n then check_heads sa checked a n else Some True) = Some True"
    using check_heads_ok [OF w n(1,3) c] by simp
  have b: "bump (counted_at sa (exactly sa us)) (height n - 1) = Some (counted_at sa (exactly sa (us @ [a])))"
    "bump (counted_at sa (first_only k)) 0 = Some (counted_at sa (first_only (Suc k)))"
    using n(3,4) node_okD(5) [OF n(2)] by (simp_all add: bump_counted_at exactly_snoc first_only_def)
  have l: "(m mod 2 ^ 64 + count n) mod 2 ^ 64 = (m + length (pairs_at (heap sa) a)) mod 2 ^ 64"
    using pairs_at_ok(1) [OF n(1,2)] by (simp add: mod_simps)
  have ck: "check_keys sa n = Some True" using check_keys_ok [OF w _ n(1,2)] by simp
  have "node_step sa (Some a, last_opt us, checked, m mod 2 ^ 64, counted_at sa (exactly sa us), counted_at sa (first_only k)) =
      Some (Inl (case vs of [] \<Rightarrow> None | b # _ \<Rightarrow> Some b, Some a, max checked (height n),
        (m + length (pairs_at (heap sa) a)) mod 2 ^ 64, counted_at sa (exactly sa (us @ [a])), counted_at sa (first_only (Suc k))))"
    unfolding node_step_def prod.case option.case n(1) nx heads Let_def l bind.bind_lunit b
      check_back_ok [OF w n(1)] check_fill_ok [OF w n(1)] ck
    using n(3) node_okD(3,4,5) [OF n(2)] by simp
  then show ?thesis using c n(4) by (intro exI [of _ "max checked (height n)"]) auto
qed

lemma node_loop:
  assumes "wf sa (us @ vs) its" "\<forall>b \<in> set us. ht (heap sa) b \<le> checked"
  shows "loop_c (node_step sa) (case vs of [] \<Rightarrow> None | b # _ \<Rightarrow> Some b, last_opt us, checked, m mod 2 ^ 64,
      counted_at sa (exactly sa us), counted_at sa (first_only (length us))) =
    Some (Some ((m + length (pairs_of (heap sa) vs)) mod 2 ^ 64, counted_at sa (exactly sa (us @ vs)),
      counted_at sa (first_only (length (us @ vs)))))"
  using assms
proof (induction vs arbitrary: us checked m)
  case Nil
  show ?case by (subst loop_c_Inr) (simp_all add: node_step_def)
next
  case (Cons a vs)
  obtain checked' where s: "node_step sa (Some a, last_opt us, checked, m mod 2 ^ 64, counted_at sa (exactly sa us),
        counted_at sa (first_only (length us))) =
      Some (Inl (case vs of [] \<Rightarrow> None | b # _ \<Rightarrow> Some b, last_opt (us @ [a]), checked',
        (m + length (pairs_at (heap sa) a)) mod 2 ^ 64, counted_at sa (exactly sa (us @ [a])), counted_at sa (first_only (Suc (length us)))))"
    "\<forall>b \<in> set (us @ [a]). ht (heap sa) b \<le> checked'" using node_step_ok [OF Cons.prems] by blast
  have "wf sa ((us @ [a]) @ vs) its" using Cons.prems(1) by simp
  note IH = Cons.IH [OF this s(2), of "m + length (pairs_at (heap sa) a)"]
  show ?case unfolding list.case by (subst loop_c_Inl, rule s(1)) (use IH in \<open>simp add: add.assoc\<close>)
qed

section \<open>Levels\<close>

lemma after_split: "a \<notin> set us \<Longrightarrow> after a (us @ a # vs) = vs"
  by (simp add: chain)

lemma level_step_ok:
  assumes w: "wf sa (us @ a # vs) its" and l: "li < max_level sa" "li < ht (heap sa) a"
  shows "level_step sa li (Some a, counted_at sa f) = Some (Inl (nxt (heap sa) li vs, counted_at sa (f(li := Suc (f li)))))"
proof -
  obtain n where n: "heap sa a = Some n" "node_ok (node_size sa) (use_values sa) n" using wf_node [OF w, of a] by auto
  have d: "a \<notin> set us" "a \<notin> set vs" using wfD(2) [OF w] by (auto simp: shape_def)
  have nx: "rd (fwd n) li = Some (nxt (heap sa) li vs)"
    using get_fwd_shape [OF wfD(2) [OF w], of a li] l(2) n(1) after_split [OF d(1)] by (simp add: get_fwd_def)
  have ne: "nxt (heap sa) li vs \<noteq> Some a" using nxt_SomeD d(2) by fastforce
  have ok: "(case nxt (heap sa) li vs of
       None \<Rightarrow> Some True
     | Some b \<Rightarrow> do {
         m \<leftarrow> heap sa b;
         (if li \<le> height m then do { l \<leftarrow> last_key n; f \<leftarrow> first_key m; Some (call_cmp sa l f < 0) } else Some False)
       }) = Some True"
  proof (cases "nxt (heap sa) li vs")
    case (Some b)
    obtain ms ws where b: "vs = ms @ b # ws" using nxt_Some_split [OF Some] by blast
    have w': "wf sa (us @ a # ms @ b # ws) its" using w b by simp
    obtain m where m: "heap sa b = Some m" using wf_node [OF w, of b] b by auto
    have "li \<le> height m" using nxt_SomeD [OF Some] m by (simp add: at_Some)
    with node_order(3) [OF w' n(1) m] m Some show ?thesis by auto
  qed simp
  show ?thesis unfolding level_step_def prod.case option.case n(1) bind.bind_lunit nx ok
    using ne bump_counted_at [of li sa f] l(1) by simp
qed

lemma level_loop:
  assumes "wf sa (us @ vs) its" "li < max_level sa"
  shows "loop_c (level_step sa li) (nxt (heap sa) li vs, counted_at sa f) =
    Some (Some (counted_at sa (f(li := f li + taller sa vs li))))"
  using assms(1)
proof (induction vs arbitrary: us f)
  case Nil
  show ?case by (subst loop_c_Inr) (simp_all add: level_step_def taller_def)
next
  case (Cons a vs)
  have w: "wf sa ((us @ [a]) @ vs) its" using Cons.prems by simp
  show ?case
  proof (cases "li < ht (heap sa) a")
    case True
    have n: "nxt (heap sa) li (a # vs) = Some a" using True by simp
    show ?thesis unfolding n
      by (subst loop_c_Inl, rule level_step_ok [OF Cons.prems assms(2) True])
        (use Cons.IH [OF w, of "f(li := Suc (f li))"] True in \<open>simp add: taller_def fun_upd_same del: fun_upd_apply\<close>)
  next
    case False
    with Cons.IH [OF w, of f] show ?thesis by (simp add: taller_def)
  qed
qed

definition linked_up_to :: "skiparray \<Rightarrow> addr list \<Rightarrow> nat \<Rightarrow> nat \<Rightarrow> nat" where
  "linked_up_to sa ns k = (\<lambda>l. if l < k then taller sa ns l else 0)"

lemma check_levels_ok:
  assumes w: "wf sa ns its" and k: "1 \<le> k" "k \<le> sa_height sa"
  shows "check_levels sa [k..<sa_height sa] (counted_at sa (linked_up_to sa ns k)) =
    Some (Some (counted_at sa (linked_up_to sa ns (sa_height sa))))"
  using k
proof (induction "sa_height sa - k" arbitrary: k)
  case (Suc d)
  then have kh: "k < sa_height sa" by simp
  then have l: "k < max_level sa" using cfg_okD(6) [OF wfD(1) [OF w]] by simp
  have h: "rd (nodes sa) k = Some (nxt (heap sa) k ns)"
    using get_head_shape [OF wfD(2) [OF w] cfg_okD(7) [OF wfD(1) [OF w]] l] by (simp add: get_head_def)
  have u: "(linked_up_to sa ns k)(k := linked_up_to sa ns k k + taller sa ns k) = linked_up_to sa ns (Suc k)"
    by (auto simp: linked_up_to_def fun_eq_iff)
  have r: "loop_c (level_step sa k) (nxt (heap sa) k ns, counted_at sa (linked_up_to sa ns k)) =
      Some (Some (counted_at sa (linked_up_to sa ns (Suc k))))"
    using level_loop [of sa "[]" ns its k "linked_up_to sa ns k"] w l unfolding u by simp
  have "[k..<sa_height sa] = k # [Suc k..<sa_height sa]" using kh by (rule upt_conv_Cons)
  with Suc.hyps(1) [of "Suc k"] Suc.hyps(2) Suc.prems kh h r show ?case by simp
qed simp

section \<open>Counts\<close>

lemma wf_height:
  assumes w: "wf sa ns its" and a: "a \<in> set ns"
  shows "ht (heap sa) a \<le> sa_height sa"
proof (rule ccontr)
  let ?h = "sa_height sa"
  assume c: "\<not> ht (heap sa) a \<le> ?h"
  then have l: "?h < max_level sa" using shape_ht(2) [OF wfD(2) [OF w] a] by simp
  have "nodes sa ! ?h = nxt (heap sa) ?h ns" using linked_headD [OF shape_linked [OF wfD(2) [OF w] l]] .
  moreover have "nodes sa ! ?h = None" using wfD(2) [OF w] l by (auto simp: shape_def)
  ultimately have "nxt (heap sa) ?h ns = None" by simp
  then show False using a c by (auto simp: nxt_None)
qed

lemma sum_exactly:
  "a \<le> b \<Longrightarrow> sum_list (map (exactly sa ns) [a..<b]) = length (filter (\<lambda>x. a < ht (heap sa) x \<and> ht (heap sa) x \<le> b) ns)"
proof (induction b rule: dec_induct)
  case base
  then show ?case by (simp add: not_le)
next
  case (step b)
  have "length (filter (\<lambda>x. a < ht (heap sa) x \<and> ht (heap sa) x \<le> Suc b) ns) =
      length (filter (\<lambda>x. a < ht (heap sa) x \<and> ht (heap sa) x \<le> b) ns) + exactly sa ns b"
    using step(1) by (induction ns) (auto simp: exactly_def)
  with step show ?case by simp
qed

lemma sum_counts:
  assumes "\<forall>i \<in> set is. i \<le> max_level sa"
  shows "for_c (\<lambda>i s. do { c \<leftarrow> rd (counted_at sa f) i; Some ((s + c) mod 2 ^ 64) }) is (s mod 2 ^ 64) =
    Some ((s + sum_list (map f is)) mod 2 ^ 64)"
  using assms
proof (induction "is" arbitrary: s)
  case (Cons i "is")
  have "(s mod 2 ^ 64 + f i mod 2 ^ 64) mod 2 ^ 64 = (s + f i) mod 2 ^ 64" by (simp add: mod_simps)
  with Cons.IH [of "s + f i"] Cons.prems rd_counted_at [of i sa f] show ?case by (simp add: add.assoc)
qed simp

lemma taller_le: "taller sa ns l \<le> length ns"
  by (simp add: taller_def)

lemma taller_anti: "taller sa ns (Suc l) \<le> taller sa ns l"
  by (induction ns) (auto simp: taller_def)

lemma nodes_le_pairs:
  assumes "wf sa ns its"
  shows "length ns \<le> Suc (length (pairs_of (heap sa) ns))"
proof (cases "tl ns = []")
  case True
  then show ?thesis by (cases ns) auto
next
  case False
  have "length ms \<le> length (pairs_of (heap sa) ms)" if "set ms \<subseteq> set ns" for ms
    using that
  proof (induction ms)
    case (Cons a ms)
    then have "pairs_at (heap sa) a \<noteq> []" using wf_nonempty [OF assms False] by (simp add: nonempty_nodes_def)
    then have "1 \<le> length (pairs_at (heap sa) a)" by (simp add: Suc_le_eq)
    with Cons show ?case by simp
  qed simp
  from this [of ns] show ?thesis by simp
qed

lemma check_counts_ok:
  assumes w: "wf sa ns its" and l: "length (pairs_of (heap sa) ns) < 2 ^ 64 - 1"
  shows "check_counts sa (counted_at sa (exactly sa ns)) (counted_at sa (linked_up_to sa ns (sa_height sa))) = Some True"
proof -
  have ml: "sa_height sa \<le> max_level sa" using cfg_okD(6) [OF wfD(1) [OF w]] .
  have small: "taller sa ns k mod 2 ^ 64 = taller sa ns k" for k
    using taller_le [of sa ns k] nodes_le_pairs [OF w] l by simp
  have top: "taller sa ns (sa_height sa) = 0" using wf_height [OF w] by (simp add: taller_def not_less)
  have r: "rd (counted_at sa (linked_up_to sa ns (sa_height sa))) k = Some (taller sa ns k)" if "k \<le> sa_height sa" for k
    using that ml small top by (cases "k = sa_height sa") (simp_all add: rd_counted_at linked_up_to_def)
  have s: "for_c (\<lambda>i s. do { c \<leftarrow> rd (counted_at sa (exactly sa ns)) i; Some ((s + c) mod 2 ^ 64) }) [li..<Suc (sa_height sa)] 0 =
      Some (taller sa ns li)" if "li < sa_height sa" for li
  proof -
    have "filter (\<lambda>x. li < ht (heap sa) x \<and> ht (heap sa) x \<le> Suc (sa_height sa)) ns = filter (\<lambda>x. li < ht (heap sa) x) ns"
      using wf_height [OF w] by (auto intro!: filter_cong simp: le_SucI)
    then have "sum_list (map (exactly sa ns) [li..<Suc (sa_height sa)]) = taller sa ns li"
      using that by (simp add: sum_exactly taller_def del: upt_Suc)
    with sum_counts [of "[li..<Suc (sa_height sa)]" sa "exactly sa ns" 0] ml small [of li] show ?thesis by (simp del: upt_Suc)
  qed
  have "every (\<lambda>li. do {
         level_gte \<leftarrow> for_c (\<lambda>i s. do { c \<leftarrow> rd (counted_at sa (exactly sa ns)) i; Some ((s + c) mod 2 ^ 64) }) [li..<Suc (sa_height sa)] 0;
         l \<leftarrow> rd (counted_at sa (linked_up_to sa ns (sa_height sa))) li;
         Some (l = level_gte)
       }) [1..<sa_height sa] = Some True"
    by (rule every_True) (use r s in \<open>simp del: upt_Suc\<close>)
  moreover have "every (\<lambda>li. do { l \<leftarrow> rd (counted_at sa (linked_up_to sa ns (sa_height sa))) (li - 1);
         l' \<leftarrow> rd (counted_at sa (linked_up_to sa ns (sa_height sa))) li; Some (l' \<le> l) }) [1..<Suc (sa_height sa)] = Some True"
  proof (rule every_True)
    fix li assume "li \<in> set [1..<Suc (sa_height sa)]"
    then have "1 \<le> li \<and> li < Suc (sa_height sa)" by (simp only: set_upt atLeastLessThan_iff)
    then obtain k where k: "li = Suc k" "Suc k \<le> sa_height sa" by (cases li) (simp_all del: upt_Suc)
    with r [of k] r [of "Suc k"] taller_anti [of sa ns k]
    show "(do { l \<leftarrow> rd (counted_at sa (linked_up_to sa ns (sa_height sa))) (li - 1);
         l' \<leftarrow> rd (counted_at sa (linked_up_to sa ns (sa_height sa))) li; Some (l' \<le> l) }) = Some True" by simp
  qed
  ultimately show ?thesis unfolding check_counts_def by simp
qed

section \<open>Iteration\<close>

lemma pairs_ascend:
  assumes "iter_view sa ps its F pos" "call_cmp sa = cmp_intptr_t" "Suc k < length ps"
  shows "cmp_intptr_t (fst (ps ! k)) (fst (ps ! Suc k)) < 0"
  using represents_ascending(1) [OF iter_view_represents [OF assms(1)]] assms(2,3)
  by (simp add: ascending_def sorted_wrt_iff_nth_less)

lemma forward_loop:
  assumes "iter_view sa ps its F pos" "i \<in> set its" "pos i < length ps" "call_cmp sa = cmp_intptr_t" "length ps < 2 ^ 64 - 1"
    and "0 < pos i \<Longrightarrow> pk = fst (ps ! (pos i - 1))"
  shows "\<exists>sa' pk' pos'. loop_c (forward_step i) (sa, pk, pos i) = Some (Some (sa', pk', length ps)) \<and>
    iter_view sa' ps its F pos' \<and> (\<forall>j. j \<noteq> i \<longrightarrow> pos' j = pos j) \<and> same_but_iters sa sa'"
  using assms
proof (induction "length ps - pos i" arbitrary: sa pos pk)
  case (Suc d)
  obtain sa' where s: "skiparray_iter_get sa i = Some (out_of sa (ps ! pos i))"
    "skiparray_iter_next sa i = Some (if Suc (pos i) = length ps then SKIPARRAY_ITER_STEP_END else SKIPARRAY_ITER_STEP_OK, sa')"
    "iter_view sa' ps its F (pos(i := Suc (pos i)))" "same_but_iters sa sa'"
    using iterate [OF Suc.prems(1,2,3)] by blast
  have c: "(pos i + 1) mod 2 ^ 64 = Suc (pos i)" using Suc.prems(3,5) by simp
  have o: "1 < Suc (pos i) \<longrightarrow> cmp_intptr_t pk (fst (ps ! pos i)) < 0"
    using pairs_ascend [OF Suc.prems(1,4), of "pos i - 1"] Suc.prems(3,6) by (cases "pos i") auto
  show ?case
  proof (cases "Suc (pos i) = length ps")
    case True
    then have st: "forward_step i (sa, pk, pos i) = Some (Inr (Some (sa', pk, length ps)))"
      using s(1,2) c o by (simp add: forward_step_def out_of_def)
    have "loop_c (forward_step i) (sa, pk, pos i) = Some (Some (sa', pk, length ps))" by (rule loop_c_Inr, rule st)
    with s(3,4) show ?thesis by (intro exI [of _ sa'] exI [of _ pk] exI [of _ "pos(i := Suc (pos i))"]) simp
  next
    case False
    let ?pos = "pos(i := Suc (pos i))" and ?k = "fst (ps ! pos i)"
    have st: "forward_step i (sa, pk, pos i) = Some (Inl (sa', ?k, ?pos i))"
      using s(1,2) c o False by (simp add: forward_step_def out_of_def)
    have p: "d = length ps - ?pos i" "?pos i < length ps" "call_cmp sa' = cmp_intptr_t" "0 < ?pos i \<Longrightarrow> ?k = fst (ps ! (?pos i - 1))"
      using Suc.hyps(2) Suc.prems(3,4) False same_but_itersD(8) [OF s(4)] by auto
    obtain sb pk' pos' where r: "loop_c (forward_step i) (sa', ?k, ?pos i) = Some (Some (sb, pk', length ps))" "iter_view sb ps its F pos'"
      "\<forall>j. j \<noteq> i \<longrightarrow> pos' j = ?pos j" "same_but_iters sa' sb"
      using Suc.hyps(1) [OF p(1) s(3) Suc.prems(2) p(2,3) Suc.prems(5) p(4)] by blast
    have "loop_c (forward_step i) (sa, pk, pos i) = Some (Some (sb, pk', length ps))"
      by (subst loop_c_Inl, rule st) (rule r(1))
    with r(2,3) same_but_iters_trans [OF s(4) r(4)] show ?thesis by (intro exI [of _ sb] exI [of _ pk'] exI [of _ pos']) simp
  qed
qed simp

lemma backward_loop:
  assumes "iter_view sa ps its F pos" "i \<in> set its" "pos i < length ps" "call_cmp sa = cmp_intptr_t" "length ps < 2 ^ 64 - 1"
    and "Suc (pos i) < length ps \<Longrightarrow> pk = fst (ps ! Suc (pos i))"
  shows "\<exists>sa' pk' pos'. loop_c (backward_step i) (sa, pk, length ps - Suc (pos i)) = Some (Some (sa', pk', length ps)) \<and>
    iter_view sa' ps its F pos' \<and> (\<forall>j. j \<noteq> i \<longrightarrow> pos' j = pos j) \<and> same_but_iters sa sa'"
  using assms
proof (induction "pos i" arbitrary: sa pos pk)
  case 0
  have g: "skiparray_iter_get sa i = Some (out_of sa (ps ! 0))" using iter_get_correct [OF "0.prems"(1,2)] "0.hyps" "0.prems"(3) by simp
  obtain sa' where s: "skiparray_iter_prev sa i = Some (SKIPARRAY_ITER_STEP_END, sa')" "iter_view sa' ps its F (pos(i := 0))"
    using iter_prev_correct [OF "0.prems"(1,2)] "0.hyps" by auto
  have c: "(length ps - Suc 0 + 1) mod 2 ^ 64 = length ps" using "0.prems"(3,5) by simp
  have o: "1 < length ps \<longrightarrow> 0 < cmp_intptr_t pk (fst (ps ! 0))"
    using pairs_ascend [OF "0.prems"(1,4), of 0] "0.prems"(6) "0.hyps" intptr.cmp_swap by auto
  have st: "backward_step i (sa, pk, length ps - Suc (pos i)) = Some (Inr (Some (sa', pk, length ps)))"
    using g s(1) c o "0.hyps" "0.prems"(3) by (simp add: backward_step_def out_of_def)
  have "loop_c (backward_step i) (sa, pk, length ps - Suc (pos i)) = Some (Some (sa', pk, length ps))" by (rule loop_c_Inr, rule st)
  with s(2) iter_moves_same(3) [OF s(1)] show ?case
    by (intro exI [of _ sa'] exI [of _ pk] exI [of _ "pos(i := 0)"] conjI allI impI) (assumption | simp)+
next
  case (Suc k)
  let ?pos = "pos(i := k)" and ?k = "fst (ps ! pos i)"
  have g: "skiparray_iter_get sa i = Some (out_of sa (ps ! pos i))" using iter_get_correct [OF Suc.prems(1,2)] Suc.prems(3) by simp
  have z: "pos i = Suc k" using Suc.hyps(2) by simp
  obtain sa' where s: "skiparray_iter_prev sa i = Some (SKIPARRAY_ITER_STEP_OK, sa')" "iter_view sa' ps its F ?pos"
    using iter_prev_correct [OF Suc.prems(1,2)] z by auto
  note e = iter_moves_same(3) [OF s(1)]
  have c: "(length ps - Suc (pos i) + 1) mod 2 ^ 64 = length ps - Suc (?pos i)" using Suc.prems(3,5) z by simp
  have o: "1 < length ps - Suc (?pos i) \<longrightarrow> 0 < cmp_intptr_t pk (fst (ps ! pos i))"
    using pairs_ascend [OF Suc.prems(1,4), of "pos i"] Suc.prems(6) z intptr.cmp_swap by auto
  have st: "backward_step i (sa, pk, length ps - Suc (pos i)) = Some (Inl (sa', ?k, length ps - Suc (?pos i)))"
    using g s(1) c o by (simp add: backward_step_def out_of_def)
  have p: "k = ?pos i" "?pos i < length ps" "call_cmp sa' = cmp_intptr_t" "Suc (?pos i) < length ps \<Longrightarrow> ?k = fst (ps ! Suc (?pos i))"
    using Suc.prems(3,4) z same_but_itersD(8) [OF e] by auto
  obtain sb pk' pos' where r: "loop_c (backward_step i) (sa', ?k, length ps - Suc (?pos i)) = Some (Some (sb, pk', length ps))"
    "iter_view sb ps its F pos'" "\<forall>j. j \<noteq> i \<longrightarrow> pos' j = ?pos j" "same_but_iters sa' sb"
    using Suc.hyps(1) [OF p(1) s(2) Suc.prems(2) p(2,3) Suc.prems(5) p(4)] by blast
  have "loop_c (backward_step i) (sa, pk, length ps - Suc (pos i)) = Some (Some (sb, pk', length ps))"
    by (subst loop_c_Inl, rule st) (rule r(1))
  with r(2,3) same_but_iters_trans [OF e r(4)] show ?case by (intro exI [of _ sb] exI [of _ pk'] exI [of _ pos']) simp
qed

lemma check_iteration_ok:
  assumes v: "iter_view sa ps its F pos" and c: "call_cmp sa = cmp_intptr_t" and r: "\<not> may_refuse sa" and l: "length ps < 2 ^ 64 - 1"
  shows "\<exists>sa'. check_iteration sa (length ps) = Some (Some sa') \<and> same_but_iters sa sa' \<and> iter_view sa' ps its F pos"
proof (cases "ps = []")
  case True
  then have "skiparray_iter_new sa = Some (SKIPARRAY_ITER_NEW_EMPTY, None, sa)" using iter_new_correct [OF v] by auto
  with v True show ?thesis by (simp add: check_iteration_def)
next
  case False
  obtain i sa1 where n: "skiparray_iter_new sa = Some (SKIPARRAY_ITER_NEW_OK, Some i, sa1)" "i \<notin> set its"
    "iter_view sa1 ps (i # its) F (pos(i := 0))" using iter_new_correct [OF v] iter_new_refused [of sa] r False by auto
  note s1 = iter_new_same [OF n(1)]
  let ?its = "i # its" and ?p = "pos(i := 0)"
  have i: "i \<in> set ?its" by simp
  obtain sa2 where e: "skiparray_iter_seek_endpoint sa1 i SKIPARRAY_ITER_SEEK_FIRST = Some sa2" "iter_view sa2 ps ?its F ?p"
    using iter_seek_endpoint_correct [OF n(3) i, of SKIPARRAY_ITER_SEEK_FIRST] by auto
  note s2 = same_but_iters_trans [OF s1 iter_moves_same(1) [OF e(1)]]
  have c2: "call_cmp sa2 = cmp_intptr_t" using c same_but_itersD(8) [OF s2] by simp
  obtain sa3 pk pos3 where f: "loop_c (forward_step i) (sa2, 0, 0) = Some (Some (sa3, pk, length ps))" "iter_view sa3 ps ?its F pos3"
    "\<forall>j. j \<noteq> i \<longrightarrow> pos3 j = ?p j" "same_but_iters sa2 sa3"
    using forward_loop [OF e(2) i _ c2 l, of 0] False by auto
  note s3 = same_but_iters_trans [OF s2 f(4)]
  obtain sa4 where g: "skiparray_iter_seek_endpoint sa3 i SKIPARRAY_ITER_SEEK_LAST = Some sa4" "iter_view sa4 ps ?its F (pos3(i := length ps - 1))"
    using iter_seek_endpoint_correct [OF f(2) i, of SKIPARRAY_ITER_SEEK_LAST] by auto
  note s4 = same_but_iters_trans [OF s3 iter_moves_same(1) [OF g(1)]]
  have c4: "call_cmp sa4 = cmp_intptr_t" using c same_but_itersD(8) [OF s4] by simp
  obtain sa5 pk' pos5 where b: "loop_c (backward_step i) (sa4, pk, 0) = Some (Some (sa5, pk', length ps))" "iter_view sa5 ps ?its F pos5"
    "\<forall>j. j \<noteq> i \<longrightarrow> pos5 j = (pos3(i := length ps - 1)) j" "same_but_iters sa4 sa5"
    using backward_loop [OF g(2) i _ c4 l, of pk] False by auto
  note s5 = same_but_iters_trans [OF s4 b(4)]
  obtain sa6 where h: "skiparray_iter_free sa5 (Some i) = Some sa6" "iter_view sa6 ps its F pos5"
    using iter_free_correct [OF b(2) i] by auto
  note s6 = same_but_iters_trans [OF s5 iter_free_same [OF h(1)]]
  have "iter_view sa6 ps its F pos" using b(3) f(3) n(2) by (intro iter_view_cong [OF h(2)]) auto
  with s6 n(1) e(1) f(1) g(1) b(1) h(1) False show ?thesis by (simp add: check_iteration_def)
qed

section \<open>The whole check\<close>

lemma self_check_passes:
  assumes v: "iter_view sa ps its F pos" and c: "call_cmp sa = cmp_intptr_t" and r: "\<not> may_refuse sa" and l: "length ps < 2 ^ 64 - 1"
  shows "\<exists>sa'. test_skiparray_invariants sa = Some (Some sa') \<and> same_but_iters sa sa' \<and> iter_view sa' ps its F pos"
proof -
  obtain ns where w: "wf sa ns its" and ps: "pairs_of (heap sa) ns = ps" using v by (rule iter_viewE)
  have w0: "wf sa ([] @ ns) its" using w by simp
  note cfg = cfg_okD [OF wfD(1) [OF w]]
  obtain a as where ns: "ns = a # as" using wfD(2) [OF w] by (cases ns) (auto simp: shape_def)
  have hd: "rd (nodes sa) 0 = Some (Some a)" using head0 [OF w] ns by (simp add: get_head_def)
  have z: "exactly sa [] = (\<lambda>l. 0)" "first_only 0 = (\<lambda>l. 0)" by (simp_all add: exactly_def first_only_def fun_eq_iff)
  have m: "length ps mod 2 ^ 64 = length ps" using l by simp
  have n: "loop_c (node_step sa) (Some a, None, 0, 0, replicate (max_level sa + 1) 0, replicate (max_level sa + 1) 0) =
      Some (Some (length ps, counted_at sa (exactly sa ns), counted_at sa (first_only (length ns))))"
    using node_loop [OF w0, of 0 0] ns m z unfolding ps by (simp add: counted_at_zero)
  have "taller sa ns 0 = length ns" using shape_ht(1) [OF wfD(2) [OF w]] by (auto simp: taller_def filter_id_conv Suc_le_eq)
  then have f: "first_only (length ns) = linked_up_to sa ns 1" by (auto simp: first_only_def linked_up_to_def fun_eq_iff)
  have lv: "check_levels sa [1..<sa_height sa] (counted_at sa (first_only (length ns))) =
      Some (Some (counted_at sa (linked_up_to sa ns (sa_height sa))))" unfolding f using check_levels_ok [OF w] cfg(5) by simp
  have cc: "check_counts sa (counted_at sa (exactly sa ns)) (counted_at sa (linked_up_to sa ns (sa_height sa))) = Some True"
    using check_counts_ok [OF w] ps l by simp
  have ct: "skiparray_count sa = Some (length ps)" using count_correct [OF iter_view_represents [OF v]] m by simp
  show ?thesis using check_iteration_ok [OF v c r l] hd n lv cc ct
    by (simp add: test_skiparray_invariants_def Let_def del: upt_Suc replicate_Suc)
qed

section \<open>Properties\<close>

text \<open>
  C8. The test suite's own check of invariants passes on every proper skiparray with integer
  keys, and leaves it as it was. It checks that every node but the last is at least half full,
  that nodes are linked on all their levels and to the one before, the nodes linked on a level
  as many as there are nodes tall enough, that the keys ascend within and across nodes, that
  an iterator reads the keys ascending forward and descending backward, and that it reads as
  many pairs forward as are counted; how many it reads backward is not compared. It is enough
  that memory is not refused for its iterator.
\<close>

theorem self_check_spec:
  assumes "iter_view sa ps its F pos" "call_cmp sa = cmp_intptr_t" "\<not> may_refuse sa" "length ps < 2 ^ 64 - 1"
  shows "\<exists>sa'. test_skiparray_invariants sa = Some (Some sa') \<and> same_but_iters sa sa' \<and> iter_view sa' ps its F pos"
  by (rule self_check_passes [OF assms])

theorem self_check_spec_witness:
  "\<exists>sa'. test_skiparray_invariants sample = Some (Some sa') \<and> same_but_iters sample sa' \<and>
    iter_view sa' sample_pairs [] {99} (\<lambda>i. 0)"
proof -
  have v: "iter_view sample sample_pairs [] {99} (\<lambda>i. 0)" using sample_represents represents_iter_view by blast
  have r: "\<not> may_refuse sample" by (simp add: sample_def may_refuse_def malloc_refusing)
  show ?thesis by (rule self_check_spec [OF v _ r]) (simp_all add: sample_def sample_pairs_def)
qed

end
