(* ===== verification/Spec2Isabelle.thy ===== *)
theory Spec2Isabelle
  imports Bench_Run Self_Check
begin

text \<open>
  A verification of the skiparray library (\<open>src/src/\<close>, \<open>src/include/skiparray.h\<close>): an ordered map
  from keys to values in memory, a skip list whose nodes hold arrays of up to \<^verbatim>\<open>node_size\<close> pairs,
  with iterators, a builder, folds over one or several skiparrays, and a filter; and of the
  benchmark program that uses it.

  \<^bold>\<open>How the program is modelled.\<close>  A C function is a HOL function from the state to an \<open>option\<close>
  of its results and the new state.  \<open>None\<close> stands for every abnormal end: a failed assertion, a
  NULL or stale pointer, an index out of an array, a block freed that is not live, a callback that
  does not return.  Error codes are values of the enums of the header.  Structs are records; a
  pointer to a node or an iterator is an address in the maps \<open>heap\<close> and \<open>iters\<close> of its skiparray;
  \<^verbatim>\<open>uint8_t\<close> and \<^verbatim>\<open>uint16_t\<close> fields are natural numbers, reduced by \<open>u8\<close> and \<open>u16\<close> at every
  store that could wrap.  Loops are \<open>loop_c\<close> (iteration of a step, \<open>None\<close> when it does not end;
  theory Prelude) and \<open>for_c\<close> (over a list fixed beforehand).  The theorems on them are total:
  they say which result is returned, so no fuel or bound on the iterations is assumed.
  Memory is the state \<open>mstate\<close> of the \<^verbatim>\<open>memory\<close> callback: the live blocks, a count of the calls,
  and which of them are refused.  The model has one such state per skiparray.

  \<^bold>\<open>The theories\<close>, in the order of the code:
  \<^item> Prelude, Comparator, Types, Memory, Level: the C primitives, the callbacks with their
    documented contracts as locales (\<open>comparator\<close>, \<open>allocator\<close>, \<open>level_source\<close>), each interpreted on the
    code's own (\<^verbatim>\<open>cmp_intptr_t\<close> of the benchmarks, \<^verbatim>\<open>def_memory_fun\<close>, \<^verbatim>\<open>def_level_fun\<close>), and the data.
  \<^item> Bsearch, Node_Ops: what stays within the arrays of one node (\<^verbatim>\<open>skiparray_bsearch\<close>,
    \<^verbatim>\<open>shift_pairs\<close>, \<^verbatim>\<open>move_pairs\<close>, \<^verbatim>\<open>prepare_node_for_insert\<close>).
  \<^item> Chain, Invariant, Links: the heap of nodes.  \<open>wf sa ns its\<close> is the invariant: \<open>ns\<close> are the nodes
    in order, every level links those tall enough, all but the last are half full, keys ascend, and
    the live blocks are those owned.  \<open>represents sa ps its F\<close> is the abstraction: \<open>ps\<close> are the
    pairs in order, \<open>its\<close> the active iterators, \<open>F\<close> the live blocks of others.
  \<^item> Search, Lookup: \<^verbatim>\<open>search\<close> and all reading operations.
  \<^item> Split, Insert: \<^verbatim>\<open>split_node\<close>, the linking of a new node, \<^verbatim>\<open>skiparray_set_with_pair\<close>.
  \<^item> Unlink, Forget, Pop: \<^verbatim>\<open>unlink_node\<close>, \<^verbatim>\<open>shift_or_merge\<close>, \<^verbatim>\<open>skiparray_forget\<close>, \<^verbatim>\<open>skiparray_pop_first\<close> and
    \<^verbatim>\<open>skiparray_pop_last\<close>.
  \<^item> Lifecycle: \<^verbatim>\<open>skiparray_new\<close> and \<^verbatim>\<open>skiparray_free\<close>.
  \<^item> Iter, Cursor: the iterators.  \<open>iter_view\<close> extends \<open>represents\<close> by the position of every
    iterator.  The locale \<open>cursor\<close> holds a client's loop to the end, interpreted in both directions.
  \<^item> Contract: the locale \<open>ordered_map\<close>, interpreted on get, set and forget, and the states a
    client can reach by any calls but for a step forward from past the end (\<open>api_step\<close>, \<open>reachable\<close>).
  \<^item> Intmap: with keys compared by \<^verbatim>\<open>cmp_intptr_t\<close>, as a linear order, a skiparray is a finite map
    (\<open>is_map\<close>) and the operations are those of the map.
  \<^item> Builder: \<^verbatim>\<open>skiparray_builder_new\<close>, \<^verbatim>\<open>_append\<close>, \<^verbatim>\<open>_finish\<close> and \<^verbatim>\<open>_free\<close>; \<open>builder_ok\<close> is the invariant of the
    skiparray under construction and of the trail of last nodes.
  \<^item> Fold, Merge, Fold_Ids, Fold_Hands, Fold_Run: \<open>src/skiparray_fold.c\<close>.  Fold has the
    definitions; a \<open>world\<close> is the list of skiparrays of the client.  Merge is the specification on
    lists: \<open>batches\<close> gives the calls of the callbacks, in order.  Fold_Ids refines the array of
    available iterators to a sorted list, Fold_Hands follows the iterators the fold opens, and
    Fold_Run puts them together: a fold is the loop of \<open>deliver\<close> over the batches.
  \<^item> Hof: \<open>src/skiparray_hof.c\<close>, a client of the fold and of the builder.
  \<^item> Bench, Bench_Run: \<open>src/bench.c\<close>, the program that exercises all of the library.  Bench has every
    benchmark with its assertions, the counting memory callback, the options and \<^verbatim>\<open>main\<close>; Bench_Run
    shows from the specifications of the library that they all pass.
  \<^item> Self_Check: \<^verbatim>\<open>test_skiparray_invariants\<close> of the test suite, which passes wherever the invariant
    \<open>wf\<close> holds.
  \<^item> Sample: concrete skiparrays on which the hypotheses are shown to hold.

  \<^bold>\<open>What is shown.\<close>  Every operation, on every well-formed state, returns, keeps the invariant and
  every other iterator and block, and has the effect on the list of pairs that its
  specification states, errors included; an operation fails for want of memory only when the memory
  callback may refuse a request.  From a new skiparray no sequence of calls fails an assertion or
  goes wrong in memory, as long as no iterator past the end is read or stepped forward, and
  pop_last is called on at most 128 levels.  Builders, folds and the filter are functions of the lists of pairs.
  The benchmark program ends on all options within its limits, with no assertion failed and all
  memory given back.
  Where the code departs from its documentation the theorem states what it does: pop_last on
  more than 128 levels, an iterator stepped again past the end, a fold that delivers equal keys
  twice, one from the right over several skiparrays that starts with the smallest key, a
  filter that frees pairs of the original, and limits written past the end of their array.

  \<^bold>\<open>Bounds.\<close>  Heights and counts are those of the C types; \<^verbatim>\<open>skiparray_count\<close> is taken modulo \<open>2 ^ 64\<close>, a
  fold has less than 256 skiparrays (its count is a \<^verbatim>\<open>uint8_t\<close>), pop_last is correct up to 128 levels.

  \<^bold>\<open>Not modelled.\<close>  Logging and the debug dumps, which print and return nothing; the clock and
  the output of the benchmark program, and the C library's \<^verbatim>\<open>getopt\<close>, \<^verbatim>\<open>strtok\<close> and \<^verbatim>\<open>strtoul\<close>, so
  that its options are those they deliver; the tests, but for
  their check of invariants, and the test framework.  The client data passed to the callbacks (\<^verbatim>\<open>udata\<close>) is part of the callback, or, in
  folds and filters, a state passed through it; the callbacks of a fold do not reach the
  skiparrays themselves.  Callbacks are compared by address, as the code does.  The memory of a
  skiparray and that of a skiparray built from it are separate states, and the contents of
  client values behind pointers are never looked at.
\<close>

section \<open>Properties\<close>

text \<open>
  C4. From a new skiparray on any valid configuration, after any sequence of calls with any
  number of iterators, iterator calls on active iterators only, that does not step an iterator
  forward again once it is past the last pair, every further such call returns: no assertion
  fails, no NULL or stale pointer is followed, no array is exceeded, nothing is freed twice.
  pop_last is covered up to a height of 128 levels. Iterator calls are covered on active
  iterators, reading and stepping forward on one that is at a pair, not past the last. A
  client can tell that from the results: an iterator is at a pair when it is created, after a
  seek to an endpoint, a seek of a key that reports FOUND or NOT_FOUND, a step back, and a
  step forward that reports OK.
\<close>

theorem reachable_safe:
  assumes "config_ok c" "reachable c m sa"
  shows "skiparray_get_pair sa key \<noteq> None \<and> skiparray_get sa key \<noteq> None \<and> skiparray_member sa key \<noteq> None \<and>
    skiparray_count sa \<noteq> None \<and> skiparray_first sa \<noteq> None \<and> skiparray_last sa \<noteq> None \<and> skiparray_free sa \<noteq> None \<and>
    skiparray_set_with_pair sa key v rk \<noteq> None \<and> skiparray_forget sa key \<noteq> None \<and> skiparray_pop_first sa \<noteq> None \<and>
    (sa_height sa \<le> 128 \<longrightarrow> skiparray_pop_last sa \<noteq> None) \<and> skiparray_iter_new sa \<noteq> None \<and>
    (skiparray_iter_new sa = Some (SKIPARRAY_ITER_NEW_OK, Some j, sa1) \<longrightarrow> readable sa1 j) \<and>
    (i \<in> dom (iters sa) \<longrightarrow>
       skiparray_iter_free sa (Some i) \<noteq> None \<and> skiparray_iter_seek_endpoint sa i which \<noteq> None \<and>
       skiparray_iter_seek sa i key \<noteq> None \<and> skiparray_iter_prev sa i \<noteq> None \<and>
       (readable sa i \<longrightarrow> skiparray_iter_get sa i \<noteq> None) \<and> (readable sa i \<longrightarrow> skiparray_iter_next sa i \<noteq> None) \<and>
       (skiparray_iter_seek_endpoint sa i which = Some sa1 \<longrightarrow> readable sa1 i) \<and>
       (skiparray_iter_seek sa i key = Some (SKIPARRAY_ITER_SEEK_FOUND, sa1) \<longrightarrow> readable sa1 i) \<and>
       (skiparray_iter_seek sa i key = Some (SKIPARRAY_ITER_SEEK_NOT_FOUND, sa1) \<longrightarrow> readable sa1 i) \<and>
       (skiparray_iter_prev sa i = Some (tres, sa1) \<longrightarrow> readable sa1 i) \<and>
       (readable sa i \<longrightarrow> skiparray_iter_next sa i = Some (SKIPARRAY_ITER_STEP_OK, sa1) \<longrightarrow> readable sa1 i))"
proof -
  note v = reachable_in_view [OF assms]
  note facts = in_view_reads [OF v] in_view_writes [OF v] in_view_iters [OF v] in_view_new_readable [OF v]
  show ?thesis
    by (intro conjI impI) (rule facts in_view_readable [OF v, rotated]; assumption)+
qed

theorem reachable_safe_witness:
  "\<exists>sa i. reachable sample_config \<lparr>live = [], clock = 0, oom = []\<rparr> sa \<and> i \<in> dom (iters sa) \<and> readable sa i \<and>
    skiparray_get_pair sa 3 \<noteq> None \<and> skiparray_count sa \<noteq> None \<and> skiparray_last sa \<noteq> None \<and>
    skiparray_free sa \<noteq> None \<and> skiparray_set_with_pair sa 3 4 True \<noteq> None \<and> skiparray_forget sa 3 \<noteq> None \<and>
    skiparray_pop_first sa \<noteq> None \<and> skiparray_pop_last sa \<noteq> None \<and> skiparray_iter_new sa \<noteq> None \<and>
    skiparray_iter_free sa (Some i) \<noteq> None \<and> skiparray_iter_seek sa i 3 \<noteq> None \<and>
    skiparray_iter_get sa i \<noteq> None \<and> skiparray_iter_next sa i \<noteq> None \<and>
    (\<exists>tres sa'. skiparray_iter_prev sa i = Some (tres, sa') \<and> readable sa' i) \<and>
    (\<exists>sa'. skiparray_iter_seek_endpoint sa i SKIPARRAY_ITER_SEEK_LAST = Some sa' \<and> readable sa' i)"
proof -
  obtain sa i where sa: "reachable sample_config \<lparr>live = [], clock = 0, oom = []\<rparr> sa" "i \<in> dom (iters sa)" "readable sa i"
    "sa_height sa \<le> 128" using sample_reachable_iter by blast
  note safe = reachable_safe [OF sample_config_ok sa(1)]
  note safe' = safe [where key = 3 and v = 4 and rk = True and i = i and which = SKIPARRAY_ITER_SEEK_LAST]
  have "skiparray_iter_prev sa i \<noteq> None \<and> skiparray_iter_seek_endpoint sa i SKIPARRAY_ITER_SEEK_LAST \<noteq> None"
    using safe' sa(2) by blast
  then obtain tres sa1 sa2 where s: "skiparray_iter_prev sa i = Some (tres, sa1)"
    "skiparray_iter_seek_endpoint sa i SKIPARRAY_ITER_SEEK_LAST = Some sa2" by auto
  moreover have "readable sa1 i" using safe' s(1) sa(2) by blast
  moreover have "readable sa2 i" using safe' s(2) sa(2) by blast
  ultimately show ?thesis using safe' [of i sa1 tres] sa by blast
qed

text \<open>
  C5. From a new skiparray on any valid configuration, every state that a sequence of calls
  can reach which uses active iterators only, and does not step one forward again once it is
  past the last pair, is a proper skiparray: its nodes linked in order on every level, all but
  the last at least half full, its keys ascending, each active iterator at one of the pairs or
  past the last, and, besides the blocks it owns, exactly those live that were before it was
  created.
\<close>

theorem reachable_invariant:
  assumes "config_ok c" "reachable c m sa"
  shows "\<exists>ps its pos. iter_view sa ps its (set (live m)) pos \<and> ascending (call_cmp sa) (map fst ps) \<and>
    dom (iters sa) = set its"
proof -
  obtain ps its pos where v: "iter_view sa ps its (set (live m)) pos"
    using reachable_in_view [OF assms] by (auto simp: in_view_def)
  with represents_ascending(1) [OF iter_view_represents [OF v]] iter_view_doms [OF v] show ?thesis by blast
qed

theorem reachable_invariant_witness:
  "\<exists>sa ps i its pos. reachable sample_config \<lparr>live = [], clock = 0, oom = []\<rparr> sa \<and>
    iter_view sa ps its (set (live \<lparr>live = [], clock = 0, oom = []\<rparr>)) pos \<and> i \<in> set its \<and> ascending (call_cmp sa) (map fst ps)"
proof -
  obtain sa i where "reachable sample_config \<lparr>live = [], clock = 0, oom = []\<rparr> sa" "i \<in> dom (iters sa)"
    using sample_reachable_iter by blast
  with reachable_invariant [OF sample_config_ok this(1)] show ?thesis by blast
qed

text \<open>
  C6. The skiparray is a map up to the comparison callback. After a successful set, a key that
  compares equal to the one set reads the value set (NULL when values are ignored) and every
  other key reads what it read before; after a failed set every key does. After a key is
  forgotten, keys that compare equal to it are absent and every other key reads what it read
  before, and the result tells whether it was bound.
\<close>

theorem map_laws:
  assumes "represents sa ps [] F" "skiparray_set sa k v = Some (res, sa')" "skiparray_forget sa k = Some (fres, p, sb)"
  shows "skiparray_get sa' j =
      (if res \<noteq> SKIPARRAY_SET_ERROR_MEMORY \<and> call_cmp sa j k = 0
       then Some (Some (if use_values sa then v else 0)) else skiparray_get sa j) \<and>
    skiparray_get sb j = (if call_cmp sa j k = 0 then Some None else skiparray_get sa j) \<and>
    (fres = SKIPARRAY_FORGET_OK \<longleftrightarrow> skiparray_get sa k \<noteq> Some None)"
proof
  have u: "unlocked sa ps" using assms(1) by (auto simp: unlocked_def)
  have r: "res \<in> {SKIPARRAY_SET_BOUND, SKIPARRAY_SET_REPLACED, SKIPARRAY_SET_ERROR_MEMORY}"
    using set_with_pair_correct [OF assms(1), of k v True] assms(2)
    by (auto simp: skiparray_set_def set_outcome_def Let_def split: option.splits)
  show "skiparray_get sa' j = (if res \<noteq> SKIPARRAY_SET_ERROR_MEMORY \<and> call_cmp sa j k = 0
       then Some (Some (if use_values sa then v else 0)) else skiparray_get sa j)"
  proof (cases "res = SKIPARRAY_SET_ERROR_MEMORY")
    case True
    then have "stored sa k v = Some (False, sa')" using assms(2) by (simp add: stored_def)
    from sa_map.lookup_failed_store [OF u this] True show ?thesis by simp
  next
    case False
    then have "stored sa k v = Some (True, sa')" using assms(2) r by (auto simp: stored_def)
    from sa_map.lookup_store [OF u this] False show ?thesis by (simp add: value_kept_def)
  qed
  have "erased sa k = Some (fres = SKIPARRAY_FORGET_OK, sb)" using assms(3) by (simp add: erased_def)
  from sa_map.lookup_erase [OF u this]
  show "skiparray_get sb j = (if call_cmp sa j k = 0 then Some None else skiparray_get sa j) \<and>
    (fres = SKIPARRAY_FORGET_OK \<longleftrightarrow> skiparray_get sa k \<noteq> Some None)" by auto
qed

theorem map_laws_witness:
  "\<exists>res sa' fres p sb. skiparray_set sample 3 40 = Some (res, sa') \<and> skiparray_forget sample 3 = Some (fres, p, sb) \<and>
    skiparray_get sa' 3 =
      (if res \<noteq> SKIPARRAY_SET_ERROR_MEMORY \<and> call_cmp sample 3 3 = 0
       then Some (Some (if use_values sample then 40 else 0)) else skiparray_get sample 3) \<and>
    skiparray_get sb 3 = (if call_cmp sample 3 3 = 0 then Some None else skiparray_get sample 3) \<and>
    (fres = SKIPARRAY_FORGET_OK \<longleftrightarrow> skiparray_get sample 3 \<noteq> Some None)"
proof -
  obtain res sa' where s: "skiparray_set sample 3 40 = Some (res, sa')"
    using set_with_pair_correct [OF sample_represents, of 3 40 True] by (auto simp: skiparray_set_def)
  obtain fres p sb where "skiparray_forget sample 3 = Some (fres, p, sb)"
    using forget_correct [OF sample_represents, of 3] by blast
  with map_laws [OF sample_represents s this] s show ?thesis by blast
qed

end
